(* ===== verification/Raft_Prelude.thy ===== *)
theory Raft_Prelude
  imports
    Main
    "HOL-Library.Word"
    "HOL-Library.Monad_Syntax"
    "HOL-Library.AList_Mapping"
    "HOL-Library.Multiset"
begin

text \<open>
  Shared vocabulary of the development.

  \<^item> Go's \<^verbatim>\<open>uint64\<close> is \<open>u64 = 64 word\<close>: addition and subtraction wrap as they do in
    the program; \<open>unat\<close> reads a value as a natural number.
  \<^item> A Go \<^verbatim>\<open>[]byte\<close> is \<open>gobytes\<close>, \<open>None\<close> for the nil slice; a Go \<^verbatim>\<open>string\<close> is \<open>bytes\<close>.
  \<^item> A Go \<^verbatim>\<open>map[uint64]struct{}\<close> is \<open>goset\<close>, \<open>None\<close> for the nil map: reading a nil map is
    reading an empty one, writing to it panics.
  \<^item> A computation that may panic has an \<open>option\<close> result, \<open>None\<close> for the panic; \<open>do\<close> blocks
    chain such computations the way the statements of the source follow each other.
  \<^item> A Go error value is the left side of a sum.

  The rest of the theory holds the lemmas on lists, words and maps that several components use.
\<close>

type_synonym u64 = "64 word"
type_synonym byte = "8 word"
type_synonym bytes = "byte list"
type_synonym gobytes = "bytes option"
type_synonym goset = "u64 set option"

abbreviation MaxUint64 :: u64 where
  "MaxUint64 \<equiv> - 1"

text \<open>Facts about panics, used to open a \<open>do\<close> block whose result is known.\<close>

named_theorems panic_simps
named_theorems ret_simps
named_theorems go_defs

lemma bind_Some_iff [panic_simps]:
  "(x \<bind> f) = Some y \<longleftrightarrow> (\<exists>a. x = Some a \<and> f a = Some y)"
  by (cases x) auto

lemma bind_None_iff [panic_simps]:
  "(x \<bind> f) = None \<longleftrightarrow> x = None \<or> (\<exists>a. x = Some a \<and> f a = None)"
  by (cases x) auto

text \<open>What a case distinction that returned has gone through.\<close>

lemma case_sum_Some_iff [ret_simps]:
  "(case x of Inl a \<Rightarrow> f a | Inr b \<Rightarrow> g b) = Some y \<longleftrightarrow>
     (\<exists>a. x = Inl a \<and> f a = Some y) \<or> (\<exists>b. x = Inr b \<and> g b = Some y)"
  by (cases x) auto

lemma case_prod_Some_iff [ret_simps]:
  "(case x of (a, b) \<Rightarrow> f a b) = Some y \<longleftrightarrow> (\<exists>a b. x = (a, b) \<and> f a b = Some y)"
  by (cases x) auto

lemma case_option_Some_iff [ret_simps]:
  "(case x of None \<Rightarrow> f | Some a \<Rightarrow> g a) = Some y \<longleftrightarrow>
     (x = None \<and> f = Some y) \<or> (\<exists>a. x = Some a \<and> g a = Some y)"
  by (cases x) auto

lemma if_Some_iff [ret_simps]:
  "(if b then x else y) = Some z \<longleftrightarrow> (b \<and> x = Some z) \<or> (\<not> b \<and> y = Some z)"
  by simp

section \<open>Minimum and maximum\<close>

definition u64_min :: "u64 \<Rightarrow> u64 \<Rightarrow> u64" where
  "u64_min a b = (if a > b then b else a)"

definition u64_max :: "u64 \<Rightarrow> u64 \<Rightarrow> u64" where
  "u64_max a b = (if a > b then a else b)"

lemma u64_min_eq [simp]: "u64_min a b = min a b"
  by (auto simp: u64_min_def min_def)

lemma u64_max_eq [simp]: "u64_max a b = max a b"
  by (auto simp: u64_max_def max_def)

section \<open>Words as natural numbers\<close>

text \<open>Away from the top of the range \<open>unat\<close> commutes with the arithmetic of indexes.\<close>

lemma unat_of_nat_u64 [simp]: "n < 2 ^ 64 \<Longrightarrow> unat (of_nat n :: u64) = n"
  by (simp add: unat_of_nat take_bit_nat_eq_self)

lemma unat_add_u64: "unat (a :: u64) + unat b < 2 ^ 64 \<Longrightarrow> unat (a + b) = unat a + unat b"
  by (simp add: unat_word_ariths)

lemma unat_Suc_u64: "unat (a :: u64) + 1 < 2 ^ 64 \<Longrightarrow> unat (a + 1) = Suc (unat a)"
  using unat_add_u64 [of a 1] by simp

lemma unat_diff_u64: "b \<le> (a :: u64) \<Longrightarrow> unat (a - b) = unat a - unat b"
  by (simp add: unat_sub)

lemma unat_lt_u64: "unat (a :: u64) < 2 ^ 64"
  using unsigned_less [of a, where ?'a = nat] by simp

lemma u64_eq_of_nat: "unat (a :: u64) = n \<Longrightarrow> a = of_nat n"
  by auto

lemma sint_small_u64:
  assumes "unat (a :: u64) < 2 ^ 63"
  shows "sint a = int (unat a)"
proof -
  have lt: "int (unat a) < 2 ^ 63"
    using assms by (metis of_nat_less_iff of_nat_numeral of_nat_power)
  have "- (2 ^ 63) \<le> int (unat a)" by (rule order_trans [of _ 0]) simp_all
  then have s: "signed_take_bit 63 (int (unat a)) = int (unat a)"
    by (rule signed_take_bit_int_eq_self) (rule lt)
  have "LENGTH(64) - Suc 0 = 63" by simp
  then have "sint a = signed_take_bit 63 (uint a)" by (simp only: sint_uint)
  also have "uint a = int (unat a)" by simp
  finally show ?thesis by (simp only: s)
qed

lemmas u64_nat = word_less_nat_alt word_le_nat_alt word_unat_eq_iff

section \<open>Slices and nil-able values\<close>

text \<open>The bytes of a slice (the conversion \<^verbatim>\<open>string(b)\<close>) and its length.\<close>

definition str_of :: "gobytes \<Rightarrow> bytes" where
  "str_of b = (case b of None \<Rightarrow> [] | Some xs \<Rightarrow> xs)"

definition blen :: "gobytes \<Rightarrow> nat" where
  "blen b = length (str_of b)"

lemma str_of_simps [simp]: "str_of None = []" "str_of (Some xs) = xs"
  by (simp_all add: str_of_def)

lemma blen_simps [simp]: "blen None = 0" "blen (Some xs) = length xs"
  by (simp_all add: blen_def)

text \<open>Indexing and slicing panic out of range.\<close>

definition go_index :: "'a list \<Rightarrow> nat \<Rightarrow> 'a option" where
  "go_index xs i = (if i < length xs then Some (xs ! i) else None)"

definition go_slice :: "'a list \<Rightarrow> nat \<Rightarrow> nat \<Rightarrow> 'a list option" where
  "go_slice xs lo hi = (if lo \<le> hi \<and> hi \<le> length xs then Some (take (hi - lo) (drop lo xs)) else None)"

definition go_update :: "'a list \<Rightarrow> nat \<Rightarrow> 'a \<Rightarrow> 'a list option" where
  "go_update xs i v = (if i < length xs then Some (xs[i := v]) else None)"

lemma go_index_Some_iff [panic_simps]: "go_index xs i = Some x \<longleftrightarrow> i < length xs \<and> x = xs ! i"
  by (auto simp: go_index_def)

lemma go_index_None_iff [panic_simps]: "go_index xs i = None \<longleftrightarrow> length xs \<le> i"
  by (auto simp: go_index_def)

lemma go_index_in [simp]: "i < length xs \<Longrightarrow> go_index xs i = Some (xs ! i)"
  by (simp add: go_index_def)

lemma go_slice_in [simp]:
  "lo \<le> hi \<Longrightarrow> hi \<le> length xs \<Longrightarrow> go_slice xs lo hi = Some (take (hi - lo) (drop lo xs))"
  by (simp add: go_slice_def)

lemma go_slice_Some_iff [panic_simps]:
  "go_slice xs lo hi = Some ys \<longleftrightarrow> lo \<le> hi \<and> hi \<le> length xs \<and> ys = take (hi - lo) (drop lo xs)"
  by (auto simp: go_slice_def)

lemma go_slice_None_iff [panic_simps]:
  "go_slice xs lo hi = None \<longleftrightarrow> hi < lo \<or> length xs < hi"
  by (auto simp: go_slice_def)

lemma go_update_in [simp]: "i < length xs \<Longrightarrow> go_update xs i v = Some (xs[i := v])"
  by (simp add: go_update_def)

lemma go_update_Some_iff [panic_simps]:
  "go_update xs i v = Some ys \<longleftrightarrow> i < length xs \<and> ys = xs[i := v]"
  by (auto simp: go_update_def)

lemma go_update_None_iff [panic_simps]: "go_update xs i v = None \<longleftrightarrow> length xs \<le> i"
  by (auto simp: go_update_def)

section \<open>Sets of identifiers\<close>

text \<open>The keys of a set-valued map; nil has none. A write to a nil map panics.\<close>

definition ids :: "goset \<Rightarrow> u64 set" where
  "ids c = (case c of None \<Rightarrow> {} | Some s \<Rightarrow> s)"

lemma ids_simps [simp]: "ids None = {}" "ids (Some s) = s"
  by (simp_all add: ids_def)

definition goset_insert :: "u64 \<Rightarrow> goset \<Rightarrow> goset option" where
  "goset_insert x c = (case c of None \<Rightarrow> None | Some s \<Rightarrow> Some (Some (insert x s)))"

definition goset_delete :: "u64 \<Rightarrow> goset \<Rightarrow> goset" where
  "goset_delete x c = map_option (\<lambda>s. s - {x}) c"

lemma goset_insert_simps [simp]:
  "goset_insert x None = None" "goset_insert x (Some s) = Some (Some (insert x s))"
  by (simp_all add: goset_insert_def)

lemma goset_delete_simps [simp]:
  "goset_delete x None = None" "goset_delete x (Some s) = Some (s - {x})"
  by (simp_all add: goset_delete_def)

lemma ids_goset_delete [simp]: "ids (goset_delete x c) = ids c - {x}"
  by (cases c) auto

text \<open>
  Iterating over a map visits its keys in an unspecified order. The model visits them in
  increasing order; where the order could matter, the component proves that it does not.
\<close>

abbreviation range_ids :: "u64 set \<Rightarrow> u64 list" where
  "range_ids s \<equiv> sorted_list_of_set s"

lemma distinct_set_mset_eq:
  assumes "distinct xs" "distinct ys" "set xs = set ys"
  shows "mset xs = mset ys"
  using assms by (simp add: set_eq_iff_mset_eq_distinct)

section \<open>Maps\<close>

lemma lookup_delete_if: "Mapping.lookup (Mapping.delete k m) w = (if w = k then None else Mapping.lookup m w)"
  by transfer auto

lemma mapping_eq_iff: "m = m' \<longleftrightarrow> (\<forall>k. Mapping.lookup m k = Mapping.lookup m' k)"
  by transfer auto

lemmas lookup_simps = Mapping.lookup_update' lookup_delete_if

section \<open>Counting in lists\<close>

lemma length_filter_mset: "length (filter P xs) = size (filter_mset P (mset xs))"
  by (metis mset_filter size_mset)

lemma length_filter_distinct_card: "distinct xs \<Longrightarrow> length (filter P xs) = card {x \<in> set xs. P x}"
  by (metis distinct_card distinct_filter set_filter)

text \<open>In a sorted list the element at position \<open>p\<close> reaches \<open>k\<close> exactly if enough elements do.\<close>

lemma sorted_nth_ge_iff:
  assumes "sorted xs" "p < length xs"
  shows "k \<le> xs ! p \<longleftrightarrow> length xs - p \<le> length (filter (\<lambda>x. k \<le> x) xs)"
proof
  assume "k \<le> xs ! p"
  moreover have "xs ! p \<le> xs ! (p + i)" if "i < length xs - p" for i
    using assms that by (intro sorted_nth_mono) auto
  ultimately have "\<forall>x \<in> set (drop p xs). k \<le> x"
    by (auto simp: in_set_conv_nth) (blast intro: order_trans)
  then have "filter (\<lambda>x. k \<le> x) (drop p xs) = drop p xs"
    by (simp add: filter_id_conv)
  then have "length (drop p xs) \<le> length (filter (\<lambda>x. k \<le> x) (take p xs @ drop p xs))"
    by (metis filter_append le_add2 length_append)
  then show "length xs - p \<le> length (filter (\<lambda>x. k \<le> x) xs)" by simp
next
  assume len: "length xs - p \<le> length (filter (\<lambda>x. k \<le> x) xs)"
  show "k \<le> xs ! p"
  proof (rule ccontr)
    assume "\<not> k \<le> xs ! p"
    then have "\<forall>x \<in> set (take (Suc p) xs). \<not> k \<le> x"
      using assms by (auto simp: in_set_conv_nth less_Suc_eq_le) (meson order_trans sorted_nth_mono)
    then have "filter (\<lambda>x. k \<le> x) (take (Suc p) xs) = []"
      by (simp add: filter_empty_conv)
    then have "length (filter (\<lambda>x. k \<le> x) xs) = length (filter (\<lambda>x. k \<le> x) (drop (Suc p) xs))"
      by (metis append_Nil append_take_drop_id filter_append)
    also have "\<dots> \<le> length xs - Suc p"
      by (metis length_drop length_filter_le)
    finally show False using len assms(2) by simp
  qed
qed

lemma dropWhile_le_sorted: "sorted xs \<Longrightarrow> dropWhile (\<lambda>x. x \<le> k) xs = filter (\<lambda>x. k < x) xs"
proof (induction xs)
  case (Cons x xs)
  then have "filter (\<lambda>x. k < x) xs = xs" if "k < x"
    using that by (auto simp: filter_id_conv intro: less_le_trans)
  with Cons show ?case by (auto simp: not_le)
qed simp

section \<open>Majorities\<close>

text \<open>Two subsets of a finite set that are jointly larger than it share an element.\<close>

lemma majorities_share:
  assumes "finite E" "S \<subseteq> E" "T \<subseteq> E" "card E < card S + card T"
  shows "\<exists>x. x \<in> S \<and> x \<in> T"
proof (rule ccontr)
  assume "\<not> (\<exists>x. x \<in> S \<and> x \<in> T)"
  then have "card (S \<union> T) = card S + card T"
    using assms by (intro card_Un_disjoint) (auto dest: finite_subset)
  moreover have "card (S \<union> T) \<le> card E"
    using assms by (intro card_mono) auto
  ultimately show False using assms(4) by simp
qed

end
