(* ===== verification/Raft_Pb.thy ===== *)
theory Raft_Pb
  imports Raft_Prelude
begin

unbundle bit_operations_syntax

text \<open>
  The data that raft exchanges and stores: the enumerations and structs of
  \<^verbatim>\<open>raftpb/raft.pb.go\<close>, the size of an encoded entry, and the hand-written helpers of
  \<^verbatim>\<open>raftpb/confchange.go\<close> and \<^verbatim>\<open>raftpb/confstate.go\<close>.

  The Go enumerations are \<^verbatim>\<open>int32\<close>s: a message from the wire can carry any value, so each
  datatype ends in a constructor for the values without a name.
\<close>

section \<open>Enumerations\<close>

datatype EntryType = EntryNormal | EntryConfChange | EntryConfChangeV2 | EntryTypeOther "32 word"

datatype MessageType =
    MsgHup | MsgBeat | MsgProp | MsgApp | MsgAppResp | MsgVote | MsgVoteResp | MsgSnap
  | MsgHeartbeat | MsgHeartbeatResp | MsgUnreachable | MsgSnapStatus | MsgCheckQuorum
  | MsgTransferLeader | MsgTimeoutNow | MsgReadIndex | MsgReadIndexResp | MsgPreVote
  | MsgPreVoteResp | MsgTypeOther "32 word"

datatype ConfChangeTransition =
    ConfChangeTransitionAuto | ConfChangeTransitionJointImplicit
  | ConfChangeTransitionJointExplicit | ConfChangeTransitionOther "32 word"

datatype ConfChangeType =
    ConfChangeAddNode | ConfChangeRemoveNode | ConfChangeUpdateNode | ConfChangeAddLearnerNode
  | ConfChangeTypeOther "32 word"

text \<open>The \<^verbatim>\<open>int32\<close> behind an entry type.\<close>

fun EntryType_value :: "EntryType \<Rightarrow> 32 word" where
  "EntryType_value EntryNormal = 0"
| "EntryType_value EntryConfChange = 1"
| "EntryType_value EntryConfChangeV2 = 2"
| "EntryType_value (EntryTypeOther w) = w"

section \<open>Messages\<close>

record Entry =
  e_Term :: u64
  e_Index :: u64
  e_Type :: EntryType
  e_Data :: gobytes

record ConfState =
  cs_Voters :: "u64 list"
  cs_Learners :: "u64 list"
  cs_VotersOutgoing :: "u64 list"
  cs_LearnersNext :: "u64 list"
  cs_AutoLeave :: bool

record SnapshotMetadata =
  sm_ConfState :: ConfState
  sm_Index :: u64
  sm_Term :: u64

record Snapshot =
  s_Data :: gobytes
  s_Metadata :: SnapshotMetadata

record Message =
  m_Type :: MessageType
  m_To :: u64
  m_From :: u64
  m_Term :: u64
  m_LogTerm :: u64
  m_Index :: u64
  m_Entries :: "Entry list"
  m_Commit :: u64
  m_Snapshot :: Snapshot
  m_Reject :: bool
  m_RejectHint :: u64
  m_Context :: gobytes

record HardState =
  hs_Term :: u64
  hs_Vote :: u64
  hs_Commit :: u64

record ConfChange =
  cc_Type :: ConfChangeType
  cc_NodeID :: u64
  cc_Context :: gobytes
  cc_ID :: u64

record ConfChangeSingle =
  ccs_Type :: ConfChangeType
  ccs_NodeID :: u64

record ConfChangeV2 =
  v2_Transition :: ConfChangeTransition
  v2_Changes :: "ConfChangeSingle list"
  v2_Context :: gobytes

text \<open>Zero values, the results of composite literals with no field set.\<close>

definition zero_Entry :: Entry where
  "zero_Entry = \<lparr>e_Term = 0, e_Index = 0, e_Type = EntryNormal, e_Data = None\<rparr>"

definition zero_ConfState :: ConfState where
  "zero_ConfState = \<lparr>cs_Voters = [], cs_Learners = [], cs_VotersOutgoing = [],
     cs_LearnersNext = [], cs_AutoLeave = False\<rparr>"

definition zero_Snapshot :: Snapshot where
  "zero_Snapshot = \<lparr>s_Data = None,
     s_Metadata = \<lparr>sm_ConfState = zero_ConfState, sm_Index = 0, sm_Term = 0\<rparr>\<rparr>"

text \<open>A message with only the type set.\<close>

definition mk_Message :: "MessageType \<Rightarrow> Message" where
  "mk_Message t = \<lparr>m_Type = t, m_To = 0, m_From = 0, m_Term = 0, m_LogTerm = 0, m_Index = 0,
     m_Entries = [], m_Commit = 0, m_Snapshot = zero_Snapshot, m_Reject = False,
     m_RejectHint = 0, m_Context = None\<rparr>"

definition zero_HardState :: HardState where
  "zero_HardState = \<lparr>hs_Term = 0, hs_Vote = 0, hs_Commit = 0\<rparr>"

definition zero_ConfChangeV2 :: ConfChangeV2 where
  "zero_ConfChangeV2 = \<lparr>v2_Transition = ConfChangeTransitionAuto, v2_Changes = [], v2_Context = None\<rparr>"

lemmas zero_defs = zero_Entry_def zero_ConfState_def zero_Snapshot_def mk_Message_def
  zero_HardState_def zero_ConfChangeV2_def

section \<open>Encoded sizes\<close>

text \<open>\<^verbatim>\<open>math/bits.Len64\<close>: the number of bits needed for a value.\<close>

fun Len64_nat :: "nat \<Rightarrow> nat" where
  "Len64_nat n = (if n = 0 then 0 else Suc (Len64_nat (n div 2)))"

declare Len64_nat.simps [simp del]

definition sovRaft :: "u64 \<Rightarrow> nat" where
  "sovRaft x = (Len64_nat (unat (x OR 1)) + 6) div 7"

text \<open>
  Go computes the size as an \<^verbatim>\<open>int\<close>, its caller converts sums of sizes to \<^verbatim>\<open>uint64\<close>; both
  wrap at 64 bits, so the size is kept as a word.
\<close>

definition Entry_Size :: "Entry \<Rightarrow> u64" where
  "Entry_Size e =
     (1 + of_nat (sovRaft (scast (EntryType_value (e_Type e))))) +
     (1 + of_nat (sovRaft (e_Term e))) +
     (1 + of_nat (sovRaft (e_Index e))) +
     (case e_Data e of None \<Rightarrow> 0
      | Some d \<Rightarrow> 1 + of_nat (length d) + of_nat (sovRaft (of_nat (length d))))"

section \<open>Configuration changes in their two versions\<close>

text \<open>\<^verbatim>\<open>ConfChangeI\<close>: either version of a configuration change.\<close>

datatype ConfChangeI = CCv1 ConfChange | CCv2 ConfChangeV2

fun AsV2 :: "ConfChangeI \<Rightarrow> ConfChangeV2" where
  "AsV2 (CCv1 c) = \<lparr>v2_Transition = ConfChangeTransitionAuto,
     v2_Changes = [\<lparr>ccs_Type = cc_Type c, ccs_NodeID = cc_NodeID c\<rparr>], v2_Context = cc_Context c\<rparr>"
| "AsV2 (CCv2 c) = c"

fun AsV1 :: "ConfChangeI \<Rightarrow> ConfChange \<times> bool" where
  "AsV1 (CCv1 c) = (c, True)"
| "AsV1 (CCv2 c) = (\<lparr>cc_Type = ConfChangeAddNode, cc_NodeID = 0, cc_Context = None, cc_ID = 0\<rparr>, False)"

text \<open>Whether a change uses joint consensus, and whether it is left automatically; an
  unknown transition panics.\<close>

definition EnterJoint_opts :: "ConfChangeV2 \<Rightarrow> (bool \<times> bool) option" where
  "EnterJoint_opts c =
     (if v2_Transition c \<noteq> ConfChangeTransitionAuto \<or> length (v2_Changes c) > 1
      then (case v2_Transition c of
              ConfChangeTransitionAuto \<Rightarrow> Some (True, True)
            | ConfChangeTransitionJointImplicit \<Rightarrow> Some (True, True)
            | ConfChangeTransitionJointExplicit \<Rightarrow> Some (False, True)
            | ConfChangeTransitionOther w \<Rightarrow> None)
      else Some (False, False))"

text \<open>
  \<^verbatim>\<open>proto.Equal\<close> belongs to the protobuf runtime: it is a parameter. What is documented about
  it for this type: two changes are equal if they agree in the transition, the list of changes
  and the context, a nil slice counting as an empty one only where both are absent.
\<close>

definition LeaveJoint_v2 :: "(ConfChangeV2 \<Rightarrow> ConfChangeV2 \<Rightarrow> bool) \<Rightarrow> ConfChangeV2 \<Rightarrow> bool" where
  "LeaveJoint_v2 proto_Equal c = proto_Equal (c\<lparr>v2_Context := None\<rparr>) zero_ConfChangeV2"

section \<open>Equivalence of configuration states\<close>

text \<open>
  \<^verbatim>\<open>Equivalent\<close> sorts a copy of each of the eight slices and compares the results deeply; the
  copies are nil when empty, so only the elements count. The error is reduced to its presence.
\<close>

definition sort_ConfState :: "ConfState \<Rightarrow> ConfState" where
  "sort_ConfState cs = cs\<lparr>cs_Voters := sort (cs_Voters cs), cs_Learners := sort (cs_Learners cs),
     cs_VotersOutgoing := sort (cs_VotersOutgoing cs), cs_LearnersNext := sort (cs_LearnersNext cs)\<rparr>"

definition Equivalent :: "ConfState \<Rightarrow> ConfState \<Rightarrow> bool" where
  "Equivalent cs cs2 \<longleftrightarrow> sort_ConfState cs = sort_ConfState cs2"

lemma sort_eq_iff_mset: "sort xs = sort ys \<longleftrightarrow> mset xs = mset ys"
  by (metis mset_sort properties_for_sort sorted_sort)

lemma Equivalent_iff:
  "Equivalent cs cs2 \<longleftrightarrow>
     mset (cs_Voters cs) = mset (cs_Voters cs2) \<and>
     mset (cs_Learners cs) = mset (cs_Learners cs2) \<and>
     mset (cs_VotersOutgoing cs) = mset (cs_VotersOutgoing cs2) \<and>
     mset (cs_LearnersNext cs) = mset (cs_LearnersNext cs2) \<and>
     cs_AutoLeave cs = cs_AutoLeave cs2"
  by (cases cs; cases cs2) (auto simp: Equivalent_def sort_ConfState_def sort_eq_iff_mset)

end
