(* ===== verification/Quorum.thy ===== *)
theory Quorum
  imports Raft_Pb
begin

text \<open>
  \<^verbatim>\<open>raft/quorum\<close>: majority and joint configurations, the index a configuration has committed
  and the outcome of a vote.

  A \<^verbatim>\<open>MajorityConfig\<close> is a \<open>goset\<close>, a \<^verbatim>\<open>JointConfig\<close> a pair of them. The lemmas characterise both
  computations by counting voters, show that the order in which the map is visited does not
  matter, and derive the intersection properties Raft's safety argument rests on.
\<close>

type_synonym MajorityConfig = goset
type_synonym JointConfig = "MajorityConfig \<times> MajorityConfig"
type_synonym AckedIndexer = "u64 \<Rightarrow> u64 option"

datatype VoteResult = VotePending | VoteLost | VoteWon

section \<open>Sorting in place\<close>

text \<open>
  The inner loop moves the element at \<open>j\<close> to the left by swaps, the outer loop does so for
  every position from 1.
\<close>

primrec insertionSort_inner :: "u64 list \<Rightarrow> nat \<Rightarrow> u64 list" where
  "insertionSort_inner sl 0 = sl"
| "insertionSort_inner sl (Suc j) =
     (if sl ! Suc j < sl ! j
      then insertionSort_inner (sl[Suc j := sl ! j, j := sl ! Suc j]) j
      else sl)"

definition insertionSort :: "u64 list \<Rightarrow> u64 list" where
  "insertionSort sl = foldl insertionSort_inner sl [1..<length sl]"

section \<open>The committed index\<close>

text \<open>The acknowledged indexes are written from the right end of a zeroed slice.\<close>

fun fill_acks :: "AckedIndexer \<Rightarrow> u64 list \<Rightarrow> u64 list \<Rightarrow> int \<Rightarrow> u64 list" where
  "fill_acks l [] srt i = srt"
| "fill_acks l (v # vs) srt i =
     (case l v of
        Some idx \<Rightarrow> fill_acks l vs (srt[nat i := idx]) (i - 1)
      | None \<Rightarrow> fill_acks l vs srt i)"

definition CommittedIndex_order :: "u64 list \<Rightarrow> AckedIndexer \<Rightarrow> u64" where
  "CommittedIndex_order vs l =
     (let n = length vs in
      if n = 0 then MaxUint64
      else
        let srt = fill_acks l vs (replicate n 0) (int n - 1);
            srt = insertionSort srt;
            pos = n - (n div 2 + 1)
        in srt ! pos)"

definition majority_CommittedIndex :: "MajorityConfig \<Rightarrow> AckedIndexer \<Rightarrow> u64" where
  "majority_CommittedIndex c l = CommittedIndex_order (range_ids (ids c)) l"

section \<open>The result of a vote\<close>

text \<open>The counters are \<^verbatim>\<open>ny[0]\<close>, \<^verbatim>\<open>ny[1]\<close> and \<^verbatim>\<open>missing\<close>.\<close>

fun count_votes :: "(u64 \<Rightarrow> bool option) \<Rightarrow> u64 list \<Rightarrow> nat \<times> nat \<times> nat \<Rightarrow> nat \<times> nat \<times> nat" where
  "count_votes votes [] acc = acc"
| "count_votes votes (v # vs) (no, yes, missing) =
     (case votes v of
        None \<Rightarrow> count_votes votes vs (no, yes, missing + 1)
      | Some True \<Rightarrow> count_votes votes vs (no, yes + 1, missing)
      | Some False \<Rightarrow> count_votes votes vs (no + 1, yes, missing))"

definition VoteResult_order :: "u64 list \<Rightarrow> (u64 \<Rightarrow> bool option) \<Rightarrow> VoteResult" where
  "VoteResult_order vs votes =
     (if length vs = 0 then VoteWon
      else
        let (no, yes, missing) = count_votes votes vs (0, 0, 0);
            q = length vs div 2 + 1
        in if yes \<ge> q then VoteWon else if yes + missing \<ge> q then VotePending else VoteLost)"

definition majority_VoteResult :: "MajorityConfig \<Rightarrow> (u64 \<Rightarrow> bool option) \<Rightarrow> VoteResult" where
  "majority_VoteResult c votes = VoteResult_order (range_ids (ids c)) votes"

text \<open>The voters as a sorted slice.\<close>

definition Slice :: "MajorityConfig \<Rightarrow> u64 list" where
  "Slice c = sort (range_ids (ids c))"

section \<open>Joint configurations\<close>

definition joint_IDs :: "JointConfig \<Rightarrow> u64 set" where
  "joint_IDs c = ids (fst c) \<union> ids (snd c)"

definition joint_CommittedIndex :: "JointConfig \<Rightarrow> AckedIndexer \<Rightarrow> u64" where
  "joint_CommittedIndex c l =
     (let idx0 = majority_CommittedIndex (fst c) l;
          idx1 = majority_CommittedIndex (snd c) l
      in if idx0 < idx1 then idx0 else idx1)"

definition joint_VoteResult :: "JointConfig \<Rightarrow> (u64 \<Rightarrow> bool option) \<Rightarrow> VoteResult" where
  "joint_VoteResult c votes =
     (let r1 = majority_VoteResult (fst c) votes;
          r2 = majority_VoteResult (snd c) votes
      in if r1 = r2 then r1
         else if r1 = VoteLost \<or> r2 = VoteLost then VoteLost
         else VotePending)"

section \<open>Lemmas on the sort\<close>

lemma length_inner [simp]: "length (insertionSort_inner sl j) = length sl"
  by (induction j arbitrary: sl) auto

lemma mset_inner: "j < length sl \<Longrightarrow> mset (insertionSort_inner sl j) = mset sl"
proof (induction j arbitrary: sl)
  case (Suc j)
  then show ?case by (auto simp: mset_swap list_update_swap)
qed simp

lemma drop_inner: "drop (Suc j) (insertionSort_inner sl j) = drop (Suc j) sl"
proof (induction j arbitrary: sl)
  case (Suc j)
  let ?sl' = "sl[Suc j := sl ! j, j := sl ! Suc j]"
  have "drop (Suc j) (insertionSort_inner ?sl' j) = drop (Suc j) ?sl'"
    by (rule Suc.IH)
  then have "drop 1 (drop (Suc j) (insertionSort_inner ?sl' j)) = drop 1 (drop (Suc j) ?sl')"
    by (rule arg_cong)
  then show ?case by simp
qed simp

lemma set_take_inner:
  assumes "j < length sl"
  shows "mset (take (Suc j) (insertionSort_inner sl j)) = mset (take (Suc j) sl)"
proof -
  let ?r = "insertionSort_inner sl j"
  have "mset (take (Suc j) ?r) + mset (drop (Suc j) ?r) = mset (take (Suc j) sl) + mset (drop (Suc j) sl)"
    using mset_inner [OF assms] by (metis append_take_drop_id mset_append)
  then show ?thesis by (simp add: drop_inner)
qed

lemma sorted_inner:
  "sorted (take j sl) \<Longrightarrow> j < length sl \<Longrightarrow> sorted (take (Suc j) (insertionSort_inner sl j))"
proof (induction j arbitrary: sl)
  case 0
  then show ?case by (simp add: take_Suc_conv_app_nth)
next
  case (Suc j)
  have sj: "take (Suc j) sl = take j sl @ [sl ! j]"
    using Suc.prems by (simp add: take_Suc_conv_app_nth)
  show ?case
  proof (cases "sl ! Suc j < sl ! j")
    case False
    then show ?thesis
      using Suc.prems sj by (auto simp: take_Suc_conv_app_nth sorted_append)
  next
    case True
    let ?sl' = "sl[Suc j := sl ! j, j := sl ! Suc j]"
    let ?r = "insertionSort_inner ?sl' j"
    have "take j ?sl' = take j sl" by simp
    then have srt: "sorted (take (Suc j) ?r)"
      using Suc.prems sj by (intro Suc.IH) (auto simp: sorted_append)
    have "mset (take (Suc j) ?r) = mset (take (Suc j) ?sl')"
      using Suc.prems by (intro set_take_inner) auto
    then have "set (take (Suc j) ?r) = set (take (Suc j) ?sl')"
      by (rule mset_eq_setD)
    also have "\<dots> = insert (sl ! Suc j) (set (take j sl))"
      using Suc.prems by (simp add: take_Suc_conv_app_nth)
    finally have le: "\<forall>x \<in> set (take (Suc j) ?r). x \<le> sl ! j"
      using Suc.prems sj True by (auto simp: sorted_append)
    have "?r ! Suc j = drop (Suc j) ?r ! 0"
      using Suc.prems by simp
    then have "?r ! Suc j = sl ! j"
      using Suc.prems by (simp add: drop_inner)
    then show ?thesis
      using True Suc.prems srt le by (simp add: take_Suc_conv_app_nth [of "Suc j"] sorted_append)
  qed
qed

lemma foldl_inner:
  "m \<le> length sl \<Longrightarrow>
     length (foldl insertionSort_inner sl [1..<m]) = length sl \<and>
     mset (foldl insertionSort_inner sl [1..<m]) = mset sl \<and>
     sorted (take m (foldl insertionSort_inner sl [1..<m]))"
proof (induction m)
  case (Suc m)
  let ?f = "foldl insertionSort_inner sl [1..<m]"
  show ?case
  proof (cases "m = 0")
    case True
    then show ?thesis using Suc.prems by (cases sl) auto
  next
    case False
    then have "foldl insertionSort_inner sl [1..<Suc m] = insertionSort_inner ?f m" by simp
    then show ?thesis
      using Suc by (simp add: mset_inner sorted_inner del: upt_Suc)
  qed
qed simp

lemma insertionSort_eq_sort: "insertionSort sl = sort sl"
proof -
  have "mset (insertionSort sl) = mset sl" "sorted (insertionSort sl)"
    using foldl_inner [of "length sl" sl] by (auto simp: insertionSort_def)
  then show ?thesis by (metis properties_for_sort)
qed

section \<open>Lemmas on the committed index\<close>

lemma fill_acks_append:
  "length (List.map_filter l vs) \<le> k \<Longrightarrow>
     fill_acks l vs (replicate k 0 @ ys) (int k - 1) =
       replicate (k - length (List.map_filter l vs)) 0 @ rev (List.map_filter l vs) @ ys"
proof (induction vs arbitrary: k ys)
  case (Cons v vs)
  show ?case
  proof (cases "l v")
    case None
    then show ?thesis using Cons by (simp add: List.map_filter_simps)
  next
    case (Some a)
    with Cons.prems obtain k' where k: "k = Suc k'"
      by (cases k) (auto simp: List.map_filter_simps)
    have "(replicate (Suc k') (0::u64) @ ys)[k' := a] = replicate k' 0 @ (a # ys)"
      by (induction k') auto
    then show ?thesis
      using Cons.IH [of k' "a # ys"] Cons.prems Some k
      by (simp add: List.map_filter_simps)
  qed
qed (simp add: List.map_filter_simps)

text \<open>The voters whose acknowledged index has reached \<open>k\<close>, and what a majority is.\<close>

definition acked_at :: "AckedIndexer \<Rightarrow> u64 \<Rightarrow> u64 set" where
  "acked_at l k = {v. \<exists>a. l v = Some a \<and> k \<le> a}"

definition has_majority :: "u64 set \<Rightarrow> u64 set \<Rightarrow> bool" where
  "has_majority V Q \<longleftrightarrow> V = {} \<or> card V div 2 + 1 \<le> card (V \<inter> Q)"

lemma has_majority_empty [simp]: "has_majority {} Q"
  by (simp add: has_majority_def)

lemma has_majority_mono: "has_majority V Q \<Longrightarrow> Q \<subseteq> Q' \<Longrightarrow> has_majority V Q'"
  unfolding has_majority_def by (meson card_mono finite_code Int_mono order_refl order_trans)

lemma has_majority_share:
  assumes "V \<noteq> {}" "has_majority V Q" "has_majority V Q'"
  shows "\<exists>v. v \<in> V \<and> v \<in> Q \<and> v \<in> Q'"
proof -
  have "card V < card (V \<inter> Q) + card (V \<inter> Q')"
    using assms unfolding has_majority_def by linarith
  then obtain x where "x \<in> V \<inter> Q" "x \<in> V \<inter> Q'"
    using majorities_share [of V "V \<inter> Q" "V \<inter> Q'"] by auto
  then show ?thesis by blast
qed

lemma mset_fill_acks:
  assumes "n = length vs"
  shows "mset (fill_acks l vs (replicate n 0) (int n - 1)) =
     replicate_mset (n - length (List.map_filter l vs)) 0 + mset (List.map_filter l vs)"
proof -
  have "length (List.map_filter l vs) \<le> n"
    using assms by (simp add: List.map_filter_def)
  from fill_acks_append [OF this, of "[]"] show ?thesis by simp
qed

lemma length_fill_acks [simp]: "length (fill_acks l vs srt i) = length srt"
  by (induction l vs srt i rule: fill_acks.induct) (auto split: option.splits)

lemma filter_map_filter:
  "length (filter P (List.map_filter l vs)) = length (filter (\<lambda>v. \<exists>a. l v = Some a \<and> P a) vs)"
  by (induction vs) (auto simp: List.map_filter_simps split: option.splits)

lemma length_filter_fill_acks:
  assumes "0 < k" "n = length vs"
  shows "length (filter (\<lambda>x. k \<le> x) (fill_acks l vs (replicate n 0) (int n - 1))) =
     length (filter (\<lambda>v. v \<in> acked_at l k) vs)"
proof -
  have "k \<noteq> 0" using assms(1) by simp
  then have "length (filter (\<lambda>x. k \<le> x) (fill_acks l vs (replicate n 0) (int n - 1))) =
      length (filter (\<lambda>x. k \<le> x) (List.map_filter l vs))"
    by (simp add: length_filter_mset mset_fill_acks [OF assms(2)])
  then show ?thesis by (simp add: filter_map_filter acked_at_def)
qed

lemma CommittedIndex_order_iff:
  assumes "vs \<noteq> []" "0 < k"
  shows "k \<le> CommittedIndex_order vs l \<longleftrightarrow>
     length vs div 2 + 1 \<le> length (filter (\<lambda>v. v \<in> acked_at l k) vs)"
proof -
  define n where "n = length vs"
  define srt where "srt = fill_acks l vs (replicate n 0) (int n - 1)"
  have n: "0 < n" using assms by (simp add: n_def)
  have "CommittedIndex_order vs l = sort srt ! (n - (n div 2 + 1))"
    using n by (simp add: CommittedIndex_order_def Let_def insertionSort_eq_sort n_def srt_def)
  moreover have "k \<le> sort srt ! (n - (n div 2 + 1)) \<longleftrightarrow>
      length (sort srt) - (n - (n div 2 + 1)) \<le> length (filter (\<lambda>x. k \<le> x) (sort srt))"
    using n by (intro sorted_nth_ge_iff) (auto simp: srt_def)
  moreover have "length (filter (\<lambda>x. k \<le> x) (sort srt)) = length (filter (\<lambda>v. v \<in> acked_at l k) vs)"
    using length_filter_fill_acks [OF assms(2) n_def]
    by (simp add: length_filter_mset srt_def)
  moreover have "length (sort srt) - (n - (n div 2 + 1)) = n div 2 + 1"
    using n by (simp add: srt_def)
  ultimately show ?thesis by (simp add: n_def)
qed

lemma CommittedIndex_order_perm:
  assumes "mset vs = mset vs'"
  shows "CommittedIndex_order vs l = CommittedIndex_order vs' l"
proof -
  have len: "length vs = length vs'" using assms by (metis size_mset)
  have "mset (List.map_filter l vs) = mset (List.map_filter l vs')"
    using assms by (simp add: List.map_filter_def)
  moreover from this have "length (List.map_filter l vs) = length (List.map_filter l vs')"
    by (metis size_mset)
  ultimately have "mset (fill_acks l vs (replicate (length vs) 0) (int (length vs) - 1)) =
      mset (fill_acks l vs' (replicate (length vs') 0) (int (length vs') - 1))"
    using len by (simp add: mset_fill_acks)
  then have "sort (fill_acks l vs (replicate (length vs) 0) (int (length vs) - 1)) =
      sort (fill_acks l vs' (replicate (length vs') 0) (int (length vs') - 1))"
    by (simp add: sort_eq_iff_mset)
  then show ?thesis
    using len by (simp add: CommittedIndex_order_def insertionSort_eq_sort Let_def)
qed

lemma majority_CommittedIndex_iff:
  assumes "ids c \<noteq> {}" "0 < k"
  shows "k \<le> majority_CommittedIndex c l \<longleftrightarrow> has_majority (ids c) (acked_at l k)"
proof -
  have "{x \<in> ids c. x \<in> acked_at l k} = ids c \<inter> acked_at l k" by blast
  then show ?thesis
    using assms CommittedIndex_order_iff [of "range_ids (ids c)" k l]
    by (simp add: majority_CommittedIndex_def has_majority_def length_filter_distinct_card)
qed

lemma joint_CommittedIndex_min:
  "joint_CommittedIndex c l =
     min (majority_CommittedIndex (fst c) l) (majority_CommittedIndex (snd c) l)"
  by (auto simp: joint_CommittedIndex_def Let_def min_def)

lemma majority_CommittedIndex_empty: "ids c = {} \<Longrightarrow> majority_CommittedIndex c l = MaxUint64"
  by (simp add: majority_CommittedIndex_def CommittedIndex_order_def)

lemma joint_CommittedIndex_iff:
  assumes "ids (fst c) \<noteq> {}" "0 < k"
  shows "k \<le> joint_CommittedIndex c l \<longleftrightarrow>
     has_majority (ids (fst c)) (acked_at l k) \<and> has_majority (ids (snd c)) (acked_at l k)"
  using assms
  by (cases "ids (snd c) = {}")
     (auto simp: joint_CommittedIndex_min majority_CommittedIndex_iff majority_CommittedIndex_empty)

section \<open>Lemmas on votes\<close>

lemma count_votes_counts:
  "count_votes votes vs (no, yes, missing) =
     (no + length (filter (\<lambda>v. votes v = Some False) vs),
      yes + length (filter (\<lambda>v. votes v = Some True) vs),
      missing + length (filter (\<lambda>v. votes v = None) vs))"
  by (induction vs arbitrary: no yes missing) (auto split: option.splits bool.splits)

lemma filter_granted_or_missing:
  "length (filter (\<lambda>v. votes v = Some True) vs) + length (filter (\<lambda>v. votes v = None) vs) =
     length (filter (\<lambda>v. votes v \<noteq> Some False) vs)"
  by (induction vs) auto

lemma VoteResult_order_cases:
  assumes "vs \<noteq> []"
  shows "VoteResult_order vs votes =
    (if length vs div 2 + 1 \<le> length (filter (\<lambda>v. votes v = Some True) vs) then VoteWon
     else if length vs div 2 + 1 \<le> length (filter (\<lambda>v. votes v \<noteq> Some False) vs) then VotePending
     else VoteLost)"
  using assms by (simp add: VoteResult_order_def count_votes_counts filter_granted_or_missing)

lemma VoteResult_order_perm:
  assumes "mset vs = mset vs'"
  shows "VoteResult_order vs votes = VoteResult_order vs' votes"
proof -
  have "length vs = length vs'" "vs = [] \<longleftrightarrow> vs' = []"
    using assms by (auto simp flip: size_mset)
  moreover have "length (filter P vs) = length (filter P vs')" for P
    using assms by (simp add: length_filter_mset)
  ultimately show ?thesis
    by (simp add: VoteResult_order_def count_votes_counts)
qed

lemma majority_VoteResult_cases:
  "majority_VoteResult c votes =
    (if has_majority (ids c) {v. votes v = Some True} then VoteWon
     else if has_majority (ids c) {v. votes v \<noteq> Some False} then VotePending
     else VoteLost)"
proof (cases "ids c = {}")
  case True
  then show ?thesis by (simp add: majority_VoteResult_def VoteResult_order_def)
next
  case False
  have "{x \<in> ids c. P x} = ids c \<inter> {v. P v}" for P by blast
  then show ?thesis
    using False
    by (simp add: majority_VoteResult_def VoteResult_order_cases length_filter_distinct_card
        has_majority_def)
qed

lemma granted_subset: "{v. votes v = Some True} \<subseteq> {v. votes v \<noteq> Some False}"
  by auto

lemma joint_VoteResult_cases:
  "joint_VoteResult c votes =
    (if has_majority (ids (fst c)) {v. votes v = Some True} \<and>
        has_majority (ids (snd c)) {v. votes v = Some True} then VoteWon
     else if has_majority (ids (fst c)) {v. votes v \<noteq> Some False} \<and>
        has_majority (ids (snd c)) {v. votes v \<noteq> Some False} then VotePending
     else VoteLost)"
  using has_majority_mono [OF _ granted_subset]
  by (auto simp: joint_VoteResult_def majority_VoteResult_cases Let_def)

section \<open>Quorum systems\<close>

text \<open>
  What the rest of Raft needs of a configuration: any two quorums share a voter, a won vote was
  granted by a quorum, a committed index was acknowledged by a quorum.
\<close>

locale quorum_system =
  fixes voters :: "'c \<Rightarrow> u64 set"
    and quorum :: "'c \<Rightarrow> u64 set \<Rightarrow> bool"
    and won :: "'c \<Rightarrow> (u64 \<Rightarrow> bool option) \<Rightarrow> bool"
    and committed :: "'c \<Rightarrow> AckedIndexer \<Rightarrow> u64 \<Rightarrow> bool"
    and populated :: "'c \<Rightarrow> bool"
  assumes intersect: "populated c \<Longrightarrow> quorum c Q \<Longrightarrow> quorum c Q' \<Longrightarrow> \<exists>v \<in> voters c. v \<in> Q \<and> v \<in> Q'"
    and won_quorum: "won c votes \<longleftrightarrow> quorum c {v. votes v = Some True}"
    and committed_quorum: "populated c \<Longrightarrow> 0 < k \<Longrightarrow> committed c l k \<longleftrightarrow> quorum c (acked_at l k)"
    and quorum_mono: "quorum c Q \<Longrightarrow> Q \<subseteq> Q' \<Longrightarrow> quorum c Q'"
begin

text \<open>Two won elections have a common supporter.\<close>

lemma common_supporter:
  assumes "populated c" "won c votes" "won c votes'"
  shows "\<exists>v \<in> voters c. votes v = Some True \<and> votes' v = Some True"
  using intersect [OF assms(1)] assms(2,3) by (fastforce simp: won_quorum)

text \<open>A won election has a supporter that acknowledged a committed index.\<close>

lemma supporter_has_committed:
  assumes "populated c" "0 < k" "won c votes" "committed c l k"
  shows "\<exists>v \<in> voters c. votes v = Some True \<and> (\<exists>a. l v = Some a \<and> k \<le> a)"
  using intersect [OF assms(1)] assms by (fastforce simp: won_quorum committed_quorum acked_at_def)

text \<open>A won vote stays won when more votes arrive.\<close>

lemma won_mono: "won c votes \<Longrightarrow> votes \<subseteq>\<^sub>m votes' \<Longrightarrow> won c votes'"
  unfolding won_quorum by (erule quorum_mono) (auto simp: map_le_def dom_def)

end

interpretation majority: quorum_system
  "\<lambda>c. ids c" "\<lambda>c Q. has_majority (ids c) Q"
  "\<lambda>c votes. majority_VoteResult c votes = VoteWon"
  "\<lambda>c l k. k \<le> majority_CommittedIndex c l" "\<lambda>c. ids c \<noteq> {}"
proof unfold_locales
  show "\<exists>v \<in> ids c. v \<in> Q \<and> v \<in> Q'"
    if "ids c \<noteq> {}" "has_majority (ids c) Q" "has_majority (ids c) Q'" for c Q Q'
    using has_majority_share [OF that] by blast
qed (auto simp: majority_VoteResult_cases majority_CommittedIndex_iff intro: has_majority_mono)

interpretation jointq: quorum_system
  "\<lambda>c. joint_IDs c"
  "\<lambda>c Q. has_majority (ids (fst c)) Q \<and> has_majority (ids (snd c)) Q"
  "\<lambda>c votes. joint_VoteResult c votes = VoteWon"
  "\<lambda>c l k. k \<le> joint_CommittedIndex c l" "\<lambda>c. ids (fst c) \<noteq> {}"
proof unfold_locales
  show "\<exists>v \<in> joint_IDs c. v \<in> Q \<and> v \<in> Q'"
    if "ids (fst c) \<noteq> {}" "has_majority (ids (fst c)) Q \<and> has_majority (ids (snd c)) Q"
      "has_majority (ids (fst c)) Q' \<and> has_majority (ids (snd c)) Q'" for c Q Q'
    using has_majority_share [of "ids (fst c)" Q Q'] that by (auto simp: joint_IDs_def)
qed (auto simp: joint_VoteResult_cases joint_CommittedIndex_iff intro: has_majority_mono)

section \<open>Properties\<close>

lemma granted_mono: "votes \<subseteq>\<^sub>m votes' \<Longrightarrow> {v. votes v = Some b} \<subseteq> {v. votes' v = Some b}"
  by (auto simp: map_le_def dom_def)

lemma not_rejected_antimono: "votes \<subseteq>\<^sub>m votes' \<Longrightarrow> {v. votes' v \<noteq> Some False} \<subseteq> {v. votes v \<noteq> Some False}"
  by (auto simp: map_le_def dom_def)

text \<open>
  (C13) The index a joint configuration reports as committed is the largest one that a majority of
  the incoming voters and a majority of the outgoing voters (if there are any) have acknowledged:
  it reaches \<open>k\<close> exactly if both majorities have acknowledged \<open>k\<close>.
\<close>

theorem committed_index_spec:
  assumes "ids (fst c) \<noteq> {}" "0 < k"
  shows "k \<le> joint_CommittedIndex c l \<longleftrightarrow>
     card (ids (fst c)) < 2 * card {v \<in> ids (fst c). \<exists>a. l v = Some a \<and> k \<le> a} \<and>
     (ids (snd c) = {} \<or> card (ids (snd c)) < 2 * card {v \<in> ids (snd c). \<exists>a. l v = Some a \<and> k \<le> a})"
proof -
  have "{v \<in> V. \<exists>a. l v = Some a \<and> k \<le> a} = V \<inter> acked_at l k" for V
    by (auto simp: acked_at_def)
  then show ?thesis
    using assms(1) unfolding joint_CommittedIndex_iff [OF assms] has_majority_def by auto
qed

theorem committed_index_spec_witness:
  "(2::u64) \<le> joint_CommittedIndex (Some {1, 2, 3}, None) [1 \<mapsto> 5, 2 \<mapsto> 2] \<and>
   \<not> 3 \<le> joint_CommittedIndex (Some {1, 2, 3}, None) [1 \<mapsto> 5, 2 \<mapsto> 2]"
proof -
  have "{v \<in> {1, 2, 3::u64}. \<exists>a. [1 \<mapsto> 5, 2 \<mapsto> 2::u64] v = Some a \<and> 2 \<le> a} = {1, 2}"
    "{v \<in> {1, 2, 3::u64}. \<exists>a. [1 \<mapsto> 5, 2 \<mapsto> 2::u64] v = Some a \<and> 3 \<le> a} = {1}"
    by (auto split: if_splits)
  then show ?thesis
    using committed_index_spec [of "(Some {1, 2, 3}, None)" 2 "[1 \<mapsto> 5, 2 \<mapsto> 2]"]
      committed_index_spec [of "(Some {1, 2, 3}, None)" 3 "[1 \<mapsto> 5, 2 \<mapsto> 2]"]
    by (simp del: fun_upd_apply)
qed

text \<open>
  Neither the committed index nor the result of a vote depends on the order in which the map
  of voters is iterated, which Go leaves open.
\<close>

theorem quorum_order_independent:
  assumes "distinct vs" "set vs = ids c"
  shows "CommittedIndex_order vs l = majority_CommittedIndex c l \<and>
     VoteResult_order vs votes = majority_VoteResult c votes"
proof -
  have "mset vs = mset (range_ids (ids c))"
    using assms by (intro distinct_set_mset_eq) simp_all
  then show ?thesis
    unfolding majority_CommittedIndex_def majority_VoteResult_def
    by (auto intro: CommittedIndex_order_perm VoteResult_order_perm)
qed

theorem quorum_order_independent_witness:
  "CommittedIndex_order [3, 1, 2] [1 \<mapsto> 5, 3 \<mapsto> 4] = majority_CommittedIndex (Some {1, 2, 3}) [1 \<mapsto> 5, 3 \<mapsto> 4] \<and>
   VoteResult_order [3, 1, 2] [1 \<mapsto> True] = majority_VoteResult (Some {1, 2, 3}) [1 \<mapsto> True]"
  using quorum_order_independent [of "[3, 1, 2]" "Some {1, 2, 3}"] by auto

text \<open>
  A decided vote is final: when the result in a joint configuration is won or lost, no further
  vote changes it.
\<close>

theorem vote_result_final:
  assumes "votes \<subseteq>\<^sub>m votes'" "joint_VoteResult c votes \<noteq> VotePending"
  shows "joint_VoteResult c votes' = joint_VoteResult c votes"
  using assms(2) has_majority_mono [OF _ granted_mono [OF assms(1), of True]]
    has_majority_mono [OF _ not_rejected_antimono [OF assms(1)]]
    has_majority_mono [OF _ granted_subset]
  by (auto simp: joint_VoteResult_cases split: if_splits)

theorem vote_result_final_witness:
  "joint_VoteResult (Some {1}, None) [1 \<mapsto> True, 2 \<mapsto> False] = joint_VoteResult (Some {1}, None) [1 \<mapsto> True]"
  by (rule vote_result_final)
     (simp_all add: map_le_def joint_VoteResult_cases has_majority_def)

text \<open>
  (C12) Raft's safety argument: an index committed in a configuration and an election won in it have
  a voter in common that acknowledged the index and granted its vote; two won elections have a
  common supporter.
\<close>

theorem election_meets_commit:
  assumes "ids (fst c) \<noteq> {}" "joint_VoteResult c votes = VoteWon"
  shows "(0 < k \<and> k \<le> joint_CommittedIndex c l \<longrightarrow>
      (\<exists>v \<in> joint_IDs c. votes v = Some True \<and> (\<exists>a. l v = Some a \<and> k \<le> a))) \<and>
     (joint_VoteResult c votes' = VoteWon \<longrightarrow>
      (\<exists>v \<in> joint_IDs c. votes v = Some True \<and> votes' v = Some True))"
  using jointq.supporter_has_committed [OF assms(1) _ assms(2)] jointq.common_supporter [OF assms]
  by blast

theorem election_meets_commit_witness:
  "\<exists>v \<in> joint_IDs (Some {1}, None). [1 \<mapsto> True] v = Some True \<and> (\<exists>a. [1 \<mapsto> 7::u64] v = Some a \<and> 3 \<le> a)"
proof -
  have "joint_VoteResult (Some {1}, None) [1 \<mapsto> True] = VoteWon"
    by (simp add: joint_VoteResult_cases has_majority_def)
  moreover have "3 \<le> joint_CommittedIndex (Some {1}, None) [1 \<mapsto> 7]"
    by (simp add: joint_CommittedIndex_iff has_majority_def acked_at_def)
  ultimately show ?thesis
    using election_meets_commit [of "(Some {1}, None)" "[1 \<mapsto> True]" 3 "[1 \<mapsto> 7]"] by simp
qed

end
