(* ===== verification/Inflights.thy ===== *)
theory Inflights
  imports Raft_Pb
begin

text \<open>
  \<^verbatim>\<open>raft/tracker/inflights.go\<close>: the sliding window of append messages that a leader has sent to
  one follower and that are not acknowledged yet, a ring buffer that grows on demand.

  The buffer refines a bounded queue of indexes: \<open>Inflights_window\<close> reads the ring as a list, and
  the locale \<open>flow_window\<close> states what the rest of the tracker relies on.
\<close>

record Inflights =
  in_start :: nat
  in_count :: nat
  in_size :: nat
  in_buffer :: "u64 list"

definition NewInflights :: "nat \<Rightarrow> Inflights" where
  "NewInflights sz = \<lparr>in_start = 0, in_count = 0, in_size = sz, in_buffer = []\<rparr>"

definition Inflights_Clone :: "Inflights \<Rightarrow> Inflights" where
  "Inflights_Clone ins = ins\<lparr>in_buffer := [] @ in_buffer ins\<rparr>"

definition Inflights_Full :: "Inflights \<Rightarrow> bool" where
  "Inflights_Full ins \<longleftrightarrow> in_count ins = in_size ins"

definition Inflights_grow :: "Inflights \<Rightarrow> Inflights" where
  "Inflights_grow ins =
     (let newSize = length (in_buffer ins) * 2;
          newSize = (if newSize = 0 then 1 else if newSize > in_size ins then in_size ins else newSize);
          n = min newSize (length (in_buffer ins))
      in ins\<lparr>in_buffer := take n (in_buffer ins) @ replicate (newSize - n) 0\<rparr>)"

text \<open>Adding to a full window panics.\<close>

definition Inflights_Add :: "Inflights \<Rightarrow> u64 \<Rightarrow> Inflights option" where
  "Inflights_Add ins inflight =
     (if Inflights_Full ins then None
      else
        let next = in_start ins + in_count ins;
            next = (if next \<ge> in_size ins then next - in_size ins else next);
            ins = (if next \<ge> length (in_buffer ins) then Inflights_grow ins else ins)
        in do {
          buf \<leftarrow> go_update (in_buffer ins) next inflight;
          Some (ins\<lparr>in_buffer := buf, in_count := in_count ins + 1\<rparr>)
        })"

text \<open>
  The loop of \<^verbatim>\<open>FreeLE\<close>: the first argument after the bound counts the iterations that are left,
  the result is the number of freed slots and the index of the first slot kept.
\<close>

primrec FreeLE_loop :: "u64 list \<Rightarrow> nat \<Rightarrow> u64 \<Rightarrow> nat \<Rightarrow> nat \<Rightarrow> nat \<Rightarrow> (nat \<times> nat) option" where
  "FreeLE_loop buffer sz to 0 i idx = Some (i, idx)"
| "FreeLE_loop buffer sz to (Suc k) i idx =
     do {
       b \<leftarrow> go_index buffer idx;
       if to < b then Some (i, idx)
       else
         let idx = idx + 1;
             idx = (if idx \<ge> sz then idx - sz else idx)
         in FreeLE_loop buffer sz to k (i + 1) idx
     }"

definition Inflights_FreeLE :: "Inflights \<Rightarrow> u64 \<Rightarrow> Inflights option" where
  "Inflights_FreeLE ins to =
     (if in_count ins = 0 then Some ins
      else do {
        b \<leftarrow> go_index (in_buffer ins) (in_start ins);
        if to < b then Some ins
        else do {
          (i, idx) \<leftarrow> FreeLE_loop (in_buffer ins) (in_size ins) to (in_count ins) 0 (in_start ins);
          let count = in_count ins - i in
          Some (ins\<lparr>in_count := count, in_start := (if count = 0 then 0 else idx)\<rparr>)
        }
      })"

definition Inflights_FreeFirstOne :: "Inflights \<Rightarrow> Inflights option" where
  "Inflights_FreeFirstOne ins =
     do { b \<leftarrow> go_index (in_buffer ins) (in_start ins); Inflights_FreeLE ins b }"

definition Inflights_Count :: "Inflights \<Rightarrow> nat" where
  "Inflights_Count ins = in_count ins"

definition Inflights_reset :: "Inflights \<Rightarrow> Inflights" where
  "Inflights_reset ins = ins\<lparr>in_count := 0, in_start := 0\<rparr>"

text \<open>The changes of a window, one operation after the other.\<close>

datatype inflights_op = OpAdd u64 | OpFreeLE u64 | OpFreeFirstOne | OpReset | OpClone

fun inflights_exec :: "inflights_op \<Rightarrow> Inflights \<Rightarrow> Inflights option" where
  "inflights_exec (OpAdd x) ins = Inflights_Add ins x"
| "inflights_exec (OpFreeLE to) ins = Inflights_FreeLE ins to"
| "inflights_exec OpFreeFirstOne ins = Inflights_FreeFirstOne ins"
| "inflights_exec OpReset ins = Some (Inflights_reset ins)"
| "inflights_exec OpClone ins = Some (Inflights_Clone ins)"

primrec inflights_run :: "inflights_op list \<Rightarrow> Inflights \<Rightarrow> Inflights option" where
  "inflights_run [] ins = Some ins"
| "inflights_run (c # cs) ins = do { ins \<leftarrow> inflights_exec c ins; inflights_run cs ins }"

section \<open>The ring as a queue\<close>

definition Inflights_window :: "Inflights \<Rightarrow> u64 list" where
  "Inflights_window ins =
     map (\<lambda>k. in_buffer ins ! ((in_start ins + k) mod in_size ins)) [0..<in_count ins]"

definition Inflights_inv :: "Inflights \<Rightarrow> bool" where
  "Inflights_inv ins \<longleftrightarrow>
     in_count ins \<le> in_size ins \<and> length (in_buffer ins) \<le> in_size ins \<and>
     (in_count ins = 0 \<longrightarrow> in_start ins = 0) \<and>
     (in_start ins + in_count ins \<le> length (in_buffer ins) \<or>
      length (in_buffer ins) = in_size ins \<and> in_start ins < in_size ins)"

lemma length_window [simp]: "length (Inflights_window ins) = in_count ins"
  by (simp add: Inflights_window_def)

lemma wrap_mod: "n < 2 * (m::nat) \<Longrightarrow> (if n \<ge> m then n - m else n) = n mod m"
  by (simp add: le_mod_geq)

lemma inv_slot:
  assumes "Inflights_inv ins" "k < in_count ins"
  shows "(in_start ins + k) mod in_size ins < length (in_buffer ins)"
  using assms wrap_mod [of "in_start ins + k" "in_size ins"]
  by (auto simp: Inflights_inv_def simp del: add_less_cancel_left split: if_splits)

lemma inv_start_le: "Inflights_inv ins \<Longrightarrow> in_start ins + in_count ins < 2 * in_size ins \<or> in_count ins = 0"
  by (auto simp: Inflights_inv_def)

lemma NewInflights_inv: "Inflights_inv (NewInflights sz)"
  by (simp add: Inflights_inv_def NewInflights_def)

lemma NewInflights_window [simp]: "Inflights_window (NewInflights sz) = []"
  by (simp add: Inflights_window_def NewInflights_def)

lemma reset_inv: "Inflights_inv ins \<Longrightarrow> Inflights_inv (Inflights_reset ins)"
  by (simp add: Inflights_inv_def Inflights_reset_def)

lemma reset_window [simp]: "Inflights_window (Inflights_reset ins) = []"
  by (simp add: Inflights_window_def Inflights_reset_def)

lemma window_nth:
  "k < in_count ins \<Longrightarrow> Inflights_window ins ! k = in_buffer ins ! ((in_start ins + k) mod in_size ins)"
  by (simp add: Inflights_window_def)

lemma grow_fields [simp]:
  "in_start (Inflights_grow ins) = in_start ins" "in_count (Inflights_grow ins) = in_count ins"
  "in_size (Inflights_grow ins) = in_size ins"
  by (simp_all add: Inflights_grow_def Let_def)

lemma grow_buffer:
  assumes "length (in_buffer ins) < in_size ins"
  shows "\<exists>zs. in_buffer (Inflights_grow ins) = in_buffer ins @ zs \<and> zs \<noteq> [] \<and>
           length (in_buffer ins @ zs) \<le> in_size ins"
  using assms by (auto simp: Inflights_grow_def Let_def min_def)

text \<open>The state after the reservation step of \<^verbatim>\<open>Add\<close>: same window, and a slot for the next index.\<close>

lemma Add_reserve:
  assumes inv: "Inflights_inv ins" and nf: "\<not> Inflights_Full ins"
  defines "next \<equiv> (in_start ins + in_count ins) mod in_size ins"
  defines "ins' \<equiv> (if next \<ge> length (in_buffer ins) then Inflights_grow ins else ins)"
  shows "Inflights_inv ins'" "next < length (in_buffer ins')"
    "Inflights_window ins' = Inflights_window ins" "in_count ins' = in_count ins"
    "in_start ins' = in_start ins" "in_size ins' = in_size ins"
proof -
  have cnt: "in_count ins < in_size ins"
    using inv nf by (auto simp: Inflights_inv_def Inflights_Full_def)
  have grow: "in_start ins + in_count ins = length (in_buffer ins)" "next = length (in_buffer ins)"
      "length (in_buffer ins) < in_size ins" if "next \<ge> length (in_buffer ins)"
    using inv cnt that wrap_mod [of "in_start ins + in_count ins" "in_size ins"]
    by (auto simp: Inflights_inv_def next_def split: if_splits)
  show fields: "in_count ins' = in_count ins" "in_start ins' = in_start ins" "in_size ins' = in_size ins"
    by (simp_all add: ins'_def)
  show "next < length (in_buffer ins')"
    using grow grow_buffer [of ins] by (fastforce simp: ins'_def)
  show "Inflights_inv ins'"
    using inv grow grow_buffer [of ins] by (fastforce simp: ins'_def Inflights_inv_def)
  have "in_buffer ins' ! ((in_start ins + k) mod in_size ins) = in_buffer ins ! ((in_start ins + k) mod in_size ins)"
    if "k < in_count ins" for k
    using grow grow_buffer [of ins] inv_slot [OF inv that] by (auto simp: ins'_def nth_append)
  then show "Inflights_window ins' = Inflights_window ins"
    using fields by (simp add: Inflights_window_def)
qed

lemma Add_full: "Inflights_Full ins \<Longrightarrow> Inflights_Add ins x = None"
  by (simp add: Inflights_Add_def)

text \<open>Writing the next slot appends to the window: no other slot of the window has that index.\<close>

lemma Add_write:
  fixes x :: u64
  assumes inv: "Inflights_inv ins" and cnt: "in_count ins < in_size ins"
    and nxt: "(in_start ins + in_count ins) mod in_size ins < length (in_buffer ins)"
  defines "ins' \<equiv> ins\<lparr>in_buffer := (in_buffer ins)[(in_start ins + in_count ins) mod in_size ins := x],
     in_count := in_count ins + 1\<rparr>"
  shows "Inflights_inv ins'" "Inflights_window ins' = Inflights_window ins @ [x]"
proof -
  have st: "in_start ins < in_size ins"
    using inv cnt by (auto simp: Inflights_inv_def)
  have mod_eq: "(in_start ins + k) mod in_size ins =
      (if in_start ins + k \<ge> in_size ins then in_start ins + k - in_size ins else in_start ins + k)"
    if "k \<le> in_count ins" for k
    using st cnt that wrap_mod [of "in_start ins + k" "in_size ins"] by simp
  have ne: "(in_start ins + k) mod in_size ins \<noteq> (in_start ins + in_count ins) mod in_size ins"
    if "k < in_count ins" for k
    using mod_eq [of k] mod_eq [of "in_count ins"] that cnt by (auto split: if_splits)
  show "Inflights_inv ins'"
    using inv cnt nxt mod_eq [of "in_count ins"]
    by (auto simp: Inflights_inv_def ins'_def split: if_splits)
  show "Inflights_window ins' = Inflights_window ins @ [x]"
    using nxt by (auto simp: Inflights_window_def ins'_def nth_list_update_neq [OF ne [THEN not_sym]])
qed

lemma Add_ok:
  assumes inv: "Inflights_inv ins" and nf: "\<not> Inflights_Full ins"
  shows "\<exists>ins'. Inflights_Add ins x = Some ins' \<and> Inflights_inv ins' \<and>
     Inflights_window ins' = Inflights_window ins @ [x] \<and> in_size ins' = in_size ins"
proof -
  define nx where "nx = (in_start ins + in_count ins) mod in_size ins"
  define res where "res = (if nx \<ge> length (in_buffer ins) then Inflights_grow ins else ins)"
  have cnt: "in_count ins < in_size ins"
    using inv nf by (auto simp: Inflights_inv_def Inflights_Full_def)
  then have "(if in_start ins + in_count ins \<ge> in_size ins
      then in_start ins + in_count ins - in_size ins else in_start ins + in_count ins) = nx"
    using inv unfolding nx_def by (intro wrap_mod) (auto simp: Inflights_inv_def)
  then have "Inflights_Add ins x =
      go_update (in_buffer res) nx x \<bind> (\<lambda>buf. Some (res\<lparr>in_buffer := buf, in_count := in_count res + 1\<rparr>))"
    using nf by (simp add: Inflights_Add_def Let_def res_def)
  moreover have r: "Inflights_inv res" "nx < length (in_buffer res)"
      "Inflights_window res = Inflights_window ins" "in_count res = in_count ins"
      "in_start res = in_start ins" "in_size res = in_size ins"
    using Add_reserve [OF inv nf] by (simp_all add: res_def nx_def)
  moreover have "nx = (in_start res + in_count res) mod in_size res"
    by (simp add: r nx_def)
  ultimately show ?thesis
    using Add_write [of res x] cnt by simp
qed

lemma FreeLE_loop_ok:
  assumes inv: "Inflights_inv ins" and i: "i + k = in_count ins"
  shows "FreeLE_loop (in_buffer ins) (in_size ins) to k i ((in_start ins + i) mod in_size ins) =
    (let d = length (takeWhile (\<lambda>x. x \<le> to) (drop i (Inflights_window ins)))
     in Some (i + d, (in_start ins + i + d) mod in_size ins))"
  using i
proof (induction k arbitrary: i)
  case (Suc k)
  have ic: "i < in_count ins" using Suc.prems by simp
  then have sz: "0 < in_size ins" using inv by (auto simp: Inflights_inv_def)
  have dr: "drop i (Inflights_window ins) = Inflights_window ins ! i # drop (Suc i) (Inflights_window ins)"
    using ic by (simp add: Cons_nth_drop_Suc)
  have wrap: "(if (in_start ins + i) mod in_size ins + 1 \<ge> in_size ins
      then (in_start ins + i) mod in_size ins + 1 - in_size ins
      else (in_start ins + i) mod in_size ins + 1) = (in_start ins + Suc i) mod in_size ins"
    using mod_less_divisor [OF sz, of "in_start ins + i"]
      wrap_mod [of "(in_start ins + i) mod in_size ins + 1" "in_size ins"]
    by (simp add: mod_Suc_eq)
  show ?case
    using Suc.IH [of "Suc i"] Suc.prems inv_slot [OF inv ic] dr wrap
    by (auto simp: window_nth [OF ic] Let_def)
qed (simp add: Inflights_window_def)

lemma window_drop:
  assumes "d < in_count ins"
  shows "Inflights_window (ins\<lparr>in_count := in_count ins - d, in_start := (in_start ins + d) mod in_size ins\<rparr>) =
     drop d (Inflights_window ins)"
  by (rule nth_equalityI) (auto simp: Inflights_window_def mod_simps ac_simps)

lemma inv_drop:
  assumes inv: "Inflights_inv ins" and d: "d < in_count ins"
  shows "Inflights_inv (ins\<lparr>in_count := in_count ins - d, in_start := (in_start ins + d) mod in_size ins\<rparr>)"
proof -
  have "(in_start ins + d) mod in_size ins =
      (if in_start ins + d \<ge> in_size ins then in_start ins + d - in_size ins else in_start ins + d)"
    using inv d wrap_mod [of "in_start ins + d" "in_size ins"] by (auto simp: Inflights_inv_def)
  then show ?thesis using inv d by (auto simp: Inflights_inv_def split: if_splits)
qed

lemma FreeLE_ok:
  assumes inv: "Inflights_inv ins"
  shows "\<exists>ins'. Inflights_FreeLE ins to = Some ins' \<and> Inflights_inv ins' \<and>
     Inflights_window ins' = dropWhile (\<lambda>x. x \<le> to) (Inflights_window ins) \<and> in_size ins' = in_size ins"
proof (cases "in_count ins = 0")
  case True
  then show ?thesis using inv by (auto simp: Inflights_FreeLE_def Inflights_window_def)
next
  case False
  let ?w = "Inflights_window ins"
  define d where "d = length (takeWhile (\<lambda>x. x \<le> to) ?w)"
  have st: "in_start ins mod in_size ins = in_start ins" "in_start ins < length (in_buffer ins)"
    using inv False inv_slot [OF inv, of 0] by (auto simp: Inflights_inv_def)
  have w0: "?w = in_buffer ins ! in_start ins # tl ?w"
  proof -
    have "?w \<noteq> []" using False by (simp flip: length_greater_0_conv)
    then show ?thesis
      using False window_nth [of 0 ins] st by (cases ?w) (auto simp del: length_window)
  qed
  have dle: "d \<le> in_count ins" using length_takeWhile_le [of _ ?w] by (simp add: d_def)
  have dw: "dropWhile (\<lambda>x. x \<le> to) ?w = drop d ?w" by (simp add: d_def dropWhile_eq_drop)
  show ?thesis
  proof (cases "to < in_buffer ins ! in_start ins")
    case True
    have "dropWhile (\<lambda>x. x \<le> to) ?w = ?w"
      using True by (subst (1 2) w0) simp
    then show ?thesis using False True st inv by (simp add: Inflights_FreeLE_def)
  next
    case le: False
    have "Inflights_FreeLE ins to = Some (ins\<lparr>in_count := in_count ins - d,
        in_start := (if in_count ins - d = 0 then 0 else (in_start ins + d) mod in_size ins)\<rparr>)"
      using False le st FreeLE_loop_ok [OF inv, of 0 "in_count ins" to]
      by (simp add: Inflights_FreeLE_def Let_def d_def)
    then show ?thesis
      using inv_drop [OF inv, of d] window_drop [of d ins] dle dw
        reset_inv [OF inv] reset_window [of ins]
      by (cases "d = in_count ins") (auto simp: Inflights_reset_def simp del: dropWhile_eq_Nil_conv)
  qed
qed

text \<open>\<^verbatim>\<open>FreeFirstOne\<close> reads the first slot before it looks at the count.\<close>

lemma FreeLE_buffer: "Inflights_FreeLE ins to = Some ins' \<Longrightarrow> in_buffer ins' = in_buffer ins"
  by (auto simp: Inflights_FreeLE_def bind_eq_Some_conv Let_def split: if_splits)

lemma FreeFirstOne_ok:
  assumes inv: "Inflights_inv ins"
  shows "Inflights_FreeFirstOne ins = None \<longleftrightarrow> in_buffer ins = []"
    "Inflights_FreeFirstOne ins = Some ins' \<Longrightarrow> Inflights_inv ins' \<and> in_buffer ins' = in_buffer ins \<and>
       Inflights_window ins' = (case Inflights_window ins of [] \<Rightarrow> [] | x # xs \<Rightarrow> dropWhile (\<lambda>y. y \<le> x) xs)"
proof -
  let ?b = "in_buffer ins ! in_start ins"
  have i: "go_index (in_buffer ins) (in_start ins) = (if in_buffer ins = [] then None else Some ?b)"
    using inv by (auto simp: Inflights_inv_def go_index_def)
  obtain ins1 where f: "Inflights_FreeLE ins ?b = Some ins1" "Inflights_inv ins1"
      "Inflights_window ins1 = dropWhile (\<lambda>x. x \<le> ?b) (Inflights_window ins)"
    using FreeLE_ok [OF inv] by blast
  show "Inflights_FreeFirstOne ins = None \<longleftrightarrow> in_buffer ins = []"
    using i f(1) by (simp add: Inflights_FreeFirstOne_def)
  have h: "x = ?b" if "Inflights_window ins = x # xs" for x xs
  proof -
    have "0 < in_count ins" using that length_window [of ins] by (cases "in_count ins") auto
    then show ?thesis using that window_nth [of 0 ins] inv by (auto simp: Inflights_inv_def)
  qed
  show "Inflights_inv ins' \<and> in_buffer ins' = in_buffer ins \<and>
      Inflights_window ins' = (case Inflights_window ins of [] \<Rightarrow> [] | x # xs \<Rightarrow> dropWhile (\<lambda>y. y \<le> x) xs)"
    if "Inflights_FreeFirstOne ins = Some ins'"
  proof -
    have "ins' = ins1" using that i f(1) by (simp add: Inflights_FreeFirstOne_def split: if_splits)
    then show ?thesis using f h FreeLE_buffer [OF f(1)] by (auto split: list.split)
  qed
qed

lemma Add_buffer: "Inflights_Add ins x = Some ins' \<Longrightarrow> in_buffer ins' \<noteq> []"
  by (auto simp: Inflights_Add_def Let_def bind_eq_Some_conv go_update_def split: if_splits)

lemma inflights_exec_ok:
  assumes "inflights_exec c ins = Some ins'" "Inflights_inv ins"
  shows "Inflights_inv ins' \<and> (in_buffer ins' = [] \<longleftrightarrow> in_buffer ins = [] \<and> (\<forall>x. c \<noteq> OpAdd x))"
proof (cases c)
  case (OpAdd x)
  then show ?thesis
    using assms Add_ok [of ins x] Add_full [of ins x] Add_buffer by (cases "Inflights_Full ins") auto
next
  case (OpFreeLE to)
  then have "Inflights_FreeLE ins to = Some ins'" using assms(1) by simp
  then show ?thesis using FreeLE_ok [OF assms(2), of to] FreeLE_buffer [of ins to ins'] OpFreeLE by simp
next
  case OpFreeFirstOne
  then have "Inflights_FreeFirstOne ins = Some ins'" using assms(1) by simp
  then show ?thesis using FreeFirstOne_ok(2) [OF assms(2), of ins'] OpFreeFirstOne by simp
qed (use assms reset_inv in \<open>auto simp: Inflights_reset_def Inflights_Clone_def\<close>)

lemma inflights_run_ok:
  assumes "inflights_run cs ins = Some ins'" "Inflights_inv ins"
  shows "Inflights_inv ins' \<and> (in_buffer ins' = [] \<longleftrightarrow> in_buffer ins = [] \<and> (\<forall>x. OpAdd x \<notin> set cs))"
  using assms
proof (induction cs arbitrary: ins)
  case (Cons c cs)
  then obtain ins1 where "inflights_exec c ins = Some ins1" "inflights_run cs ins1 = Some ins'"
    by (auto simp: bind_eq_Some_conv)
  then show ?case using Cons.IH inflights_exec_ok [of c ins ins1] Cons.prems(2) by auto
qed simp

section \<open>The interface of the window\<close>

locale flow_window =
  fixes window :: "'w \<Rightarrow> u64 list"
    and capacity :: "'w \<Rightarrow> nat"
    and invar :: "'w \<Rightarrow> bool"
    and full :: "'w \<Rightarrow> bool"
    and add :: "'w \<Rightarrow> u64 \<Rightarrow> 'w option"
    and free :: "'w \<Rightarrow> u64 \<Rightarrow> 'w option"
    and clear :: "'w \<Rightarrow> 'w"
  assumes full_iff: "invar w \<Longrightarrow> full w \<longleftrightarrow> length (window w) = capacity w"
    and bounded: "invar w \<Longrightarrow> length (window w) \<le> capacity w"
    and add_full: "full w \<Longrightarrow> add w x = None"
    and add_room: "invar w \<Longrightarrow> \<not> full w \<Longrightarrow>
      \<exists>w'. add w x = Some w' \<and> invar w' \<and> window w' = window w @ [x] \<and> capacity w' = capacity w"
    and free_upto: "invar w \<Longrightarrow>
      \<exists>w'. free w k = Some w' \<and> invar w' \<and> window w' = dropWhile (\<lambda>x. x \<le> k) (window w) \<and>
        capacity w' = capacity w"
    and clear_all: "invar w \<Longrightarrow> invar (clear w) \<and> window (clear w) = [] \<and> capacity (clear w) = capacity w"
begin

lemma add_iff:
  assumes "invar w"
  shows "(\<exists>w'. add w x = Some w') \<longleftrightarrow> length (window w) < capacity w"
  using full_iff [OF assms] bounded [OF assms] add_full [of w x] add_room [OF assms, of x]
  by (cases "full w") auto

text \<open>With the indexes in order, a window freed up to \<open>k\<close> holds exactly the indexes above \<open>k\<close>.\<close>

lemma free_above:
  assumes "invar w" "sorted (window w)" "free w k = Some w'"
  shows "window w' = filter (\<lambda>x. k < x) (window w)" "sorted (window w')"
proof -
  have "window w' = dropWhile (\<lambda>x. x \<le> k) (window w)"
    using free_upto [OF assms(1), of k] assms(3) by auto
  also have "\<dots> = filter (\<lambda>x. k < x) (window w)"
    by (rule dropWhile_le_sorted [OF assms(2)])
  finally show "window w' = filter (\<lambda>x. k < x) (window w)" .
  then show "sorted (window w')" using assms(2) by (simp add: sorted_filter [of "\<lambda>x. x", simplified])
qed

end

interpretation inflights: flow_window
  Inflights_window in_size Inflights_inv Inflights_Full Inflights_Add Inflights_FreeLE Inflights_reset
proof unfold_locales
  show "Inflights_inv (Inflights_reset w) \<and> Inflights_window (Inflights_reset w) = [] \<and>
      in_size (Inflights_reset w) = in_size w" if "Inflights_inv w" for w
    using reset_inv [OF that] reset_window [of w] by (simp add: Inflights_reset_def)
qed (simp_all add: Inflights_Full_def Add_full Add_ok FreeLE_ok, simp add: Inflights_inv_def)

section \<open>Properties\<close>

text \<open>
  (C25) The ring buffer of in-flight messages is a bounded queue: adding succeeds exactly while the
  window is not full (it panics otherwise) and appends to the queue; freeing up to an index
  succeeds and removes the longest prefix of indexes not above it; both keep the ring well-formed.
\<close>

theorem inflights_refine_queue:
  assumes "Inflights_inv ins"
  shows "(Inflights_Add ins x = None \<longleftrightarrow> length (Inflights_window ins) = in_size ins) \<and>
     (\<forall>ins'. Inflights_Add ins x = Some ins' \<longrightarrow>
        Inflights_inv ins' \<and> Inflights_window ins' = Inflights_window ins @ [x]) \<and>
     (\<exists>ins'. Inflights_FreeLE ins to = Some ins' \<and> Inflights_inv ins' \<and>
        Inflights_window ins' = dropWhile (\<lambda>y. y \<le> to) (Inflights_window ins))"
proof (intro conjI allI impI)
  show "(Inflights_Add ins x = None) \<longleftrightarrow> length (Inflights_window ins) = in_size ins"
    using inflights.add_iff [OF assms, of x] inflights.bounded [OF assms] by (auto simp: not_less)
  fix ins'
  assume that: "Inflights_Add ins x = Some ins'"
  show "Inflights_inv ins'" "Inflights_window ins' = Inflights_window ins @ [x]"
    using inflights.add_room [OF assms, of x] inflights.add_full [of ins x] that
    by (cases "Inflights_Full ins"; auto)+
next
  show "\<exists>ins'. Inflights_FreeLE ins to = Some ins' \<and> Inflights_inv ins' \<and>
      Inflights_window ins' = dropWhile (\<lambda>y. y \<le> to) (Inflights_window ins)"
    using inflights.free_upto [OF assms, of to] by blast
qed

theorem inflights_refine_queue_witness:
  "Inflights_Add (NewInflights 0) 5 = None"
  using inflights_refine_queue [OF NewInflights_inv, of 0 5] by (simp add: NewInflights_def)

text \<open>
  (C40) Freeing the first in-flight message is not the no-op its comment promises when nothing is in flight:
  on a window that any sequence of operations leads to, it panics exactly when no operation was an
  \<^verbatim>\<open>Add\<close>, so that the buffer was never allocated. Otherwise an empty window stays empty, and from a window
  that is not empty the first index goes, with those after it up to the next larger one.
\<close>

theorem FreeFirstOne_panics_iff:
  assumes "inflights_run cs (NewInflights sz) = Some ins"
  shows "(Inflights_FreeFirstOne ins = None \<longleftrightarrow> (\<forall>x. OpAdd x \<notin> set cs)) \<and>
    (\<forall>ins'. Inflights_FreeFirstOne ins = Some ins' \<longrightarrow> Inflights_inv ins' \<and>
       Inflights_window ins' = (case Inflights_window ins of [] \<Rightarrow> [] | x # xs \<Rightarrow> dropWhile (\<lambda>y. y \<le> x) xs))"
proof
  have r: "Inflights_inv ins" "in_buffer ins = [] \<longleftrightarrow> in_buffer (NewInflights sz) = [] \<and> (\<forall>x. OpAdd x \<notin> set cs)"
    using inflights_run_ok [OF assms NewInflights_inv] by blast+
  show "Inflights_FreeFirstOne ins = None \<longleftrightarrow> (\<forall>x. OpAdd x \<notin> set cs)"
    using FreeFirstOne_ok(1) [OF r(1)] r(2) by (simp add: NewInflights_def)
  show "\<forall>ins'. Inflights_FreeFirstOne ins = Some ins' \<longrightarrow> Inflights_inv ins' \<and>
       Inflights_window ins' = (case Inflights_window ins of [] \<Rightarrow> [] | x # xs \<Rightarrow> dropWhile (\<lambda>y. y \<le> x) xs)"
    using FreeFirstOne_ok(2-) [OF r(1)] by blast
qed

theorem FreeFirstOne_panics_iff_witness:
  "inflights_run [OpFreeLE 7, OpReset] (NewInflights 4) = Some (NewInflights 4) \<and>
   Inflights_FreeFirstOne (NewInflights 4) = None \<and>
   (\<exists>ins. inflights_run [OpAdd 5, OpFreeLE 7] (NewInflights 4) = Some ins \<and> Inflights_window ins = [] \<and> Inflights_FreeFirstOne ins \<noteq> None)"
proof (intro conjI)
  show r: "inflights_run [OpFreeLE 7, OpReset] (NewInflights 4) = Some (NewInflights 4)" by code_simp
  show "Inflights_FreeFirstOne (NewInflights 4) = None" using FreeFirstOne_panics_iff [OF r] by simp
  have "map_option Inflights_window (inflights_run [OpAdd 5, OpFreeLE 7] (NewInflights 4)) = Some []" by code_simp
  then show "\<exists>ins. inflights_run [OpAdd 5, OpFreeLE 7] (NewInflights 4) = Some ins \<and> Inflights_window ins = [] \<and> Inflights_FreeFirstOne ins \<noteq> None"
    using FreeFirstOne_panics_iff [of "[OpAdd 5, OpFreeLE 7]" 4] by (auto simp del: inflights_run.simps)
qed

end
