(* ===== verification/Progress.thy ===== *)
theory Progress
  imports Inflights
begin

text \<open>
  \<^verbatim>\<open>raft/tracker/progress.go\<close> and \<^verbatim>\<open>state.go\<close>: what a leader knows about one follower. A progress is a
  small state machine; \<open>Progress_inv\<close> says which fields go with which state, and every
  transition keeps it.
\<close>

datatype ProgressState = StateProbe | StateReplicate | StateSnapshot

record Progress =
  pr_Match :: u64
  pr_Next :: u64
  pr_State :: ProgressState
  pr_PendingSnapshot :: u64
  pr_RecentActive :: bool
  pr_ProbeSent :: bool
  pr_Inflights :: Inflights
  pr_IsLearner :: bool

definition ResetState :: "ProgressState \<Rightarrow> Progress \<Rightarrow> Progress" where
  "ResetState state pr = pr\<lparr>pr_ProbeSent := False, pr_PendingSnapshot := 0, pr_State := state,
     pr_Inflights := Inflights_reset (pr_Inflights pr)\<rparr>"

definition ProbeAcked :: "Progress \<Rightarrow> Progress" where
  "ProbeAcked pr = pr\<lparr>pr_ProbeSent := False\<rparr>"

definition BecomeProbe :: "Progress \<Rightarrow> Progress" where
  "BecomeProbe pr =
     (if pr_State pr = StateSnapshot
      then let pendingSnapshot = pr_PendingSnapshot pr;
               pr = ResetState StateProbe pr
           in pr\<lparr>pr_Next := u64_max (pr_Match pr + 1) (pendingSnapshot + 1)\<rparr>
      else let pr = ResetState StateProbe pr
           in pr\<lparr>pr_Next := pr_Match pr + 1\<rparr>)"

definition BecomeReplicate :: "Progress \<Rightarrow> Progress" where
  "BecomeReplicate pr =
     (let pr = ResetState StateReplicate pr in pr\<lparr>pr_Next := pr_Match pr + 1\<rparr>)"

definition BecomeSnapshot :: "u64 \<Rightarrow> Progress \<Rightarrow> Progress" where
  "BecomeSnapshot snapshoti pr =
     (let pr = ResetState StateSnapshot pr in pr\<lparr>pr_PendingSnapshot := snapshoti\<rparr>)"

definition MaybeUpdate :: "u64 \<Rightarrow> Progress \<Rightarrow> Progress \<times> bool" where
  "MaybeUpdate n pr =
     (let (pr, updated) =
            (if pr_Match pr < n then (ProbeAcked (pr\<lparr>pr_Match := n\<rparr>), True) else (pr, False))
      in (pr\<lparr>pr_Next := u64_max (pr_Next pr) (n + 1)\<rparr>, updated))"

definition OptimisticUpdate :: "u64 \<Rightarrow> Progress \<Rightarrow> Progress" where
  "OptimisticUpdate n pr = pr\<lparr>pr_Next := n + 1\<rparr>"

definition MaybeDecrTo :: "u64 \<Rightarrow> u64 \<Rightarrow> Progress \<Rightarrow> Progress \<times> bool" where
  "MaybeDecrTo rejected matchHint pr =
     (if pr_State pr = StateReplicate
      then (if rejected \<le> pr_Match pr then (pr, False)
            else (pr\<lparr>pr_Next := pr_Match pr + 1\<rparr>, True))
      else if pr_Next pr - 1 \<noteq> rejected then (pr, False)
      else (pr\<lparr>pr_Next := u64_max (u64_min rejected (matchHint + 1)) 1, pr_ProbeSent := False\<rparr>, True))"

definition IsPaused :: "Progress \<Rightarrow> bool" where
  "IsPaused pr =
     (case pr_State pr of
        StateProbe \<Rightarrow> pr_ProbeSent pr
      | StateReplicate \<Rightarrow> Inflights_Full (pr_Inflights pr)
      | StateSnapshot \<Rightarrow> True)"

lemmas Progress_defs = ResetState_def ProbeAcked_def BecomeProbe_def BecomeReplicate_def
  BecomeSnapshot_def MaybeUpdate_def OptimisticUpdate_def MaybeDecrTo_def

section \<open>The invariant\<close>

text \<open>
  In-flight messages are only tracked while replicating, a pending snapshot only while one is
  being sent, and only a probed follower waits for the answer to a probe.
\<close>

definition Progress_inv :: "Progress \<Rightarrow> bool" where
  "Progress_inv pr \<longleftrightarrow>
     Inflights_inv (pr_Inflights pr) \<and>
     (pr_State pr \<noteq> StateReplicate \<longrightarrow> Inflights_window (pr_Inflights pr) = []) \<and>
     (pr_PendingSnapshot pr \<noteq> 0 \<longrightarrow> pr_State pr = StateSnapshot) \<and>
     (pr_ProbeSent pr \<longrightarrow> pr_State pr = StateProbe)"

named_theorems Progress_invs

lemma ResetState_inv [Progress_invs]: "Progress_inv pr \<Longrightarrow> Progress_inv (ResetState s pr)"
  by (auto simp: Progress_inv_def ResetState_def reset_inv)

lemma BecomeProbe_inv [Progress_invs]: "Progress_inv pr \<Longrightarrow> Progress_inv (BecomeProbe pr)"
  using ResetState_inv [of pr StateProbe]
  by (simp add: BecomeProbe_def Let_def Progress_inv_def)

lemma BecomeReplicate_inv [Progress_invs]: "Progress_inv pr \<Longrightarrow> Progress_inv (BecomeReplicate pr)"
  using ResetState_inv [of pr StateReplicate]
  by (simp add: BecomeReplicate_def Let_def Progress_inv_def)

lemma BecomeSnapshot_inv [Progress_invs]: "Progress_inv pr \<Longrightarrow> Progress_inv (BecomeSnapshot i pr)"
  using ResetState_inv [of pr StateSnapshot]
  by (simp add: BecomeSnapshot_def Let_def Progress_inv_def ResetState_def)

lemma MaybeUpdate_inv [Progress_invs]: "Progress_inv pr \<Longrightarrow> Progress_inv (fst (MaybeUpdate n pr))"
  by (simp add: MaybeUpdate_def ProbeAcked_def Progress_inv_def)

lemma OptimisticUpdate_inv [Progress_invs]: "Progress_inv pr \<Longrightarrow> Progress_inv (OptimisticUpdate n pr)"
  by (simp add: OptimisticUpdate_def Progress_inv_def)

lemma MaybeDecrTo_inv [Progress_invs]: "Progress_inv pr \<Longrightarrow> Progress_inv (fst (MaybeDecrTo r h pr))"
  by (auto simp: MaybeDecrTo_def Progress_inv_def)

section \<open>What the transitions do to the indexes\<close>

lemma MaybeUpdate_eq:
  "MaybeUpdate n pr =
     (pr\<lparr>pr_Match := max (pr_Match pr) n, pr_Next := max (pr_Next pr) (n + 1),
         pr_ProbeSent := (pr_ProbeSent pr \<and> \<not> pr_Match pr < n)\<rparr>, pr_Match pr < n)"
  by (cases pr) (auto simp: MaybeUpdate_def ProbeAcked_def max_def)

lemma MaybeUpdate_fields [simp]:
  "pr_Match (fst (MaybeUpdate n pr)) = max (pr_Match pr) n"
  "pr_Next (fst (MaybeUpdate n pr)) = max (pr_Next pr) (n + 1)"
  "pr_State (fst (MaybeUpdate n pr)) = pr_State pr"
  "pr_IsLearner (fst (MaybeUpdate n pr)) = pr_IsLearner pr"
  "pr_Inflights (fst (MaybeUpdate n pr)) = pr_Inflights pr"
  "snd (MaybeUpdate n pr) \<longleftrightarrow> pr_Match pr < n"
  by (simp_all add: MaybeUpdate_eq)

lemma Match_stable [simp]:
  "pr_Match (ResetState s pr) = pr_Match pr" "pr_Match (BecomeProbe pr) = pr_Match pr"
  "pr_Match (BecomeReplicate pr) = pr_Match pr" "pr_Match (BecomeSnapshot i pr) = pr_Match pr"
  "pr_Match (OptimisticUpdate n pr) = pr_Match pr" "pr_Match (fst (MaybeDecrTo r h pr)) = pr_Match pr"
  by (simp_all add: Progress_defs Let_def)

lemma IsLearner_stable [simp]:
  "pr_IsLearner (ResetState s pr) = pr_IsLearner pr" "pr_IsLearner (BecomeProbe pr) = pr_IsLearner pr"
  "pr_IsLearner (BecomeReplicate pr) = pr_IsLearner pr" "pr_IsLearner (BecomeSnapshot i pr) = pr_IsLearner pr"
  "pr_IsLearner (OptimisticUpdate n pr) = pr_IsLearner pr"
  "pr_IsLearner (fst (MaybeDecrTo r h pr)) = pr_IsLearner pr"
  by (simp_all add: Progress_defs Let_def)

lemma State_becomes [simp]:
  "pr_State (BecomeProbe pr) = StateProbe" "pr_State (BecomeReplicate pr) = StateReplicate"
  "pr_State (BecomeSnapshot i pr) = StateSnapshot"
  by (simp_all add: Progress_defs Let_def)

lemma size_stable [simp]:
  "in_size (pr_Inflights (ResetState s pr)) = in_size (pr_Inflights pr)"
  "in_size (pr_Inflights (BecomeProbe pr)) = in_size (pr_Inflights pr)"
  "in_size (pr_Inflights (BecomeReplicate pr)) = in_size (pr_Inflights pr)"
  "in_size (pr_Inflights (BecomeSnapshot i pr)) = in_size (pr_Inflights pr)"
  by (simp_all add: Progress_defs Let_def Inflights_reset_def)

text \<open>
  A genuine rejection of a probe makes the next probe strictly earlier, until the first index is
  reached; this is why probing ends.
\<close>

lemma MaybeDecrTo_decreases:
  assumes "pr_State pr \<noteq> StateReplicate" "snd (MaybeDecrTo r h pr)" "1 < pr_Next pr"
  shows "pr_Next (fst (MaybeDecrTo r h pr)) < pr_Next pr \<and> 1 \<le> pr_Next (fst (MaybeDecrTo r h pr))"
proof -
  have r: "r = pr_Next pr - 1" using assms(1,2) by (auto simp: MaybeDecrTo_def split: if_splits)
  have "pr_Next pr - 1 < pr_Next pr"
    using assms(3) by (simp add: word_less_nat_alt unat_sub_if')
  moreover have "1 \<le> pr_Next pr - 1"
    using assms(3) by (simp add: word_less_nat_alt word_le_nat_alt unat_sub_if')
  ultimately show ?thesis
    using assms r by (auto simp: MaybeDecrTo_def min_def max_def intro: le_less_trans)
qed

section \<open>Properties\<close>

text \<open>
  (C35) Every transition of a follower's progress keeps its invariant: in-flight messages are tracked
  only while replicating, a pending snapshot only while one is sent, an outstanding probe only
  while probing. No transition lowers the acknowledged index, and an acknowledgement raises it to
  at least its own index.
\<close>

theorem progress_transitions_keep_invariant:
  assumes "Progress_inv pr"
  shows "\<forall>pr' \<in> {BecomeProbe pr, BecomeReplicate pr, BecomeSnapshot i pr, OptimisticUpdate n pr,
       fst (MaybeUpdate n pr), fst (MaybeDecrTo n h pr)}. Progress_inv pr' \<and> pr_Match pr \<le> pr_Match pr' \<and>
     n \<le> pr_Match (fst (MaybeUpdate n pr))"
  using assms by (auto intro: Progress_invs)

theorem progress_transitions_keep_invariant_witness:
  "9 \<le> pr_Match (fst (MaybeUpdate 9 \<lparr>pr_Match = 2, pr_Next = 3, pr_State = StateProbe,
     pr_PendingSnapshot = 0, pr_RecentActive = True, pr_ProbeSent = True,
     pr_Inflights = NewInflights 4, pr_IsLearner = False\<rparr>))"
  using progress_transitions_keep_invariant [of "\<lparr>pr_Match = 2, pr_Next = 3, pr_State = StateProbe,
     pr_PendingSnapshot = 0, pr_RecentActive = True, pr_ProbeSent = True,
     pr_Inflights = NewInflights 4, pr_IsLearner = False\<rparr>" _ 9]
  by (simp add: Progress_inv_def NewInflights_inv)

text \<open>
  (C36) Probing ends: a rejection that is not stale moves the next index to probe strictly towards
  the beginning of the log, and never below 1; a stale rejection changes nothing.
\<close>

theorem probe_rejection_decreases:
  assumes "pr_State pr \<noteq> StateReplicate" "1 < pr_Next pr"
  shows "if snd (MaybeDecrTo r h pr)
     then 1 \<le> pr_Next (fst (MaybeDecrTo r h pr)) \<and> pr_Next (fst (MaybeDecrTo r h pr)) < pr_Next pr
     else fst (MaybeDecrTo r h pr) = pr"
  using assms MaybeDecrTo_decreases [of pr r h] by (auto simp: MaybeDecrTo_def)

theorem probe_rejection_decreases_witness:
  "pr_Next (fst (MaybeDecrTo 8 3 \<lparr>pr_Match = 2, pr_Next = 9, pr_State = StateProbe,
     pr_PendingSnapshot = 0, pr_RecentActive = True, pr_ProbeSent = True,
     pr_Inflights = NewInflights 4, pr_IsLearner = False\<rparr>)) < 9"
  using probe_rejection_decreases [of "\<lparr>pr_Match = 2, pr_Next = 9, pr_State = StateProbe,
     pr_PendingSnapshot = 0, pr_RecentActive = True, pr_ProbeSent = True,
     pr_Inflights = NewInflights 4, pr_IsLearner = False\<rparr>" 8 3]
  by (simp add: MaybeDecrTo_def)

end
