(* ===== verification/Tracker.thy ===== *)
theory Tracker
  imports Quorum Progress
begin

text \<open>
  \<^verbatim>\<open>raft/tracker/tracker.go\<close>: the active configuration, the progress of every peer in it and the
  votes of the current election. A \<^verbatim>\<open>map[uint64]*Progress\<close> is a finite \<open>mapping\<close>; a nil entry does
  not occur. The pointers of the map are not shared, so progresses are values.
\<close>

type_synonym ProgressMap = "(u64, Progress) mapping"

record TrackerConfig =
  cfg_Voters :: JointConfig
  cfg_AutoLeave :: bool
  cfg_Learners :: goset
  cfg_LearnersNext :: goset

record ProgressTracker =
  pt_Config :: TrackerConfig
  pt_Progress :: ProgressMap
  pt_Votes :: "(u64, bool) mapping"
  pt_MaxInflight :: nat

text \<open>\<^verbatim>\<open>Clone\<close> does not copy \<^verbatim>\<open>AutoLeave\<close>: the composite literal leaves it at its zero value.\<close>

definition Config_Clone :: "TrackerConfig \<Rightarrow> TrackerConfig" where
  "Config_Clone c = \<lparr>cfg_Voters = (fst (cfg_Voters c), snd (cfg_Voters c)), cfg_AutoLeave = False,
     cfg_Learners = cfg_Learners c, cfg_LearnersNext = cfg_LearnersNext c\<rparr>"

definition MakeProgressTracker :: "nat \<Rightarrow> ProgressTracker" where
  "MakeProgressTracker maxInflight =
     \<lparr>pt_Config = \<lparr>cfg_Voters = (Some {}, None), cfg_AutoLeave = False,
        cfg_Learners = None, cfg_LearnersNext = None\<rparr>,
      pt_Progress = Mapping.empty, pt_Votes = Mapping.empty, pt_MaxInflight = maxInflight\<rparr>"

definition pt_ConfState :: "ProgressTracker \<Rightarrow> ConfState" where
  "pt_ConfState p =
     \<lparr>cs_Voters = Slice (fst (cfg_Voters (pt_Config p))),
      cs_Learners = Slice (cfg_Learners (pt_Config p)),
      cs_VotersOutgoing = Slice (snd (cfg_Voters (pt_Config p))),
      cs_LearnersNext = Slice (cfg_LearnersNext (pt_Config p)),
      cs_AutoLeave = cfg_AutoLeave (pt_Config p)\<rparr>"

definition IsSingleton :: "ProgressTracker \<Rightarrow> bool" where
  "IsSingleton p \<longleftrightarrow>
     card (ids (fst (cfg_Voters (pt_Config p)))) = 1 \<and> card (ids (snd (cfg_Voters (pt_Config p)))) = 0"

definition matchAckIndexer :: "ProgressMap \<Rightarrow> AckedIndexer" where
  "matchAckIndexer l v = (case Mapping.lookup l v of None \<Rightarrow> None | Some pr \<Rightarrow> Some (pr_Match pr))"

definition pt_Committed :: "ProgressTracker \<Rightarrow> u64" where
  "pt_Committed p = joint_CommittedIndex (cfg_Voters (pt_Config p)) (matchAckIndexer (pt_Progress p))"

text \<open>
  \<^verbatim>\<open>Visit\<close> collects the identifiers from the right end of a slice, sorts them, and calls its
  closure on each. The identifiers are a list here; the callers fold their closure over it,
  looking each progress up at the time of the call as the source does.
\<close>

definition Visit_ids :: "ProgressMap \<Rightarrow> u64 list" where
  "Visit_ids ps = insertionSort (rev (range_ids (Mapping.keys ps)))"

definition Visit_update :: "(u64 \<Rightarrow> Progress \<Rightarrow> Progress) \<Rightarrow> ProgressMap \<Rightarrow> ProgressMap" where
  "Visit_update f ps =
     foldl (\<lambda>ps v. case Mapping.lookup ps v of None \<Rightarrow> ps | Some pr \<Rightarrow> Mapping.update v (f v pr) ps)
       ps (Visit_ids ps)"

definition QuorumActive :: "ProgressTracker \<Rightarrow> bool" where
  "QuorumActive p =
     (let votes = foldl (\<lambda>votes v. case Mapping.lookup (pt_Progress p) v of
                       None \<Rightarrow> votes
                     | Some pr \<Rightarrow> (if pr_IsLearner pr then votes
                                   else Mapping.update v (pr_RecentActive pr) votes))
                   Mapping.empty (Visit_ids (pt_Progress p))
      in joint_VoteResult (cfg_Voters (pt_Config p)) (Mapping.lookup votes) = VoteWon)"

definition VoterNodes :: "ProgressTracker \<Rightarrow> u64 list" where
  "VoterNodes p = sort (range_ids (joint_IDs (cfg_Voters (pt_Config p))))"

definition LearnerNodes :: "ProgressTracker \<Rightarrow> u64 list" where
  "LearnerNodes p =
     (if card (ids (cfg_Learners (pt_Config p))) = 0 then []
      else sort (range_ids (ids (cfg_Learners (pt_Config p)))))"

definition ResetVotes :: "ProgressTracker \<Rightarrow> ProgressTracker" where
  "ResetVotes p = p\<lparr>pt_Votes := Mapping.empty\<rparr>"

definition RecordVote :: "u64 \<Rightarrow> bool \<Rightarrow> ProgressTracker \<Rightarrow> ProgressTracker" where
  "RecordVote v b p =
     (case Mapping.lookup (pt_Votes p) v of
        None \<Rightarrow> p\<lparr>pt_Votes := Mapping.update v b (pt_Votes p)\<rparr>
      | Some _ \<Rightarrow> p)"

definition TallyVotes :: "ProgressTracker \<Rightarrow> nat \<times> nat \<times> VoteResult" where
  "TallyVotes p =
     (let (granted, rejected) =
        foldl (\<lambda>(granted, rejected) v.
            case Mapping.lookup (pt_Progress p) v of
              None \<Rightarrow> (granted, rejected)
            | Some pr \<Rightarrow>
                if pr_IsLearner pr then (granted, rejected)
                else (case Mapping.lookup (pt_Votes p) v of
                        None \<Rightarrow> (granted, rejected)
                      | Some True \<Rightarrow> (granted + 1, rejected)
                      | Some False \<Rightarrow> (granted, rejected + 1)))
          (0, 0) (range_ids (Mapping.keys (pt_Progress p)))
      in (granted, rejected, joint_VoteResult (cfg_Voters (pt_Config p)) (Mapping.lookup (pt_Votes p))))"

section \<open>Visiting\<close>

lemma Visit_ids_sorted: "Visit_ids ps = range_ids (Mapping.keys ps)"
proof -
  have "mset (rev (range_ids (Mapping.keys ps))) = mset (range_ids (Mapping.keys ps))" by simp
  then show ?thesis
    by (metis Visit_ids_def insertionSort_eq_sort properties_for_sort sorted_list_of_set.sorted_sorted_key_list_of_set
        sorted_sorted_list_of_set)
qed

lemma set_Visit_ids [simp]: "set (Visit_ids ps) = Mapping.keys ps"
  by (simp add: Visit_ids_sorted)

lemma distinct_Visit_ids [simp]: "distinct (Visit_ids ps)"
  by (simp add: Visit_ids_sorted)

lemma foldl_update_lookup:
  "distinct vs \<Longrightarrow>
   Mapping.lookup (foldl (\<lambda>ps v. case Mapping.lookup ps v of None \<Rightarrow> ps
                      | Some pr \<Rightarrow> Mapping.update v (f v pr) ps) ps vs) w =
     (if w \<in> set vs then map_option (f w) (Mapping.lookup ps w) else Mapping.lookup ps w)"
proof (induction vs arbitrary: ps)
  case (Cons v vs)
  then show ?case by (cases "Mapping.lookup ps v") (auto simp: Mapping.lookup_update')
qed simp

lemma lookup_Visit_update [simp]:
  "Mapping.lookup (Visit_update f ps) w = map_option (f w) (Mapping.lookup ps w)"
  by (cases "Mapping.lookup ps w")
     (simp_all add: Visit_update_def foldl_update_lookup keys_dom_lookup domI)

lemma keys_Visit_update [simp]: "Mapping.keys (Visit_update f ps) = Mapping.keys ps"
  by (auto simp: keys_dom_lookup dom_def)

lemma lookup_collect:
  "distinct vs \<Longrightarrow>
   Mapping.lookup (foldl (\<lambda>m v. case g v of None \<Rightarrow> m | Some pr \<Rightarrow>
       (if P pr then m else Mapping.update v (h pr) m)) m vs) w =
     (if w \<in> set vs \<and> (\<exists>pr. g w = Some pr \<and> \<not> P pr)
      then map_option h (g w) else Mapping.lookup m w)"
proof (induction vs arbitrary: m)
  case (Cons v vs)
  then show ?case by (cases "g v") (auto simp: Mapping.lookup_update')
qed simp

section \<open>Votes and activity\<close>

definition active_voters :: "ProgressMap \<Rightarrow> u64 set" where
  "active_voters ps = {v. \<exists>pr. Mapping.lookup ps v = Some pr \<and> \<not> pr_IsLearner pr \<and> pr_RecentActive pr}"

lemma QuorumActive_iff:
  "QuorumActive p \<longleftrightarrow>
     has_majority (ids (fst (cfg_Voters (pt_Config p)))) (active_voters (pt_Progress p)) \<and>
     has_majority (ids (snd (cfg_Voters (pt_Config p)))) (active_voters (pt_Progress p))"
proof -
  define votes where "votes = foldl (\<lambda>votes v. case Mapping.lookup (pt_Progress p) v of
       None \<Rightarrow> votes
     | Some pr \<Rightarrow> (if pr_IsLearner pr then votes else Mapping.update v (pr_RecentActive pr) votes))
     Mapping.empty (Visit_ids (pt_Progress p))"
  have "Mapping.lookup votes w = Some True \<longleftrightarrow> w \<in> active_voters (pt_Progress p)" for w
    unfolding votes_def active_voters_def
    by (subst lookup_collect [where g = "Mapping.lookup (pt_Progress p)"])
       (auto simp: keys_dom_lookup)
  then have "{v. Mapping.lookup votes v = Some True} = active_voters (pt_Progress p)" by blast
  then show ?thesis
    by (simp add: QuorumActive_def Let_def joint_VoteResult_cases flip: votes_def)
qed

lemma lookup_RecordVote:
  "Mapping.lookup (pt_Votes (RecordVote v b p)) w =
     (case Mapping.lookup (pt_Votes p) w of
        Some x \<Rightarrow> Some x | None \<Rightarrow> (if w = v then Some b else None))"
  by (auto simp: RecordVote_def Mapping.lookup_update' split: option.splits)

lemma RecordVote_fields [simp]:
  "pt_Config (RecordVote v b p) = pt_Config p" "pt_Progress (RecordVote v b p) = pt_Progress p"
  "pt_MaxInflight (RecordVote v b p) = pt_MaxInflight p"
  by (simp_all add: RecordVote_def split: option.splits)

lemma ResetVotes_fields [simp]:
  "pt_Config (ResetVotes p) = pt_Config p" "pt_Progress (ResetVotes p) = pt_Progress p"
  "pt_MaxInflight (ResetVotes p) = pt_MaxInflight p" "pt_Votes (ResetVotes p) = Mapping.empty"
  by (simp_all add: ResetVotes_def)

text \<open>The voting peers that granted or rejected.\<close>

definition voted :: "ProgressTracker \<Rightarrow> bool \<Rightarrow> u64 set" where
  "voted p b = {v. (\<exists>pr. Mapping.lookup (pt_Progress p) v = Some pr \<and> \<not> pr_IsLearner pr) \<and>
     Mapping.lookup (pt_Votes p) v = Some b}"

lemma foldl_tally:
  assumes "distinct vs"
  shows "foldl (\<lambda>(granted, rejected) v.
            case Mapping.lookup (pt_Progress p) v of
              None \<Rightarrow> (granted, rejected)
            | Some pr \<Rightarrow>
                if pr_IsLearner pr then (granted, rejected)
                else (case Mapping.lookup (pt_Votes p) v of
                        None \<Rightarrow> (granted, rejected)
                      | Some True \<Rightarrow> (granted + 1, rejected)
                      | Some False \<Rightarrow> (granted, rejected + 1))) (g, r) vs =
     (g + length (filter (\<lambda>v. v \<in> voted p True) vs), r + length (filter (\<lambda>v. v \<in> voted p False) vs))"
  using assms
proof (induction vs arbitrary: g r)
  case (Cons v vs)
  then show ?case
    by (cases "Mapping.lookup (pt_Progress p) v"; cases "Mapping.lookup (pt_Votes p) v")
       (auto simp: voted_def split: bool.splits)
qed simp

lemma TallyVotes_eq:
  "TallyVotes p = (card (voted p True), card (voted p False),
     joint_VoteResult (cfg_Voters (pt_Config p)) (Mapping.lookup (pt_Votes p)))"
proof -
  have "{v \<in> Mapping.keys (pt_Progress p). v \<in> voted p b} = voted p b" for b
    by (auto simp: voted_def keys_dom_lookup)
  then show ?thesis
    using foldl_tally [of "range_ids (Mapping.keys (pt_Progress p))" p 0 0]
    by (simp add: TallyVotes_def length_filter_distinct_card)
qed

section \<open>The configuration as a state\<close>

lemma Slice_simps [simp]: "set (Slice c) = ids c" "distinct (Slice c)" "sorted (Slice c)"
  by (simp_all add: Slice_def)

lemma Slice_eq_iff: "Slice c = Slice d \<longleftrightarrow> ids c = ids d"
  by (metis Slice_def Slice_simps(1))

lemma Config_Clone_fields [simp]:
  "cfg_Voters (Config_Clone c) = cfg_Voters c" "cfg_Learners (Config_Clone c) = cfg_Learners c"
  "cfg_LearnersNext (Config_Clone c) = cfg_LearnersNext c" "cfg_AutoLeave (Config_Clone c) = False"
  by (simp_all add: Config_Clone_def)

lemma Config_Clone_id_iff: "Config_Clone c = c \<longleftrightarrow> \<not> cfg_AutoLeave c"
  by (cases c) (auto simp: Config_Clone_def)

lemma pt_Committed_iff:
  assumes "ids (fst (cfg_Voters (pt_Config p))) \<noteq> {}" "0 < k"
  shows "k \<le> pt_Committed p \<longleftrightarrow>
     has_majority (ids (fst (cfg_Voters (pt_Config p)))) {v. \<exists>pr. Mapping.lookup (pt_Progress p) v = Some pr \<and> k \<le> pr_Match pr} \<and>
     has_majority (ids (snd (cfg_Voters (pt_Config p)))) {v. \<exists>pr. Mapping.lookup (pt_Progress p) v = Some pr \<and> k \<le> pr_Match pr}"
proof -
  have "acked_at (matchAckIndexer (pt_Progress p)) k =
      {v. \<exists>pr. Mapping.lookup (pt_Progress p) v = Some pr \<and> k \<le> pr_Match pr}"
    by (auto simp: acked_at_def matchAckIndexer_def split: option.splits)
  then show ?thesis using joint_CommittedIndex_iff [OF assms] by (simp add: pt_Committed_def)
qed

section \<open>Properties\<close>

text \<open>
  The tally of an election counts exactly the voting peers by their first answer: a later
  answer of the same peer is ignored, and the outcome is that of the joint configuration.
\<close>

theorem tally_counts_first_votes:
  "TallyVotes (RecordVote v b p) =
     (card (voted (RecordVote v b p) True), card (voted (RecordVote v b p) False),
      joint_VoteResult (cfg_Voters (pt_Config p))
        (\<lambda>w. case Mapping.lookup (pt_Votes p) w of
               Some x \<Rightarrow> Some x | None \<Rightarrow> (if w = v then Some b else None)))"
  by (simp add: TallyVotes_eq lookup_RecordVote [abs_def])

text \<open>
  The leader's activity check passes exactly if the peers that are voters (not learners) and
  were recently active contain a majority of each half of the configuration.
\<close>

theorem quorum_active_spec:
  "QuorumActive p \<longleftrightarrow>
     has_majority (ids (fst (cfg_Voters (pt_Config p)))) (active_voters (pt_Progress p)) \<and>
     has_majority (ids (snd (cfg_Voters (pt_Config p)))) (active_voters (pt_Progress p))"
  by (rule QuorumActive_iff)

text \<open>
  (C38) Copying a configuration loses a flag: the copy equals the original exactly if the original
  does not leave its joint configuration automatically.
\<close>

theorem config_clone_loses_auto_leave: "Config_Clone c = c \<longleftrightarrow> \<not> cfg_AutoLeave c"
  by (rule Config_Clone_id_iff)

end
