(* ===== verification/Conf_Change.thy ===== *)
theory Conf_Change
  imports Tracker
begin

text \<open>
  \<^verbatim>\<open>raft/confchange\<close>: validated changes of the configuration (\<^verbatim>\<open>confchange.go\<close>) and the
  reconstruction of a configuration from a \<^verbatim>\<open>ConfState\<close> (\<^verbatim>\<open>restore.go\<close>).

  A \<^verbatim>\<open>Changer\<close> method returns an error or a configuration with its progress map (a sum), and
  \<open>None\<close> where the source would panic (a write to a nil map, a nil progress). An abstract
  configuration, four sets of members, specifies what the changes do; the operations on maps
  refine it.
\<close>

datatype ConfErr =
    NoProgress u64 | NextNotOutgoing u64 | NextIsLearner u64
  | LearnerOutgoing u64 | LearnerIncoming u64 | LearnerNotMarked u64
  | OutgoingNotNil | LearnersNextNotNil | AutoLeaveNotJoint
  | AlreadyJoint | ZeroVoterJoint | NotJoint | NotJointConfig
  | SimpleInJoint | ManyVotersChanged | UnexpectedConfType | RemovedAllVoters

record Changer =
  chg_Tracker :: ProgressTracker
  chg_LastIndex :: u64

type_synonym conf = "TrackerConfig \<times> ProgressMap"
type_synonym conf_result = "(ConfErr + conf) option"

definition incoming :: "JointConfig \<Rightarrow> MajorityConfig" where
  "incoming voters = fst voters"

definition outgoing :: "JointConfig \<Rightarrow> MajorityConfig" where
  "outgoing voters = snd voters"

definition joint :: "TrackerConfig \<Rightarrow> bool" where
  "joint cfg \<longleftrightarrow> card (ids (outgoing (cfg_Voters cfg))) > 0"

definition nilAwareAdd :: "u64 \<Rightarrow> goset \<Rightarrow> goset" where
  "nilAwareAdd v m = (case m of None \<Rightarrow> Some {v} | Some s \<Rightarrow> Some (insert v s))"

definition nilAwareDelete :: "u64 \<Rightarrow> goset \<Rightarrow> goset" where
  "nilAwareDelete v m =
     (case m of None \<Rightarrow> None
      | Some s \<Rightarrow> let s = s - {v} in if card s = 0 then None else Some s)"

definition symdiff :: "u64 set \<Rightarrow> u64 set \<Rightarrow> nat" where
  "symdiff l r = length (filter (\<lambda>v. v \<notin> r) (range_ids l)) + length (filter (\<lambda>v. v \<notin> l) (range_ids r))"

section \<open>The invariants the code checks\<close>

text \<open>The first error found among the members of a set, visited in increasing order.\<close>

fun find_err :: "(u64 \<Rightarrow> ConfErr option) \<Rightarrow> u64 list \<Rightarrow> ConfErr option" where
  "find_err f [] = None"
| "find_err f (v # vs) = (case f v of Some e \<Rightarrow> Some e | None \<Rightarrow> find_err f vs)"

definition is_learner :: "ProgressMap \<Rightarrow> u64 \<Rightarrow> bool" where
  "is_learner prs v = (case Mapping.lookup prs v of None \<Rightarrow> False | Some pr \<Rightarrow> pr_IsLearner pr)"

definition has_progress_err :: "ProgressMap \<Rightarrow> u64 \<Rightarrow> ConfErr option" where
  "has_progress_err prs v = (if Mapping.lookup prs v = None then Some (NoProgress v) else None)"

definition checkInvariants :: "TrackerConfig \<Rightarrow> ProgressMap \<Rightarrow> ConfErr option" where
  "checkInvariants cfg prs =
     (case find_err (has_progress_err prs)
        (range_ids (joint_IDs (cfg_Voters cfg)) @ range_ids (ids (cfg_Learners cfg)) @
         range_ids (ids (cfg_LearnersNext cfg))) of
        Some e \<Rightarrow> Some e
      | None \<Rightarrow>
     (case find_err (\<lambda>v. if v \<notin> ids (outgoing (cfg_Voters cfg)) then Some (NextNotOutgoing v)
                         else if is_learner prs v then Some (NextIsLearner v) else None)
        (range_ids (ids (cfg_LearnersNext cfg))) of
        Some e \<Rightarrow> Some e
      | None \<Rightarrow>
     (case find_err (\<lambda>v. if v \<in> ids (outgoing (cfg_Voters cfg)) then Some (LearnerOutgoing v)
                         else if v \<in> ids (incoming (cfg_Voters cfg)) then Some (LearnerIncoming v)
                         else if \<not> is_learner prs v then Some (LearnerNotMarked v) else None)
        (range_ids (ids (cfg_Learners cfg))) of
        Some e \<Rightarrow> Some e
      | None \<Rightarrow>
     (if \<not> joint cfg
      then (if outgoing (cfg_Voters cfg) \<noteq> None then Some OutgoingNotNil
            else if cfg_LearnersNext cfg \<noteq> None then Some LearnersNextNotNil
            else if cfg_AutoLeave cfg then Some AutoLeaveNotJoint else None)
      else None))))"

definition checkAndReturn :: "TrackerConfig \<Rightarrow> ProgressMap \<Rightarrow> ConfErr + conf" where
  "checkAndReturn cfg prs =
     (case checkInvariants cfg prs of Some e \<Rightarrow> Inl e | None \<Rightarrow> Inr (cfg, prs))"

definition checkAndCopy :: "Changer \<Rightarrow> ConfErr + conf" where
  "checkAndCopy c =
     checkAndReturn (Config_Clone (pt_Config (chg_Tracker c))) (pt_Progress (chg_Tracker c))"

section \<open>Changing one member\<close>

definition initProgress :: "Changer \<Rightarrow> TrackerConfig \<Rightarrow> ProgressMap \<Rightarrow> u64 \<Rightarrow> bool \<Rightarrow> conf option" where
  "initProgress c cfg prs v isLearner =
     do {
       cfg \<leftarrow> (if \<not> isLearner
               then do { inc \<leftarrow> goset_insert v (incoming (cfg_Voters cfg));
                         Some (cfg\<lparr>cfg_Voters := (inc, outgoing (cfg_Voters cfg))\<rparr>) }
               else Some (cfg\<lparr>cfg_Learners := nilAwareAdd v (cfg_Learners cfg)\<rparr>));
       Some (cfg, Mapping.update v
         \<lparr>pr_Match = 0, pr_Next = chg_LastIndex c, pr_State = StateProbe, pr_PendingSnapshot = 0,
          pr_RecentActive = True, pr_ProbeSent = False,
          pr_Inflights = NewInflights (pt_MaxInflight (chg_Tracker c)), pr_IsLearner = isLearner\<rparr> prs)
     }"

definition makeVoter :: "Changer \<Rightarrow> TrackerConfig \<Rightarrow> ProgressMap \<Rightarrow> u64 \<Rightarrow> conf option" where
  "makeVoter c cfg prs v =
     (case Mapping.lookup prs v of
        None \<Rightarrow> initProgress c cfg prs v False
      | Some pr \<Rightarrow>
          do {
            inc \<leftarrow> goset_insert v (incoming (cfg_Voters cfg));
            Some (cfg\<lparr>cfg_Learners := nilAwareDelete v (cfg_Learners cfg),
                      cfg_LearnersNext := nilAwareDelete v (cfg_LearnersNext cfg),
                      cfg_Voters := (inc, outgoing (cfg_Voters cfg))\<rparr>,
                  Mapping.update v (pr\<lparr>pr_IsLearner := False\<rparr>) prs)
          })"

definition remove_member :: "TrackerConfig \<Rightarrow> ProgressMap \<Rightarrow> u64 \<Rightarrow> conf" where
  "remove_member cfg prs v =
     (if Mapping.lookup prs v = None then (cfg, prs)
      else (cfg\<lparr>cfg_Voters := (goset_delete v (incoming (cfg_Voters cfg)), outgoing (cfg_Voters cfg)),
                cfg_Learners := nilAwareDelete v (cfg_Learners cfg),
                cfg_LearnersNext := nilAwareDelete v (cfg_LearnersNext cfg)\<rparr>,
            if v \<notin> ids (outgoing (cfg_Voters cfg)) then Mapping.delete v prs else prs))"

definition makeLearner :: "Changer \<Rightarrow> TrackerConfig \<Rightarrow> ProgressMap \<Rightarrow> u64 \<Rightarrow> conf option" where
  "makeLearner c cfg prs v =
     (case Mapping.lookup prs v of
        None \<Rightarrow> initProgress c cfg prs v True
      | Some pr \<Rightarrow>
          if pr_IsLearner pr then Some (cfg, prs)
          else
            let (cfg, prs) = remove_member cfg prs v in
            if v \<in> ids (outgoing (cfg_Voters cfg))
            then Some (cfg\<lparr>cfg_LearnersNext := nilAwareAdd v (cfg_LearnersNext cfg)\<rparr>,
                       Mapping.update v pr prs)
            else Some (cfg\<lparr>cfg_Learners := nilAwareAdd v (cfg_Learners cfg)\<rparr>,
                       Mapping.update v (pr\<lparr>pr_IsLearner := True\<rparr>) prs))"

fun apply_changes :: "Changer \<Rightarrow> ConfChangeSingle list \<Rightarrow> conf \<Rightarrow> conf_result" where
  "apply_changes c [] (cfg, prs) =
     Some (if card (ids (incoming (cfg_Voters cfg))) = 0 then Inl RemovedAllVoters else Inr (cfg, prs))"
| "apply_changes c (cc # ccs) (cfg, prs) =
     (if ccs_NodeID cc = 0 then apply_changes c ccs (cfg, prs)
      else (case ccs_Type cc of
              ConfChangeAddNode \<Rightarrow> makeVoter c cfg prs (ccs_NodeID cc) \<bind> apply_changes c ccs
            | ConfChangeAddLearnerNode \<Rightarrow> makeLearner c cfg prs (ccs_NodeID cc) \<bind> apply_changes c ccs
            | ConfChangeRemoveNode \<Rightarrow> apply_changes c ccs (remove_member cfg prs (ccs_NodeID cc))
            | ConfChangeUpdateNode \<Rightarrow> apply_changes c ccs (cfg, prs)
            | ConfChangeTypeOther w \<Rightarrow> Some (Inl UnexpectedConfType)))"

section \<open>The three transitions\<close>

definition EnterJoint :: "Changer \<Rightarrow> bool \<Rightarrow> ConfChangeSingle list \<Rightarrow> conf_result" where
  "EnterJoint c autoLeave ccs =
     (case checkAndCopy c of
        Inl e \<Rightarrow> Some (Inl e)
      | Inr (cfg, prs) \<Rightarrow>
          if joint cfg then Some (Inl AlreadyJoint)
          else if card (ids (incoming (cfg_Voters cfg))) = 0 then Some (Inl ZeroVoterJoint)
          else
            let cfg = cfg\<lparr>cfg_Voters := (incoming (cfg_Voters cfg), Some (ids (incoming (cfg_Voters cfg))))\<rparr> in
            do {
              res \<leftarrow> apply_changes c ccs (cfg, prs);
              Some (case res of Inl e \<Rightarrow> Inl e
                    | Inr (cfg, prs) \<Rightarrow> checkAndReturn (cfg\<lparr>cfg_AutoLeave := autoLeave\<rparr>) prs)
            })"

text \<open>Moving the staged learners into the learners; a staged learner without progress panics.\<close>

fun stage_learners :: "u64 list \<Rightarrow> goset \<Rightarrow> ProgressMap \<Rightarrow> (goset \<times> ProgressMap) option" where
  "stage_learners [] learners prs = Some (learners, prs)"
| "stage_learners (v # vs) learners prs =
     (case Mapping.lookup prs v of
        None \<Rightarrow> None
      | Some pr \<Rightarrow> stage_learners vs (nilAwareAdd v learners)
                     (Mapping.update v (pr\<lparr>pr_IsLearner := True\<rparr>) prs))"

definition LeaveJoint :: "Changer \<Rightarrow> conf_result" where
  "LeaveJoint c =
     (case checkAndCopy c of
        Inl e \<Rightarrow> Some (Inl e)
      | Inr (cfg, prs) \<Rightarrow>
          if \<not> joint cfg then Some (Inl NotJoint)
          else if card (ids (outgoing (cfg_Voters cfg))) = 0 then Some (Inl NotJointConfig)
          else do {
            (learners, prs) \<leftarrow> stage_learners (range_ids (ids (cfg_LearnersNext cfg))) (cfg_Learners cfg) prs;
            let cfg = cfg\<lparr>cfg_Learners := learners, cfg_LearnersNext := None\<rparr>;
                prs = foldl (\<lambda>prs v. if v \<notin> ids (incoming (cfg_Voters cfg)) \<and> v \<notin> ids (cfg_Learners cfg)
                                     then Mapping.delete v prs else prs)
                        prs (range_ids (ids (outgoing (cfg_Voters cfg))));
                cfg = cfg\<lparr>cfg_Voters := (incoming (cfg_Voters cfg), None), cfg_AutoLeave := False\<rparr>
            in Some (checkAndReturn cfg prs)
          })"

definition Simple :: "Changer \<Rightarrow> ConfChangeSingle list \<Rightarrow> conf_result" where
  "Simple c ccs =
     (case checkAndCopy c of
        Inl e \<Rightarrow> Some (Inl e)
      | Inr (cfg, prs) \<Rightarrow>
          if joint cfg then Some (Inl SimpleInJoint)
          else do {
            res \<leftarrow> apply_changes c ccs (cfg, prs);
            Some (case res of Inl e \<Rightarrow> Inl e
                  | Inr (cfg, prs) \<Rightarrow>
                      if symdiff (ids (incoming (cfg_Voters (pt_Config (chg_Tracker c)))))
                                 (ids (incoming (cfg_Voters cfg))) > 1
                      then Inl ManyVotersChanged
                      else checkAndReturn cfg prs)
          })"

section \<open>Restoring a configuration\<close>

definition toConfChangeSingle :: "ConfState \<Rightarrow> ConfChangeSingle list \<times> ConfChangeSingle list" where
  "toConfChangeSingle cs =
     (map (\<lambda>v. \<lparr>ccs_Type = ConfChangeAddNode, ccs_NodeID = v\<rparr>) (cs_VotersOutgoing cs),
      map (\<lambda>v. \<lparr>ccs_Type = ConfChangeRemoveNode, ccs_NodeID = v\<rparr>) (cs_VotersOutgoing cs) @
      map (\<lambda>v. \<lparr>ccs_Type = ConfChangeAddNode, ccs_NodeID = v\<rparr>) (cs_Voters cs) @
      map (\<lambda>v. \<lparr>ccs_Type = ConfChangeAddLearnerNode, ccs_NodeID = v\<rparr>) (cs_Learners cs) @
      map (\<lambda>v. \<lparr>ccs_Type = ConfChangeAddLearnerNode, ccs_NodeID = v\<rparr>) (cs_LearnersNext cs))"

fun chain :: "Changer \<Rightarrow> (Changer \<Rightarrow> conf_result) list \<Rightarrow> conf_result" where
  "chain chg [] = Some (Inr (pt_Config (chg_Tracker chg), pt_Progress (chg_Tracker chg)))"
| "chain chg (op # ops) =
     do {
       res \<leftarrow> op chg;
       case res of
         Inl e \<Rightarrow> Some (Inl e)
       | Inr (cfg, prs) \<Rightarrow>
           chain (chg\<lparr>chg_Tracker := (chg_Tracker chg)\<lparr>pt_Config := cfg, pt_Progress := prs\<rparr>\<rparr>) ops
     }"

definition Restore :: "Changer \<Rightarrow> ConfState \<Rightarrow> conf_result" where
  "Restore chg cs =
     (let (out, inc) = toConfChangeSingle cs;
          ops = (if length out = 0 then map (\<lambda>cc chg. Simple chg [cc]) inc
                 else map (\<lambda>cc chg. Simple chg [cc]) out @ [\<lambda>chg. EnterJoint chg (cs_AutoLeave cs) inc])
      in chain chg ops)"

end
