(* ===== verification/Conf_Spec.thy ===== *)
theory Conf_Spec
  imports Conf_Change
begin

text \<open>
  What the configuration changes of \<open>Conf_Change\<close> promise. The abstract configuration is four
  sets of members; \<open>mem_change\<close> is the effect of one change on it. \<open>conf_inv\<close> relates the two: the
  sets are disjoint the way the comments of the source ask for, and the progress map has exactly
  the members. Every operation refines its abstract counterpart and keeps the invariant, so that
  the checks at the end of an operation never fail; the errors left are the documented ones.
\<close>

record Members =
  inc :: "u64 set"
  out :: "u64 set"
  lrn :: "u64 set"
  nxt :: "u64 set"

definition members :: "TrackerConfig \<Rightarrow> Members" where
  "members cfg = \<lparr>inc = ids (incoming (cfg_Voters cfg)), out = ids (outgoing (cfg_Voters cfg)),
     lrn = ids (cfg_Learners cfg), nxt = ids (cfg_LearnersNext cfg)\<rparr>"

definition mem_add :: "u64 \<Rightarrow> Members \<Rightarrow> Members" where
  "mem_add v m = m\<lparr>inc := insert v (inc m), lrn := lrn m - {v}, nxt := nxt m - {v}\<rparr>"

definition mem_remove :: "u64 \<Rightarrow> Members \<Rightarrow> Members" where
  "mem_remove v m = m\<lparr>inc := inc m - {v}, lrn := lrn m - {v}, nxt := nxt m - {v}\<rparr>"

definition mem_learn :: "u64 \<Rightarrow> Members \<Rightarrow> Members" where
  "mem_learn v m =
     (if v \<in> lrn m then m
      else if v \<in> out m then m\<lparr>inc := inc m - {v}, nxt := insert v (nxt m)\<rparr>
      else m\<lparr>inc := inc m - {v}, lrn := insert v (lrn m)\<rparr>)"

definition mem_change :: "Members \<Rightarrow> ConfChangeSingle \<Rightarrow> Members" where
  "mem_change m cc =
     (if ccs_NodeID cc = 0 then m
      else (case ccs_Type cc of
              ConfChangeAddNode \<Rightarrow> mem_add (ccs_NodeID cc) m
            | ConfChangeAddLearnerNode \<Rightarrow> mem_learn (ccs_NodeID cc) m
            | ConfChangeRemoveNode \<Rightarrow> mem_remove (ccs_NodeID cc) m
            | ConfChangeUpdateNode \<Rightarrow> m
            | ConfChangeTypeOther w \<Rightarrow> m))"

definition known_change :: "ConfChangeSingle \<Rightarrow> bool" where
  "known_change cc \<longleftrightarrow> ccs_NodeID cc = 0 \<or> (\<forall>w. ccs_Type cc \<noteq> ConfChangeTypeOther w)"

section \<open>The invariant\<close>

definition members_inv :: "TrackerConfig \<Rightarrow> ProgressMap \<Rightarrow> bool" where
  "members_inv cfg prs \<longleftrightarrow>
     incoming (cfg_Voters cfg) \<noteq> None \<and> outgoing (cfg_Voters cfg) \<noteq> Some {} \<and>
     cfg_Learners cfg \<noteq> Some {} \<and> cfg_LearnersNext cfg \<noteq> Some {} \<and>
     Mapping.keys prs = inc (members cfg) \<union> out (members cfg) \<union> lrn (members cfg) \<and>
     nxt (members cfg) \<subseteq> out (members cfg) \<and> nxt (members cfg) \<inter> inc (members cfg) = {} \<and>
     lrn (members cfg) \<inter> (inc (members cfg) \<union> out (members cfg)) = {} \<and>
     (\<forall>v. is_learner prs v \<longleftrightarrow> v \<in> lrn (members cfg))"

definition conf_inv :: "TrackerConfig \<Rightarrow> ProgressMap \<Rightarrow> bool" where
  "conf_inv cfg prs \<longleftrightarrow> members_inv cfg prs \<and> (cfg_AutoLeave cfg \<longrightarrow> out (members cfg) \<noteq> {})"

lemma members_simps [simp]:
  "inc (members cfg) = ids (incoming (cfg_Voters cfg))"
  "out (members cfg) = ids (outgoing (cfg_Voters cfg))"
  "lrn (members cfg) = ids (cfg_Learners cfg)" "nxt (members cfg) = ids (cfg_LearnersNext cfg)"
  by (simp_all add: members_def)

lemma incoming_outgoing [simp]: "incoming (a, b) = a" "outgoing (a, b) = b"
  by (simp_all add: incoming_def outgoing_def)

lemma ids_nilAware [simp]:
  "ids (nilAwareAdd v m) = insert v (ids m)" "ids (nilAwareDelete v m) = ids m - {v}"
  "nilAwareAdd v m \<noteq> Some {}" "m \<noteq> Some {} \<Longrightarrow> nilAwareDelete v m \<noteq> Some {}"
  by (cases m; auto simp: nilAwareAdd_def nilAwareDelete_def Let_def)+

lemma joint_iff: "joint cfg \<longleftrightarrow> ids (outgoing (cfg_Voters cfg)) \<noteq> {}"
  by (simp add: joint_def card_gt_0_iff)

lemma find_err_None_iff: "find_err f vs = None \<longleftrightarrow> (\<forall>v \<in> set vs. f v = None)"
  by (induction vs) (auto split: option.splits)

lemma is_learner_upd [simp]:
  "is_learner (Mapping.update v pr prs) w = (if w = v then pr_IsLearner pr else is_learner prs w)"
  "is_learner (Mapping.delete v prs) w = (w \<noteq> v \<and> is_learner prs w)"
  by (auto simp: is_learner_def lookup_simps split: option.splits)

lemma in_keys_lookup: "v \<in> Mapping.keys prs \<longleftrightarrow> (\<exists>pr. Mapping.lookup prs v = Some pr)"
  by (auto simp: keys_dom_lookup)

lemma ids_empty_None: "m \<noteq> Some {} \<Longrightarrow> ids m = {} \<longleftrightarrow> m = None"
  by (cases m) auto

lemma checkInvariants_ok:
  assumes "conf_inv cfg prs"
  shows "checkInvariants cfg prs = None"
proof -
  have "find_err (has_progress_err prs)
      (range_ids (joint_IDs (cfg_Voters cfg)) @ range_ids (ids (cfg_Learners cfg)) @
       range_ids (ids (cfg_LearnersNext cfg))) = None"
    using assms unfolding find_err_None_iff has_progress_err_def conf_inv_def members_inv_def
    by (auto simp: joint_IDs_def incoming_def outgoing_def keys_dom_lookup dom_def)
  moreover have "find_err (\<lambda>v. if v \<notin> ids (outgoing (cfg_Voters cfg)) then Some (NextNotOutgoing v)
       else if is_learner prs v then Some (NextIsLearner v) else None)
      (range_ids (ids (cfg_LearnersNext cfg))) = None"
    using assms by (auto simp: find_err_None_iff conf_inv_def members_inv_def)
  moreover have "find_err (\<lambda>v. if v \<in> ids (outgoing (cfg_Voters cfg)) then Some (LearnerOutgoing v)
       else if v \<in> ids (incoming (cfg_Voters cfg)) then Some (LearnerIncoming v)
       else if \<not> is_learner prs v then Some (LearnerNotMarked v) else None)
      (range_ids (ids (cfg_Learners cfg))) = None"
    using assms by (auto simp: find_err_None_iff conf_inv_def members_inv_def)
  moreover have "outgoing (cfg_Voters cfg) = None \<and> cfg_LearnersNext cfg = None \<and> \<not> cfg_AutoLeave cfg"
    if "\<not> joint cfg"
    using assms that by (auto simp: joint_iff conf_inv_def members_inv_def ids_empty_None)
  ultimately show ?thesis by (auto simp: checkInvariants_def)
qed

lemma checkAndReturn_ok: "conf_inv cfg prs \<Longrightarrow> checkAndReturn cfg prs = Inr (cfg, prs)"
  by (simp add: checkAndReturn_def checkInvariants_ok)

lemma checkAndCopy_ok:
  assumes "conf_inv (pt_Config (chg_Tracker c)) (pt_Progress (chg_Tracker c))"
  shows "checkAndCopy c = Inr (Config_Clone (pt_Config (chg_Tracker c)), pt_Progress (chg_Tracker c))"
    and "conf_inv (Config_Clone (pt_Config (chg_Tracker c))) (pt_Progress (chg_Tracker c))"
    and "members (Config_Clone (pt_Config (chg_Tracker c))) = members (pt_Config (chg_Tracker c))"
proof -
  show m: "members (Config_Clone (pt_Config (chg_Tracker c))) = members (pt_Config (chg_Tracker c))"
    by (simp add: members_def)
  show "conf_inv (Config_Clone (pt_Config (chg_Tracker c))) (pt_Progress (chg_Tracker c))"
    using assms by (simp add: conf_inv_def members_inv_def)
  then show "checkAndCopy c = Inr (Config_Clone (pt_Config (chg_Tracker c)), pt_Progress (chg_Tracker c))"
    by (simp add: checkAndCopy_def checkAndReturn_ok)
qed

section \<open>Refinement of the single changes\<close>

lemma initProgress_ok:
  assumes "members_inv cfg prs" "Mapping.lookup prs v = None"
  shows "\<exists>cfg' prs'. initProgress c cfg prs v b = Some (cfg', prs') \<and> members_inv cfg' prs' \<and>
     members cfg' = (if b then mem_learn v (members cfg) else mem_add v (members cfg)) \<and>
     cfg_AutoLeave cfg' = cfg_AutoLeave cfg"
proof -
  obtain I where I: "incoming (cfg_Voters cfg) = Some I"
    using assms by (auto simp: members_inv_def)
  have "v \<notin> Mapping.keys prs" using assms(2) by (simp add: in_keys_lookup)
  then have v: "v \<notin> I" "v \<notin> ids (outgoing (cfg_Voters cfg))" "v \<notin> ids (cfg_Learners cfg)"
      "v \<notin> ids (cfg_LearnersNext cfg)"
    using assms(1) I by (auto simp: members_inv_def)
  show ?thesis
    using assms(1) I v
    by (cases b) (auto simp: initProgress_def members_inv_def members_def mem_learn_def mem_add_def)
qed

lemma makeVoter_ok:
  assumes "members_inv cfg prs"
  shows "\<exists>cfg' prs'. makeVoter c cfg prs v = Some (cfg', prs') \<and> members_inv cfg' prs' \<and>
     members cfg' = mem_add v (members cfg) \<and> cfg_AutoLeave cfg' = cfg_AutoLeave cfg"
proof (cases "Mapping.lookup prs v")
  case None
  then show ?thesis using initProgress_ok [OF assms None, of c False] by (simp add: makeVoter_def)
next
  case (Some pr)
  obtain I where I: "incoming (cfg_Voters cfg) = Some I"
    using assms by (auto simp: members_inv_def)
  have "v \<in> Mapping.keys prs" using Some by (auto simp: in_keys_lookup)
  then show ?thesis
    using assms Some I
    by (auto simp: makeVoter_def members_inv_def members_def mem_add_def)
qed

lemma remove_member_ok:
  assumes "members_inv cfg prs"
  shows "members_inv (fst (remove_member cfg prs v)) (snd (remove_member cfg prs v)) \<and>
     members (fst (remove_member cfg prs v)) = mem_remove v (members cfg) \<and>
     cfg_AutoLeave (fst (remove_member cfg prs v)) = cfg_AutoLeave cfg"
proof -
  obtain I where I: "incoming (cfg_Voters cfg) = Some I"
    using assms by (auto simp: members_inv_def)
  have "v \<notin> I \<and> v \<notin> ids (outgoing (cfg_Voters cfg)) \<and> v \<notin> ids (cfg_Learners cfg) \<and>
      v \<notin> ids (cfg_LearnersNext cfg)" if "Mapping.lookup prs v = None"
    using assms that I in_keys_lookup [of v prs] by (auto simp: members_inv_def)
  then show ?thesis
    using assms I
    by (auto simp: remove_member_def members_inv_def members_def mem_remove_def)
qed

lemma makeLearner_ok:
  assumes "members_inv cfg prs"
  shows "\<exists>cfg' prs'. makeLearner c cfg prs v = Some (cfg', prs') \<and> members_inv cfg' prs' \<and>
     members cfg' = mem_learn v (members cfg) \<and> cfg_AutoLeave cfg' = cfg_AutoLeave cfg"
proof (cases "Mapping.lookup prs v")
  case None
  then show ?thesis using initProgress_ok [OF assms None, of c True] by (simp add: makeLearner_def)
next
  case (Some pr)
  have k: "v \<in> Mapping.keys prs" using Some by (auto simp: in_keys_lookup)
  have l: "pr_IsLearner pr \<longleftrightarrow> v \<in> ids (cfg_Learners cfg)"
    using assms Some by (auto simp: members_inv_def is_learner_def split: option.splits)
  show ?thesis
  proof (cases "pr_IsLearner pr")
    case True
    then show ?thesis using assms Some l by (simp add: makeLearner_def mem_learn_def)
  next
    case False
    obtain cfg1 prs1 where r: "remove_member cfg prs v = (cfg1, prs1)" by fastforce
    have r1: "members_inv cfg1 prs1" "members cfg1 = mem_remove v (members cfg)"
        "cfg_AutoLeave cfg1 = cfg_AutoLeave cfg"
      using remove_member_ok [OF assms, of v] r by auto
    have i1: "ids (incoming (cfg_Voters cfg1)) = ids (incoming (cfg_Voters cfg)) - {v}"
        "ids (outgoing (cfg_Voters cfg1)) = ids (outgoing (cfg_Voters cfg))"
        "ids (cfg_Learners cfg1) = ids (cfg_Learners cfg)"
        "ids (cfg_LearnersNext cfg1) = ids (cfg_LearnersNext cfg) - {v}"
      using r1(2) False l by (auto simp: members_def mem_remove_def)
    show ?thesis
      using assms Some False l r r1(1,3) k
      by (auto simp: makeLearner_def mem_learn_def members_inv_def members_def i1)
  qed
qed

definition mem_apply :: "ConfChangeSingle list \<Rightarrow> Members \<Rightarrow> Members" where
  "mem_apply ccs m = foldl mem_change m ccs"

lemma mem_apply_simps [simp]:
  "mem_apply [] m = m" "mem_apply (cc # ccs) m = mem_apply ccs (mem_change m cc)"
  by (simp_all add: mem_apply_def)

lemma mem_change_out [simp]: "out (mem_change m cc) = out m"
  by (auto simp: mem_change_def mem_add_def mem_learn_def mem_remove_def split: ConfChangeType.split)

lemma mem_apply_out [simp]: "out (mem_apply ccs m) = out m"
  by (induction ccs arbitrary: m) auto

text \<open>A list of known changes: the abstract result, unless no voter is left.\<close>

lemma apply_changes_ok:
  assumes "members_inv cfg prs" "\<forall>cc \<in> set ccs. known_change cc"
  shows "\<exists>cfg' prs'. apply_changes c ccs (cfg, prs) =
       Some (if inc (mem_apply ccs (members cfg)) = {} then Inl RemovedAllVoters else Inr (cfg', prs')) \<and>
     members_inv cfg' prs' \<and> members cfg' = mem_apply ccs (members cfg) \<and>
     cfg_AutoLeave cfg' = cfg_AutoLeave cfg"
  using assms
proof (induction ccs arbitrary: cfg prs)
  case Nil
  then show ?case by auto
next
  case (Cons cc ccs)
  have step: ?case
    if "apply_changes c (cc # ccs) (cfg, prs) = apply_changes c ccs (cfg1, prs1)"
      "members_inv cfg1 prs1" "members cfg1 = mem_change (members cfg) cc"
      "cfg_AutoLeave cfg1 = cfg_AutoLeave cfg" for cfg1 prs1
    using Cons.IH [OF that(2)] Cons.prems(2) that by auto
  have skip: ?case if "mem_change (members cfg) cc = members cfg"
      "apply_changes c (cc # ccs) (cfg, prs) = apply_changes c ccs (cfg, prs)"
    using step [OF that(2) Cons.prems(1)] that(1) by simp
  show ?case
  proof (cases "ccs_NodeID cc = 0")
    case True
    then show ?thesis by (intro skip) (simp_all add: mem_change_def)
  next
    case False
    show ?thesis
    proof (cases "ccs_Type cc")
      case ConfChangeAddNode
      obtain cfg1 prs1 where "makeVoter c cfg prs (ccs_NodeID cc) = Some (cfg1, prs1)"
          "members_inv cfg1 prs1" "members cfg1 = mem_add (ccs_NodeID cc) (members cfg)"
          "cfg_AutoLeave cfg1 = cfg_AutoLeave cfg"
        using makeVoter_ok [OF Cons.prems(1), of c "ccs_NodeID cc"] by blast
      then show ?thesis
        using False ConfChangeAddNode by (intro step [of cfg1 prs1]) (simp_all add: mem_change_def)
    next
      case ConfChangeAddLearnerNode
      obtain cfg1 prs1 where "makeLearner c cfg prs (ccs_NodeID cc) = Some (cfg1, prs1)"
          "members_inv cfg1 prs1" "members cfg1 = mem_learn (ccs_NodeID cc) (members cfg)"
          "cfg_AutoLeave cfg1 = cfg_AutoLeave cfg"
        using makeLearner_ok [OF Cons.prems(1), of c "ccs_NodeID cc"] by blast
      then show ?thesis
        using False ConfChangeAddLearnerNode by (intro step [of cfg1 prs1]) (simp_all add: mem_change_def)
    next
      case ConfChangeRemoveNode
      then show ?thesis
        using False remove_member_ok [OF Cons.prems(1), of "ccs_NodeID cc"]
        by (intro step [of "fst (remove_member cfg prs (ccs_NodeID cc))" "snd (remove_member cfg prs (ccs_NodeID cc))"])
           (simp_all add: mem_change_def)
    next
      case ConfChangeUpdateNode
      then show ?thesis using False by (intro skip) (simp_all add: mem_change_def)
    next
      case (ConfChangeTypeOther w)
      then show ?thesis using Cons.prems(2) False by (auto simp: known_change_def)
    qed
  qed
qed

section \<open>The three transitions\<close>

abbreviation chg_conf_inv :: "Changer \<Rightarrow> bool" where
  "chg_conf_inv c \<equiv> conf_inv (pt_Config (chg_Tracker c)) (pt_Progress (chg_Tracker c))"

abbreviation chg_members :: "Changer \<Rightarrow> Members" where
  "chg_members c \<equiv> members (pt_Config (chg_Tracker c))"

lemma symdiff_card: "symdiff l r = card (l - r) + card (r - l)"
proof -
  have "{x \<in> l. x \<notin> r} = l - r" "{x \<in> r. x \<notin> l} = r - l" by blast+
  then show ?thesis by (simp add: symdiff_def length_filter_distinct_card)
qed

lemma Simple_ok:
  assumes inv: "chg_conf_inv c" and known: "\<forall>cc \<in> set ccs. known_change cc"
    and nj: "out (chg_members c) = {}"
  defines "m \<equiv> mem_apply ccs (chg_members c)"
  shows "\<exists>cfg' prs'. Simple c ccs = Some
      (if inc m = {} then Inl RemovedAllVoters
       else if card (inc (chg_members c) - inc m) + card (inc m - inc (chg_members c)) > 1
            then Inl ManyVotersChanged
       else Inr (cfg', prs')) \<and> conf_inv cfg' prs' \<and> members cfg' = m \<and> \<not> cfg_AutoLeave cfg'"
proof -
  let ?cfg = "Config_Clone (pt_Config (chg_Tracker c))" and ?prs = "pt_Progress (chg_Tracker c)"
  have mi: "members_inv ?cfg ?prs" using checkAndCopy_ok(2) [OF inv] by (simp add: conf_inv_def)
  from apply_changes_ok [OF mi known, of c] checkAndCopy_ok(3) [OF inv] obtain cfg' prs' where
    a: "apply_changes c ccs (?cfg, ?prs) = Some (if inc m = {} then Inl RemovedAllVoters else Inr (cfg', prs'))"
       "members_inv cfg' prs'" "members cfg' = m" "\<not> cfg_AutoLeave cfg'"
    by (auto simp: m_def)
  have ci: "conf_inv cfg' prs'" using a by (simp add: conf_inv_def)
  have "\<not> joint ?cfg" using nj by (simp add: joint_iff)
  moreover have "ids (incoming (cfg_Voters cfg')) = inc m" using a(3) by (metis members_simps(1))
  ultimately show ?thesis
    using a ci by (auto simp: Simple_def checkAndCopy_ok(1) [OF inv] symdiff_card checkAndReturn_ok)
qed

lemma Simple_joint:
  assumes "chg_conf_inv c" "out (chg_members c) \<noteq> {}"
  shows "Simple c ccs = Some (Inl SimpleInJoint)"
  using assms by (simp add: Simple_def checkAndCopy_ok(1) joint_iff)

definition mem_enter :: "Members \<Rightarrow> Members" where
  "mem_enter m = m\<lparr>out := inc m\<rparr>"

lemma EnterJoint_ok:
  assumes inv: "chg_conf_inv c" and known: "\<forall>cc \<in> set ccs. known_change cc"
    and nj: "out (chg_members c) = {}" and ne: "inc (chg_members c) \<noteq> {}"
  defines "m \<equiv> mem_apply ccs (mem_enter (chg_members c))"
  shows "\<exists>cfg' prs'. EnterJoint c autoLeave ccs = Some
      (if inc m = {} then Inl RemovedAllVoters else Inr (cfg', prs')) \<and>
     conf_inv cfg' prs' \<and> members cfg' = m \<and> cfg_AutoLeave cfg' = autoLeave"
proof -
  let ?cfg = "Config_Clone (pt_Config (chg_Tracker c))" and ?prs = "pt_Progress (chg_Tracker c)"
  let ?cfg1 = "?cfg\<lparr>cfg_Voters := (incoming (cfg_Voters ?cfg), Some (ids (incoming (cfg_Voters ?cfg))))\<rparr>"
  have m1: "members ?cfg1 = mem_enter (chg_members c)" by (simp add: members_def mem_enter_def)
  have "members_inv ?cfg ?prs" using checkAndCopy_ok(2) [OF inv] by (simp add: conf_inv_def)
  then have mi: "members_inv ?cfg1 ?prs" using nj ne by (auto simp: members_inv_def)
  from apply_changes_ok [OF mi known, of c] m1 obtain cfg' prs' where
    a: "apply_changes c ccs (?cfg1, ?prs) = Some (if inc m = {} then Inl RemovedAllVoters else Inr (cfg', prs'))"
       "members_inv cfg' prs'" "members cfg' = m"
    by (auto simp: m_def)
  have "ids (outgoing (cfg_Voters cfg')) \<noteq> {}"
    using a(3) ne by (metis m_def mem_apply_out mem_enter_def Members.select_convs(2) Members.surjective
        Members.update_convs(2) members_simps(2))
  then have "conf_inv (cfg'\<lparr>cfg_AutoLeave := autoLeave\<rparr>) prs'"
    using a(2) by (simp add: conf_inv_def members_inv_def)
  moreover have "members (cfg'\<lparr>cfg_AutoLeave := autoLeave\<rparr>) = m" using a(3) by (simp add: members_def)
  moreover have "\<not> joint ?cfg" "card (ids (incoming (cfg_Voters ?cfg))) \<noteq> 0"
    using nj ne by (simp_all add: joint_iff)
  ultimately show ?thesis
    using a(1) by (intro exI [of _ "cfg'\<lparr>cfg_AutoLeave := autoLeave\<rparr>"] exI [of _ prs'])
      (simp add: EnterJoint_def checkAndCopy_ok(1) [OF inv] Let_def checkAndReturn_ok)
qed

lemma stage_learners_ok:
  assumes "set vs \<subseteq> Mapping.keys prs" "learners \<noteq> Some {}"
  shows "\<exists>learners' prs'. stage_learners vs learners prs = Some (learners', prs') \<and>
     ids learners' = ids learners \<union> set vs \<and> learners' \<noteq> Some {} \<and>
     Mapping.keys prs' = Mapping.keys prs \<and> (\<forall>w. is_learner prs' w \<longleftrightarrow> is_learner prs w \<or> w \<in> set vs)"
  using assms
proof (induction vs arbitrary: learners prs)
  case (Cons v vs)
  obtain pr where pr: "Mapping.lookup prs v = Some pr"
    using Cons.prems(1) by (auto simp: in_keys_lookup)
  then have "v \<in> Mapping.keys prs" by (auto simp: in_keys_lookup)
  then show ?case
    using Cons.IH [of "Mapping.update v (pr\<lparr>pr_IsLearner := True\<rparr>) prs" "nilAwareAdd v learners"]
      Cons.prems pr by (auto simp: insert_absorb)
qed simp

lemma lookup_foldl_delete:
  "Mapping.lookup (foldl (\<lambda>prs v. if P v then Mapping.delete v prs else prs) prs vs) w =
     (if w \<in> set vs \<and> P w then None else Mapping.lookup prs w)"
  by (induction vs arbitrary: prs) (auto simp: lookup_delete_if)

definition mem_leave :: "Members \<Rightarrow> Members" where
  "mem_leave m = m\<lparr>out := {}, lrn := lrn m \<union> nxt m, nxt := {}\<rparr>"

lemma LeaveJoint_ok:
  assumes inv: "chg_conf_inv c" and j: "out (chg_members c) \<noteq> {}"
  shows "\<exists>cfg' prs'. LeaveJoint c = Some (Inr (cfg', prs')) \<and> conf_inv cfg' prs' \<and>
     members cfg' = mem_leave (chg_members c) \<and> \<not> cfg_AutoLeave cfg'"
proof -
  let ?cfg = "Config_Clone (pt_Config (chg_Tracker c))" and ?prs = "pt_Progress (chg_Tracker c)"
  have mi: "members_inv ?cfg ?prs" using checkAndCopy_ok(2) [OF inv] by (simp add: conf_inv_def)
  have "set (range_ids (ids (cfg_LearnersNext ?cfg))) \<subseteq> Mapping.keys ?prs"
    using mi by (auto simp: members_inv_def)
  moreover have "cfg_Learners ?cfg \<noteq> Some {}" using mi by (simp add: members_inv_def)
  ultimately obtain L' prs' where st:
    "stage_learners (range_ids (ids (cfg_LearnersNext ?cfg))) (cfg_Learners ?cfg) ?prs = Some (L', prs')"
    "ids L' = ids (cfg_Learners ?cfg) \<union> ids (cfg_LearnersNext ?cfg)" "L' \<noteq> Some {}"
    "Mapping.keys prs' = Mapping.keys ?prs"
    "\<forall>w. is_learner prs' w \<longleftrightarrow> is_learner ?prs w \<or> w \<in> ids (cfg_LearnersNext ?cfg)"
    using stage_learners_ok [of "range_ids (ids (cfg_LearnersNext ?cfg))" ?prs "cfg_Learners ?cfg"]
    by auto
  define P where "P = (\<lambda>v. v \<notin> ids (incoming (cfg_Voters ?cfg)) \<and> v \<notin> ids L')"
  define prs2 where "prs2 = foldl (\<lambda>prs v. if P v then Mapping.delete v prs else prs)
       prs' (range_ids (ids (outgoing (cfg_Voters ?cfg))))"
  define cfg2 where "cfg2 = ?cfg\<lparr>cfg_Learners := L', cfg_LearnersNext := None,
       cfg_Voters := (incoming (cfg_Voters ?cfg), None), cfg_AutoLeave := False\<rparr>"
  have lk: "Mapping.lookup prs2 w =
      (if w \<in> ids (outgoing (cfg_Voters ?cfg)) \<and> P w then None else Mapping.lookup prs' w)" for w
    unfolding prs2_def by (simp add: lookup_foldl_delete)
  then have "Mapping.keys prs2 = Mapping.keys prs' - {w \<in> ids (outgoing (cfg_Voters ?cfg)). P w}"
    by (auto simp: in_keys_lookup set_eq_iff)
  moreover have "is_learner prs2 w \<longleftrightarrow> is_learner prs' w \<and> \<not> (w \<in> ids (outgoing (cfg_Voters ?cfg)) \<and> P w)" for w
    using lk [of w] by (simp add: is_learner_def)
  ultimately have "conf_inv cfg2 prs2"
    using mi st by (auto simp: conf_inv_def members_inv_def cfg2_def P_def)
  moreover have "members cfg2 = mem_leave (chg_members c)"
    using st by (simp add: cfg2_def members_def mem_leave_def)
  moreover have "joint ?cfg" using j by (simp add: joint_iff)
  moreover have "card (ids (outgoing (cfg_Voters ?cfg))) \<noteq> 0" using j by simp
  ultimately show ?thesis
    using st(1) checkAndReturn_ok [of cfg2 prs2]
    by (intro exI [of _ cfg2] exI [of _ prs2])
       (simp add: LeaveJoint_def checkAndCopy_ok(1) [OF inv] Let_def P_def prs2_def cfg2_def)
qed

lemma LeaveJoint_not_joint:
  assumes "chg_conf_inv c" "out (chg_members c) = {}"
  shows "LeaveJoint c = Some (Inl NotJoint)"
  using assms by (simp add: LeaveJoint_def checkAndCopy_ok(1) joint_iff)

lemma EnterJoint_errors:
  assumes "chg_conf_inv c"
  shows "out (chg_members c) \<noteq> {} \<Longrightarrow> EnterJoint c autoLeave ccs = Some (Inl AlreadyJoint)"
    and "out (chg_members c) = {} \<Longrightarrow> inc (chg_members c) = {} \<Longrightarrow>
      EnterJoint c autoLeave ccs = Some (Inl ZeroVoterJoint)"
  using assms by (simp_all add: EnterJoint_def checkAndCopy_ok(1) joint_iff)

text \<open>A change of unknown type is refused, whatever precedes it.\<close>

lemma apply_changes_unknown:
  assumes "members_inv cfg prs" "\<exists>cc \<in> set ccs. \<not> known_change cc"
  shows "apply_changes c ccs (cfg, prs) = Some (Inl UnexpectedConfType)"
  using assms
proof (induction ccs arbitrary: cfg prs)
  case (Cons cc ccs)
  show ?case
  proof (cases "known_change cc")
    case False
    then show ?thesis by (auto simp: known_change_def)
  next
    case True
    then have ccs: "\<exists>cc \<in> set ccs. \<not> known_change cc" using Cons.prems(2) by auto
    show ?thesis
      using Cons.IH [OF _ ccs] Cons.prems(1) True
        makeVoter_ok [OF Cons.prems(1), of c "ccs_NodeID cc"]
        makeLearner_ok [OF Cons.prems(1), of c "ccs_NodeID cc"]
        remove_member_ok [OF Cons.prems(1), of "ccs_NodeID cc"]
      by (cases "remove_member cfg prs (ccs_NodeID cc)")
         (auto simp: known_change_def split: ConfChangeType.splits)
  qed
qed simp

section \<open>Configuration steps and their quorums\<close>

text \<open>One configuration change, as the three operations allow it.\<close>

definition with_conf :: "Changer \<Rightarrow> conf \<Rightarrow> Changer" where
  "with_conf c cp = c\<lparr>chg_Tracker := (chg_Tracker c)\<lparr>pt_Config := fst cp, pt_Progress := snd cp\<rparr>\<rparr>"

inductive conf_step :: "Changer \<Rightarrow> Changer \<Rightarrow> bool" where
  simple: "Simple c ccs = Some (Inr cp) \<Longrightarrow> conf_step c (with_conf c cp)"
| enter: "EnterJoint c autoLeave ccs = Some (Inr cp) \<Longrightarrow> conf_step c (with_conf c cp)"
| leave: "LeaveJoint c = Some (Inr cp) \<Longrightarrow> conf_step c (with_conf c cp)"

inductive conf_reachable :: "Changer \<Rightarrow> bool" where
  start: "conf_reachable \<lparr>chg_Tracker = MakeProgressTracker maxInflight, chg_LastIndex = i\<rparr>"
| step: "conf_reachable c \<Longrightarrow> conf_step c c' \<Longrightarrow> conf_reachable c'"
| advance: "conf_reachable c \<Longrightarrow> conf_reachable (c\<lparr>chg_LastIndex := i\<rparr>)"

inductive_cases conf_stepE: "conf_step c c'"

lemma with_conf_simps [simp]:
  "pt_Config (chg_Tracker (with_conf c cp)) = fst cp"
  "pt_Progress (chg_Tracker (with_conf c cp)) = snd cp"
  by (simp_all add: with_conf_def)

lemma conf_inv_start: "conf_inv (pt_Config (MakeProgressTracker n)) (pt_Progress (MakeProgressTracker n))"
  by (simp add: MakeProgressTracker_def conf_inv_def members_inv_def is_learner_def)

lemma Simple_known:
  assumes "chg_conf_inv c" "Simple c ccs = Some (Inr cp)"
  shows "\<forall>cc \<in> set ccs. known_change cc" "out (chg_members c) = {}"
proof -
  show nj: "out (chg_members c) = {}" using assms Simple_joint [of c ccs] by auto
  show "\<forall>cc \<in> set ccs. known_change cc"
  proof (rule ccontr)
    assume "\<not> ?thesis"
    moreover have "members_inv (Config_Clone (pt_Config (chg_Tracker c))) (pt_Progress (chg_Tracker c))"
      using checkAndCopy_ok(2) [OF assms(1)] by (simp add: conf_inv_def)
    ultimately have "apply_changes c ccs (Config_Clone (pt_Config (chg_Tracker c)), pt_Progress (chg_Tracker c)) =
        Some (Inl UnexpectedConfType)"
      by (intro apply_changes_unknown) auto
    then show False
      using assms nj by (simp add: Simple_def checkAndCopy_ok(1) joint_iff)
  qed
qed

lemma EnterJoint_known:
  assumes "chg_conf_inv c" "EnterJoint c autoLeave ccs = Some (Inr cp)"
  shows "\<forall>cc \<in> set ccs. known_change cc" "out (chg_members c) = {}" "inc (chg_members c) \<noteq> {}"
proof -
  show nj: "out (chg_members c) = {}" and ne: "inc (chg_members c) \<noteq> {}"
    using assms EnterJoint_errors [of c autoLeave ccs] by auto
  let ?cfg = "Config_Clone (pt_Config (chg_Tracker c))"
  let ?cfg1 = "?cfg\<lparr>cfg_Voters := (incoming (cfg_Voters ?cfg), Some (ids (incoming (cfg_Voters ?cfg))))\<rparr>"
  show "\<forall>cc \<in> set ccs. known_change cc"
  proof (rule ccontr)
    assume "\<not> ?thesis"
    moreover have "members_inv ?cfg1 (pt_Progress (chg_Tracker c))"
      using checkAndCopy_ok(2) [OF assms(1)] nj ne by (auto simp: conf_inv_def members_inv_def)
    ultimately have "apply_changes c ccs (?cfg1, pt_Progress (chg_Tracker c)) = Some (Inl UnexpectedConfType)"
      by (intro apply_changes_unknown) auto
    then show False
      using assms nj ne by (simp add: EnterJoint_def checkAndCopy_ok(1) joint_iff Let_def)
  qed
qed

text \<open>Every step is one of the three abstract transitions, and keeps the invariant.\<close>

definition simple_change :: "Members \<Rightarrow> Members \<Rightarrow> bool" where
  "simple_change m m' \<longleftrightarrow> out m = {} \<and> out m' = {} \<and> inc m' \<noteq> {} \<and>
     card (inc m - inc m') + card (inc m' - inc m) \<le> 1 \<and> (\<exists>ccs. m' = mem_apply ccs m)"

definition enter_change :: "Members \<Rightarrow> Members \<Rightarrow> bool" where
  "enter_change m m' \<longleftrightarrow> out m = {} \<and> out m' = inc m \<and> inc m \<noteq> {} \<and> inc m' \<noteq> {} \<and>
     (\<exists>ccs. m' = mem_apply ccs (mem_enter m))"

definition leave_change :: "Members \<Rightarrow> Members \<Rightarrow> bool" where
  "leave_change m m' \<longleftrightarrow> out m \<noteq> {} \<and> m' = mem_leave m"

lemma mem_leave_enter [simp]:
  "inc (mem_leave m) = inc m" "out (mem_leave m) = {}" "out (mem_enter m) = inc m" "inc (mem_enter m) = inc m"
  by (simp_all add: mem_leave_def mem_enter_def)

lemma conf_step_members:
  assumes "conf_step c c'" "chg_conf_inv c"
  shows "chg_conf_inv c' \<and> (simple_change (chg_members c) (chg_members c') \<or>
     enter_change (chg_members c) (chg_members c') \<or> leave_change (chg_members c) (chg_members c'))"
  using assms(1)
proof cases
  case (simple ccs cp)
  note k = Simple_known [OF assms(2) simple(2)]
  obtain cfg' prs' where "cp = (cfg', prs')" "conf_inv cfg' prs'"
      "members cfg' = mem_apply ccs (chg_members c)" "inc (members cfg') \<noteq> {}"
      "card (inc (chg_members c) - inc (members cfg')) + card (inc (members cfg') - inc (chg_members c)) \<le> 1"
    using Simple_ok [OF assms(2) k] simple(2) by (auto simp del: members_simps split: if_splits)
  then show ?thesis
    using k(2) simple(1) by (auto simp: simple_change_def simp del: members_simps)
next
  case (enter autoLeave ccs cp)
  note k = EnterJoint_known [OF assms(2) enter(2)]
  obtain cfg' prs' where "cp = (cfg', prs')" "conf_inv cfg' prs'"
      "members cfg' = mem_apply ccs (mem_enter (chg_members c))" "inc (members cfg') \<noteq> {}"
    using EnterJoint_ok [OF assms(2) k, of autoLeave] enter(2)
    by (auto simp del: members_simps split: if_splits)
  then show ?thesis
    using k(2,3) enter(1) by (auto simp: enter_change_def simp del: members_simps)
next
  case (leave cp)
  have j: "out (chg_members c) \<noteq> {}" using LeaveJoint_not_joint [OF assms(2)] leave by auto
  then show ?thesis
    using LeaveJoint_ok [OF assms(2) j] leave by (auto simp: leave_change_def simp del: members_simps)
qed

lemma conf_reachable_inv: "conf_reachable c \<Longrightarrow> chg_conf_inv c"
proof (induction rule: conf_reachable.induct)
  case (start n i)
  then show ?case using conf_inv_start by simp
next
  case (step c c')
  then show ?case using conf_step_members by blast
next
  case (advance c i)
  then show ?case by simp
qed

text \<open>Majorities of two sets of voters that differ in at most one member share a voter.\<close>

lemma majority_overlap:
  assumes ne: "V \<noteq> {}" "W \<noteq> {}" and d: "card (V - W) + card (W - V) \<le> 1"
    and Q: "has_majority V Q" "has_majority W R"
  shows "\<exists>v. v \<in> Q \<and> v \<in> R"
proof -
  have VW: "card (V \<union> W) = card V + card (W - V)" "card (V \<union> W) = card W + card (V - W)"
    by (metis Diff_disjoint Un_Diff_cancel card_Un_disjoint finite_code sup_commute)+
  have "card V div 2 + 1 \<le> card (V \<inter> Q)" "card W div 2 + 1 \<le> card (W \<inter> R)"
    using Q ne by (simp_all add: has_majority_def)
  then have "card (V \<union> W) < card (V \<inter> Q) + card (W \<inter> R)"
    using VW d by linarith
  then obtain x where "x \<in> V \<inter> Q" "x \<in> W \<inter> R"
    using majorities_share [of "V \<union> W" "V \<inter> Q" "W \<inter> R"] by auto
  then show ?thesis by blast
qed

definition joint_quorum :: "Members \<Rightarrow> u64 set \<Rightarrow> bool" where
  "joint_quorum m Q \<longleftrightarrow> has_majority (inc m) Q \<and> has_majority (out m) Q"

lemma conf_step_overlap:
  assumes "conf_step c c'" "chg_conf_inv c" "inc (chg_members c) \<noteq> {}"
    "joint_quorum (chg_members c) Q" "joint_quorum (chg_members c') R"
  shows "\<exists>v. v \<in> Q \<and> v \<in> R"
proof -
  consider "simple_change (chg_members c) (chg_members c')"
    | "out (chg_members c') = inc (chg_members c)" | "inc (chg_members c') = inc (chg_members c)"
    using conf_step_members [OF assms(1,2)]
    by (auto simp: enter_change_def leave_change_def simp del: members_simps)
  then show ?thesis
  proof cases
    case 1
    then show ?thesis
      using assms(3-5) majority_overlap [of "inc (chg_members c)" "inc (chg_members c')" Q R]
      by (auto simp: simple_change_def joint_quorum_def simp del: members_simps)
  next
    case 2
    then show ?thesis
      using assms(3-5) has_majority_share [of "inc (chg_members c)" Q R]
      by (auto simp: joint_quorum_def simp del: members_simps)
  next
    case 3
    then show ?thesis
      using assms(3-5) has_majority_share [of "inc (chg_members c)" Q R]
      by (auto simp: joint_quorum_def simp del: members_simps)
  qed
qed

section \<open>Properties\<close>

text \<open>A configuration with one voter and one learner, the subject of the examples.\<close>

definition sample_changer :: Changer where
  "sample_changer = \<lparr>chg_Tracker = (MakeProgressTracker 4)\<lparr>
     pt_Config := \<lparr>cfg_Voters = (Some {1}, None), cfg_AutoLeave = False, cfg_Learners = None,
       cfg_LearnersNext = None\<rparr>,
     pt_Progress := Mapping.update 1 \<lparr>pr_Match = 3, pr_Next = 4, pr_State = StateReplicate,
       pr_PendingSnapshot = 0, pr_RecentActive = True, pr_ProbeSent = False,
       pr_Inflights = NewInflights 4, pr_IsLearner = False\<rparr> Mapping.empty\<rparr>,
     chg_LastIndex = 3\<rparr>"

lemma sample_changer_inv: "chg_conf_inv sample_changer"
  by (auto simp: sample_changer_def MakeProgressTracker_def conf_inv_def members_inv_def is_learner_def
      Mapping.lookup_update' Mapping.lookup_empty)

lemma sample_changer_members:
  "chg_members sample_changer = \<lparr>inc = {1}, out = {}, lrn = {}, nxt = {}\<rparr>"
  by (simp add: sample_changer_def members_def)

text \<open>
  (C22) A simple change outside a joint configuration applies its list of changes to the sets of
  members, keeps the invariant, and is refused exactly if no voter would be left or more than one
  voter would change; it never panics and the checks at its end never fail. In a joint
  configuration it is refused.
\<close>

theorem simple_change_spec:
  assumes "conf_inv (pt_Config (chg_Tracker c)) (pt_Progress (chg_Tracker c))"
    "\<forall>cc \<in> set ccs. known_change cc"
  defines "m \<equiv> members (pt_Config (chg_Tracker c))"
  defines "m' \<equiv> mem_apply ccs m"
  shows "if out m \<noteq> {} then Simple c ccs = Some (Inl SimpleInJoint)
     else (if inc m' = {} then Simple c ccs = Some (Inl RemovedAllVoters)
      else if card (inc m - inc m') + card (inc m' - inc m) > 1
           then Simple c ccs = Some (Inl ManyVotersChanged)
      else \<exists>cfg prs. Simple c ccs = Some (Inr (cfg, prs)) \<and> conf_inv cfg prs \<and> members cfg = m')"
proof (cases "out m = {}")
  case nj: True
    obtain cfg prs where s: "Simple c ccs = Some
        (if inc m' = {} then Inl RemovedAllVoters
         else if card (inc m - inc m') + card (inc m' - inc m) > 1 then Inl ManyVotersChanged
         else Inr (cfg, prs))" "conf_inv cfg prs" "members cfg = m'"
      using Simple_ok [OF assms(1,2)] nj unfolding m'_def m_def by blast
    show ?thesis unfolding s(1) using nj s(2,3) by (simp del: members_simps One_nat_def)
next
  case False
  then show ?thesis using Simple_joint [OF assms(1)] unfolding m_def by (simp del: members_simps)
qed

theorem simple_change_spec_witness:
  "Simple sample_changer [\<lparr>ccs_Type = ConfChangeRemoveNode, ccs_NodeID = 1\<rparr>] = Some (Inl RemovedAllVoters)"
  using simple_change_spec [OF sample_changer_inv, of "[\<lparr>ccs_Type = ConfChangeRemoveNode, ccs_NodeID = 1\<rparr>]"]
  by (simp add: sample_changer_members known_change_def mem_change_def mem_remove_def del: members_simps)

text \<open>
  (C23) Entering a joint configuration copies the voters to the outgoing half, applies the changes to
  the rest, keeps the invariant and records whether to leave automatically; it is refused exactly
  if the configuration is joint already, has no voter, or would have none.
\<close>

theorem enter_joint_spec:
  assumes "conf_inv (pt_Config (chg_Tracker c)) (pt_Progress (chg_Tracker c))"
    "\<forall>cc \<in> set ccs. known_change cc"
  defines "m \<equiv> members (pt_Config (chg_Tracker c))"
  defines "m' \<equiv> mem_apply ccs (m\<lparr>out := inc m\<rparr>)"
  shows "if out m \<noteq> {} then EnterJoint c autoLeave ccs = Some (Inl AlreadyJoint)
     else if inc m = {} then EnterJoint c autoLeave ccs = Some (Inl ZeroVoterJoint)
     else if inc m' = {} then EnterJoint c autoLeave ccs = Some (Inl RemovedAllVoters)
     else \<exists>cfg prs. EnterJoint c autoLeave ccs = Some (Inr (cfg, prs)) \<and> conf_inv cfg prs \<and>
            members cfg = m' \<and> cfg_AutoLeave cfg = autoLeave"
proof (cases "out m \<noteq> {} \<or> inc m = {}")
  case True
  then show ?thesis
    using EnterJoint_errors [OF assms(1), of autoLeave ccs] unfolding m_def
    by (cases "out (chg_members c) = {}") (simp_all del: members_simps)
next
  case False
  then obtain cfg prs where e: "EnterJoint c autoLeave ccs = Some
        (if inc m' = {} then Inl RemovedAllVoters else Inr (cfg, prs))" "conf_inv cfg prs"
      "members cfg = m'" "cfg_AutoLeave cfg = autoLeave"
    using EnterJoint_ok [OF assms(1,2), of autoLeave] unfolding m'_def m_def mem_enter_def by blast
  show ?thesis unfolding e(1) using False e(2-4) by (simp del: members_simps)
qed

theorem enter_joint_spec_witness:
  "\<exists>cfg prs. EnterJoint sample_changer True [\<lparr>ccs_Type = ConfChangeAddNode, ccs_NodeID = 2\<rparr>] = Some (Inr (cfg, prs)) \<and>
     conf_inv cfg prs \<and> members cfg = \<lparr>inc = {1, 2}, out = {1}, lrn = {}, nxt = {}\<rparr> \<and> cfg_AutoLeave cfg"
  using enter_joint_spec [OF sample_changer_inv, of "[\<lparr>ccs_Type = ConfChangeAddNode, ccs_NodeID = 2\<rparr>]" True]
  by (simp add: sample_changer_members known_change_def mem_change_def mem_add_def insert_commute
      del: members_simps)

text \<open>The example starts from the empty tracker, adds voter 1 and then enters a joint configuration.\<close>

lemma sample_path:
  obtains c c' where "conf_reachable c" "conf_step c c'"
    "chg_members c = \<lparr>inc = {1}, out = {}, lrn = {}, nxt = {}\<rparr>"
    "chg_members c' = \<lparr>inc = {1, 2}, out = {1}, lrn = {}, nxt = {}\<rparr>"
proof -
  let ?c0 = "\<lparr>chg_Tracker = MakeProgressTracker 4, chg_LastIndex = 0\<rparr>"
  let ?cc1 = "\<lparr>ccs_Type = ConfChangeAddNode, ccs_NodeID = 1\<rparr>"
  let ?cc2 = "\<lparr>ccs_Type = ConfChangeAddNode, ccs_NodeID = 2\<rparr>"
  have r0: "conf_reachable ?c0" by (rule conf_reachable.start)
  have m0: "chg_members ?c0 = \<lparr>inc = {}, out = {}, lrn = {}, nxt = {}\<rparr>"
    by (simp add: MakeProgressTracker_def members_def)
  have k: "\<forall>cc \<in> set [?cc1]. known_change cc" "\<forall>cc \<in> set [?cc2]. known_change cc"
    by (simp_all add: known_change_def)
  have o0: "out (chg_members ?c0) = {}" unfolding m0 by simp
  obtain cp where s: "Simple ?c0 [?cc1] = Some (Inr cp)"
      "members (fst cp) = \<lparr>inc = {1}, out = {}, lrn = {}, nxt = {}\<rparr>"
    using Simple_ok [OF conf_reachable_inv [OF r0] k(1) o0] unfolding m0
    by (auto simp: mem_change_def mem_add_def simp del: members_simps)
  let ?c1 = "with_conf ?c0 cp"
  have r1: "conf_reachable ?c1"
    by (rule conf_reachable.step [OF r0 conf_step.simple [OF s(1)]])
  have m1: "chg_members ?c1 = \<lparr>inc = {1}, out = {}, lrn = {}, nxt = {}\<rparr>" using s by simp
  have o1: "out (chg_members ?c1) = {}" "inc (chg_members ?c1) \<noteq> {}" unfolding m1 by simp_all
  obtain cp' where e: "EnterJoint ?c1 True [?cc2] = Some (Inr cp')"
      "members (fst cp') = \<lparr>inc = {1, 2}, out = {1}, lrn = {}, nxt = {}\<rparr>"
    using EnterJoint_ok [OF conf_reachable_inv [OF r1] k(2) o1, of True] unfolding m1
    by (auto simp: mem_change_def mem_add_def mem_enter_def insert_commute simp del: members_simps)
  show thesis
    by (rule that [OF r1 conf_step.enter [OF e(1)] m1]) (use e(2) in simp)
qed

text \<open>
  (C24) Leaving a joint configuration drops the outgoing voters, turns the staged learners into
  learners, and keeps the invariant; outside a joint configuration it is refused. It never panics.
\<close>

theorem leave_joint_spec:
  assumes "conf_inv (pt_Config (chg_Tracker c)) (pt_Progress (chg_Tracker c))"
  defines "m \<equiv> members (pt_Config (chg_Tracker c))"
  shows "if out m = {} then LeaveJoint c = Some (Inl NotJoint)
     else \<exists>cfg prs. LeaveJoint c = Some (Inr (cfg, prs)) \<and> conf_inv cfg prs \<and> \<not> cfg_AutoLeave cfg \<and>
            members cfg = m\<lparr>out := {}, lrn := lrn m \<union> nxt m, nxt := {}\<rparr>"
  using LeaveJoint_ok [OF assms(1)] LeaveJoint_not_joint [OF assms(1)]
  unfolding m_def mem_leave_def by (simp del: members_simps) blast

theorem leave_joint_spec_witness:
  "LeaveJoint sample_changer = Some (Inl NotJoint) \<and>
   (\<exists>c cfg prs. members (pt_Config (chg_Tracker c)) = \<lparr>inc = {1, 2}, out = {1}, lrn = {}, nxt = {}\<rparr> \<and>
      LeaveJoint c = Some (Inr (cfg, prs)) \<and> members cfg = \<lparr>inc = {1, 2}, out = {}, lrn = {}, nxt = {}\<rparr>)"
proof
  show "LeaveJoint sample_changer = Some (Inl NotJoint)"
    using leave_joint_spec [OF sample_changer_inv] by (simp add: sample_changer_members del: members_simps)
  obtain c c' where c: "conf_reachable c" "conf_step c c'" "chg_members c' = \<lparr>inc = {1, 2}, out = {1}, lrn = {}, nxt = {}\<rparr>"
    by (rule sample_path)
  have "conf_inv (pt_Config (chg_Tracker c')) (pt_Progress (chg_Tracker c'))"
    by (rule conf_reachable_inv [OF conf_reachable.step [OF c(1,2)]])
  from leave_joint_spec [OF this] c(3)
  show "\<exists>c cfg prs. members (pt_Config (chg_Tracker c)) = \<lparr>inc = {1, 2}, out = {1}, lrn = {}, nxt = {}\<rparr> \<and>
      LeaveJoint c = Some (Inr (cfg, prs)) \<and> members cfg = \<lparr>inc = {1, 2}, out = {}, lrn = {}, nxt = {}\<rparr>"
    by (auto simp del: members_simps)
qed

text \<open>
  (C14) Every configuration reachable from the empty tracker by configuration changes satisfies the
  invariant: the progress map has exactly the members, learners are no voters, the learners to be
  staged are outgoing voters, and the code's own consistency check passes.
\<close>

theorem reachable_configurations_consistent:
  assumes "conf_reachable c"
  shows "conf_inv (pt_Config (chg_Tracker c)) (pt_Progress (chg_Tracker c)) \<and>
     checkInvariants (pt_Config (chg_Tracker c)) (pt_Progress (chg_Tracker c)) = None"
  using conf_reachable_inv [OF assms] checkInvariants_ok by blast

theorem reachable_configurations_consistent_witness:
  "\<exists>c. conf_reachable c \<and> members (pt_Config (chg_Tracker c)) = \<lparr>inc = {1, 2}, out = {1}, lrn = {}, nxt = {}\<rparr> \<and>
     checkInvariants (pt_Config (chg_Tracker c)) (pt_Progress (chg_Tracker c)) = None"
proof -
  obtain c c' where c: "conf_reachable c" "conf_step c c'" "chg_members c' = \<lparr>inc = {1, 2}, out = {1}, lrn = {}, nxt = {}\<rparr>"
    by (rule sample_path)
  have "conf_reachable c'" by (rule conf_reachable.step [OF c(1,2)])
  then show ?thesis using reachable_configurations_consistent [of c'] c(3) by blast
qed

text \<open>
  (C11) Safety of membership changes: a quorum of a configuration and a quorum of the configuration
  after one successful change share a member, whatever the kind of change.
\<close>

theorem successive_quorums_overlap:
  assumes "conf_step c c'" "conf_reachable c" "inc (members (pt_Config (chg_Tracker c))) \<noteq> {}"
    "joint_quorum (members (pt_Config (chg_Tracker c))) Q"
    "joint_quorum (members (pt_Config (chg_Tracker c'))) R"
  shows "Q \<inter> R \<noteq> {}"
  using conf_step_overlap [OF assms(1) conf_reachable_inv [OF assms(2)] assms(3-5)] by blast

theorem successive_quorums_overlap_witness:
  "\<exists>c c'. conf_reachable c \<and> conf_step c c' \<and>
     members (pt_Config (chg_Tracker c)) = \<lparr>inc = {1}, out = {}, lrn = {}, nxt = {}\<rparr> \<and>
     members (pt_Config (chg_Tracker c')) = \<lparr>inc = {1, 2}, out = {1}, lrn = {}, nxt = {}\<rparr> \<and>
     joint_quorum (members (pt_Config (chg_Tracker c))) {1, 3} \<and>
     joint_quorum (members (pt_Config (chg_Tracker c'))) {1, 2} \<and>
     \<not> (\<exists>Q R. joint_quorum (members (pt_Config (chg_Tracker c))) Q \<and>
        joint_quorum (members (pt_Config (chg_Tracker c'))) R \<and> Q \<inter> R = {})"
proof -
  obtain c c' where c: "conf_reachable c" "conf_step c c'"
    "chg_members c = \<lparr>inc = {1}, out = {}, lrn = {}, nxt = {}\<rparr>"
    "chg_members c' = \<lparr>inc = {1, 2}, out = {1}, lrn = {}, nxt = {}\<rparr>"
    by (rule sample_path)
  have "joint_quorum (chg_members c) {1, 3}" "joint_quorum (chg_members c') {1, 2}" "inc (chg_members c) \<noteq> {}"
    unfolding c(3,4) by (simp_all add: joint_quorum_def has_majority_def)
  then show ?thesis using successive_quorums_overlap [OF c(2,1)] c by blast
qed

end
