(* ===== verification/Conf_Restore.thy ===== *)
theory Conf_Restore
  imports Conf_Spec
begin

text \<open>
  \<^verbatim>\<open>confchange.Restore\<close> rebuilds every valid configuration: starting from the empty tracker, the
  sequence of changes it derives from a \<^verbatim>\<open>ConfState\<close> succeeds and ends in a configuration with
  exactly the described members. The states described by reachable configurations are valid.
\<close>

abbreviation cc_list :: "ConfChangeType \<Rightarrow> u64 list \<Rightarrow> ConfChangeSingle list" where
  "cc_list t vs \<equiv> map (\<lambda>v. \<lparr>ccs_Type = t, ccs_NodeID = v\<rparr>) vs"

definition valid_ConfState :: "ConfState \<Rightarrow> bool" where
  "valid_ConfState cs \<longleftrightarrow>
     distinct (cs_Voters cs) \<and> distinct (cs_Learners cs) \<and> distinct (cs_VotersOutgoing cs) \<and>
     distinct (cs_LearnersNext cs) \<and>
     0 \<notin> set (cs_Voters cs) \<union> set (cs_Learners cs) \<union> set (cs_VotersOutgoing cs) \<and>
     (cs_Voters cs = [] \<longrightarrow> cs_Learners cs = [] \<and> cs_VotersOutgoing cs = []) \<and>
     set (cs_LearnersNext cs) \<subseteq> set (cs_VotersOutgoing cs) \<and>
     set (cs_LearnersNext cs) \<inter> set (cs_Voters cs) = {} \<and>
     set (cs_Learners cs) \<inter> (set (cs_Voters cs) \<union> set (cs_VotersOutgoing cs)) = {} \<and>
     (cs_AutoLeave cs \<longrightarrow> cs_VotersOutgoing cs \<noteq> [])"

section \<open>Lists of uniform changes\<close>

lemma mem_apply_append: "mem_apply (xs @ ys) m = mem_apply ys (mem_apply xs m)"
  by (simp add: mem_apply_def)

lemma mem_apply_adds:
  "0 \<notin> set vs \<Longrightarrow> mem_apply (cc_list ConfChangeAddNode vs) m =
     m\<lparr>inc := inc m \<union> set vs, lrn := lrn m - set vs, nxt := nxt m - set vs\<rparr>"
  by (induction vs arbitrary: m) (auto simp: mem_change_def mem_add_def Diff_insert2 [symmetric])

lemma mem_apply_removes:
  "0 \<notin> set vs \<Longrightarrow> mem_apply (cc_list ConfChangeRemoveNode vs) m =
     m\<lparr>inc := inc m - set vs, lrn := lrn m - set vs, nxt := nxt m - set vs\<rparr>"
  by (induction vs arbitrary: m) (auto simp: mem_change_def mem_remove_def Diff_insert2 [symmetric])

lemma mem_apply_learns:
  "0 \<notin> set vs \<Longrightarrow> set vs \<inter> out m = {} \<Longrightarrow> inc m \<inter> lrn m = {} \<Longrightarrow>
   mem_apply (cc_list ConfChangeAddLearnerNode vs) m = m\<lparr>inc := inc m - set vs, lrn := lrn m \<union> set vs\<rparr>"
proof (induction vs arbitrary: m)
  case (Cons v vs)
  let ?m' = "m\<lparr>inc := inc m - {v}, lrn := insert v (lrn m)\<rparr>"
  have "mem_change m \<lparr>ccs_Type = ConfChangeAddLearnerNode, ccs_NodeID = v\<rparr> = ?m'"
    using Cons.prems by (cases m) (auto simp: mem_change_def mem_learn_def)
  moreover have "mem_apply (cc_list ConfChangeAddLearnerNode vs) ?m' =
      ?m'\<lparr>inc := inc ?m' - set vs, lrn := lrn ?m' \<union> set vs\<rparr>"
    using Cons.prems by (intro Cons.IH) auto
  ultimately show ?case by (auto simp: Diff_insert2 [symmetric])
qed simp

lemma mem_apply_stages:
  "0 \<notin> set vs \<Longrightarrow> set vs \<subseteq> out m \<Longrightarrow> set vs \<inter> lrn m = {} \<Longrightarrow>
   mem_apply (cc_list ConfChangeAddLearnerNode vs) m = m\<lparr>inc := inc m - set vs, nxt := nxt m \<union> set vs\<rparr>"
proof (induction vs arbitrary: m)
  case (Cons v vs)
  let ?m' = "m\<lparr>inc := inc m - {v}, nxt := insert v (nxt m)\<rparr>"
  have "mem_change m \<lparr>ccs_Type = ConfChangeAddLearnerNode, ccs_NodeID = v\<rparr> = ?m'"
    using Cons.prems by (auto simp: mem_change_def mem_learn_def)
  moreover have "mem_apply (cc_list ConfChangeAddLearnerNode vs) ?m' =
      ?m'\<lparr>inc := inc ?m' - set vs, nxt := nxt ?m' \<union> set vs\<rparr>"
    using Cons.prems by (intro Cons.IH) auto
  ultimately show ?case by (auto simp: Diff_insert2 [symmetric])
qed simp

lemma known_cc_list [simp]:
  "t \<in> {ConfChangeAddNode, ConfChangeRemoveNode, ConfChangeAddLearnerNode} \<Longrightarrow>
   \<forall>cc \<in> set (cc_list t vs). known_change cc"
  by (auto simp: known_change_def)

text \<open>A single change moves at most one voter.\<close>

lemma mem_change_one_voter: "card (inc m - inc (mem_change m cc)) + card (inc (mem_change m cc) - inc m) \<le> 1"
proof -
  let ?v = "ccs_NodeID cc"
  have "inc (mem_change m cc) \<in> {inc m, insert ?v (inc m), inc m - {?v}}"
    by (auto simp: mem_change_def mem_add_def mem_learn_def mem_remove_def split: ConfChangeType.splits)
  then have "inc m - inc (mem_change m cc) \<subseteq> {?v} \<and> inc (mem_change m cc) - inc m = {} \<or>
      inc m - inc (mem_change m cc) = {} \<and> inc (mem_change m cc) - inc m \<subseteq> {?v}"
    by auto
  moreover have "card A \<le> 1" if "A \<subseteq> {?v}" for A
    using card_mono [OF _ that] by simp
  ultimately show ?thesis by (metis add.commute add_0 card.empty)
qed

section \<open>Chains of simple changes\<close>

lemma with_conf_id: "with_conf c (pt_Config (chg_Tracker c), pt_Progress (chg_Tracker c)) = c"
  by (simp add: with_conf_def)

lemma with_conf_with_conf: "with_conf (with_conf c cp) cp' = with_conf c cp'"
  by (simp add: with_conf_def)

lemma chain_simples:
  assumes "chg_conf_inv c" "out (chg_members c) = {}" "\<forall>cc \<in> set ccs. known_change cc"
    "\<forall>i < length ccs. inc (mem_apply (take (Suc i) ccs) (chg_members c)) \<noteq> {}"
  shows "\<exists>cfg prs. conf_inv cfg prs \<and> members cfg = mem_apply ccs (chg_members c) \<and>
     chain c (map (\<lambda>cc chg. Simple chg [cc]) ccs @ ops) = chain (with_conf c (cfg, prs)) ops"
  using assms
proof (induction ccs arbitrary: c)
  case Nil
  then show ?case
    by (intro exI [of _ "pt_Config (chg_Tracker c)"] exI [of _ "pt_Progress (chg_Tracker c)"])
       (simp add: with_conf_id)
next
  case (Cons cc ccs)
  have k: "\<forall>cc \<in> set [cc]. known_change cc" using Cons.prems(3) by simp
  have "inc (mem_apply [cc] (chg_members c)) \<noteq> {}"
    using Cons.prems(4) by (auto dest: spec [of _ 0])
  then obtain cfg1 prs1 where s: "Simple c [cc] = Some (Inr (cfg1, prs1))" "conf_inv cfg1 prs1"
      "members cfg1 = mem_change (chg_members c) cc"
    using Simple_ok [OF Cons.prems(1) k Cons.prems(2)] mem_change_one_voter [of "chg_members c" cc]
    by (auto simp: not_less simp del: members_simps)
  let ?c1 = "with_conf c (cfg1, prs1)"
  have m1: "chg_members ?c1 = mem_change (chg_members c) cc" using s(3) by simp
  have "\<exists>cfg prs. conf_inv cfg prs \<and> members cfg = mem_apply ccs (chg_members ?c1) \<and>
      chain ?c1 (map (\<lambda>cc chg. Simple chg [cc]) ccs @ ops) = chain (with_conf ?c1 (cfg, prs)) ops"
  proof (rule Cons.IH)
    show "chg_conf_inv ?c1" using s by simp
    show "out (chg_members ?c1) = {}" unfolding m1 using Cons.prems(2) by simp
    show "\<forall>cc \<in> set ccs. known_change cc" using Cons.prems(3) by simp
    show "\<forall>i < length ccs. inc (mem_apply (take (Suc i) ccs) (chg_members ?c1)) \<noteq> {}"
      using Cons.prems(4) unfolding m1 by (auto dest: spec [of _ "Suc i" for i])
  qed
  then show ?case
    using s unfolding m1 by (simp add: with_conf_with_conf) (simp add: with_conf_def)
qed

section \<open>Restoring\<close>

definition state_members :: "ConfState \<Rightarrow> Members" where
  "state_members cs = \<lparr>inc = set (cs_Voters cs), out = set (cs_VotersOutgoing cs),
     lrn = set (cs_Learners cs), nxt = set (cs_LearnersNext cs)\<rparr>"

lemma state_members_simps [simp]:
  "inc (state_members cs) = set (cs_Voters cs)" "out (state_members cs) = set (cs_VotersOutgoing cs)"
  "lrn (state_members cs) = set (cs_Learners cs)" "nxt (state_members cs) = set (cs_LearnersNext cs)"
  by (simp_all add: state_members_def)

definition empty_members :: Members where
  "empty_members = \<lparr>inc = {}, out = {}, lrn = {}, nxt = {}\<rparr>"

text \<open>The voters come first, so that no intermediate configuration is without voters.\<close>

lemma voters_first:
  assumes "inc (mem_apply (take (Suc i) (cc_list ConfChangeAddNode vs @ cc_list ConfChangeAddLearnerNode ls)) m) = {}"
    "out m = {}" "lrn m = {}" "nxt m = {}" "0 \<notin> set vs \<union> set ls" "set ls \<inter> set vs = {}" "vs \<noteq> []"
    "inc m \<inter> set ls = {}"
  shows False
proof -
  have t: "take (Suc i) (cc_list ConfChangeAddNode vs @ cc_list ConfChangeAddLearnerNode ls) =
      cc_list ConfChangeAddNode (take (Suc i) vs) @ cc_list ConfChangeAddLearnerNode (take (Suc i - length vs) ls)"
    by (simp add: take_map)
  have z: "0 \<notin> set (take (Suc i) vs)" "0 \<notin> set (take (Suc i - length vs) ls)"
      "set (take (Suc i - length vs) ls) \<subseteq> set ls" "set (take (Suc i) vs) \<subseteq> set vs"
    using assms(5) by (auto dest: in_set_takeD)
  have "vs ! 0 \<in> set (take (Suc i) vs)" using assms(7) by (cases vs) auto
  moreover have "inc (mem_apply (cc_list ConfChangeAddNode (take (Suc i) vs) @
      cc_list ConfChangeAddLearnerNode (take (Suc i - length vs) ls)) m) =
      (inc m \<union> set (take (Suc i) vs)) - set (take (Suc i - length vs) ls)"
    using assms z by (simp add: mem_apply_append mem_apply_adds mem_apply_learns)
  ultimately show False using assms(1,6) z(3,4) unfolding t by blast
qed

lemma Restore_simple:
  assumes v: "valid_ConfState cs" and e: "cs_VotersOutgoing cs = []"
    and inv: "chg_conf_inv c" and m: "chg_members c = empty_members"
  shows "\<exists>cfg prs. Restore c cs = Some (Inr (cfg, prs)) \<and> conf_inv cfg prs \<and>
     members cfg = state_members cs \<and> cfg_AutoLeave cfg = cs_AutoLeave cs"
proof -
  let ?ccs = "cc_list ConfChangeAddNode (cs_Voters cs) @ cc_list ConfChangeAddLearnerNode (cs_Learners cs)"
  have nx: "cs_LearnersNext cs = []" "\<not> cs_AutoLeave cs" using v e by (auto simp: valid_ConfState_def)
  have r: "Restore c cs = chain c (map (\<lambda>cc chg. Simple chg [cc]) ?ccs @ [])"
    using e nx by (simp add: Restore_def toConfChangeSingle_def)
  have "\<forall>i < length ?ccs. inc (mem_apply (take (Suc i) ?ccs) (chg_members c)) \<noteq> {}"
  proof (intro allI impI notI)
    fix i
    assume that: "i < length ?ccs"
    assume "inc (mem_apply (take (Suc i) ?ccs) (chg_members c)) = {}"
    moreover have "cs_Voters cs \<noteq> []" using v that by (auto simp: valid_ConfState_def)
    ultimately show False
      using v unfolding m by (elim voters_first) (auto simp: valid_ConfState_def empty_members_def)
  qed
  moreover have "out (chg_members c) = {}" unfolding m by (simp add: empty_members_def)
  moreover have "\<forall>cc \<in> set ?ccs. known_change cc" by (auto simp: known_change_def)
  ultimately obtain cfg prs where cp: "conf_inv cfg prs" "members cfg = mem_apply ?ccs empty_members"
      "Restore c cs = chain (with_conf c (cfg, prs)) []"
    using chain_simples [OF inv, of ?ccs "[]"] unfolding r m by blast
  have "mem_apply ?ccs empty_members = state_members cs"
    using v e nx unfolding mem_apply_append
    by (subst mem_apply_adds; (subst mem_apply_learns)?)
       (auto simp: valid_ConfState_def empty_members_def state_members_def)
  moreover have "\<not> cfg_AutoLeave cfg"
    using cp calculation e by (auto simp: conf_inv_def simp del: members_simps)
  ultimately show ?thesis using cp nx by auto
qed

text \<open>The changes derived from a joint state, applied on top of its outgoing voters.\<close>

lemma mem_apply_inc:
  assumes v: "valid_ConfState cs"
  shows "mem_apply (snd (toConfChangeSingle cs)) (mem_enter (empty_members\<lparr>inc := set (cs_VotersOutgoing cs)\<rparr>)) =
     state_members cs"
proof -
  have z: "0 \<notin> set (cs_VotersOutgoing cs)" "0 \<notin> set (cs_Voters cs)" "0 \<notin> set (cs_Learners cs)"
      "0 \<notin> set (cs_LearnersNext cs)"
    using v by (auto simp: valid_ConfState_def)
  let ?O = "set (cs_VotersOutgoing cs)" and ?V = "set (cs_Voters cs)" and ?L = "set (cs_Learners cs)"
  have "mem_apply (cc_list ConfChangeRemoveNode (cs_VotersOutgoing cs)) (mem_enter (empty_members\<lparr>inc := ?O\<rparr>)) =
      \<lparr>inc = {}, out = ?O, lrn = {}, nxt = {}\<rparr>"
    using z by (simp add: mem_apply_removes mem_enter_def empty_members_def)
  moreover have "mem_apply (cc_list ConfChangeAddNode (cs_Voters cs)) \<lparr>inc = {}, out = ?O, lrn = {}, nxt = {}\<rparr> =
      \<lparr>inc = ?V, out = ?O, lrn = {}, nxt = {}\<rparr>"
    using z by (simp add: mem_apply_adds)
  moreover have "mem_apply (cc_list ConfChangeAddLearnerNode (cs_Learners cs)) \<lparr>inc = ?V, out = ?O, lrn = {}, nxt = {}\<rparr> =
      \<lparr>inc = ?V, out = ?O, lrn = ?L, nxt = {}\<rparr>"
    using z v by (subst mem_apply_learns) (auto simp: valid_ConfState_def)
  moreover have "mem_apply (cc_list ConfChangeAddLearnerNode (cs_LearnersNext cs)) \<lparr>inc = ?V, out = ?O, lrn = ?L, nxt = {}\<rparr> =
      state_members cs"
    using z v by (subst mem_apply_stages) (auto simp: valid_ConfState_def state_members_def)
  ultimately show ?thesis by (simp add: toConfChangeSingle_def mem_apply_append)
qed

lemma Restore_joint:
  assumes v: "valid_ConfState cs" and e: "cs_VotersOutgoing cs \<noteq> []"
    and inv: "chg_conf_inv c" and m: "chg_members c = empty_members"
  shows "\<exists>cfg prs. Restore c cs = Some (Inr (cfg, prs)) \<and> conf_inv cfg prs \<and>
     members cfg = state_members cs \<and> cfg_AutoLeave cfg = cs_AutoLeave cs"
proof -
  let ?out = "cc_list ConfChangeAddNode (cs_VotersOutgoing cs)"
  let ?inc = "snd (toConfChangeSingle cs)"
  let ?ops = "[\<lambda>chg. EnterJoint chg (cs_AutoLeave cs) ?inc]"
  have r: "Restore c cs = chain c (map (\<lambda>cc chg. Simple chg [cc]) ?out @ ?ops)"
    using e by (simp add: Restore_def toConfChangeSingle_def)
  have z: "0 \<notin> set (cs_VotersOutgoing cs)" "0 \<notin> set (cs_Voters cs)" "0 \<notin> set (cs_Learners cs)"
      "0 \<notin> set (cs_LearnersNext cs)"
    using v by (auto simp: valid_ConfState_def)
  have "inc (mem_apply (take (Suc i) (?out @ cc_list ConfChangeAddLearnerNode [])) (chg_members c)) \<noteq> {}" for i
    using e z unfolding m by (intro notI, elim voters_first) (auto simp: empty_members_def)
  then have "\<forall>i < length ?out. inc (mem_apply (take (Suc i) ?out) (chg_members c)) \<noteq> {}" by simp
  moreover have "out (chg_members c) = {}" unfolding m by (simp add: empty_members_def)
  moreover have "\<forall>cc \<in> set ?out. known_change cc" by (auto simp: known_change_def)
  ultimately obtain cfg prs where cp: "conf_inv cfg prs" "members cfg = mem_apply ?out empty_members"
      "Restore c cs = chain (with_conf c (cfg, prs)) ?ops"
    using chain_simples [OF inv, of ?out ?ops] unfolding r m by blast
  let ?c1 = "with_conf c (cfg, prs)"
  have m1: "chg_members ?c1 = empty_members\<lparr>inc := set (cs_VotersOutgoing cs)\<rparr>"
    using cp(2) z by (simp add: mem_apply_adds empty_members_def)
  have k: "\<forall>cc \<in> set ?inc. known_change cc" by (auto simp: toConfChangeSingle_def known_change_def)
  have ma: "mem_apply ?inc (mem_enter (chg_members ?c1)) = state_members cs"
    unfolding m1 by (rule mem_apply_inc [OF v])
  have "inc (state_members cs) \<noteq> {}" using v e by (auto simp: valid_ConfState_def)
  moreover have "chg_conf_inv ?c1" using cp by simp
  moreover have "out (chg_members ?c1) = {}" "inc (chg_members ?c1) \<noteq> {}"
    unfolding m1 using e by (simp_all add: empty_members_def)
  ultimately obtain cfg' prs' where "EnterJoint ?c1 (cs_AutoLeave cs) ?inc = Some (Inr (cfg', prs'))"
      "conf_inv cfg' prs'" "members cfg' = state_members cs" "cfg_AutoLeave cfg' = cs_AutoLeave cs"
    using EnterJoint_ok [of ?c1 ?inc "cs_AutoLeave cs"] k unfolding ma by auto
  then show ?thesis using cp(3) by auto
qed

section \<open>Properties\<close>

lemma Equivalent_members:
  assumes "valid_ConfState cs" "members (pt_Config p) = state_members cs"
    "cfg_AutoLeave (pt_Config p) = cs_AutoLeave cs"
  shows "Equivalent (pt_ConfState p) cs"
proof -
  have "ids (fst (cfg_Voters (pt_Config p))) = set (cs_Voters cs)"
    "ids (snd (cfg_Voters (pt_Config p))) = set (cs_VotersOutgoing cs)"
    "ids (cfg_Learners (pt_Config p)) = set (cs_Learners cs)"
    "ids (cfg_LearnersNext (pt_Config p)) = set (cs_LearnersNext cs)"
    using assms(2) by (simp_all add: members_def state_members_def incoming_def outgoing_def)
  then show ?thesis
    using assms(1,3)
    by (simp add: Equivalent_iff pt_ConfState_def valid_ConfState_def distinct_set_mset_eq)
qed

text \<open>
  (C15) Restoring a configuration inverts describing it: from an empty tracker, \<^verbatim>\<open>Restore\<close> succeeds
  on every valid \<^verbatim>\<open>ConfState\<close>, simple or joint, and the configuration it builds satisfies the
  invariant and describes itself by an equivalent \<^verbatim>\<open>ConfState\<close>.
\<close>

theorem restore_round_trip:
  assumes "valid_ConfState cs"
  shows "\<exists>cfg prs. Restore \<lparr>chg_Tracker = MakeProgressTracker n, chg_LastIndex = i\<rparr> cs = Some (Inr (cfg, prs)) \<and>
     conf_inv cfg prs \<and>
     Equivalent (pt_ConfState ((MakeProgressTracker n)\<lparr>pt_Config := cfg, pt_Progress := prs\<rparr>)) cs"
proof -
  let ?c = "\<lparr>chg_Tracker = MakeProgressTracker n, chg_LastIndex = i\<rparr>"
  have inv: "chg_conf_inv ?c" using conf_inv_start by simp
  have m: "chg_members ?c = empty_members"
    by (simp add: MakeProgressTracker_def members_def empty_members_def)
  obtain cfg prs where "Restore ?c cs = Some (Inr (cfg, prs))" "conf_inv cfg prs"
      "members cfg = state_members cs" "cfg_AutoLeave cfg = cs_AutoLeave cs"
    using Restore_simple [OF assms _ inv m] Restore_joint [OF assms _ inv m] by blast
  then show ?thesis using assms by (auto intro!: Equivalent_members)
qed

theorem restore_round_trip_witness:
  "\<exists>cfg prs. Restore \<lparr>chg_Tracker = MakeProgressTracker 8, chg_LastIndex = 10\<rparr>
       \<lparr>cs_Voters = [1, 2], cs_Learners = [4], cs_VotersOutgoing = [3, 1], cs_LearnersNext = [3],
        cs_AutoLeave = True\<rparr> = Some (Inr (cfg, prs)) \<and> conf_inv cfg prs"
  using restore_round_trip [of "\<lparr>cs_Voters = [1, 2], cs_Learners = [4], cs_VotersOutgoing = [3, 1],
    cs_LearnersNext = [3], cs_AutoLeave = True\<rparr>" 8 10]
  by (auto simp: valid_ConfState_def)

end
