(* ===== verification/Storage.thy ===== *)
theory Storage
  imports Raft_Pb
begin

text \<open>
  \<^verbatim>\<open>raft/storage.go\<close>: the \<^verbatim>\<open>Storage\<close> interface and its in-memory implementation, and
  \<^verbatim>\<open>limitSize\<close> of \<^verbatim>\<open>util.go\<close>.

  The interface is a record with one field per method, the answers of the storage in its current
  state: raft only reads it, the application writes it between two calls. A method may panic
  (\<open>None\<close>) or return an error (\<open>Inl\<close>). \<open>stores\<close> says what raft relies on: the storage holds
  consecutive entries after a base entry of which only index and term are left. Slices are
  values: the code copies before it overwrites an array that may be shared.
\<close>

datatype StorageErr =
    ErrCompacted | ErrSnapOutOfDate | ErrUnavailable | ErrSnapshotTemporarilyUnavailable
  | OtherStorageErr

record Storage =
  st_InitialState :: "(StorageErr + HardState \<times> ConfState) option"
  st_Entries :: "u64 \<Rightarrow> u64 \<Rightarrow> u64 \<Rightarrow> (StorageErr + Entry list) option"
  st_Term :: "u64 \<Rightarrow> (StorageErr + u64) option"
  st_LastIndex :: "(StorageErr + u64) option"
  st_FirstIndex :: "(StorageErr + u64) option"
  st_Snapshot :: "(StorageErr + Snapshot) option"

record MemoryStorage =
  ms_hardState :: HardState
  ms_snapshot :: Snapshot
  ms_ents :: "Entry list"

section \<open>Limiting the size of a batch\<close>

text \<open>The loop: the accumulated size, the entries kept so far, the entries left.\<close>

fun limitSize_loop :: "u64 \<Rightarrow> nat \<Rightarrow> Entry list \<Rightarrow> u64 \<Rightarrow> nat" where
  "limitSize_loop sz limit [] maxSize = limit"
| "limitSize_loop sz limit (e # es) maxSize =
     (let sz = sz + Entry_Size e in
      if sz > maxSize then limit else limitSize_loop sz (limit + 1) es maxSize)"

definition limitSize :: "Entry list \<Rightarrow> u64 \<Rightarrow> Entry list" where
  "limitSize ents maxSize =
     (case ents of [] \<Rightarrow> []
      | e # es \<Rightarrow> take (limitSize_loop (Entry_Size e) 1 es maxSize) ents)"

section \<open>The in-memory storage\<close>

definition NewMemoryStorage :: MemoryStorage where
  "NewMemoryStorage = \<lparr>ms_hardState = zero_HardState, ms_snapshot = zero_Snapshot,
     ms_ents = [zero_Entry]\<rparr>"

definition ms_InitialState :: "MemoryStorage \<Rightarrow> HardState \<times> ConfState" where
  "ms_InitialState ms = (ms_hardState ms, sm_ConfState (s_Metadata (ms_snapshot ms)))"

definition ms_SetHardState :: "HardState \<Rightarrow> MemoryStorage \<Rightarrow> MemoryStorage" where
  "ms_SetHardState st ms = ms\<lparr>ms_hardState := st\<rparr>"

definition ms_lastIndex :: "MemoryStorage \<Rightarrow> u64 option" where
  "ms_lastIndex ms =
     do { e \<leftarrow> go_index (ms_ents ms) 0; Some (e_Index e + of_nat (length (ms_ents ms)) - 1) }"

definition ms_firstIndex :: "MemoryStorage \<Rightarrow> u64 option" where
  "ms_firstIndex ms = do { e \<leftarrow> go_index (ms_ents ms) 0; Some (e_Index e + 1) }"

definition ms_Entries :: "MemoryStorage \<Rightarrow> u64 \<Rightarrow> u64 \<Rightarrow> u64 \<Rightarrow> (StorageErr + Entry list) option" where
  "ms_Entries ms lo hi maxSize =
     do {
       e \<leftarrow> go_index (ms_ents ms) 0;
       let offset = e_Index e in
       if lo \<le> offset then Some (Inl ErrCompacted)
       else do {
         last \<leftarrow> ms_lastIndex ms;
         if hi > last + 1 then None
         else if length (ms_ents ms) = 1 then Some (Inl ErrUnavailable)
         else do {
           ents \<leftarrow> go_slice (ms_ents ms) (unat (lo - offset)) (unat (hi - offset));
           Some (Inr (limitSize ents maxSize))
         }
       }
     }"

text \<open>The comparison with the length is one of signed integers.\<close>

definition ms_Term :: "MemoryStorage \<Rightarrow> u64 \<Rightarrow> (StorageErr + u64) option" where
  "ms_Term ms i =
     do {
       e \<leftarrow> go_index (ms_ents ms) 0;
       let offset = e_Index e in
       if i < offset then Some (Inl ErrCompacted)
       else if sint (i - offset) \<ge> int (length (ms_ents ms)) then Some (Inl ErrUnavailable)
       else do {
         e \<leftarrow> go_index (ms_ents ms) (unat (i - offset));
         Some (Inr (e_Term e))
       }
     }"

definition ms_ApplySnapshot :: "Snapshot \<Rightarrow> MemoryStorage \<Rightarrow> StorageErr + MemoryStorage" where
  "ms_ApplySnapshot snap ms =
     (let msIndex = sm_Index (s_Metadata (ms_snapshot ms));
          snapIndex = sm_Index (s_Metadata snap)
      in if msIndex \<ge> snapIndex then Inl ErrSnapOutOfDate
         else Inr (ms\<lparr>ms_snapshot := snap,
                ms_ents := [zero_Entry\<lparr>e_Term := sm_Term (s_Metadata snap),
                                       e_Index := sm_Index (s_Metadata snap)\<rparr>]\<rparr>))"

definition ms_CreateSnapshot ::
  "u64 \<Rightarrow> ConfState option \<Rightarrow> gobytes \<Rightarrow> MemoryStorage \<Rightarrow> (StorageErr + MemoryStorage \<times> Snapshot) option" where
  "ms_CreateSnapshot i cs data ms =
     (if i \<le> sm_Index (s_Metadata (ms_snapshot ms)) then Some (Inl ErrSnapOutOfDate)
      else do {
        e \<leftarrow> go_index (ms_ents ms) 0;
        let offset = e_Index e in do {
          last \<leftarrow> ms_lastIndex ms;
          if i > last then None
          else do {
            e \<leftarrow> go_index (ms_ents ms) (unat (i - offset));
            let md = (s_Metadata (ms_snapshot ms))\<lparr>sm_Index := i, sm_Term := e_Term e\<rparr>;
                md = (case cs of None \<Rightarrow> md | Some cs \<Rightarrow> md\<lparr>sm_ConfState := cs\<rparr>);
                snap = \<lparr>s_Data = data, s_Metadata = md\<rparr>
            in Some (Inr (ms\<lparr>ms_snapshot := snap\<rparr>, snap))
          }
        }
      })"

definition ms_Compact :: "u64 \<Rightarrow> MemoryStorage \<Rightarrow> (StorageErr + MemoryStorage) option" where
  "ms_Compact compactIndex ms =
     do {
       e \<leftarrow> go_index (ms_ents ms) 0;
       let offset = e_Index e in
       if compactIndex \<le> offset then Some (Inl ErrCompacted)
       else do {
         last \<leftarrow> ms_lastIndex ms;
         if compactIndex > last then None
         else
           let i = compactIndex - offset in do {
             e \<leftarrow> go_index (ms_ents ms) (unat i);
             rest \<leftarrow> go_slice (ms_ents ms) (unat (i + 1)) (length (ms_ents ms));
             Some (Inr (ms\<lparr>ms_ents :=
               zero_Entry\<lparr>e_Index := e_Index e, e_Term := e_Term e\<rparr> # rest\<rparr>))
           }
       }
     }"

definition ms_Append :: "Entry list \<Rightarrow> MemoryStorage \<Rightarrow> MemoryStorage option" where
  "ms_Append entries ms =
     (if length entries = 0 then Some ms
      else do {
        first \<leftarrow> ms_firstIndex ms;
        e0 \<leftarrow> go_index entries 0;
        let last = e_Index e0 + of_nat (length entries) - 1 in
        if last < first then Some ms
        else do {
          entries \<leftarrow> (if first > e_Index e0
                      then go_slice entries (unat (first - e_Index e0)) (length entries)
                      else Some entries);
          e0 \<leftarrow> go_index entries 0;
          m0 \<leftarrow> go_index (ms_ents ms) 0;
          let offset = e_Index e0 - e_Index m0 in
          if of_nat (length (ms_ents ms)) > offset
          then do {
            kept \<leftarrow> go_slice (ms_ents ms) 0 (unat offset);
            Some (ms\<lparr>ms_ents := kept @ entries\<rparr>)
          }
          else if of_nat (length (ms_ents ms)) = offset
          then Some (ms\<lparr>ms_ents := ms_ents ms @ entries\<rparr>)
          else None
        }
      })"

text \<open>The in-memory storage as a \<^verbatim>\<open>Storage\<close>.\<close>

definition MemoryStorage_Storage :: "MemoryStorage \<Rightarrow> Storage" where
  "MemoryStorage_Storage ms =
     \<lparr>st_InitialState = Some (Inr (ms_InitialState ms)),
      st_Entries = ms_Entries ms,
      st_Term = ms_Term ms,
      st_LastIndex = map_option Inr (ms_lastIndex ms),
      st_FirstIndex = map_option Inr (ms_firstIndex ms),
      st_Snapshot = Some (Inr (ms_snapshot ms))\<rparr>"

section \<open>Consecutive entries\<close>

fun consec :: "nat \<Rightarrow> Entry list \<Rightarrow> bool" where
  "consec k [] \<longleftrightarrow> True"
| "consec k (e # es) \<longleftrightarrow> unat (e_Index e) = k \<and> consec (Suc k) es"

lemma consec_nth: "consec k es \<longleftrightarrow> (\<forall>i < length es. unat (e_Index (es ! i)) = k + i)"
proof (induction es arbitrary: k)
  case (Cons e es)
  show ?case
    using Cons.IH [of "Suc k"] by (auto simp: nth_Cons' dest: spec [of _ 0] spec [of _ "Suc i" for i])
qed simp

lemma consec_append: "consec k (xs @ ys) \<longleftrightarrow> consec k xs \<and> consec (k + length xs) ys"
  by (induction xs arbitrary: k) auto

lemma consec_drop: "consec k es \<Longrightarrow> consec (k + n) (drop n es)"
  by (auto simp: consec_nth)

lemma consec_take: "consec k es \<Longrightarrow> consec k (take n es)"
  by (auto simp: consec_nth)

section \<open>What raft relies on\<close>

text \<open>
  The storage holds the consecutive entries \<open>es\<close> after the base entry with index \<open>off\<close> and
  term \<open>t\<close>; indexes stay below the top of the range.
\<close>

definition stores :: "Storage \<Rightarrow> nat \<Rightarrow> u64 \<Rightarrow> Entry list \<Rightarrow> bool" where
  "stores st off t es \<longleftrightarrow>
     off + length es < 2 ^ 63 \<and> consec (Suc off) es \<and>
     st_FirstIndex st = Some (Inr (of_nat (Suc off))) \<and>
     st_LastIndex st = Some (Inr (of_nat (off + length es))) \<and>
     (\<forall>i. unat i \<le> off + length es \<longrightarrow> st_Term st i =
        Some (if unat i < off then Inl ErrCompacted
              else if unat i = off then Inr t
              else Inr (e_Term (es ! (unat i - Suc off))))) \<and>
     (\<forall>lo hi mx. unat lo \<le> off \<longrightarrow> st_Entries st lo hi mx = Some (Inl ErrCompacted)) \<and>
     (\<forall>lo hi mx. off < unat lo \<longrightarrow> lo < hi \<longrightarrow> unat hi \<le> Suc (off + length es) \<longrightarrow>
        st_Entries st lo hi mx =
          Some (Inr (limitSize (take (unat hi - unat lo) (drop (unat lo - Suc off) es)) mx)))"

lemma storesD:
  assumes "stores st off t es"
  shows "st_FirstIndex st = Some (Inr (of_nat (Suc off)))"
    "st_LastIndex st = Some (Inr (of_nat (off + length es)))"
    "consec (Suc off) es" "off + length es < 2 ^ 63"
  using assms by (simp_all add: stores_def)

lemma stores_Term:
  assumes "stores st off t es" "unat i \<le> off + length es"
  shows "st_Term st i = Some (if unat i < off then Inl ErrCompacted
     else if unat i = off then Inr t else Inr (e_Term (es ! (unat i - Suc off))))"
  using assms by (simp add: stores_def)

lemma stores_Entries:
  assumes "stores st off t es" "off < unat lo" "lo < hi" "unat hi \<le> Suc (off + length es)"
  shows "st_Entries st lo hi mx =
     Some (Inr (limitSize (take (unat hi - unat lo) (drop (unat lo - Suc off) es)) mx))"
  using assms by (simp add: stores_def)

section \<open>What the size limit keeps\<close>

definition total_Size :: "Entry list \<Rightarrow> u64" where
  "total_Size es = sum_list (map Entry_Size es)"

lemma limitSize_loop_bounds:
  "limit \<le> limitSize_loop sz limit es mx \<and> limitSize_loop sz limit es mx \<le> limit + length es"
  by (induction sz limit es mx rule: limitSize_loop.induct) (auto simp: Let_def)

lemma limitSize_loop_sizes:
  defines "k sz limit es mx \<equiv> limitSize_loop sz limit es mx - limit"
  shows "(\<forall>j. 0 < j \<longrightarrow> j \<le> k sz limit es mx \<longrightarrow> sz + total_Size (take j es) \<le> mx) \<and>
     (k sz limit es mx < length es \<longrightarrow> sz + total_Size (take (Suc (k sz limit es mx)) es) > mx)"
  unfolding k_def
proof (induction sz limit es mx rule: limitSize_loop.induct)
  case (2 sz limit e es mx)
  show ?case
  proof (cases "sz + Entry_Size e > mx")
    case True
    then show ?thesis by (simp add: total_Size_def)
  next
    case False
    let ?n = "limitSize_loop (sz + Entry_Size e) (limit + 1) es mx"
    have n: "Suc limit \<le> ?n" using limitSize_loop_bounds [of "limit + 1"] by simp
    have ih: "\<forall>j. 0 < j \<longrightarrow> j \<le> ?n - Suc limit \<longrightarrow> sz + Entry_Size e + total_Size (take j es) \<le> mx"
        "?n - Suc limit < length es \<longrightarrow> sz + Entry_Size e + total_Size (take (Suc (?n - Suc limit)) es) > mx"
      using 2 [OF refl False] by simp_all
    have "sz + total_Size (take j (e # es)) \<le> mx" if j: "0 < j" "j \<le> ?n - limit" for j
    proof (cases j)
      case (Suc i)
      then show ?thesis
        using ih(1) False j n
        by (cases i) (auto simp: total_Size_def add.assoc dest: spec [of _ i])
    qed (use j in simp)
    moreover have "sz + total_Size (take (Suc (?n - limit)) (e # es)) > mx" if "?n - limit < length (e # es)"
    proof -
      have "?n - limit = Suc (?n - Suc limit)" using n by simp
      then show ?thesis using ih(2) that by (simp add: total_Size_def add.assoc)
    qed
    ultimately show ?thesis using False by (simp add: Let_def)
  qed
qed simp

lemma limitSize_Nil [simp]: "limitSize [] mx = []"
  by (simp add: limitSize_def)

lemma limitSize_prefix: "\<exists>k. limitSize es mx = take k es \<and> (es \<noteq> [] \<longrightarrow> 1 \<le> k \<and> k \<le> length es)"
proof (cases es)
  case (Cons e es')
  then show ?thesis
    using limitSize_loop_bounds [of 1 "Entry_Size e" es' mx]
    by (intro exI [of _ "limitSize_loop (Entry_Size e) 1 es' mx"]) (simp add: limitSize_def)
qed simp

lemma limitSize_nonempty [simp]: "limitSize es mx = [] \<longleftrightarrow> es = []"
  using limitSize_prefix [of es mx] by auto

lemma limitSize_no_limit [simp]: "limitSize es MaxUint64 = es"
proof -
  have m: "\<not> (x :: u64) > MaxUint64" for x by simp
  have "limitSize_loop sz limit es MaxUint64 = limit + length es" for sz limit es
    by (induction es arbitrary: sz limit) (simp_all add: m Let_def del: not_less)
  then show ?thesis by (cases es) (simp_all add: limitSize_def)
qed

section \<open>The in-memory storage keeps its promise\<close>

definition ms_off :: "MemoryStorage \<Rightarrow> nat" where
  "ms_off ms = unat (e_Index (hd (ms_ents ms)))"

definition ms_base_term :: "MemoryStorage \<Rightarrow> u64" where
  "ms_base_term ms = e_Term (hd (ms_ents ms))"

definition MemoryStorage_inv :: "MemoryStorage \<Rightarrow> bool" where
  "MemoryStorage_inv ms \<longleftrightarrow>
     ms_ents ms \<noteq> [] \<and> consec (ms_off ms) (ms_ents ms) \<and> ms_off ms + length (ms_ents ms) \<le> 2 ^ 63"

lemma NewMemoryStorage_inv: "MemoryStorage_inv NewMemoryStorage"
  by (simp add: MemoryStorage_inv_def NewMemoryStorage_def ms_off_def zero_Entry_def)

text \<open>The contents, opened: the base entry, the rest, and the bounds every proof needs.\<close>

lemma MemoryStorage_invE:
  assumes "MemoryStorage_inv ms"
  obtains b es where "ms_ents ms = b # es" "unat (e_Index b) = ms_off ms" "e_Term b = ms_base_term ms"
    "consec (Suc (ms_off ms)) es" "ms_off ms + length es < 2 ^ 63"
  using assms by (cases "ms_ents ms") (auto simp: MemoryStorage_inv_def ms_off_def ms_base_term_def)

lemma MemoryStorage_invI:
  assumes "ms_ents ms = b # es" "consec (Suc (unat (e_Index b))) es" "unat (e_Index b) + length es < 2 ^ 63"
  shows "MemoryStorage_inv ms" "ms_off ms = unat (e_Index b)" "ms_base_term ms = e_Term b"
  using assms by (simp_all add: MemoryStorage_inv_def ms_off_def ms_base_term_def)

lemma ms_lastIndex_ok:
  assumes "MemoryStorage_inv ms"
  shows "ms_lastIndex ms = Some (of_nat (ms_off ms + length (tl (ms_ents ms))))"
proof -
  obtain b es where e: "ms_ents ms = b # es" "unat (e_Index b) = ms_off ms"
    by (rule MemoryStorage_invE [OF assms])
  have "e_Index b = of_nat (ms_off ms)" by (rule u64_eq_of_nat [OF e(2)])
  then show ?thesis using e(1) by (simp add: ms_lastIndex_def go_index_def)
qed

lemma ms_firstIndex_ok:
  assumes "MemoryStorage_inv ms"
  shows "ms_firstIndex ms = Some (of_nat (Suc (ms_off ms)))"
proof -
  obtain b es where e: "ms_ents ms = b # es" "unat (e_Index b) = ms_off ms"
    by (rule MemoryStorage_invE [OF assms])
  have "e_Index b = of_nat (ms_off ms)" by (rule u64_eq_of_nat [OF e(2)])
  then show ?thesis using e(1) by (simp add: ms_firstIndex_def go_index_def)
qed

lemma ms_Term_ok:
  assumes inv: "MemoryStorage_inv ms" and i: "unat i \<le> ms_off ms + length (tl (ms_ents ms))"
  shows "ms_Term ms i =
     Some (if unat i < ms_off ms then Inl ErrCompacted
           else if unat i = ms_off ms then Inr (ms_base_term ms)
           else Inr (e_Term (tl (ms_ents ms) ! (unat i - Suc (ms_off ms)))))"
proof -
  obtain b es where e: "ms_ents ms = b # es" "unat (e_Index b) = ms_off ms" "e_Term b = ms_base_term ms"
      "ms_off ms + length es < 2 ^ 63"
    by (rule MemoryStorage_invE [OF inv])
  show ?thesis
  proof (cases "i < e_Index b")
    case True
    then show ?thesis using e by (simp add: ms_Term_def u64_nat)
  next
    case False
    then have d: "unat (i - e_Index b) = unat i - ms_off ms"
      using e(2) by (simp add: unat_diff_u64)
    have le: "ms_off ms \<le> unat i" using False e(2) by (simp add: u64_nat)
    have "sint (i - e_Index b) = int (unat (i - e_Index b))"
      using d i e by (intro sint_small_u64) simp
    also have "\<dots> < int (length (b # es))"
      unfolding d of_nat_less_iff using i e le by simp
    finally have "\<not> sint (i - e_Index b) \<ge> int (length (b # es))" by simp
    then show ?thesis
      using False d le i e by (simp add: ms_Term_def u64_nat nth_Cons' Let_def)
  qed
qed

lemma ms_Entries_compacted:
  assumes inv: "MemoryStorage_inv ms" and "unat lo \<le> ms_off ms"
  shows "ms_Entries ms lo hi mx = Some (Inl ErrCompacted)"
proof -
  obtain b es where e: "ms_ents ms = b # es" "unat (e_Index b) = ms_off ms"
    by (rule MemoryStorage_invE [OF inv])
  then show ?thesis using assms(2) by (simp add: ms_Entries_def u64_nat)
qed

lemma ms_Entries_ok:
  assumes inv: "MemoryStorage_inv ms" and lo: "ms_off ms < unat lo" and lh: "lo < hi"
    and hi: "unat hi \<le> Suc (ms_off ms + length (tl (ms_ents ms)))"
  shows "ms_Entries ms lo hi mx =
     Some (Inr (limitSize (take (unat hi - unat lo) (drop (unat lo - Suc (ms_off ms)) (tl (ms_ents ms)))) mx))"
proof -
  obtain b es where e: "ms_ents ms = b # es" "unat (e_Index b) = ms_off ms"
      "ms_off ms + length es < 2 ^ 63"
    by (rule MemoryStorage_invE [OF inv])
  have lh': "unat lo < unat hi" using lh by (simp add: u64_nat)
  have es: "es \<noteq> []" using lo lh' hi e by auto
  have d: "unat (lo - e_Index b) = unat lo - ms_off ms" "unat (hi - e_Index b) = unat hi - ms_off ms"
    using lo lh' e(2) by (simp_all add: unat_diff_u64 u64_nat)
  have "\<not> hi > of_nat (ms_off ms + length es) + 1"
    using hi e unat_Suc_u64 [of "of_nat (ms_off ms + length es)"] by (simp add: u64_nat del: of_nat_add)
  moreover have "drop (unat lo - ms_off ms) (b # es) = drop (unat lo - Suc (ms_off ms)) es"
    using lo by (simp add: drop_Cons')
  ultimately show ?thesis
    using ms_lastIndex_ok [OF inv] e lo lh' hi d es
    by (simp add: ms_Entries_def u64_nat not_le del: of_nat_add)
qed

lemma MemoryStorage_stores:
  assumes "MemoryStorage_inv ms"
  shows "stores (MemoryStorage_Storage ms) (ms_off ms) (ms_base_term ms) (tl (ms_ents ms))"
proof -
  have "consec (Suc (ms_off ms)) (tl (ms_ents ms))" "ms_off ms + length (tl (ms_ents ms)) < 2 ^ 63"
    by (rule MemoryStorage_invE [OF assms]; simp)+
  then show ?thesis
    unfolding stores_def MemoryStorage_Storage_def
    using ms_lastIndex_ok [OF assms] ms_firstIndex_ok [OF assms] ms_Term_ok [OF assms]
      ms_Entries_ok [OF assms] ms_Entries_compacted [OF assms]
    by simp
qed

section \<open>Writing to the in-memory storage\<close>

lemma ms_ApplySnapshot_ok:
  assumes "ms_ApplySnapshot snap ms = Inr ms'" "unat (sm_Index (s_Metadata snap)) < 2 ^ 63"
  shows "MemoryStorage_inv ms'" "ms_off ms' = unat (sm_Index (s_Metadata snap))"
    "ms_base_term ms' = sm_Term (s_Metadata snap)" "tl (ms_ents ms') = []"
  using assms
  by (auto simp: ms_ApplySnapshot_def Let_def MemoryStorage_inv_def ms_off_def ms_base_term_def split: if_splits)

lemma ms_Compact_ok:
  assumes inv: "MemoryStorage_inv ms" and i: "ms_off ms < i" "i \<le> ms_off ms + length (tl (ms_ents ms))"
  shows "\<exists>ms'. ms_Compact (of_nat i) ms = Some (Inr ms') \<and> MemoryStorage_inv ms' \<and> ms_off ms' = i \<and>
     ms_base_term ms' = e_Term (tl (ms_ents ms) ! (i - Suc (ms_off ms))) \<and>
     tl (ms_ents ms') = drop (i - ms_off ms) (tl (ms_ents ms))"
proof -
  obtain b es where e: "ms_ents ms = b # es" "unat (e_Index b) = ms_off ms"
      "consec (Suc (ms_off ms)) es" "ms_off ms + length es < 2 ^ 63"
    by (rule MemoryStorage_invE [OF inv])
  have ui: "unat (of_nat i :: u64) = i" using i e by (intro unat_of_nat_u64) simp
  have d: "unat (of_nat i - e_Index b) = i - ms_off ms"
    using i e ui by (simp add: unat_diff_u64 u64_nat)
  have d1: "unat (of_nat i - e_Index b + 1) = Suc (i - ms_off ms)"
    using d i e by (subst unat_Suc_u64) simp_all
  define x where "x = es ! (i - Suc (ms_off ms))"
  have x: "unat (e_Index x) = i" using e i by (auto simp: consec_nth x_def)
  let ?ms' = "ms\<lparr>ms_ents := zero_Entry\<lparr>e_Index := e_Index x, e_Term := e_Term x\<rparr> # drop (i - ms_off ms) es\<rparr>"
  have c1: "\<not> of_nat i \<le> e_Index b" using i e ui by (simp add: u64_nat)
  have c2: "\<not> of_nat i > (of_nat (ms_off ms + length es) :: u64)"
    using i e ui by (simp add: u64_nat del: of_nat_add)
  have x': "(b # es) ! (i - ms_off ms) = x" using i by (simp add: x_def nth_Cons')
  have "ms_Compact (of_nat i) ms = Some (Inr ?ms')"
    using ms_lastIndex_ok [OF inv] e i c1 c2 d d1 x'
    by (simp add: ms_Compact_def Let_def del: of_nat_add)
  moreover have "consec (Suc i) (drop (i - ms_off ms) es)"
    using consec_drop [OF e(3), of "i - ms_off ms"] i by simp
  then have "MemoryStorage_inv ?ms' \<and> ms_off ?ms' = i \<and> ms_base_term ?ms' = e_Term x"
    using MemoryStorage_invI [of ?ms' "zero_Entry\<lparr>e_Index := e_Index x, e_Term := e_Term x\<rparr>"] x i e(1,4)
    by simp
  ultimately show ?thesis using e(1) by (simp add: x_def)
qed

lemma consec_hd: "consec k es \<Longrightarrow> es \<noteq> [] \<Longrightarrow> unat (e_Index (es ! 0)) = k"
  by (cases es) auto

text \<open>Appending replaces everything from the first new index on.\<close>

lemma ms_Append_ok:
  assumes inv: "MemoryStorage_inv ms" and es: "new \<noteq> []" "consec k new" "k + length new \<le> 2 ^ 63"
    and k: "ms_off ms < k" "k \<le> Suc (ms_off ms + length (tl (ms_ents ms)))"
  shows "\<exists>ms'. ms_Append new ms = Some ms' \<and> MemoryStorage_inv ms' \<and> ms_off ms' = ms_off ms \<and>
     ms_base_term ms' = ms_base_term ms \<and> tl (ms_ents ms') = take (k - Suc (ms_off ms)) (tl (ms_ents ms)) @ new"
proof -
  obtain b old where e: "ms_ents ms = b # old" "unat (e_Index b) = ms_off ms"
      "consec (Suc (ms_off ms)) old" "ms_off ms + length old < 2 ^ 63"
    by (rule MemoryStorage_invE [OF inv])
  have n0: "unat (e_Index (new ! 0)) = k" by (rule consec_hd [OF es(2,1)])
  have last: "e_Index (new ! 0) + of_nat (length new) - 1 = of_nat (k + length new - 1)"
    using u64_eq_of_nat [OF n0] es(1) by (cases new) simp_all
  have first: "\<not> (of_nat (k + length new - 1) :: u64) < of_nat (Suc (ms_off ms))"
    using es k e by (cases new) (simp_all add: u64_nat del: of_nat_add of_nat_Suc)
  have nf: "\<not> (of_nat (Suc (ms_off ms)) :: u64) > e_Index (new ! 0)"
    using n0 k e by (simp add: u64_nat del: of_nat_Suc)
  have d: "unat (e_Index (new ! 0) - e_Index b) = k - ms_off ms"
    using n0 k e by (simp add: unat_diff_u64 u64_nat)
  let ?ms' = "ms\<lparr>ms_ents := take (k - ms_off ms) (b # old) @ new\<rparr>"
  have "of_nat (length (b # old)) > e_Index (new ! 0) - e_Index b \<longleftrightarrow> k - ms_off ms < length (b # old)"
    using d e by (simp add: u64_nat del: of_nat_Suc)
  moreover have "of_nat (length (b # old)) = e_Index (new ! 0) - e_Index b \<longleftrightarrow> k - ms_off ms = length (b # old)"
    using d e unat_of_nat_u64 [of "length (b # old)"] by (auto simp: word_unat_eq_iff simp del: of_nat_Suc)
  ultimately have "ms_Append new ms = Some ?ms'"
    using ms_firstIndex_ok [OF inv] es(1) k e last first nf d
    by (auto simp: ms_Append_def Let_def simp del: of_nat_Suc of_nat_add)
  moreover have t: "take (k - ms_off ms) (b # old) = b # take (k - Suc (ms_off ms)) old"
    using k by (simp add: take_Cons')
  moreover have "consec (Suc (ms_off ms)) (take (k - Suc (ms_off ms)) old @ new)"
    using e k es by (simp add: consec_append consec_take)
  then have "MemoryStorage_inv ?ms' \<and> ms_off ?ms' = ms_off ms \<and> ms_base_term ?ms' = e_Term b"
    using MemoryStorage_invI [of ?ms' b "take (k - Suc (ms_off ms)) old @ new"] t e(2) k es by simp
  moreover have "ms_base_term ms = e_Term b" using e(1) by (simp add: ms_base_term_def)
  ultimately show ?thesis using e(1) by simp
qed

text \<open>The interface of a storage that is written the way the application is told to.\<close>

locale log_store =
  fixes as_storage :: "'s \<Rightarrow> Storage"
    and invar :: "'s \<Rightarrow> bool"
    and base :: "'s \<Rightarrow> nat"
    and base_term :: "'s \<Rightarrow> u64"
    and contents :: "'s \<Rightarrow> Entry list"
    and append :: "Entry list \<Rightarrow> 's \<Rightarrow> 's option"
    and install :: "Snapshot \<Rightarrow> 's \<Rightarrow> StorageErr + 's"
    and compact :: "u64 \<Rightarrow> 's \<Rightarrow> (StorageErr + 's) option"
  assumes provides: "invar s \<Longrightarrow> stores (as_storage s) (base s) (base_term s) (contents s)"
    and append_ok: "invar s \<Longrightarrow> new \<noteq> [] \<Longrightarrow> consec k new \<Longrightarrow> k + length new \<le> 2 ^ 63 \<Longrightarrow>
      base s < k \<Longrightarrow> k \<le> Suc (base s + length (contents s)) \<Longrightarrow>
      \<exists>s'. append new s = Some s' \<and> invar s' \<and> base s' = base s \<and> base_term s' = base_term s \<and>
        contents s' = take (k - Suc (base s)) (contents s) @ new"
    and install_ok: "install snap s = Inr s' \<Longrightarrow> unat (sm_Index (s_Metadata snap)) < 2 ^ 63 \<Longrightarrow>
      invar s' \<and> base s' = unat (sm_Index (s_Metadata snap)) \<and> base_term s' = sm_Term (s_Metadata snap) \<and>
        contents s' = []"
    and compact_ok: "invar s \<Longrightarrow> base s < i \<Longrightarrow> i \<le> base s + length (contents s) \<Longrightarrow>
      \<exists>s'. compact (of_nat i) s = Some (Inr s') \<and> invar s' \<and> base s' = i \<and>
        base_term s' = e_Term (contents s ! (i - Suc (base s))) \<and> contents s' = drop (i - base s) (contents s)"
begin

text \<open>What was appended can be read back.\<close>

lemma append_then_read:
  assumes "invar s" "new \<noteq> []" "consec k new" "k + length new \<le> 2 ^ 63" "base s < k"
    "k \<le> Suc (base s + length (contents s))"
  shows "\<exists>s'. append new s = Some s' \<and>
     st_LastIndex (as_storage s') = Some (Inr (of_nat (k + length new - 1))) \<and>
     st_Entries (as_storage s') (of_nat k) (of_nat (k + length new)) MaxUint64 = Some (Inr new)"
proof -
  obtain s' where s': "append new s = Some s'" "invar s'" "base s' = base s"
      "contents s' = take (k - Suc (base s)) (contents s) @ new"
    using append_ok [OF assms] by blast
  have st: "stores (as_storage s') (base s) (base_term s') (take (k - Suc (base s)) (contents s) @ new)"
    using provides [OF s'(2)] s' by simp
  have "unat (of_nat k :: u64) = k" "unat (of_nat (k + length new) :: u64) = k + length new"
    using assms(4) by (simp_all del: of_nat_add)
  then have "st_Entries (as_storage s') (of_nat k) (of_nat (k + length new)) MaxUint64 = Some (Inr new)"
    using stores_Entries [OF st, of "of_nat k" "of_nat (k + length new)"] assms(2,5,6)
    by (simp add: u64_nat del: of_nat_add)
  moreover have "base s + length (take (k - Suc (base s)) (contents s) @ new) = k + length new - 1"
    using assms(2,5,6) by (cases new) auto
  ultimately show ?thesis using s'(1) storesD(2) [OF st] by (simp only:) blast
qed

text \<open>Compaction keeps the term of every index that is not discarded.\<close>

lemma compact_keeps_terms:
  assumes "invar s" "base s < i" "i \<le> base s + length (contents s)"
    "i \<le> unat j" "unat j \<le> base s + length (contents s)"
  shows "\<exists>s'. compact (of_nat i) s = Some (Inr s') \<and> st_Term (as_storage s') j = st_Term (as_storage s) j"
proof -
  obtain s' where s': "compact (of_nat i) s = Some (Inr s')" "invar s'" "base s' = i"
      "base_term s' = e_Term (contents s ! (i - Suc (base s)))" "contents s' = drop (i - base s) (contents s)"
    using compact_ok [OF assms(1-3)] by blast
  have st: "stores (as_storage s') i (base_term s') (drop (i - base s) (contents s))"
    using provides [OF s'(2)] s' by simp
  have "unat j - Suc (base s) = i - base s + (unat j - Suc i)" if "i \<noteq> unat j"
    using that assms by simp
  then have "st_Term (as_storage s') j = st_Term (as_storage s) j"
    using st provides [OF assms(1)] assms s'(4) unfolding stores_def by auto
  then show ?thesis using s'(1) by blast
qed

end

interpretation memory: log_store MemoryStorage_Storage MemoryStorage_inv ms_off ms_base_term
  "\<lambda>ms. tl (ms_ents ms)" ms_Append ms_ApplySnapshot ms_Compact
  by (unfold_locales; (rule MemoryStorage_stores ms_Append_ok ms_Compact_ok; assumption)?)
     (simp_all add: ms_ApplySnapshot_ok)

section \<open>Properties\<close>

text \<open>
  Limiting a batch of entries by size keeps a prefix: at least one entry if there is any, more
  only while their total size (a 64-bit sum) is within the limit, and as many as possible.
\<close>

theorem limit_size_spec:
  "\<exists>k. limitSize ents mx = take k ents \<and> (ents \<noteq> [] \<longrightarrow> 1 \<le> k \<and> k \<le> length ents) \<and>
     (\<forall>j. 2 \<le> j \<longrightarrow> j \<le> k \<longrightarrow> total_Size (take j ents) \<le> mx) \<and>
     (ents \<noteq> [] \<longrightarrow> k < length ents \<longrightarrow> mx < total_Size (take (Suc k) ents))"
proof (cases ents)
  case (Cons e es)
  let ?k = "limitSize_loop (Entry_Size e) 1 es mx"
  have b: "1 \<le> ?k" "?k \<le> 1 + length es" using limitSize_loop_bounds [of 1] by simp_all
  have l: "\<And>j. 0 < j \<Longrightarrow> j \<le> ?k - 1 \<Longrightarrow> Entry_Size e + total_Size (take j es) \<le> mx"
    "?k - 1 < length es \<Longrightarrow> Entry_Size e + total_Size (take (Suc (?k - 1)) es) > mx"
    using limitSize_loop_sizes [of "Entry_Size e" 1 es mx] by simp_all
  have t: "total_Size (take (Suc j) ents) = Entry_Size e + total_Size (take j es)" for j
    using Cons by (simp add: total_Size_def)
  have "total_Size (take j ents) \<le> mx" if "2 \<le> j" "j \<le> ?k" for j
    using l(1) [of "j - 1"] t [of "j - 1"] that by simp
  moreover have "mx < total_Size (take (Suc ?k) ents)" if "?k < length ents"
    using l(2) t [of ?k] b that Cons by simp
  ultimately show ?thesis
    using b Cons by (intro exI [of _ ?k]) (auto simp: limitSize_def)
qed (auto intro: exI [of _ 0])

theorem limit_size_spec_witness:
  "\<exists>k. limitSize [zero_Entry, zero_Entry] 1 = take k [zero_Entry, zero_Entry] \<and> 1 \<le> k \<and> k \<le> 2"
  using limit_size_spec [of "[zero_Entry, zero_Entry]" 1] by auto

text \<open>
  (C30) Appending to the in-memory storage: consecutive entries that start after the base entry and
  leave no gap replace everything from their first index on; the new last index is that of the
  last one and reading their range returns them.
\<close>

theorem memory_append_read:
  assumes "MemoryStorage_inv ms" "new \<noteq> []" "consec k new" "k + length new \<le> 2 ^ 63"
    "ms_off ms < k" "k \<le> ms_off ms + length (ms_ents ms)"
  shows "\<exists>ms'. ms_Append new ms = Some ms' \<and> MemoryStorage_inv ms' \<and>
     tl (ms_ents ms') = take (k - Suc (ms_off ms)) (tl (ms_ents ms)) @ new \<and>
     ms_lastIndex ms' = Some (of_nat (k + length new - 1)) \<and>
     ms_Entries ms' (of_nat k) (of_nat (k + length new)) MaxUint64 = Some (Inr new)"
proof -
  have k: "k \<le> Suc (ms_off ms + length (tl (ms_ents ms)))"
    using assms(1,6) by (cases "ms_ents ms") (auto simp: MemoryStorage_inv_def)
  show ?thesis
    using memory.append_ok [OF assms(1-5) k] memory.append_then_read [OF assms(1-5) k]
    by (auto simp: MemoryStorage_Storage_def)
qed

theorem memory_append_read_witness:
  "\<exists>ms'. ms_Append [zero_Entry\<lparr>e_Index := 1\<rparr>] NewMemoryStorage = Some ms' \<and> ms_lastIndex ms' = Some 1"
  using memory_append_read [OF NewMemoryStorage_inv, of "[zero_Entry\<lparr>e_Index := 1\<rparr>]" 1]
  by (auto simp: NewMemoryStorage_def ms_off_def zero_Entry_def)

text \<open>
  Compacting the in-memory storage up to an index it holds succeeds, makes that index the base,
  and keeps the term of every index that is left, the base included.
\<close>

theorem memory_compact_keeps_terms:
  assumes "MemoryStorage_inv ms" "ms_off ms < i" "i \<le> unat j" "unat j < ms_off ms + length (ms_ents ms)"
  shows "\<exists>ms'. ms_Compact (of_nat i) ms = Some (Inr ms') \<and> MemoryStorage_inv ms' \<and> ms_off ms' = i \<and>
     ms_Term ms' j = ms_Term ms j"
proof -
  have l: "unat j \<le> ms_off ms + length (tl (ms_ents ms))" "i \<le> ms_off ms + length (tl (ms_ents ms))"
    using assms by auto
  show ?thesis
    using memory.compact_ok [OF assms(1,2) l(2)] memory.compact_keeps_terms [OF assms(1,2) l(2) assms(3) l(1)]
    by (auto simp: MemoryStorage_Storage_def)
qed

theorem memory_compact_keeps_terms_witness:
  "\<exists>ms'. ms_Compact (of_nat 1) (NewMemoryStorage\<lparr>ms_ents := [zero_Entry, zero_Entry\<lparr>e_Index := 1, e_Term := 7\<rparr>]\<rparr>) =
     Some (Inr ms') \<and> MemoryStorage_inv ms' \<and> ms_off ms' = 1"
  using memory_compact_keeps_terms [of "NewMemoryStorage\<lparr>ms_ents := [zero_Entry, zero_Entry\<lparr>e_Index := 1, e_Term := 7\<rparr>]\<rparr>" 1 1]
  by (auto simp: MemoryStorage_inv_def ms_off_def zero_Entry_def)

end
