(* ===== verification/Raft_Log.thy ===== *)
theory Raft_Log
  imports Storage
begin

text \<open>
  \<^verbatim>\<open>raft/log_unstable.go\<close> and \<^verbatim>\<open>raft/log.go\<close>: the entries that are not persisted yet, and the log
  that puts them on top of a \<^verbatim>\<open>Storage\<close>. A panic, of the logger or of the runtime, is \<open>None\<close>;
  the arguments of log messages are evaluated where evaluating them can panic.
\<close>

section \<open>The unstable part\<close>

record unstable =
  u_snapshot :: "Snapshot option"
  u_entries :: "Entry list"
  u_offset :: u64

abbreviation snap_index :: "Snapshot \<Rightarrow> u64" where
  "snap_index s \<equiv> sm_Index (s_Metadata s)"

abbreviation snap_term :: "Snapshot \<Rightarrow> u64" where
  "snap_term s \<equiv> sm_Term (s_Metadata s)"

definition u_maybeFirstIndex :: "unstable \<Rightarrow> u64 option" where
  "u_maybeFirstIndex u = (case u_snapshot u of Some s \<Rightarrow> Some (snap_index s + 1) | None \<Rightarrow> None)"

definition u_maybeLastIndex :: "unstable \<Rightarrow> u64 option" where
  "u_maybeLastIndex u =
     (if length (u_entries u) \<noteq> 0 then Some (u_offset u + of_nat (length (u_entries u)) - 1)
      else case u_snapshot u of Some s \<Rightarrow> Some (snap_index s) | None \<Rightarrow> None)"

text \<open>The outer option is the panic of the index expression, the inner one the second result.\<close>

definition u_maybeTerm :: "unstable \<Rightarrow> u64 \<Rightarrow> u64 option option" where
  "u_maybeTerm u i =
     (if i < u_offset u
      then (case u_snapshot u of
              Some s \<Rightarrow> Some (if snap_index s = i then Some (snap_term s) else None)
            | None \<Rightarrow> Some None)
      else (case u_maybeLastIndex u of
              None \<Rightarrow> Some None
            | Some lasti \<Rightarrow>
                if i > lasti then Some None
                else do { e \<leftarrow> go_index (u_entries u) (unat (i - u_offset u)); Some (Some (e_Term e)) }))"

text \<open>\<^verbatim>\<open>shrinkEntriesArray\<close> moves the entries to a smaller array: the same slice value.\<close>

definition u_stableTo :: "u64 \<Rightarrow> u64 \<Rightarrow> unstable \<Rightarrow> unstable option" where
  "u_stableTo i t u =
     do {
       r \<leftarrow> u_maybeTerm u i;
       case r of
         None \<Rightarrow> Some u
       | Some gt \<Rightarrow>
           if gt = t \<and> i \<ge> u_offset u
           then do {
             ents \<leftarrow> go_slice (u_entries u) (unat (i + 1 - u_offset u)) (length (u_entries u));
             Some (u\<lparr>u_entries := ents, u_offset := i + 1\<rparr>)
           }
           else Some u
     }"

definition u_stableSnapTo :: "u64 \<Rightarrow> unstable \<Rightarrow> unstable" where
  "u_stableSnapTo i u =
     (case u_snapshot u of
        Some s \<Rightarrow> (if snap_index s = i then u\<lparr>u_snapshot := None\<rparr> else u)
      | None \<Rightarrow> u)"

definition u_restore :: "Snapshot \<Rightarrow> unstable \<Rightarrow> unstable" where
  "u_restore s u = u\<lparr>u_offset := snap_index s + 1, u_entries := [], u_snapshot := Some s\<rparr>"

definition u_mustCheckOutOfBounds :: "unstable \<Rightarrow> u64 \<Rightarrow> u64 \<Rightarrow> unit option" where
  "u_mustCheckOutOfBounds u lo hi =
     (if lo > hi then None
      else
        let upper = u_offset u + of_nat (length (u_entries u)) in
        if lo < u_offset u \<or> hi > upper then None else Some ())"

definition u_slice :: "unstable \<Rightarrow> u64 \<Rightarrow> u64 \<Rightarrow> Entry list option" where
  "u_slice u lo hi =
     do {
       u_mustCheckOutOfBounds u lo hi;
       go_slice (u_entries u) (unat (lo - u_offset u)) (unat (hi - u_offset u))
     }"

definition u_truncateAndAppend :: "Entry list \<Rightarrow> unstable \<Rightarrow> unstable option" where
  "u_truncateAndAppend ents u =
     do {
       e \<leftarrow> go_index ents 0;
       let after = e_Index e in
       if after = u_offset u + of_nat (length (u_entries u))
       then Some (u\<lparr>u_entries := u_entries u @ ents\<rparr>)
       else if after \<le> u_offset u
       then Some (u\<lparr>u_offset := after, u_entries := ents\<rparr>)
       else do {
         kept \<leftarrow> u_slice u (u_offset u) after;
         Some (u\<lparr>u_entries := kept @ ents\<rparr>)
       }
     }"

section \<open>The log\<close>

record raftLog =
  rl_storage :: Storage
  rl_unstable :: unstable
  rl_committed :: u64
  rl_applied :: u64
  rl_maxNextEntsSize :: u64

abbreviation noLimit :: u64 where
  "noLimit \<equiv> MaxUint64"

text \<open>An error of the storage that the log does not handle is a panic.\<close>

definition must_ok :: "(StorageErr + 'a) option \<Rightarrow> 'a option" where
  "must_ok r = do { x \<leftarrow> r; case x of Inl e \<Rightarrow> None | Inr a \<Rightarrow> Some a }"

definition newLogWithSize :: "Storage \<Rightarrow> u64 \<Rightarrow> raftLog option" where
  "newLogWithSize storage maxNextEntsSize =
     do {
       firstIndex \<leftarrow> must_ok (st_FirstIndex storage);
       lastIndex \<leftarrow> must_ok (st_LastIndex storage);
       Some \<lparr>rl_storage = storage,
             rl_unstable = \<lparr>u_snapshot = None, u_entries = [], u_offset = lastIndex + 1\<rparr>,
             rl_committed = firstIndex - 1, rl_applied = firstIndex - 1,
             rl_maxNextEntsSize = maxNextEntsSize\<rparr>
     }"

definition newLog :: "Storage \<Rightarrow> raftLog option" where
  "newLog storage = newLogWithSize storage noLimit"

definition rl_firstIndex :: "raftLog \<Rightarrow> u64 option" where
  "rl_firstIndex l =
     (case u_maybeFirstIndex (rl_unstable l) of
        Some i \<Rightarrow> Some i
      | None \<Rightarrow> must_ok (st_FirstIndex (rl_storage l)))"

definition rl_lastIndex :: "raftLog \<Rightarrow> u64 option" where
  "rl_lastIndex l =
     (case u_maybeLastIndex (rl_unstable l) of
        Some i \<Rightarrow> Some i
      | None \<Rightarrow> must_ok (st_LastIndex (rl_storage l)))"

definition rl_term :: "raftLog \<Rightarrow> u64 \<Rightarrow> (StorageErr + u64) option" where
  "rl_term l i =
     do {
       firstIndex \<leftarrow> rl_firstIndex l;
       let dummyIndex = firstIndex - 1 in
       if i < dummyIndex then Some (Inr 0)
       else do {
         lastIndex \<leftarrow> rl_lastIndex l;
         if i > lastIndex then Some (Inr 0)
         else do {
           ut \<leftarrow> u_maybeTerm (rl_unstable l) i;
           case ut of
             Some t \<Rightarrow> Some (Inr t)
           | None \<Rightarrow> do {
               r \<leftarrow> st_Term (rl_storage l) i;
               case r of
                 Inr t \<Rightarrow> Some (Inr t)
               | Inl e \<Rightarrow> (if e = ErrCompacted \<or> e = ErrUnavailable then Some (Inl e) else None)
             }
         }
       }
     }"

definition zeroTermOnErrCompacted :: "StorageErr + u64 \<Rightarrow> u64 option" where
  "zeroTermOnErrCompacted r =
     (case r of Inr t \<Rightarrow> Some t | Inl e \<Rightarrow> (if e = ErrCompacted then Some 0 else None))"

definition rl_lastTerm :: "raftLog \<Rightarrow> u64 option" where
  "rl_lastTerm l = do { i \<leftarrow> rl_lastIndex l; must_ok (rl_term l i) }"

definition rl_matchTerm :: "raftLog \<Rightarrow> u64 \<Rightarrow> u64 \<Rightarrow> bool option" where
  "rl_matchTerm l i trm =
     do { r \<leftarrow> rl_term l i; Some (case r of Inl e \<Rightarrow> False | Inr t \<Rightarrow> t = trm) }"

text \<open>\<^verbatim>\<open>isUpToDate\<close> evaluates the last index only when the terms are equal.\<close>

definition rl_isUpToDate :: "raftLog \<Rightarrow> u64 \<Rightarrow> u64 \<Rightarrow> bool option" where
  "rl_isUpToDate l lasti trm =
     do {
       t \<leftarrow> rl_lastTerm l;
       if trm > t then Some True
       else if trm = t then do { i \<leftarrow> rl_lastIndex l; Some (lasti \<ge> i) }
       else Some False
     }"

definition rl_commitTo :: "u64 \<Rightarrow> raftLog \<Rightarrow> raftLog option" where
  "rl_commitTo tocommit l =
     (if rl_committed l < tocommit
      then do {
        lastIndex \<leftarrow> rl_lastIndex l;
        if lastIndex < tocommit then None else Some (l\<lparr>rl_committed := tocommit\<rparr>)
      }
      else Some l)"

definition rl_appliedTo :: "u64 \<Rightarrow> raftLog \<Rightarrow> raftLog option" where
  "rl_appliedTo i l =
     (if i = 0 then Some l
      else if rl_committed l < i \<or> i < rl_applied l then None
      else Some (l\<lparr>rl_applied := i\<rparr>))"

definition rl_stableTo :: "u64 \<Rightarrow> u64 \<Rightarrow> raftLog \<Rightarrow> raftLog option" where
  "rl_stableTo i t l = do { u \<leftarrow> u_stableTo i t (rl_unstable l); Some (l\<lparr>rl_unstable := u\<rparr>) }"

definition rl_stableSnapTo :: "u64 \<Rightarrow> raftLog \<Rightarrow> raftLog" where
  "rl_stableSnapTo i l = l\<lparr>rl_unstable := u_stableSnapTo i (rl_unstable l)\<rparr>"

definition rl_append :: "Entry list \<Rightarrow> raftLog \<Rightarrow> (raftLog \<times> u64) option" where
  "rl_append ents l =
     (if length ents = 0 then do { i \<leftarrow> rl_lastIndex l; Some (l, i) }
      else do {
        e \<leftarrow> go_index ents 0;
        let after = e_Index e - 1 in
        if after < rl_committed l then None
        else do {
          u \<leftarrow> u_truncateAndAppend ents (rl_unstable l);
          let l = l\<lparr>rl_unstable := u\<rparr> in do { i \<leftarrow> rl_lastIndex l; Some (l, i) }
        }
      })"

fun rl_findConflict :: "raftLog \<Rightarrow> Entry list \<Rightarrow> u64 option" where
  "rl_findConflict l [] = Some 0"
| "rl_findConflict l (ne # ents) =
     do {
       ok \<leftarrow> rl_matchTerm l (e_Index ne) (e_Term ne);
       if \<not> ok
       then do {
         lastIndex \<leftarrow> rl_lastIndex l;
         (if e_Index ne \<le> lastIndex
          then do { r \<leftarrow> rl_term l (e_Index ne); zeroTermOnErrCompacted r }
          else Some 0);
         Some (e_Index ne)
       }
       else rl_findConflict l ents
     }"

definition rl_maybeAppend :: "u64 \<Rightarrow> u64 \<Rightarrow> u64 \<Rightarrow> Entry list \<Rightarrow> raftLog \<Rightarrow> (raftLog \<times> u64 \<times> bool) option" where
  "rl_maybeAppend index logTerm committed ents l =
     do {
       ok \<leftarrow> rl_matchTerm l index logTerm;
       if ok
       then
         let lastnewi = index + of_nat (length ents) in do {
           ci \<leftarrow> rl_findConflict l ents;
           l \<leftarrow> (if ci = 0 then Some l
                 else if ci \<le> rl_committed l then None
                 else
                   let offset = index + 1 in do {
                     rest \<leftarrow> go_slice ents (unat (ci - offset)) (length ents);
                     (l, _) \<leftarrow> rl_append rest l;
                     Some l
                   });
           l \<leftarrow> rl_commitTo (u64_min committed lastnewi) l;
           Some (l, lastnewi, True)
         }
       else Some (l, 0, False)
     }"

text \<open>The loop of \<^verbatim>\<open>findConflictByTerm\<close>; an index below zero wraps.\<close>

partial_function (option) findConflictByTerm_loop :: "raftLog \<Rightarrow> u64 \<Rightarrow> u64 \<Rightarrow> u64 option" where
  "findConflictByTerm_loop l trm index =
     do {
       r \<leftarrow> rl_term l index;
       case r of
         Inl e \<Rightarrow> Some index
       | Inr logTerm \<Rightarrow>
           if logTerm \<le> trm then Some index
           else findConflictByTerm_loop l trm (index - 1)
     }"

declare findConflictByTerm_loop.simps [code]

definition rl_findConflictByTerm :: "raftLog \<Rightarrow> u64 \<Rightarrow> u64 \<Rightarrow> u64 option" where
  "rl_findConflictByTerm l index trm =
     do {
       li \<leftarrow> rl_lastIndex l;
       if index > li then Some index else findConflictByTerm_loop l trm index
     }"

definition rl_unstableEntries :: "raftLog \<Rightarrow> Entry list" where
  "rl_unstableEntries l =
     (if length (u_entries (rl_unstable l)) = 0 then [] else u_entries (rl_unstable l))"

definition rl_mustCheckOutOfBounds :: "raftLog \<Rightarrow> u64 \<Rightarrow> u64 \<Rightarrow> StorageErr option option" where
  "rl_mustCheckOutOfBounds l lo hi =
     (if lo > hi then None
      else do {
        fi \<leftarrow> rl_firstIndex l;
        if lo < fi then Some (Some ErrCompacted)
        else do {
          lastIndex \<leftarrow> rl_lastIndex l;
          let len = lastIndex + 1 - fi in
          if hi > fi + len then None else Some None
        }
      })"

text \<open>The first branch reads the persisted part and returns early when the limit cut it short.\<close>

definition rl_slice :: "raftLog \<Rightarrow> u64 \<Rightarrow> u64 \<Rightarrow> u64 \<Rightarrow> (StorageErr + Entry list) option" where
  "rl_slice l lo hi maxSize =
     do {
       err \<leftarrow> rl_mustCheckOutOfBounds l lo hi;
       case err of
         Some e \<Rightarrow> Some (Inl e)
       | None \<Rightarrow>
           if lo = hi then Some (Inr [])
           else
             let off = u_offset (rl_unstable l);
                 rest = (\<lambda>ents.
                   if hi > off
                   then do {
                     us \<leftarrow> u_slice (rl_unstable l) (u64_max lo off) hi;
                     Some (Inr (limitSize (if length ents > 0 then ents @ us else us) maxSize))
                   }
                   else Some (Inr (limitSize ents maxSize)))
             in if lo < off
                then do {
                  stored \<leftarrow> st_Entries (rl_storage l) lo (u64_min hi off) maxSize;
                  case stored of
                    Inl e \<Rightarrow> (if e = ErrCompacted then Some (Inl e) else None)
                  | Inr storedEnts \<Rightarrow>
                      if of_nat (length storedEnts) < u64_min hi off - lo
                      then Some (Inr storedEnts)
                      else rest storedEnts
                }
                else rest []
     }"

definition rl_hasNextEnts :: "raftLog \<Rightarrow> bool option" where
  "rl_hasNextEnts l =
     do {
       fi \<leftarrow> rl_firstIndex l;
       let off = u64_max (rl_applied l + 1) fi in
       Some (rl_committed l + 1 > off)
     }"

definition rl_nextEnts :: "raftLog \<Rightarrow> Entry list option" where
  "rl_nextEnts l =
     do {
       fi \<leftarrow> rl_firstIndex l;
       let off = u64_max (rl_applied l + 1) fi in
       if rl_committed l + 1 > off
       then must_ok (rl_slice l off (rl_committed l + 1) (rl_maxNextEntsSize l))
       else Some []
     }"

definition IsEmptySnap :: "Snapshot \<Rightarrow> bool" where
  "IsEmptySnap sp \<longleftrightarrow> snap_index sp = 0"

definition rl_hasPendingSnapshot :: "raftLog \<Rightarrow> bool" where
  "rl_hasPendingSnapshot l =
     (case u_snapshot (rl_unstable l) of None \<Rightarrow> False | Some s \<Rightarrow> \<not> IsEmptySnap s)"

definition rl_snapshot :: "raftLog \<Rightarrow> (StorageErr + Snapshot) option" where
  "rl_snapshot l =
     (case u_snapshot (rl_unstable l) of Some s \<Rightarrow> Some (Inr s) | None \<Rightarrow> st_Snapshot (rl_storage l))"

definition rl_entries :: "raftLog \<Rightarrow> u64 \<Rightarrow> u64 \<Rightarrow> (StorageErr + Entry list) option" where
  "rl_entries l i maxsize =
     do {
       lastIndex \<leftarrow> rl_lastIndex l;
       if i > lastIndex then Some (Inr []) else rl_slice l i (lastIndex + 1) maxsize
     }"

text \<open>A racing compaction makes the code try again; against an unchanged storage it would do so
  forever.\<close>

partial_function (option) rl_allEntries :: "raftLog \<Rightarrow> Entry list option" where
  "rl_allEntries l =
     do {
       fi \<leftarrow> rl_firstIndex l;
       r \<leftarrow> rl_entries l fi noLimit;
       case r of
         Inr ents \<Rightarrow> Some ents
       | Inl e \<Rightarrow> (if e = ErrCompacted then rl_allEntries l else None)
     }"

declare rl_allEntries.simps [code]

definition rl_maybeCommit :: "u64 \<Rightarrow> u64 \<Rightarrow> raftLog \<Rightarrow> (raftLog \<times> bool) option" where
  "rl_maybeCommit maxIndex trm l =
     (if maxIndex > rl_committed l
      then do {
        r \<leftarrow> rl_term l maxIndex;
        t \<leftarrow> zeroTermOnErrCompacted r;
        if t = trm then do { l \<leftarrow> rl_commitTo maxIndex l; Some (l, True) } else Some (l, False)
      }
      else Some (l, False))"

definition rl_restore :: "Snapshot \<Rightarrow> raftLog \<Rightarrow> raftLog" where
  "rl_restore s l = l\<lparr>rl_committed := snap_index s, rl_unstable := u_restore s (rl_unstable l)\<rparr>"

end
