(* ===== verification/Read_Only.thy ===== *)
theory Read_Only
  imports Raft_Pb
begin

text \<open>
  \<^verbatim>\<open>raft/read_only.go\<close>: the read requests a leader has received but not yet confirmed by a round of
  heartbeats. The requests are kept in a map by their context and in a queue of contexts;
  \<open>readOnly_inv\<close> says that the two agree, and the operations keep it, so that the panic of
  \<^verbatim>\<open>advance\<close> cannot happen.
\<close>

datatype ReadOnlyOption = ReadOnlySafe | ReadOnlyLeaseBased | ReadOnlyOther int

record ReadState =
  rs_Index :: u64
  rs_RequestCtx :: gobytes

record readIndexStatus =
  ris_req :: Message
  ris_index :: u64
  ris_acks :: "(u64, bool) mapping"

record readOnly =
  ro_option :: ReadOnlyOption
  ro_pendingReadIndex :: "(bytes, readIndexStatus) mapping"
  ro_readIndexQueue :: "bytes list"

definition newReadOnly :: "ReadOnlyOption \<Rightarrow> readOnly" where
  "newReadOnly opt = \<lparr>ro_option = opt, ro_pendingReadIndex = Mapping.empty, ro_readIndexQueue = []\<rparr>"

definition ro_addRequest :: "u64 \<Rightarrow> Message \<Rightarrow> readOnly \<Rightarrow> readOnly option" where
  "ro_addRequest index m ro =
     do {
       e \<leftarrow> go_index (m_Entries m) 0;
       let s = str_of (e_Data e) in
       case Mapping.lookup (ro_pendingReadIndex ro) s of
         Some _ \<Rightarrow> Some ro
       | None \<Rightarrow>
           Some (ro\<lparr>ro_pendingReadIndex := Mapping.update s
                      \<lparr>ris_req = m, ris_index = index, ris_acks = Mapping.empty\<rparr> (ro_pendingReadIndex ro),
                    ro_readIndexQueue := ro_readIndexQueue ro @ [s]\<rparr>)
     }"

text \<open>The acknowledgements of the request; a nil map, which reads as empty, if it is unknown.\<close>

definition ro_recvAck :: "u64 \<Rightarrow> gobytes \<Rightarrow> readOnly \<Rightarrow> readOnly \<times> (u64, bool) mapping" where
  "ro_recvAck v context ro =
     (case Mapping.lookup (ro_pendingReadIndex ro) (str_of context) of
        None \<Rightarrow> (ro, Mapping.empty)
      | Some rs \<Rightarrow>
          let acks = Mapping.update v True (ris_acks rs) in
          (ro\<lparr>ro_pendingReadIndex :=
                Mapping.update (str_of context) (rs\<lparr>ris_acks := acks\<rparr>) (ro_pendingReadIndex ro)\<rparr>, acks))"

text \<open>The loop of \<^verbatim>\<open>advance\<close>: the requests up to the context, and whether it was found; an entry of
  the queue without a request panics.\<close>

fun ro_collect :: "(bytes, readIndexStatus) mapping \<Rightarrow> bytes \<Rightarrow> bytes list \<Rightarrow> (readIndexStatus list \<times> bool) option" where
  "ro_collect pending ctx [] = Some ([], False)"
| "ro_collect pending ctx (okctx # q) =
     (case Mapping.lookup pending okctx of
        None \<Rightarrow> None
      | Some rs \<Rightarrow>
          if okctx = ctx then Some ([rs], True)
          else do { (rss, found) \<leftarrow> ro_collect pending ctx q; Some (rs # rss, found) })"

fun ro_delete_all :: "readIndexStatus list \<Rightarrow> (bytes, readIndexStatus) mapping \<Rightarrow> (bytes, readIndexStatus) mapping option" where
  "ro_delete_all [] pending = Some pending"
| "ro_delete_all (rs # rss) pending =
     do {
       e \<leftarrow> go_index (m_Entries (ris_req rs)) 0;
       ro_delete_all rss (Mapping.delete (str_of (e_Data e)) pending)
     }"

definition ro_advance :: "Message \<Rightarrow> readOnly \<Rightarrow> (readOnly \<times> readIndexStatus list) option" where
  "ro_advance m ro =
     do {
       (rss, found) \<leftarrow> ro_collect (ro_pendingReadIndex ro) (str_of (m_Context m)) (ro_readIndexQueue ro);
       if found
       then do {
         pending \<leftarrow> ro_delete_all rss (ro_pendingReadIndex ro);
         Some (ro\<lparr>ro_readIndexQueue := drop (length rss) (ro_readIndexQueue ro),
                  ro_pendingReadIndex := pending\<rparr>, rss)
       }
       else Some (ro, [])
     }"

definition ro_lastPendingRequestCtx :: "readOnly \<Rightarrow> bytes" where
  "ro_lastPendingRequestCtx ro =
     (if length (ro_readIndexQueue ro) = 0 then []
      else ro_readIndexQueue ro ! (length (ro_readIndexQueue ro) - 1))"

section \<open>The invariant\<close>

definition readOnly_inv :: "readOnly \<Rightarrow> bool" where
  "readOnly_inv ro \<longleftrightarrow>
     distinct (ro_readIndexQueue ro) \<and>
     Mapping.keys (ro_pendingReadIndex ro) = set (ro_readIndexQueue ro) \<and>
     (\<forall>s rs. Mapping.lookup (ro_pendingReadIndex ro) s = Some rs \<longrightarrow>
        (\<exists>e es. m_Entries (ris_req rs) = e # es \<and> str_of (e_Data e) = s))"

lemma newReadOnly_inv: "readOnly_inv (newReadOnly opt)"
  by (simp add: readOnly_inv_def newReadOnly_def Mapping.lookup_empty)

lemma ro_addRequest_inv:
  assumes inv: "readOnly_inv ro" and ne: "m_Entries m \<noteq> []"
  shows "\<exists>ro'. ro_addRequest index m ro = Some ro' \<and> readOnly_inv ro'"
proof -
  obtain e es where m: "m_Entries m = e # es" using ne by (cases "m_Entries m") auto
  let ?s = "str_of (e_Data e)"
  show ?thesis
  proof (cases "Mapping.lookup (ro_pendingReadIndex ro) ?s")
    case None
    then have "?s \<notin> set (ro_readIndexQueue ro)"
      using inv by (auto simp: readOnly_inv_def keys_dom_lookup)
    then show ?thesis
      using None inv m by (auto simp: ro_addRequest_def readOnly_inv_def Let_def Mapping.lookup_update' split: if_splits)
  next
    case (Some rs)
    then show ?thesis using inv m by (simp add: ro_addRequest_def)
  qed
qed

lemma ro_recvAck_inv:
  assumes "readOnly_inv ro"
  shows "readOnly_inv (fst (ro_recvAck v ctx ro))"
proof (cases "Mapping.lookup (ro_pendingReadIndex ro) (str_of ctx)")
  case None
  then show ?thesis using assms by (simp add: ro_recvAck_def)
next
  case (Some rs)
  then have "str_of ctx \<in> Mapping.keys (ro_pendingReadIndex ro)" by (simp add: keys_dom_lookup domI)
  then show ?thesis
    using Some assms
    by (auto simp: ro_recvAck_def readOnly_inv_def Let_def Mapping.lookup_update' split: if_splits)
qed

lemma ro_recvAck_queue [simp]: "ro_readIndexQueue (fst (ro_recvAck v ctx ro)) = ro_readIndexQueue ro"
  by (simp add: ro_recvAck_def Let_def split: option.splits)

text \<open>The requests of a queue, all of them present.\<close>

lemma ro_collect_ok:
  assumes "set q \<subseteq> Mapping.keys pending"
  shows "ro_collect pending ctx q = Some
     (map (\<lambda>s. the (Mapping.lookup pending s)) (takeWhile (\<lambda>s. s \<noteq> ctx) q @ (if ctx \<in> set q then [ctx] else [])),
      ctx \<in> set q)"
  using assms
proof (induction q)
  case (Cons s q)
  then obtain rs where "Mapping.lookup pending s = Some rs" by (auto simp: keys_dom_lookup)
  then show ?case using Cons by auto
qed simp

lemma ro_delete_all_ok:
  assumes "\<forall>s \<in> set q. \<exists>e es. m_Entries (ris_req (f s)) = e # es \<and> str_of (e_Data e) = s"
  shows "\<exists>pending'. ro_delete_all (map f q) pending = Some pending' \<and>
     (\<forall>s. Mapping.lookup pending' s = (if s \<in> set q then None else Mapping.lookup pending s))"
  using assms
proof (induction q arbitrary: pending)
  case (Cons s q)
  then obtain e es where "m_Entries (ris_req (f s)) = e # es" "str_of (e_Data e) = s" by auto
  then show ?case using Cons.IH [of "Mapping.delete s pending"] Cons.prems by (auto simp: lookup_delete_if)
qed simp

text \<open>The queue up to and including a context, and the rest.\<close>

lemma queue_split:
  assumes "ctx \<in> set q"
  shows "q = (takeWhile (\<lambda>s. s \<noteq> ctx) q @ [ctx]) @ drop (Suc (length (takeWhile (\<lambda>s. s \<noteq> ctx) q))) q"
  using assms by (induction q) auto

lemma ro_advance_ok:
  fixes m :: Message
  assumes inv: "readOnly_inv ro"
  defines "ctx \<equiv> str_of (m_Context m)" and "q \<equiv> ro_readIndexQueue ro"
  shows "ctx \<notin> set q \<Longrightarrow> ro_advance m ro = Some (ro, [])"
    and "ctx \<in> set q \<Longrightarrow> \<exists>ro' pre. ro_advance m ro = Some (ro', map (\<lambda>s. the (Mapping.lookup (ro_pendingReadIndex ro) s)) (pre @ [ctx])) \<and>
      q = pre @ [ctx] @ ro_readIndexQueue ro' \<and> ctx \<notin> set pre \<and> readOnly_inv ro' \<and> ro_option ro' = ro_option ro"
proof -
  let ?f = "\<lambda>s. the (Mapping.lookup (ro_pendingReadIndex ro) s)"
  let ?pre = "takeWhile (\<lambda>s. s \<noteq> ctx) q"
  have keys: "Mapping.keys (ro_pendingReadIndex ro) = set q" and d: "distinct q"
    and req: "\<forall>s \<in> set q. \<exists>e es. m_Entries (ris_req (?f s)) = e # es \<and> str_of (e_Data e) = s"
    using inv unfolding readOnly_inv_def q_def by (auto simp: keys_dom_lookup dom_def set_eq_iff)
  have col: "ro_collect (ro_pendingReadIndex ro) ctx q =
      Some (map ?f (?pre @ (if ctx \<in> set q then [ctx] else [])), ctx \<in> set q)"
    by (rule ro_collect_ok) (simp add: keys)
  show "ro_advance m ro = Some (ro, [])" if "ctx \<notin> set q"
    using col that by (simp add: ro_advance_def ctx_def q_def)
  assume c: "ctx \<in> set q"
  let ?q1 = "?pre @ [ctx]" and ?q2 = "drop (Suc (length ?pre)) q"
  have sp: "q = ?q1 @ ?q2" by (rule queue_split [OF c])
  have "\<forall>s \<in> set ?q1. \<exists>e es. m_Entries (ris_req (?f s)) = e # es \<and> str_of (e_Data e) = s"
    using req c by (auto dest: set_takeWhileD)
  then obtain pending' where p: "ro_delete_all (map ?f ?q1) (ro_pendingReadIndex ro) = Some pending'"
      "\<forall>s. Mapping.lookup pending' s = (if s \<in> set ?q1 then None else Mapping.lookup (ro_pendingReadIndex ro) s)"
    using ro_delete_all_ok [of ?q1 ?f] by blast
  let ?ro' = "ro\<lparr>ro_readIndexQueue := ?q2, ro_pendingReadIndex := pending'\<rparr>"
  have adv: "ro_advance m ro = Some (?ro', map ?f ?q1)"
    using col c p(1) by (simp add: ro_advance_def ctx_def q_def)
  have dq: "distinct ?q2" "set ?q1 \<inter> set ?q2 = {}" "set q = set ?q1 \<union> set ?q2"
    using d sp by (metis distinct_append, metis distinct_append, metis set_append)
  have "Mapping.keys pending' = set ?q2"
    using p(2) keys dq(2,3) by (auto simp: keys_dom_lookup dom_def set_eq_iff split: if_splits)
  then have "readOnly_inv ?ro'"
    using inv p(2) dq by (auto simp: readOnly_inv_def split: if_splits)
  then show "\<exists>ro' pre. ro_advance m ro = Some (ro', map ?f (pre @ [ctx])) \<and>
      q = pre @ [ctx] @ ro_readIndexQueue ro' \<and> ctx \<notin> set pre \<and> readOnly_inv ro' \<and> ro_option ro' = ro_option ro"
    using adv sp by (intro exI [of _ ?ro'] exI [of _ ?pre]) (auto dest: set_takeWhileD)
qed

section \<open>Properties\<close>

text \<open>
  Releasing read requests: on a consistent queue \<^verbatim>\<open>advance\<close> never panics; an unknown context
  releases nothing, a known one releases exactly the requests up to and including it, in order of
  arrival, and leaves the queue and the map consistent.
\<close>

theorem read_advance_spec:
  assumes "readOnly_inv ro"
  shows "if str_of (m_Context m) \<notin> set (ro_readIndexQueue ro) then ro_advance m ro = Some (ro, [])
     else \<exists>ro' pre. ro_advance m ro =
         Some (ro', map (\<lambda>s. the (Mapping.lookup (ro_pendingReadIndex ro) s)) (pre @ [str_of (m_Context m)])) \<and>
       ro_readIndexQueue ro = pre @ [str_of (m_Context m)] @ ro_readIndexQueue ro' \<and>
       str_of (m_Context m) \<notin> set pre \<and> readOnly_inv ro'"
  using ro_advance_ok [OF assms, of m] by (cases "str_of (m_Context m) \<in> set (ro_readIndexQueue ro)") auto

theorem read_advance_spec_witness:
  "ro_advance (mk_Message MsgHeartbeatResp) (newReadOnly ReadOnlySafe) = Some (newReadOnly ReadOnlySafe, [])"
  using read_advance_spec [OF newReadOnly_inv, of "mk_Message MsgHeartbeatResp" ReadOnlySafe]
  by (simp add: newReadOnly_def)

end
