(* ===== verification/Decode.thy ===== *)
theory Decode
  imports Raft_Pb
begin

unbundle bit_operations_syntax

text \<open>
  The decoders of \<^verbatim>\<open>raftpb/raft.pb.go\<close>. An error is the left side of a sum; the Go code then leaves
  the message half filled, which no caller looks at. The generated functions share their shape, a
  loop that reads a tag, dispatches on the field number and skips unknown fields; the loop is
  written once and takes the dispatch as an argument. Positions are natural numbers below \<open>2 ^ 63\<close>;
  a Go \<^verbatim>\<open>int\<close> that wraps becomes negative, which the code checks for.
\<close>

datatype DecodeErr =
    ErrInvalidLengthRaft | ErrIntOverflowRaft | ErrUnexpectedEndOfGroupRaft | ErrUnexpectedEOF
  | ErrEndGroup | ErrIllegalTag | ErrWrongWireType | ErrIllegalWireType

section \<open>Variable-length integers\<close>

text \<open>
  The inner loops: seven bits per byte, least significant first, into a word of the width of the
  field; the result comes with the position after the last byte.
\<close>

function (sequential) varint_loop ::
  "bytes \<Rightarrow> nat \<Rightarrow> nat \<Rightarrow> 'a::len word \<Rightarrow> DecodeErr + ('a word \<times> nat)" where
  "varint_loop dAtA shift i acc =
     (if shift \<ge> 64 then Inl ErrIntOverflowRaft
      else if i \<ge> length dAtA then Inl ErrUnexpectedEOF
      else
        let b = dAtA ! i;
            acc = acc OR push_bit shift (ucast (b AND 0x7F))
        in if b < 0x80 then Inr (acc, i + 1) else varint_loop dAtA (shift + 7) (i + 1) acc)"
  by pat_completeness auto
termination
  by (relation "measure (\<lambda>(dAtA, shift, i, acc). 64 - shift)") auto

declare varint_loop.simps [simp del]

definition varint :: "bytes \<Rightarrow> nat \<Rightarrow> DecodeErr + ('a::len word \<times> nat)" where
  "varint dAtA i = varint_loop dAtA 0 i 0"

lemma varint_loop_pos: "varint_loop dAtA shift i acc = Inr (w, j) \<Longrightarrow> i < j \<and> j \<le> length dAtA"
proof (induction dAtA shift i acc rule: varint_loop.induct)
  case (1 dAtA shift i acc)
  have "i < length dAtA" "if dAtA ! i < 0x80 then j = i + 1
      else \<exists>acc'. varint_loop dAtA (shift + 7) (i + 1) acc' = Inr (w, j) \<and> \<not> 64 \<le> shift \<and>
        acc' = acc OR push_bit shift (ucast (dAtA ! i AND 0x7F))"
    using 1(2) unfolding varint_loop.simps [of dAtA shift i acc] by (auto simp: Let_def split: if_splits)
  then show ?case using 1(1) [OF _ _ refl refl] by (auto split: if_splits)
qed

lemma varint_pos: "varint dAtA i = Inr (w, j) \<Longrightarrow> i < j \<and> j \<le> length dAtA"
  unfolding varint_def by (rule varint_loop_pos)

text \<open>The length of a delimited field, then the field: start and end position.\<close>

definition delimited :: "bytes \<Rightarrow> nat \<Rightarrow> DecodeErr + (nat \<times> nat)" where
  "delimited dAtA i =
     (case varint dAtA i of
        Inl e \<Rightarrow> Inl e
      | Inr (byteLen :: u64, i) \<Rightarrow>
          if sint byteLen < 0 then Inl ErrInvalidLengthRaft
          else
            let postIndex = i + unat byteLen in
            if postIndex \<ge> 2 ^ 63 then Inl ErrInvalidLengthRaft
            else if postIndex > length dAtA then Inl ErrUnexpectedEOF
            else Inr (i, postIndex))"

lemma delimited_pos: "delimited dAtA i = Inr (j, k) \<Longrightarrow> i < j \<and> j \<le> k \<and> k \<le> length dAtA"
  by (auto simp: delimited_def Let_def split: sum.splits if_splits dest: varint_pos)

section \<open>Skipping unknown fields\<close>

text \<open>The position after the value of one field of the given wire type.\<close>

definition skip_value :: "bytes \<Rightarrow> nat \<Rightarrow> nat \<Rightarrow> nat \<Rightarrow> DecodeErr + (nat \<times> nat)" where
  "skip_value dAtA wireType i depth =
     (if wireType = 0 then (case varint dAtA i of Inl e \<Rightarrow> Inl e | Inr (w :: u64, i) \<Rightarrow> Inr (i, depth))
      else if wireType = 1 then Inr (i + 8, depth)
      else if wireType = 2 then
        (case varint dAtA i of
           Inl e \<Rightarrow> Inl e
         | Inr (len :: u64, i) \<Rightarrow>
             if sint len < 0 then Inl ErrInvalidLengthRaft else Inr (i + unat len, depth))
      else if wireType = 3 then Inr (i, depth + 1)
      else if wireType = 4 then
        (if depth = 0 then Inl ErrUnexpectedEndOfGroupRaft else Inr (i, depth - 1))
      else if wireType = 5 then Inr (i + 4, depth)
      else Inl ErrIllegalWireType)"

lemma skip_value_pos: "skip_value dAtA wireType i depth = Inr (j, d) \<Longrightarrow> i \<le> j"
  by (auto simp: skip_value_def split: if_splits sum.splits dest: varint_pos)

function (sequential) skip_loop :: "bytes \<Rightarrow> nat \<Rightarrow> nat \<Rightarrow> DecodeErr + nat" where
  "skip_loop dAtA i depth =
     (if i < length dAtA
      then (case varint dAtA i of
              Inl e \<Rightarrow> Inl e
            | Inr (wire :: u64, j) \<Rightarrow>
                (case skip_value dAtA (unat (wire AND 7)) j depth of
                   Inl e \<Rightarrow> Inl e
                 | Inr (k, depth) \<Rightarrow>
                     if k \<ge> 2 ^ 63 then Inl ErrInvalidLengthRaft
                     else if depth = 0 then Inr k
                     else skip_loop dAtA k depth))
      else Inl ErrUnexpectedEOF)"
  by pat_completeness auto
termination
  by (relation "measure (\<lambda>(dAtA, i, depth). length dAtA - i)")
     (auto dest!: varint_pos skip_value_pos)

declare skip_loop.simps [simp del]

definition skipRaft :: "bytes \<Rightarrow> DecodeErr + nat" where
  "skipRaft dAtA = skip_loop dAtA 0 0"

lemma skip_loop_pos: "skip_loop dAtA i depth = Inr k \<Longrightarrow> i < k"
proof (induction dAtA i depth rule: skip_loop.induct)
  case (1 dAtA i depth)
  obtain wire :: u64 and j n d where v: "i < length dAtA" "varint dAtA i = Inr (wire, j)"
      "skip_value dAtA (unat (wire AND 7)) j depth = Inr (n, d)" "\<not> n \<ge> 2 ^ 63"
      "if d = 0 then k = n else skip_loop dAtA n d = Inr k"
    using 1(2) unfolding skip_loop.simps [of dAtA i depth] by (auto split: if_splits sum.splits prod.splits)
  have "i < n" using varint_pos [OF v(2)] skip_value_pos [OF v(3)] by simp
  then show ?case
    using v(5) 1(1) [OF v(1) v(2) refl v(3) refl v(4)] by (auto split: if_splits)
qed

lemma skipRaft_pos: "skipRaft dAtA = Inr k \<Longrightarrow> 0 < k"
  unfolding skipRaft_def by (rule skip_loop_pos)

section \<open>The loop over the fields of a message\<close>

text \<open>
  A dispatch gets the field number, the wire type, the input, the position after the tag and the
  message so far; it answers with the new message and the number of bytes of the value, or with
  \<open>None\<close> for a field it does not know. What becomes of the bytes of an unknown field is the first
  argument: \<^verbatim>\<open>raftpb\<close> drops them, other packages keep them in the message.
\<close>

type_synonym 'm dispatch = "int \<Rightarrow> nat \<Rightarrow> bytes \<Rightarrow> nat \<Rightarrow> 'm \<Rightarrow> (DecodeErr + ('m \<times> nat)) option"

definition drop_unknown :: "bytes \<Rightarrow> 'm \<Rightarrow> 'm" where
  "drop_unknown b m = m"

definition unmarshal_field :: "(bytes \<Rightarrow> 'm \<Rightarrow> 'm) \<Rightarrow> 'm dispatch \<Rightarrow> bytes \<Rightarrow> nat \<Rightarrow> 'm \<Rightarrow> DecodeErr + ('m \<times> nat)" where
  "unmarshal_field keep field dAtA preIndex m =
     (case varint dAtA preIndex of
        Inl e \<Rightarrow> Inl e
      | Inr (wire :: u64, i) \<Rightarrow>
          let fieldNum = sint (ucast (drop_bit 3 wire) :: 32 word);
              wireType = unat (wire AND 7)
          in if wireType = 4 then Inl ErrEndGroup
             else if fieldNum \<le> 0 then Inl ErrIllegalTag
             else (case field fieldNum wireType dAtA i m of
                     Some (Inl e) \<Rightarrow> Inl e
                   | Some (Inr (m, n)) \<Rightarrow> Inr (m, i + n)
                   | None \<Rightarrow>
                       (case skipRaft (drop preIndex dAtA) of
                          Inl e \<Rightarrow> Inl e
                        | Inr skippy \<Rightarrow>
                            if preIndex + skippy \<ge> 2 ^ 63 then Inl ErrInvalidLengthRaft
                            else if preIndex + skippy > length dAtA then Inl ErrUnexpectedEOF
                            else Inr (keep (take skippy (drop preIndex dAtA)) m, preIndex + skippy))))"

lemma unmarshal_field_pos: "unmarshal_field keep field dAtA i m = Inr (m', j) \<Longrightarrow> i < j"
  by (auto simp: unmarshal_field_def Let_def split: sum.splits option.splits if_splits prod.splits
      dest!: varint_pos skipRaft_pos)

function (sequential) unmarshal_loop :: "(bytes \<Rightarrow> 'm \<Rightarrow> 'm) \<Rightarrow> 'm dispatch \<Rightarrow> bytes \<Rightarrow> nat \<Rightarrow> 'm \<Rightarrow> DecodeErr + 'm" where
  "unmarshal_loop keep field dAtA i m =
     (if i < length dAtA
      then (case unmarshal_field keep field dAtA i m of
              Inl e \<Rightarrow> Inl e
            | Inr (m, j) \<Rightarrow> unmarshal_loop keep field dAtA j m)
      else if i > length dAtA then Inl ErrUnexpectedEOF else Inr m)"
  by pat_completeness auto
termination
  by (relation "measure (\<lambda>(keep, field, dAtA, i, m). length dAtA - i)") (auto dest!: unmarshal_field_pos)

declare unmarshal_loop.simps [simp del]

section \<open>The messages\<close>

fun ConfChangeType_of :: "32 word \<Rightarrow> ConfChangeType" where
  "ConfChangeType_of w =
     (if w = 0 then ConfChangeAddNode else if w = 1 then ConfChangeRemoveNode
      else if w = 2 then ConfChangeUpdateNode else if w = 3 then ConfChangeAddLearnerNode
      else ConfChangeTypeOther w)"

fun ConfChangeTransition_of :: "32 word \<Rightarrow> ConfChangeTransition" where
  "ConfChangeTransition_of w =
     (if w = 0 then ConfChangeTransitionAuto else if w = 1 then ConfChangeTransitionJointImplicit
      else if w = 2 then ConfChangeTransitionJointExplicit else ConfChangeTransitionOther w)"

definition zero_ConfChange :: ConfChange where
  "zero_ConfChange = \<lparr>cc_Type = ConfChangeAddNode, cc_NodeID = 0, cc_Context = None, cc_ID = 0\<rparr>"

definition zero_ConfChangeSingle :: ConfChangeSingle where
  "zero_ConfChangeSingle = \<lparr>ccs_Type = ConfChangeAddNode, ccs_NodeID = 0\<rparr>"

text \<open>A field read as a varint into a word, stored by \<open>put\<close>.\<close>

definition varint_field :: "('a::len word \<Rightarrow> 'm \<Rightarrow> 'm) \<Rightarrow> nat \<Rightarrow> bytes \<Rightarrow> nat \<Rightarrow> 'm \<Rightarrow> DecodeErr + ('m \<times> nat)" where
  "varint_field put wireType dAtA i m =
     (if wireType \<noteq> 0 then Inl ErrWrongWireType
      else (case varint dAtA i of Inl e \<Rightarrow> Inl e | Inr (w, j) \<Rightarrow> Inr (put w m, j - i)))"

text \<open>A delimited field, its bytes given to \<open>put\<close>.\<close>

definition bytes_field :: "(bytes \<Rightarrow> 'm \<Rightarrow> DecodeErr + 'm) \<Rightarrow> nat \<Rightarrow> bytes \<Rightarrow> nat \<Rightarrow> 'm \<Rightarrow> DecodeErr + ('m \<times> nat)" where
  "bytes_field put wireType dAtA i m =
     (if wireType \<noteq> 2 then Inl ErrWrongWireType
      else (case delimited dAtA i of
              Inl e \<Rightarrow> Inl e
            | Inr (j, postIndex) \<Rightarrow>
                (case put (take (postIndex - j) (drop j dAtA)) m of
                   Inl e \<Rightarrow> Inl e
                 | Inr m \<Rightarrow> Inr (m, postIndex - i))))"

definition ConfChange_field :: "ConfChange dispatch" where
  "ConfChange_field fieldNum wireType dAtA i m =
     (if fieldNum = 1 then Some (varint_field (\<lambda>w m. m\<lparr>cc_ID := w\<rparr>) wireType dAtA i m)
      else if fieldNum = 2
      then Some (varint_field (\<lambda>w m. m\<lparr>cc_Type := ConfChangeType_of w\<rparr>) wireType dAtA i m)
      else if fieldNum = 3 then Some (varint_field (\<lambda>w m. m\<lparr>cc_NodeID := w\<rparr>) wireType dAtA i m)
      else if fieldNum = 4
      then Some (bytes_field (\<lambda>b m. Inr (m\<lparr>cc_Context := Some b\<rparr>)) wireType dAtA i m)
      else None)"

definition ConfChange_Unmarshal :: "bytes \<Rightarrow> ConfChange \<Rightarrow> DecodeErr + ConfChange" where
  "ConfChange_Unmarshal dAtA m = unmarshal_loop drop_unknown ConfChange_field dAtA 0 m"

definition ConfChangeSingle_field :: "ConfChangeSingle dispatch" where
  "ConfChangeSingle_field fieldNum wireType dAtA i m =
     (if fieldNum = 1
      then Some (varint_field (\<lambda>w m. m\<lparr>ccs_Type := ConfChangeType_of w\<rparr>) wireType dAtA i m)
      else if fieldNum = 2 then Some (varint_field (\<lambda>w m. m\<lparr>ccs_NodeID := w\<rparr>) wireType dAtA i m)
      else None)"

definition ConfChangeSingle_Unmarshal :: "bytes \<Rightarrow> ConfChangeSingle \<Rightarrow> DecodeErr + ConfChangeSingle" where
  "ConfChangeSingle_Unmarshal dAtA m = unmarshal_loop drop_unknown ConfChangeSingle_field dAtA 0 m"

text \<open>A delimited field decoded into the value \<open>get\<close> finds; what it holds already is merged.\<close>

definition decode_into ::
  "(bytes \<Rightarrow> 'a \<Rightarrow> DecodeErr + 'a) \<Rightarrow> ('m \<Rightarrow> 'a) \<Rightarrow> ('a \<Rightarrow> 'm \<Rightarrow> 'm) \<Rightarrow> bytes \<Rightarrow> 'm \<Rightarrow> DecodeErr + 'm" where
  "decode_into unmarshal get put b m =
     (case unmarshal b (get m) of Inl e \<Rightarrow> Inl e | Inr x \<Rightarrow> Inr (put x m))"

definition ConfChangeV2_field :: "ConfChangeV2 dispatch" where
  "ConfChangeV2_field fieldNum wireType dAtA i m =
     (if fieldNum = 1
      then Some (varint_field (\<lambda>w m. m\<lparr>v2_Transition := ConfChangeTransition_of w\<rparr>) wireType dAtA i m)
      else if fieldNum = 2
      then Some (bytes_field (decode_into ConfChangeSingle_Unmarshal (\<lambda>m. zero_ConfChangeSingle)
                   (\<lambda>c m. m\<lparr>v2_Changes := v2_Changes m @ [c]\<rparr>)) wireType dAtA i m)
      else if fieldNum = 3
      then Some (bytes_field (\<lambda>b m. Inr (m\<lparr>v2_Context := Some b\<rparr>)) wireType dAtA i m)
      else None)"

definition ConfChangeV2_Unmarshal :: "bytes \<Rightarrow> ConfChangeV2 \<Rightarrow> DecodeErr + ConfChangeV2" where
  "ConfChangeV2_Unmarshal dAtA m = unmarshal_loop drop_unknown ConfChangeV2_field dAtA 0 m"

section \<open>Entries, hard states, snapshots and messages\<close>

fun EntryType_of :: "32 word \<Rightarrow> EntryType" where
  "EntryType_of w =
     (if w = 0 then EntryNormal else if w = 1 then EntryConfChange else if w = 2 then EntryConfChangeV2
      else EntryTypeOther w)"

fun MessageType_of :: "32 word \<Rightarrow> MessageType" where
  "MessageType_of w =
     (if w = 0 then MsgHup else if w = 1 then MsgBeat else if w = 2 then MsgProp else if w = 3 then MsgApp
      else if w = 4 then MsgAppResp else if w = 5 then MsgVote else if w = 6 then MsgVoteResp
      else if w = 7 then MsgSnap else if w = 8 then MsgHeartbeat else if w = 9 then MsgHeartbeatResp
      else if w = 10 then MsgUnreachable else if w = 11 then MsgSnapStatus
      else if w = 12 then MsgCheckQuorum else if w = 13 then MsgTransferLeader
      else if w = 14 then MsgTimeoutNow else if w = 15 then MsgReadIndex
      else if w = 16 then MsgReadIndexResp else if w = 17 then MsgPreVote
      else if w = 18 then MsgPreVoteResp else MsgTypeOther w)"

definition bool_field :: "(bool \<Rightarrow> 'm \<Rightarrow> 'm) \<Rightarrow> nat \<Rightarrow> bytes \<Rightarrow> nat \<Rightarrow> 'm \<Rightarrow> DecodeErr + ('m \<times> nat)" where
  "bool_field put = varint_field (\<lambda>w :: u64. put (w \<noteq> 0))"

text \<open>
  A repeated integer: one element per field, or all of them packed into one delimited field. The
  packed form reads elements until the end of the field is reached or passed.
\<close>

function (sequential) packed_loop :: "bytes \<Rightarrow> nat \<Rightarrow> nat \<Rightarrow> u64 list \<Rightarrow> DecodeErr + (u64 list \<times> nat)" where
  "packed_loop dAtA i postIndex vs =
     (if i < postIndex
      then (case varint dAtA i of
              Inl e \<Rightarrow> Inl e
            | Inr (v, j) \<Rightarrow> packed_loop dAtA j postIndex (vs @ [v]))
      else Inr (vs, i))"
  by pat_completeness auto
termination
  by (relation "measure (\<lambda>(dAtA, i, postIndex, vs). postIndex - i)") (auto dest!: varint_pos)

declare packed_loop.simps [simp del]

definition ids_field ::
  "('m \<Rightarrow> u64 list) \<Rightarrow> (u64 list \<Rightarrow> 'm \<Rightarrow> 'm) \<Rightarrow> nat \<Rightarrow> bytes \<Rightarrow> nat \<Rightarrow> 'm \<Rightarrow> DecodeErr + ('m \<times> nat)" where
  "ids_field get put wireType dAtA i m =
     (if wireType = 0
      then (case varint dAtA i of
              Inl e \<Rightarrow> Inl e
            | Inr (v, j) \<Rightarrow> Inr (put (get m @ [v]) m, j - i))
      else if wireType = 2
      then (case delimited dAtA i of
              Inl e \<Rightarrow> Inl e
            | Inr (j, postIndex) \<Rightarrow>
                (case packed_loop dAtA j postIndex (get m) of
                   Inl e \<Rightarrow> Inl e
                 | Inr (vs, k) \<Rightarrow> Inr (put vs m, k - i)))
      else Inl ErrWrongWireType)"

definition Entry_field :: "Entry dispatch" where
  "Entry_field fieldNum wireType dAtA i m =
     (if fieldNum = 1 then Some (varint_field (\<lambda>w m. m\<lparr>e_Type := EntryType_of w\<rparr>) wireType dAtA i m)
      else if fieldNum = 2 then Some (varint_field (\<lambda>w m. m\<lparr>e_Term := w\<rparr>) wireType dAtA i m)
      else if fieldNum = 3 then Some (varint_field (\<lambda>w m. m\<lparr>e_Index := w\<rparr>) wireType dAtA i m)
      else if fieldNum = 4
      then Some (bytes_field (\<lambda>b m. Inr (m\<lparr>e_Data := Some b\<rparr>)) wireType dAtA i m)
      else None)"

definition Entry_Unmarshal :: "bytes \<Rightarrow> Entry \<Rightarrow> DecodeErr + Entry" where
  "Entry_Unmarshal dAtA m = unmarshal_loop drop_unknown Entry_field dAtA 0 m"

definition HardState_field :: "HardState dispatch" where
  "HardState_field fieldNum wireType dAtA i m =
     (if fieldNum = 1 then Some (varint_field (\<lambda>w m. m\<lparr>hs_Term := w\<rparr>) wireType dAtA i m)
      else if fieldNum = 2 then Some (varint_field (\<lambda>w m. m\<lparr>hs_Vote := w\<rparr>) wireType dAtA i m)
      else if fieldNum = 3 then Some (varint_field (\<lambda>w m. m\<lparr>hs_Commit := w\<rparr>) wireType dAtA i m)
      else None)"

definition HardState_Unmarshal :: "bytes \<Rightarrow> HardState \<Rightarrow> DecodeErr + HardState" where
  "HardState_Unmarshal dAtA m = unmarshal_loop drop_unknown HardState_field dAtA 0 m"

definition ConfState_field :: "ConfState dispatch" where
  "ConfState_field fieldNum wireType dAtA i m =
     (if fieldNum = 1 then Some (ids_field cs_Voters (\<lambda>vs m. m\<lparr>cs_Voters := vs\<rparr>) wireType dAtA i m)
      else if fieldNum = 2 then Some (ids_field cs_Learners (\<lambda>vs m. m\<lparr>cs_Learners := vs\<rparr>) wireType dAtA i m)
      else if fieldNum = 3
      then Some (ids_field cs_VotersOutgoing (\<lambda>vs m. m\<lparr>cs_VotersOutgoing := vs\<rparr>) wireType dAtA i m)
      else if fieldNum = 4
      then Some (ids_field cs_LearnersNext (\<lambda>vs m. m\<lparr>cs_LearnersNext := vs\<rparr>) wireType dAtA i m)
      else if fieldNum = 5 then Some (bool_field (\<lambda>b m. m\<lparr>cs_AutoLeave := b\<rparr>) wireType dAtA i m)
      else None)"

definition ConfState_Unmarshal :: "bytes \<Rightarrow> ConfState \<Rightarrow> DecodeErr + ConfState" where
  "ConfState_Unmarshal dAtA m = unmarshal_loop drop_unknown ConfState_field dAtA 0 m"

definition SnapshotMetadata_field :: "SnapshotMetadata dispatch" where
  "SnapshotMetadata_field fieldNum wireType dAtA i m =
     (if fieldNum = 1
      then Some (bytes_field (decode_into ConfState_Unmarshal sm_ConfState (\<lambda>x m. m\<lparr>sm_ConfState := x\<rparr>))
                   wireType dAtA i m)
      else if fieldNum = 2 then Some (varint_field (\<lambda>w m. m\<lparr>sm_Index := w\<rparr>) wireType dAtA i m)
      else if fieldNum = 3 then Some (varint_field (\<lambda>w m. m\<lparr>sm_Term := w\<rparr>) wireType dAtA i m)
      else None)"

definition SnapshotMetadata_Unmarshal :: "bytes \<Rightarrow> SnapshotMetadata \<Rightarrow> DecodeErr + SnapshotMetadata" where
  "SnapshotMetadata_Unmarshal dAtA m = unmarshal_loop drop_unknown SnapshotMetadata_field dAtA 0 m"

definition Snapshot_field :: "Snapshot dispatch" where
  "Snapshot_field fieldNum wireType dAtA i m =
     (if fieldNum = 1
      then Some (bytes_field (\<lambda>b m. Inr (m\<lparr>s_Data := Some b\<rparr>)) wireType dAtA i m)
      else if fieldNum = 2
      then Some (bytes_field (decode_into SnapshotMetadata_Unmarshal s_Metadata (\<lambda>x m. m\<lparr>s_Metadata := x\<rparr>))
                   wireType dAtA i m)
      else None)"

definition Snapshot_Unmarshal :: "bytes \<Rightarrow> Snapshot \<Rightarrow> DecodeErr + Snapshot" where
  "Snapshot_Unmarshal dAtA m = unmarshal_loop drop_unknown Snapshot_field dAtA 0 m"

definition Message_field :: "Message dispatch" where
  "Message_field fieldNum wireType dAtA i m =
     (if fieldNum = 1 then Some (varint_field (\<lambda>w m. m\<lparr>m_Type := MessageType_of w\<rparr>) wireType dAtA i m)
      else if fieldNum = 2 then Some (varint_field (\<lambda>w m. m\<lparr>m_To := w\<rparr>) wireType dAtA i m)
      else if fieldNum = 3 then Some (varint_field (\<lambda>w m. m\<lparr>m_From := w\<rparr>) wireType dAtA i m)
      else if fieldNum = 4 then Some (varint_field (\<lambda>w m. m\<lparr>m_Term := w\<rparr>) wireType dAtA i m)
      else if fieldNum = 5 then Some (varint_field (\<lambda>w m. m\<lparr>m_LogTerm := w\<rparr>) wireType dAtA i m)
      else if fieldNum = 6 then Some (varint_field (\<lambda>w m. m\<lparr>m_Index := w\<rparr>) wireType dAtA i m)
      else if fieldNum = 7
      then Some (bytes_field (decode_into Entry_Unmarshal (\<lambda>m. zero_Entry)
                   (\<lambda>e m. m\<lparr>m_Entries := m_Entries m @ [e]\<rparr>)) wireType dAtA i m)
      else if fieldNum = 8 then Some (varint_field (\<lambda>w m. m\<lparr>m_Commit := w\<rparr>) wireType dAtA i m)
      else if fieldNum = 9
      then Some (bytes_field (decode_into Snapshot_Unmarshal m_Snapshot (\<lambda>x m. m\<lparr>m_Snapshot := x\<rparr>))
                   wireType dAtA i m)
      else if fieldNum = 10 then Some (bool_field (\<lambda>b m. m\<lparr>m_Reject := b\<rparr>) wireType dAtA i m)
      else if fieldNum = 11 then Some (varint_field (\<lambda>w m. m\<lparr>m_RejectHint := w\<rparr>) wireType dAtA i m)
      else if fieldNum = 12
      then Some (bytes_field (\<lambda>b m. Inr (m\<lparr>m_Context := Some b\<rparr>)) wireType dAtA i m)
      else None)"

definition Message_Unmarshal :: "bytes \<Rightarrow> Message \<Rightarrow> DecodeErr + Message" where
  "Message_Unmarshal dAtA m = unmarshal_loop drop_unknown Message_field dAtA 0 m"

end
