(* ===== verification/Raft_Core.thy ===== *)
theory Raft_Core
  imports Conf_Change Raft_Log Read_Only Decode
begin

text \<open>
  The state of a raft node and the operations its message handlers are built from
  (\<^verbatim>\<open>raft/raft.go\<close>, up to \<^verbatim>\<open>poll\<close>).

  An operation takes the state and returns the new one, \<open>None\<close> for a panic. The function fields
  \<^verbatim>\<open>step\<close> and \<^verbatim>\<open>tick\<close> are enumerations of the functions they can hold. The outcomes of the random
  source are a sequence that the state carries. Ticks are unbounded integers. A progress that the
  code reaches through a pointer is looked up and written back.
\<close>

section \<open>State\<close>

abbreviation None_id :: u64 where
  "None_id \<equiv> 0"

datatype StateType = StateFollower | StateCandidate | StateLeader | StatePreCandidate

datatype CampaignType = campaignPreElection | campaignElection | campaignTransfer

datatype stepFunc = NoStep | stepFollower_fn | stepCandidate_fn | stepLeader_fn

datatype tickFunc = NoTick | tickElection_fn | tickHeartbeat_fn

datatype RaftErr = ErrProposalDropped

definition campaignTransfer_bytes :: bytes where
  "campaignTransfer_bytes = map of_char ''CampaignTransfer''"

record raft =
  r_id :: u64
  r_Term :: u64
  r_Vote :: u64
  r_readStates :: "ReadState list"
  r_raftLog :: raftLog
  r_maxMsgSize :: u64
  r_maxUncommittedSize :: u64
  r_prs :: ProgressTracker
  r_state :: StateType
  r_isLearner :: bool
  r_msgs :: "Message list"
  r_lead :: u64
  r_leadTransferee :: u64
  r_pendingConfIndex :: u64
  r_uncommittedSize :: u64
  r_readOnly :: readOnly
  r_electionElapsed :: int
  r_heartbeatElapsed :: int
  r_checkQuorum :: bool
  r_preVote :: bool
  r_heartbeatTimeout :: int
  r_electionTimeout :: int
  r_randomizedElectionTimeout :: int
  r_disableProposalForwarding :: bool
  r_tick :: tickFunc
  r_step :: stepFunc
  r_pendingReadIndexMessages :: "Message list"
  r_rand :: "nat \<Rightarrow> nat"
  r_rand_pos :: nat

record SoftState =
  ss_Lead :: u64
  ss_RaftState :: StateType

definition r_pr :: "u64 \<Rightarrow> raft \<Rightarrow> Progress option" where
  "r_pr v r = Mapping.lookup (pt_Progress (r_prs r)) v"

definition set_pr :: "u64 \<Rightarrow> Progress \<Rightarrow> raft \<Rightarrow> raft" where
  "set_pr v pr r = r\<lparr>r_prs := (r_prs r)\<lparr>pt_Progress := Mapping.update v pr (pt_Progress (r_prs r))\<rparr>\<rparr>"

text \<open>A closure that \<^verbatim>\<open>Visit\<close> calls for every peer, in increasing order.\<close>

fun visit_list :: "(u64 \<Rightarrow> raft \<Rightarrow> raft option) \<Rightarrow> u64 list \<Rightarrow> raft \<Rightarrow> raft option" where
  "visit_list f [] r = Some r"
| "visit_list f (v # vs) r = f v r \<bind> visit_list f vs"

definition visit :: "(u64 \<Rightarrow> raft \<Rightarrow> raft option) \<Rightarrow> raft \<Rightarrow> raft option" where
  "visit f r = visit_list f (Visit_ids (pt_Progress (r_prs r))) r"

text \<open>The arguments of the log messages that print the end of the log.\<close>

definition log_last :: "raft \<Rightarrow> unit option" where
  "log_last r = do { rl_lastTerm (r_raftLog r); rl_lastIndex (r_raftLog r); Some () }"

definition hasLeader :: "raft \<Rightarrow> bool" where
  "hasLeader r \<longleftrightarrow> r_lead r \<noteq> None_id"

definition softState :: "raft \<Rightarrow> SoftState" where
  "softState r = \<lparr>ss_Lead = r_lead r, ss_RaftState = r_state r\<rparr>"

definition hardState :: "raft \<Rightarrow> HardState" where
  "hardState r = \<lparr>hs_Term = r_Term r, hs_Vote = r_Vote r, hs_Commit = rl_committed (r_raftLog r)\<rparr>"

section \<open>Sending\<close>

definition is_vote_msg :: "MessageType \<Rightarrow> bool" where
  "is_vote_msg t \<longleftrightarrow> t = MsgVote \<or> t = MsgVoteResp \<or> t = MsgPreVote \<or> t = MsgPreVoteResp"

definition send :: "Message \<Rightarrow> raft \<Rightarrow> raft option" where
  "send m r =
     (let m = (if m_From m = None_id then m\<lparr>m_From := r_id r\<rparr> else m) in
      if is_vote_msg (m_Type m)
      then (if m_Term m = 0 then None else Some (r\<lparr>r_msgs := r_msgs r @ [m]\<rparr>))
      else if m_Term m \<noteq> 0 then None
      else
        let m = (if m_Type m \<noteq> MsgProp \<and> m_Type m \<noteq> MsgReadIndex then m\<lparr>m_Term := r_Term r\<rparr> else m)
        in Some (r\<lparr>r_msgs := r_msgs r @ [m]\<rparr>))"

text \<open>The branch of \<^verbatim>\<open>maybeSendAppend\<close> that sends a snapshot.\<close>

definition sendSnapshot :: "u64 \<Rightarrow> Progress \<Rightarrow> raft \<Rightarrow> (raft \<times> bool) option" where
  "sendSnapshot to pr r =
     (if \<not> pr_RecentActive pr then Some (r, False)
      else do {
        res \<leftarrow> rl_snapshot (r_raftLog r);
        case res of
          Inl err \<Rightarrow> (if err = ErrSnapshotTemporarilyUnavailable then Some (r, False) else None)
        | Inr snapshot \<Rightarrow>
            if IsEmptySnap snapshot then None
            else do {
              rl_firstIndex (r_raftLog r);
              let r = set_pr to (BecomeSnapshot (snap_index snapshot) pr) r in do {
                r \<leftarrow> send ((mk_Message MsgSnap)\<lparr>m_To := to, m_Snapshot := snapshot\<rparr>) r;
                Some (r, True)
              }
            }
      })"

text \<open>The flow control of a message with entries.\<close>

definition track_sent :: "Entry list \<Rightarrow> Progress \<Rightarrow> Progress option" where
  "track_sent ents pr =
     (if length ents = 0 then Some pr
      else (case pr_State pr of
              StateReplicate \<Rightarrow>
                let lasti = e_Index (ents ! (length ents - 1));
                    pr = OptimisticUpdate lasti pr
                in do { ins \<leftarrow> Inflights_Add (pr_Inflights pr) lasti; Some (pr\<lparr>pr_Inflights := ins\<rparr>) }
            | StateProbe \<Rightarrow> Some (pr\<lparr>pr_ProbeSent := True\<rparr>)
            | StateSnapshot \<Rightarrow> None))"

definition maybeSendAppend :: "u64 \<Rightarrow> bool \<Rightarrow> raft \<Rightarrow> (raft \<times> bool) option" where
  "maybeSendAppend to sendIfEmpty r =
     do {
       pr \<leftarrow> r_pr to r;
       if IsPaused pr then Some (r, False)
       else do {
         errt \<leftarrow> rl_term (r_raftLog r) (pr_Next pr - 1);
         erre \<leftarrow> rl_entries (r_raftLog r) (pr_Next pr) (r_maxMsgSize r);
         let ents = (case erre of Inl _ \<Rightarrow> [] | Inr ents \<Rightarrow> ents) in
         if length ents = 0 \<and> \<not> sendIfEmpty then Some (r, False)
         else (case (errt, erre) of
                 (Inr trm, Inr ents) \<Rightarrow> do {
                   pr' \<leftarrow> track_sent ents pr;
                   r \<leftarrow> send ((mk_Message MsgApp)\<lparr>m_To := to, m_Index := pr_Next pr - 1, m_LogTerm := trm,
                                m_Entries := ents, m_Commit := rl_committed (r_raftLog r)\<rparr>)
                          (set_pr to pr' r);
                   Some (r, True)
                 }
               | _ \<Rightarrow> sendSnapshot to pr r)
       }
     }"

definition sendAppend :: "u64 \<Rightarrow> raft \<Rightarrow> raft option" where
  "sendAppend to r = map_option fst (maybeSendAppend to True r)"

definition sendHeartbeat :: "u64 \<Rightarrow> gobytes \<Rightarrow> raft \<Rightarrow> raft option" where
  "sendHeartbeat to ctx r =
     do {
       pr \<leftarrow> r_pr to r;
       let commit = u64_min (pr_Match pr) (rl_committed (r_raftLog r)) in
       send ((mk_Message MsgHeartbeat)\<lparr>m_To := to, m_Commit := commit, m_Context := ctx\<rparr>) r
     }"

definition bcastAppend :: "raft \<Rightarrow> raft option" where
  "bcastAppend r = visit (\<lambda>v r'. if v = r_id r' then Some r' else sendAppend v r') r"

definition bcastHeartbeatWithCtx :: "gobytes \<Rightarrow> raft \<Rightarrow> raft option" where
  "bcastHeartbeatWithCtx ctx r =
     visit (\<lambda>v r'. if v = r_id r' then Some r' else sendHeartbeat v ctx r') r"

definition bcastHeartbeat :: "raft \<Rightarrow> raft option" where
  "bcastHeartbeat r =
     (let lastCtx = ro_lastPendingRequestCtx (r_readOnly r) in
      if length lastCtx = 0 then bcastHeartbeatWithCtx None r
      else bcastHeartbeatWithCtx (Some lastCtx) r)"

definition sendTimeoutNow :: "u64 \<Rightarrow> raft \<Rightarrow> raft option" where
  "sendTimeoutNow to r = send ((mk_Message MsgTimeoutNow)\<lparr>m_To := to\<rparr>) r"

section \<open>Committing and appending\<close>

definition maybeCommit :: "raft \<Rightarrow> (raft \<times> bool) option" where
  "maybeCommit r =
     do {
       (l, b) \<leftarrow> rl_maybeCommit (pt_Committed (r_prs r)) (r_Term r) (r_raftLog r);
       Some (r\<lparr>r_raftLog := l\<rparr>, b)
     }"

definition PayloadSize :: "Entry \<Rightarrow> nat" where
  "PayloadSize e = blen (e_Data e)"

definition payload_sum :: "Entry list \<Rightarrow> u64" where
  "payload_sum ents = foldl (\<lambda>s e. s + of_nat (PayloadSize e)) 0 ents"

definition increaseUncommittedSize :: "Entry list \<Rightarrow> raft \<Rightarrow> raft \<times> bool" where
  "increaseUncommittedSize ents r =
     (let s = payload_sum ents in
      if r_uncommittedSize r > 0 \<and> s > 0 \<and> r_uncommittedSize r + s > r_maxUncommittedSize r
      then (r, False)
      else (r\<lparr>r_uncommittedSize := r_uncommittedSize r + s\<rparr>, True))"

definition reduceUncommittedSize :: "Entry list \<Rightarrow> raft \<Rightarrow> raft" where
  "reduceUncommittedSize ents r =
     (if r_uncommittedSize r = 0 then r
      else
        let s = payload_sum ents in
        if s > r_uncommittedSize r then r\<lparr>r_uncommittedSize := 0\<rparr>
        else r\<lparr>r_uncommittedSize := r_uncommittedSize r - s\<rparr>)"

text \<open>Term and index of proposed entries.\<close>

definition stamp_entries :: "u64 \<Rightarrow> u64 \<Rightarrow> Entry list \<Rightarrow> Entry list" where
  "stamp_entries trm li es =
     map (\<lambda>(i, e). e\<lparr>e_Term := trm, e_Index := li + 1 + of_nat i\<rparr>) (enumerate 0 es)"

definition appendEntry :: "Entry list \<Rightarrow> raft \<Rightarrow> (raft \<times> bool) option" where
  "appendEntry es r =
     do {
       li \<leftarrow> rl_lastIndex (r_raftLog r);
       let es = stamp_entries (r_Term r) li es;
           (r, ok) = increaseUncommittedSize es r
       in if \<not> ok then Some (r, False)
          else do {
            (l, li) \<leftarrow> rl_append es (r_raftLog r);
            let r = r\<lparr>r_raftLog := l\<rparr> in do {
              pr \<leftarrow> r_pr (r_id r) r;
              (r, _) \<leftarrow> maybeCommit (set_pr (r_id r) (fst (MaybeUpdate li pr)) r);
              Some (r, True)
            }
          }
     }"

section \<open>Changing role\<close>

text \<open>\<^verbatim>\<open>rand.Intn\<close> panics unless its argument is positive.\<close>

definition resetRandomizedElectionTimeout :: "raft \<Rightarrow> raft option" where
  "resetRandomizedElectionTimeout r =
     (if r_electionTimeout r \<le> 0 then None
      else Some (r\<lparr>r_randomizedElectionTimeout :=
                     r_electionTimeout r + int (r_rand r (r_rand_pos r)) mod r_electionTimeout r,
                   r_rand_pos := Suc (r_rand_pos r)\<rparr>))"

definition pastElectionTimeout :: "raft \<Rightarrow> bool" where
  "pastElectionTimeout r \<longleftrightarrow> r_electionElapsed r \<ge> r_randomizedElectionTimeout r"

definition abortLeaderTransfer :: "raft \<Rightarrow> raft" where
  "abortLeaderTransfer r = r\<lparr>r_leadTransferee := None_id\<rparr>"

definition reset_progress :: "u64 \<Rightarrow> raft \<Rightarrow> raft option" where
  "reset_progress v r =
     do {
       pr \<leftarrow> r_pr v r;
       li \<leftarrow> rl_lastIndex (r_raftLog r);
       Some (set_pr v \<lparr>pr_Match = (if v = r_id r then li else 0), pr_Next = li + 1,
               pr_State = StateProbe, pr_PendingSnapshot = 0, pr_RecentActive = False,
               pr_ProbeSent = False, pr_Inflights = NewInflights (pt_MaxInflight (r_prs r)),
               pr_IsLearner = pr_IsLearner pr\<rparr> r)
     }"

definition reset :: "u64 \<Rightarrow> raft \<Rightarrow> raft option" where
  "reset trm r =
     do {
       let r = (if r_Term r \<noteq> trm then r\<lparr>r_Term := trm, r_Vote := None_id\<rparr> else r);
       r \<leftarrow> resetRandomizedElectionTimeout
              (r\<lparr>r_lead := None_id, r_electionElapsed := 0, r_heartbeatElapsed := 0\<rparr>);
       let r = abortLeaderTransfer r;
       r \<leftarrow> visit reset_progress (r\<lparr>r_prs := ResetVotes (r_prs r)\<rparr>);
       Some (r\<lparr>r_pendingConfIndex := 0, r_uncommittedSize := 0,
               r_readOnly := newReadOnly (ro_option (r_readOnly r))\<rparr>)
     }"

definition becomeFollower :: "u64 \<Rightarrow> u64 \<Rightarrow> raft \<Rightarrow> raft option" where
  "becomeFollower trm lead r =
     do {
       r \<leftarrow> reset trm (r\<lparr>r_step := stepFollower_fn\<rparr>);
       Some (r\<lparr>r_tick := tickElection_fn, r_lead := lead, r_state := StateFollower\<rparr>)
     }"

definition becomeCandidate :: "raft \<Rightarrow> raft option" where
  "becomeCandidate r =
     (if r_state r = StateLeader then None
      else do {
        r \<leftarrow> reset (r_Term r + 1) (r\<lparr>r_step := stepCandidate_fn\<rparr>);
        Some (r\<lparr>r_tick := tickElection_fn, r_Vote := r_id r, r_state := StateCandidate\<rparr>)
      })"

definition becomePreCandidate :: "raft \<Rightarrow> raft option" where
  "becomePreCandidate r =
     (if r_state r = StateLeader then None
      else Some (r\<lparr>r_step := stepCandidate_fn, r_prs := ResetVotes (r_prs r),
                   r_tick := tickElection_fn, r_lead := None_id, r_state := StatePreCandidate\<rparr>))"

definition becomeLeader :: "raft \<Rightarrow> raft option" where
  "becomeLeader r =
     (if r_state r = StateFollower then None
      else do {
        r \<leftarrow> reset (r_Term r) (r\<lparr>r_step := stepLeader_fn\<rparr>);
        let r = r\<lparr>r_tick := tickHeartbeat_fn, r_lead := r_id r, r_state := StateLeader\<rparr>;
        pr \<leftarrow> r_pr (r_id r) r;
        let r = set_pr (r_id r) (BecomeReplicate pr) r;
        li \<leftarrow> rl_lastIndex (r_raftLog r);
        (r, ok) \<leftarrow> appendEntry [zero_Entry] (r\<lparr>r_pendingConfIndex := li\<rparr>);
        if \<not> ok then None else Some (reduceUncommittedSize [zero_Entry] r)
      })"

section \<open>Elections\<close>

definition promotable :: "raft \<Rightarrow> bool" where
  "promotable r =
     (case r_pr (r_id r) r of
        None \<Rightarrow> False
      | Some pr \<Rightarrow> \<not> pr_IsLearner pr \<and> \<not> rl_hasPendingSnapshot (r_raftLog r))"

definition numOfPendingConf :: "Entry list \<Rightarrow> nat" where
  "numOfPendingConf ents =
     length (filter (\<lambda>e. e_Type e = EntryConfChange \<or> e_Type e = EntryConfChangeV2) ents)"

definition poll :: "u64 \<Rightarrow> bool \<Rightarrow> raft \<Rightarrow> raft \<times> (nat \<times> nat \<times> VoteResult)" where
  "poll v granted r =
     (let prs = RecordVote v granted (r_prs r) in (r\<lparr>r_prs := prs\<rparr>, TallyVotes prs))"

text \<open>The vote requests of a campaign, one for every other voter in increasing order.\<close>

definition request_vote :: "CampaignType \<Rightarrow> MessageType \<Rightarrow> u64 \<Rightarrow> u64 \<Rightarrow> raft \<Rightarrow> raft option" where
  "request_vote t voteMsg trm v r =
     (if v = r_id r then Some r
      else do {
        lt \<leftarrow> rl_lastTerm (r_raftLog r);
        li \<leftarrow> rl_lastIndex (r_raftLog r);
        send ((mk_Message voteMsg)\<lparr>m_Term := trm, m_To := v, m_Index := li, m_LogTerm := lt,
                m_Context := (if t = campaignTransfer then Some campaignTransfer_bytes else None)\<rparr>) r
      })"

function (sequential) campaign :: "CampaignType \<Rightarrow> raft \<Rightarrow> raft option" where
  "campaign t r =
     do {
       (r, voteMsg, trm) \<leftarrow>
         (if t = campaignPreElection
          then do { r \<leftarrow> becomePreCandidate r; Some (r, MsgPreVote, r_Term r + 1) }
          else do { r \<leftarrow> becomeCandidate r; Some (r, MsgVote, r_Term r) });
       let (r, _, _, res) = poll (r_id r) True r;
       if res = VoteWon
       then (if t = campaignPreElection then campaign campaignElection r else becomeLeader r)
       else visit_list (request_vote t voteMsg trm)
              (sort (range_ids (joint_IDs (cfg_Voters (pt_Config (r_prs r)))))) r
     }"
  by pat_completeness auto
termination
  by (relation "measure (\<lambda>(t, r). if t = campaignPreElection then 1 else 0)") auto

declare campaign.simps [simp del]

definition hup :: "CampaignType \<Rightarrow> raft \<Rightarrow> raft option" where
  "hup t r =
     (if r_state r = StateLeader then Some r
      else if \<not> promotable r then Some r
      else do {
        ents \<leftarrow> must_ok (rl_slice (r_raftLog r) (rl_applied (r_raftLog r) + 1)
                             (rl_committed (r_raftLog r) + 1) noLimit);
        if numOfPendingConf ents \<noteq> 0 \<and> rl_committed (r_raftLog r) > rl_applied (r_raftLog r)
        then Some r
        else campaign t r
      })"

end
