(* ===== verification/Raft_Step.thy ===== *)
theory Raft_Step
  imports Raft_Core
begin

text \<open>
  The message handlers of \<^verbatim>\<open>raft/raft.go\<close>: \<^verbatim>\<open>Step\<close>, the three step functions, the handlers they call,
  the clock, configuration changes and the life cycle of a node (\<^verbatim>\<open>newRaft\<close>, \<^verbatim>\<open>advance\<close>).

  \<^verbatim>\<open>proto.Equal\<close>, which decides whether a change asks to leave a joint configuration, belongs to the
  protobuf runtime; it is the parameter \<open>proto_Equal\<close> of \<open>applyConfChange\<close>.
\<close>

section \<open>Read requests\<close>

definition committedEntryInCurrentTerm :: "raft \<Rightarrow> bool option" where
  "committedEntryInCurrentTerm r =
     do {
       res \<leftarrow> rl_term (r_raftLog r) (rl_committed (r_raftLog r));
       t \<leftarrow> zeroTermOnErrCompacted res;
       Some (t = r_Term r)
     }"

definition responseToReadIndexReq :: "Message \<Rightarrow> u64 \<Rightarrow> raft \<Rightarrow> (raft \<times> Message) option" where
  "responseToReadIndexReq req readIndex r =
     (if m_From req = None_id \<or> m_From req = r_id r
      then do {
        e \<leftarrow> go_index (m_Entries req) 0;
        Some (r\<lparr>r_readStates := r_readStates r @ [\<lparr>rs_Index = readIndex, rs_RequestCtx = e_Data e\<rparr>]\<rparr>,
              mk_Message MsgHup)
      }
      else Some (r, (mk_Message MsgReadIndexResp)\<lparr>m_To := m_From req, m_Index := readIndex,
                      m_Entries := m_Entries req\<rparr>))"

definition respond_read :: "Message \<Rightarrow> u64 \<Rightarrow> raft \<Rightarrow> raft option" where
  "respond_read req readIndex r =
     do {
       (r, resp) \<leftarrow> responseToReadIndexReq req readIndex r;
       if m_To resp \<noteq> None_id then send resp r else Some r
     }"

definition sendMsgReadIndexResponse :: "Message \<Rightarrow> raft \<Rightarrow> raft option" where
  "sendMsgReadIndexResponse m r =
     (case ro_option (r_readOnly r) of
        ReadOnlySafe \<Rightarrow> do {
          ro \<leftarrow> ro_addRequest (rl_committed (r_raftLog r)) m (r_readOnly r);
          e \<leftarrow> go_index (m_Entries m) 0;
          let (ro, _) = ro_recvAck (r_id r) (e_Data e) ro;
          bcastHeartbeatWithCtx (e_Data e) (r\<lparr>r_readOnly := ro\<rparr>)
        }
      | ReadOnlyLeaseBased \<Rightarrow> respond_read m (rl_committed (r_raftLog r)) r
      | ReadOnlyOther _ \<Rightarrow> Some r)"

fun fold_raft :: "('a \<Rightarrow> raft \<Rightarrow> raft option) \<Rightarrow> 'a list \<Rightarrow> raft \<Rightarrow> raft option" where
  "fold_raft f [] r = Some r"
| "fold_raft f (x # xs) r = f x r \<bind> fold_raft f xs"

definition releasePendingReadIndexMessages :: "raft \<Rightarrow> raft option" where
  "releasePendingReadIndexMessages r =
     do {
       ok \<leftarrow> committedEntryInCurrentTerm r;
       if \<not> ok then Some r
       else
         let msgs = r_pendingReadIndexMessages r in
         fold_raft sendMsgReadIndexResponse msgs (r\<lparr>r_pendingReadIndexMessages := []\<rparr>)
     }"

section \<open>The leader\<close>

definition stepLeader_CheckQuorum :: "raft \<Rightarrow> raft option" where
  "stepLeader_CheckQuorum r =
     do {
       let r = (case r_pr (r_id r) r of
                  None \<Rightarrow> r
                | Some pr \<Rightarrow> set_pr (r_id r) (pr\<lparr>pr_RecentActive := True\<rparr>) r);
       r \<leftarrow> (if \<not> QuorumActive (r_prs r) then becomeFollower (r_Term r) None_id r else Some r);
       visit (\<lambda>v r. if v \<noteq> r_id r
                    then do { pr \<leftarrow> r_pr v r; Some (set_pr v (pr\<lparr>pr_RecentActive := False\<rparr>) r) }
                    else Some r) r
     }"

text \<open>Decoding a proposed configuration change; data that cannot be decoded panics.\<close>

definition entry_conf_change :: "Entry \<Rightarrow> ConfChangeI option option" where
  "entry_conf_change e =
     (if e_Type e = EntryConfChange
      then (case ConfChange_Unmarshal (str_of (e_Data e)) zero_ConfChange of
              Inl _ \<Rightarrow> None | Inr ccc \<Rightarrow> Some (Some (CCv1 ccc)))
      else if e_Type e = EntryConfChangeV2
      then (case ConfChangeV2_Unmarshal (str_of (e_Data e)) zero_ConfChangeV2 of
              Inl _ \<Rightarrow> None | Inr ccc \<Rightarrow> Some (Some (CCv2 ccc)))
      else Some None)"

definition conf_change_refused :: "ConfChangeI \<Rightarrow> raft \<Rightarrow> bool" where
  "conf_change_refused cc r =
     (let alreadyPending = r_pendingConfIndex r > rl_applied (r_raftLog r);
          alreadyJoint = card (ids (snd (cfg_Voters (pt_Config (r_prs r))))) > 0;
          wantsLeaveJoint = length (v2_Changes (AsV2 cc)) = 0
      in alreadyPending \<or> (alreadyJoint \<and> \<not> wantsLeaveJoint) \<or> (\<not> alreadyJoint \<and> wantsLeaveJoint))"

text \<open>The loop over the proposed entries from position \<open>i\<close>: a refused change becomes an empty
  entry, an accepted one is recorded as pending.\<close>

fun check_proposals :: "nat \<Rightarrow> Entry list \<Rightarrow> raft \<Rightarrow> (raft \<times> Entry list) option" where
  "check_proposals i [] r = Some (r, [])"
| "check_proposals i (e # es) r =
     do {
       cc \<leftarrow> entry_conf_change e;
       (r, e) \<leftarrow> (case cc of
                    None \<Rightarrow> Some (r, e)
                  | Some cc \<Rightarrow>
                      if conf_change_refused cc r then Some (r, zero_Entry)
                      else do {
                        li \<leftarrow> rl_lastIndex (r_raftLog r);
                        Some (r\<lparr>r_pendingConfIndex := li + of_nat i + 1\<rparr>, e)
                      });
       (r, es) \<leftarrow> check_proposals (Suc i) es r;
       Some (r, e # es)
     }"

definition stepLeader_Prop :: "Message \<Rightarrow> raft \<Rightarrow> (raft \<times> RaftErr option) option" where
  "stepLeader_Prop m r =
     (if length (m_Entries m) = 0 then None
      else if r_pr (r_id r) r = None then Some (r, Some ErrProposalDropped)
      else if r_leadTransferee r \<noteq> None_id then Some (r, Some ErrProposalDropped)
      else do {
        (r, es) \<leftarrow> check_proposals 0 (m_Entries m) r;
        (r, ok) \<leftarrow> appendEntry es r;
        if \<not> ok then Some (r, Some ErrProposalDropped)
        else do { r \<leftarrow> bcastAppend r; Some (r, None) }
      })"

definition stepLeader_ReadIndex :: "Message \<Rightarrow> raft \<Rightarrow> raft option" where
  "stepLeader_ReadIndex m r =
     (if IsSingleton (r_prs r) then respond_read m (rl_committed (r_raftLog r)) r
      else do {
        ok \<leftarrow> committedEntryInCurrentTerm r;
        if \<not> ok then Some (r\<lparr>r_pendingReadIndexMessages := r_pendingReadIndexMessages r @ [m]\<rparr>)
        else sendMsgReadIndexResponse m r
      })"

text \<open>The loop that sends as many messages as flow control allows.\<close>

partial_function (option) send_all :: "u64 \<Rightarrow> raft \<Rightarrow> raft option" where
  "send_all to r =
     do {
       (r', sent) \<leftarrow> maybeSendAppend to False r;
       if sent then send_all to r' else Some r'
     }"

declare send_all.simps [code]

definition stepLeader_AppResp_reject :: "Message \<Rightarrow> Progress \<Rightarrow> raft \<Rightarrow> raft option" where
  "stepLeader_AppResp_reject m pr r =
     do {
       nextProbeIdx \<leftarrow> (if m_LogTerm m > 0
                        then rl_findConflictByTerm (r_raftLog r) (m_RejectHint m) (m_LogTerm m)
                        else Some (m_RejectHint m));
       let (pr, decreased) = MaybeDecrTo (m_Index m) nextProbeIdx pr in
       if decreased
       then
         let pr = (if pr_State pr = StateReplicate then BecomeProbe pr else pr) in
         sendAppend (m_From m) (set_pr (m_From m) pr r)
       else Some (set_pr (m_From m) pr r)
     }"

text \<open>The state of a progress after an acknowledgement that raised its match index.\<close>

definition acked_progress :: "u64 \<Rightarrow> Progress \<Rightarrow> Progress option" where
  "acked_progress i pr =
     (if pr_State pr = StateProbe then Some (BecomeReplicate pr)
      else if pr_State pr = StateSnapshot \<and> pr_Match pr \<ge> pr_PendingSnapshot pr
      then Some (BecomeReplicate (BecomeProbe pr))
      else if pr_State pr = StateReplicate
      then do { ins \<leftarrow> Inflights_FreeLE (pr_Inflights pr) i; Some (pr\<lparr>pr_Inflights := ins\<rparr>) }
      else Some pr)"

definition stepLeader_AppResp_accept :: "Message \<Rightarrow> Progress \<Rightarrow> raft \<Rightarrow> raft option" where
  "stepLeader_AppResp_accept m pr r =
     (let oldPaused = IsPaused pr;
          (pr, updated) = MaybeUpdate (m_Index m) pr
      in if \<not> updated then Some (set_pr (m_From m) pr r)
         else do {
           pr \<leftarrow> acked_progress (m_Index m) pr;
           (r, committed) \<leftarrow> maybeCommit (set_pr (m_From m) pr r);
           r \<leftarrow> (if committed
                 then do { r \<leftarrow> releasePendingReadIndexMessages r; bcastAppend r }
                 else if oldPaused then sendAppend (m_From m) r
                 else Some r);
           r \<leftarrow> send_all (m_From m) r;
           if m_From m = r_leadTransferee r
           then do {
             pr \<leftarrow> r_pr (m_From m) r;
             li \<leftarrow> rl_lastIndex (r_raftLog r);
             if pr_Match pr = li then sendTimeoutNow (m_From m) r else Some r
           }
           else Some r
         })"

definition stepLeader_AppResp :: "Message \<Rightarrow> Progress \<Rightarrow> raft \<Rightarrow> raft option" where
  "stepLeader_AppResp m pr r =
     (let pr = pr\<lparr>pr_RecentActive := True\<rparr> in
      if m_Reject m then stepLeader_AppResp_reject m pr r else stepLeader_AppResp_accept m pr r)"

definition stepLeader_HeartbeatResp :: "Message \<Rightarrow> Progress \<Rightarrow> raft \<Rightarrow> raft option" where
  "stepLeader_HeartbeatResp m pr r =
     do {
       let pr = pr\<lparr>pr_RecentActive := True, pr_ProbeSent := False\<rparr>;
       pr \<leftarrow> (if pr_State pr = StateReplicate \<and> Inflights_Full (pr_Inflights pr)
              then do { ins \<leftarrow> Inflights_FreeFirstOne (pr_Inflights pr); Some (pr\<lparr>pr_Inflights := ins\<rparr>) }
              else Some pr);
       let r = set_pr (m_From m) pr r;
       li \<leftarrow> rl_lastIndex (r_raftLog r);
       r \<leftarrow> (if pr_Match pr < li then sendAppend (m_From m) r else Some r);
       if ro_option (r_readOnly r) \<noteq> ReadOnlySafe \<or> blen (m_Context m) = 0 then Some r
       else
         let (ro, acks) = ro_recvAck (m_From m) (m_Context m) (r_readOnly r);
             r = r\<lparr>r_readOnly := ro\<rparr>
         in if joint_VoteResult (cfg_Voters (pt_Config (r_prs r))) (Mapping.lookup acks) \<noteq> VoteWon then Some r
            else do {
              (ro, rss) \<leftarrow> ro_advance m (r_readOnly r);
              fold_raft (\<lambda>rs. respond_read (ris_req rs) (ris_index rs)) rss (r\<lparr>r_readOnly := ro\<rparr>)
            }
     }"

definition stepLeader_SnapStatus :: "Message \<Rightarrow> Progress \<Rightarrow> raft \<Rightarrow> raft" where
  "stepLeader_SnapStatus m pr r =
     (if pr_State pr \<noteq> StateSnapshot then r
      else
        let pr = (if \<not> m_Reject m then BecomeProbe pr else BecomeProbe (pr\<lparr>pr_PendingSnapshot := 0\<rparr>))
        in set_pr (m_From m) (pr\<lparr>pr_ProbeSent := True\<rparr>) r)"

definition stepLeader_Unreachable :: "Message \<Rightarrow> Progress \<Rightarrow> raft \<Rightarrow> raft" where
  "stepLeader_Unreachable m pr r =
     (if pr_State pr = StateReplicate then set_pr (m_From m) (BecomeProbe pr) r else r)"

definition stepLeader_TransferLeader :: "Message \<Rightarrow> Progress \<Rightarrow> raft \<Rightarrow> raft option" where
  "stepLeader_TransferLeader m pr r =
     (if pr_IsLearner pr then Some r
      else
        let leadTransferee = m_From m; lastLeadTransferee = r_leadTransferee r in
        if lastLeadTransferee \<noteq> None_id \<and> lastLeadTransferee = leadTransferee then Some r
        else
          let r = (if lastLeadTransferee \<noteq> None_id then abortLeaderTransfer r else r) in
          if leadTransferee = r_id r then Some r
          else
            let r = r\<lparr>r_electionElapsed := 0, r_leadTransferee := leadTransferee\<rparr> in do {
              li \<leftarrow> rl_lastIndex (r_raftLog r);
              if pr_Match pr = li then sendTimeoutNow leadTransferee r else sendAppend leadTransferee r
            })"

definition no_err :: "raft option \<Rightarrow> (raft \<times> RaftErr option) option" where
  "no_err r = map_option (\<lambda>r. (r, None)) r"

definition stepLeader :: "Message \<Rightarrow> raft \<Rightarrow> (raft \<times> RaftErr option) option" where
  "stepLeader m r =
     (case m_Type m of
        MsgBeat \<Rightarrow> no_err (bcastHeartbeat r)
      | MsgCheckQuorum \<Rightarrow> no_err (stepLeader_CheckQuorum r)
      | MsgProp \<Rightarrow> stepLeader_Prop m r
      | MsgReadIndex \<Rightarrow> no_err (stepLeader_ReadIndex m r)
      | t \<Rightarrow>
          (case r_pr (m_From m) r of
             None \<Rightarrow> Some (r, None)
           | Some pr \<Rightarrow>
               no_err (case t of
                 MsgAppResp \<Rightarrow> stepLeader_AppResp m pr r
               | MsgHeartbeatResp \<Rightarrow> stepLeader_HeartbeatResp m pr r
               | MsgSnapStatus \<Rightarrow> Some (stepLeader_SnapStatus m pr r)
               | MsgUnreachable \<Rightarrow> Some (stepLeader_Unreachable m pr r)
               | MsgTransferLeader \<Rightarrow> stepLeader_TransferLeader m pr r
               | _ \<Rightarrow> Some r)))"

section \<open>Configuration\<close>

definition switchToConfig :: "TrackerConfig \<Rightarrow> ProgressMap \<Rightarrow> raft \<Rightarrow> (raft \<times> ConfState) option" where
  "switchToConfig cfg prs r =
     (let r = r\<lparr>r_prs := (r_prs r)\<lparr>pt_Config := cfg, pt_Progress := prs\<rparr>\<rparr>;
          cs = pt_ConfState (r_prs r);
          pr = r_pr (r_id r) r;
          r = r\<lparr>r_isLearner := (case pr of None \<Rightarrow> False | Some pr \<Rightarrow> pr_IsLearner pr)\<rparr>
      in if (pr = None \<or> r_isLearner r) \<and> r_state r = StateLeader then Some (r, cs)
         else if r_state r \<noteq> StateLeader \<or> length (cs_Voters cs) = 0 then Some (r, cs)
         else do {
           (r, committed) \<leftarrow> maybeCommit r;
           r \<leftarrow> (if committed then bcastAppend r
                 else visit (\<lambda>v r. map_option fst (maybeSendAppend v False r)) r);
           let r = (if r_leadTransferee r \<notin> joint_IDs (cfg_Voters (pt_Config (r_prs r))) \<and> r_leadTransferee r \<noteq> 0
                    then abortLeaderTransfer r else r);
           Some (r, cs)
         })"

definition applyConfChange ::
  "(ConfChangeV2 \<Rightarrow> ConfChangeV2 \<Rightarrow> bool) \<Rightarrow> ConfChangeV2 \<Rightarrow> raft \<Rightarrow> (raft \<times> ConfState) option" where
  "applyConfChange proto_Equal cc r =
     do {
       li \<leftarrow> rl_lastIndex (r_raftLog r);
       let changer = \<lparr>chg_Tracker = r_prs r, chg_LastIndex = li\<rparr>;
       res \<leftarrow> (if LeaveJoint_v2 proto_Equal cc then LeaveJoint changer
               else do {
                 (autoLeave, ok) \<leftarrow> EnterJoint_opts cc;
                 if ok then EnterJoint changer autoLeave (v2_Changes cc) else Simple changer (v2_Changes cc)
               });
       case res of
         Inl err \<Rightarrow> None
       | Inr (cfg, prs) \<Rightarrow> switchToConfig cfg prs r
     }"

definition loadState :: "HardState \<Rightarrow> raft \<Rightarrow> raft option" where
  "loadState st r =
     (if hs_Commit st < rl_committed (r_raftLog r) then None
      else do {
        li \<leftarrow> rl_lastIndex (r_raftLog r);
        if hs_Commit st > li then None
        else Some (r\<lparr>r_raftLog := (r_raftLog r)\<lparr>rl_committed := hs_Commit st\<rparr>,
                     r_Term := hs_Term st, r_Vote := hs_Vote st\<rparr>)
      })"

definition assertConfStatesEquivalent :: "ConfState \<Rightarrow> ConfState \<Rightarrow> unit option" where
  "assertConfStatesEquivalent cs1 cs2 = (if Equivalent cs1 cs2 then Some () else None)"

text \<open>Restoring the configuration of a snapshot or of the storage into a fresh tracker.\<close>

definition restore_config :: "ConfState \<Rightarrow> raft \<Rightarrow> raft option" where
  "restore_config cs r =
     do {
       li \<leftarrow> rl_lastIndex (r_raftLog r);
       res \<leftarrow> Restore \<lparr>chg_Tracker = r_prs r, chg_LastIndex = li\<rparr> cs;
       (case res of
          Inl err \<Rightarrow> None
        | Inr (cfg, prs) \<Rightarrow> do {
            (r, cs') \<leftarrow> switchToConfig cfg prs r;
            assertConfStatesEquivalent cs cs';
            Some r
          })
     }"

definition restore :: "Snapshot \<Rightarrow> raft \<Rightarrow> (raft \<times> bool) option" where
  "restore s r =
     (if snap_index s \<le> rl_committed (r_raftLog r) then Some (r, False)
      else if r_state r \<noteq> StateFollower
      then do { r \<leftarrow> becomeFollower (r_Term r + 1) None_id r; Some (r, False) }
      else
        let cs = sm_ConfState (s_Metadata s) in
        if r_id r \<notin> set (cs_Voters cs) \<union> set (cs_Learners cs) \<union> set (cs_VotersOutgoing cs)
        then Some (r, False)
        else do {
          ok \<leftarrow> rl_matchTerm (r_raftLog r) (snap_index s) (snap_term s);
          if ok
          then do {
            log_last r;
            l \<leftarrow> rl_commitTo (snap_index s) (r_raftLog r);
            Some (r\<lparr>r_raftLog := l\<rparr>, False)
          }
          else do {
            r \<leftarrow> restore_config cs (r\<lparr>r_raftLog := rl_restore s (r_raftLog r),
                   r_prs := MakeProgressTracker (pt_MaxInflight (r_prs r))\<rparr>);
            pr \<leftarrow> r_pr (r_id r) r;
            let r = set_pr (r_id r) (fst (MaybeUpdate (pr_Next pr - 1) pr)) r;
            log_last r;
            Some (r, True)
          }
        })"

section \<open>Followers and candidates\<close>

definition handleAppendEntries :: "Message \<Rightarrow> raft \<Rightarrow> raft option" where
  "handleAppendEntries m r =
     (if m_Index m < rl_committed (r_raftLog r)
      then send ((mk_Message MsgAppResp)\<lparr>m_To := m_From m, m_Index := rl_committed (r_raftLog r)\<rparr>) r
      else do {
        (l, mlastIndex, ok) \<leftarrow> rl_maybeAppend (m_Index m) (m_LogTerm m) (m_Commit m) (m_Entries m) (r_raftLog r);
        let r = r\<lparr>r_raftLog := l\<rparr>;
        if ok then send ((mk_Message MsgAppResp)\<lparr>m_To := m_From m, m_Index := mlastIndex\<rparr>) r
        else do {
          res \<leftarrow> rl_term (r_raftLog r) (m_Index m);
          zeroTermOnErrCompacted res;
          li \<leftarrow> rl_lastIndex (r_raftLog r);
          let hintIndex = u64_min (m_Index m) li;
          hintIndex \<leftarrow> rl_findConflictByTerm (r_raftLog r) hintIndex (m_LogTerm m);
          hintTerm \<leftarrow> must_ok (rl_term (r_raftLog r) hintIndex);
          send ((mk_Message MsgAppResp)\<lparr>m_To := m_From m, m_Index := m_Index m, m_Reject := True,
                  m_RejectHint := hintIndex, m_LogTerm := hintTerm\<rparr>) r
        }
      })"

definition handleHeartbeat :: "Message \<Rightarrow> raft \<Rightarrow> raft option" where
  "handleHeartbeat m r =
     do {
       l \<leftarrow> rl_commitTo (m_Commit m) (r_raftLog r);
       send ((mk_Message MsgHeartbeatResp)\<lparr>m_To := m_From m, m_Context := m_Context m\<rparr>) (r\<lparr>r_raftLog := l\<rparr>)
     }"

definition handleSnapshot :: "Message \<Rightarrow> raft \<Rightarrow> raft option" where
  "handleSnapshot m r =
     do {
       (r, ok) \<leftarrow> restore (m_Snapshot m) r;
       i \<leftarrow> (if ok then rl_lastIndex (r_raftLog r) else Some (rl_committed (r_raftLog r)));
       send ((mk_Message MsgAppResp)\<lparr>m_To := m_From m, m_Index := i\<rparr>) r
     }"

definition stepCandidate_vote :: "Message \<Rightarrow> raft \<Rightarrow> raft option" where
  "stepCandidate_vote m r =
     (let (r, gr, rj, res) = poll (m_From m) (\<not> m_Reject m) r in
      case res of
        VoteWon \<Rightarrow>
          (if r_state r = StatePreCandidate then campaign campaignElection r
           else do { r \<leftarrow> becomeLeader r; bcastAppend r })
      | VoteLost \<Rightarrow> becomeFollower (r_Term r) None_id r
      | VotePending \<Rightarrow> Some r)"

definition stepCandidate :: "Message \<Rightarrow> raft \<Rightarrow> (raft \<times> RaftErr option) option" where
  "stepCandidate m r =
     (let myVoteRespType = (if r_state r = StatePreCandidate then MsgPreVoteResp else MsgVoteResp) in
      if m_Type m = MsgProp then Some (r, Some ErrProposalDropped)
      else no_err
        (if m_Type m = MsgApp
         then do { r \<leftarrow> becomeFollower (m_Term m) (m_From m) r; handleAppendEntries m r }
         else if m_Type m = MsgHeartbeat
         then do { r \<leftarrow> becomeFollower (m_Term m) (m_From m) r; handleHeartbeat m r }
         else if m_Type m = MsgSnap
         then do { r \<leftarrow> becomeFollower (m_Term m) (m_From m) r; handleSnapshot m r }
         else if m_Type m = myVoteRespType then stepCandidate_vote m r
         else Some r))"

definition stepFollower :: "Message \<Rightarrow> raft \<Rightarrow> (raft \<times> RaftErr option) option" where
  "stepFollower m r =
     (case m_Type m of
        MsgProp \<Rightarrow>
          (if r_lead r = None_id then Some (r, Some ErrProposalDropped)
           else if r_disableProposalForwarding r then Some (r, Some ErrProposalDropped)
           else no_err (send (m\<lparr>m_To := r_lead r\<rparr>) r))
      | MsgApp \<Rightarrow> no_err (handleAppendEntries m (r\<lparr>r_electionElapsed := 0, r_lead := m_From m\<rparr>))
      | MsgHeartbeat \<Rightarrow> no_err (handleHeartbeat m (r\<lparr>r_electionElapsed := 0, r_lead := m_From m\<rparr>))
      | MsgSnap \<Rightarrow> no_err (handleSnapshot m (r\<lparr>r_electionElapsed := 0, r_lead := m_From m\<rparr>))
      | MsgTransferLeader \<Rightarrow>
          no_err (if r_lead r = None_id then Some r else send (m\<lparr>m_To := r_lead r\<rparr>) r)
      | MsgTimeoutNow \<Rightarrow> no_err (hup campaignTransfer r)
      | MsgReadIndex \<Rightarrow>
          no_err (if r_lead r = None_id then Some r else send (m\<lparr>m_To := r_lead r\<rparr>) r)
      | MsgReadIndexResp \<Rightarrow>
          (case m_Entries m of
             [e] \<Rightarrow> Some (r\<lparr>r_readStates := r_readStates r @
                      [\<lparr>rs_Index = m_Index m, rs_RequestCtx = e_Data e\<rparr>]\<rparr>, None)
           | _ \<Rightarrow> Some (r, None))
      | _ \<Rightarrow> Some (r, None))"

section \<open>Messages\<close>

definition voteRespMsgType :: "MessageType \<Rightarrow> MessageType option" where
  "voteRespMsgType t =
     (if t = MsgVote then Some MsgVoteResp else if t = MsgPreVote then Some MsgPreVoteResp else None)"

text \<open>The first half of \<^verbatim>\<open>Step\<close>: comparing terms. The flag says whether the message is handled further.\<close>

definition Step_higher_term :: "Message \<Rightarrow> raft \<Rightarrow> (raft \<times> bool) option" where
  "Step_higher_term m r =
     (let is_vote = (m_Type m = MsgVote \<or> m_Type m = MsgPreVote);
          force = (str_of (m_Context m) = campaignTransfer_bytes);
          inLease = (r_checkQuorum r \<and> r_lead r \<noteq> None_id \<and> r_electionElapsed r < r_electionTimeout r)
      in if is_vote \<and> \<not> force \<and> inLease then do { log_last r; Some (r, False) }
         else if m_Type m = MsgPreVote then Some (r, True)
         else if m_Type m = MsgPreVoteResp \<and> \<not> m_Reject m then Some (r, True)
         else do {
           r \<leftarrow> (if m_Type m = MsgApp \<or> m_Type m = MsgHeartbeat \<or> m_Type m = MsgSnap
                 then becomeFollower (m_Term m) (m_From m) r
                 else becomeFollower (m_Term m) None_id r);
           Some (r, True)
         })"

definition Step_lower_term :: "Message \<Rightarrow> raft \<Rightarrow> raft option" where
  "Step_lower_term m r =
     (if (r_checkQuorum r \<or> r_preVote r) \<and> (m_Type m = MsgHeartbeat \<or> m_Type m = MsgApp)
      then send ((mk_Message MsgAppResp)\<lparr>m_To := m_From m\<rparr>) r
      else if m_Type m = MsgPreVote
      then do {
        log_last r;
        send ((mk_Message MsgPreVoteResp)\<lparr>m_To := m_From m, m_Term := r_Term r, m_Reject := True\<rparr>) r
      }
      else Some r)"

definition Step_term :: "Message \<Rightarrow> raft \<Rightarrow> (raft \<times> bool) option" where
  "Step_term m r =
     (if m_Term m = 0 then Some (r, True)
      else if m_Term m > r_Term r then Step_higher_term m r
      else if m_Term m < r_Term r then do { r \<leftarrow> Step_lower_term m r; Some (r, False) }
      else Some (r, True))"

definition canVote :: "Message \<Rightarrow> raft \<Rightarrow> bool" where
  "canVote m r \<longleftrightarrow>
     r_Vote r = m_From m \<or> (r_Vote r = None_id \<and> r_lead r = None_id) \<or>
     (m_Type m = MsgPreVote \<and> m_Term m > r_Term r)"

definition Step_vote :: "Message \<Rightarrow> raft \<Rightarrow> raft option" where
  "Step_vote m r =
     do {
       grant \<leftarrow> (if canVote m r then rl_isUpToDate (r_raftLog r) (m_Index m) (m_LogTerm m) else Some False);
       log_last r;
       t \<leftarrow> voteRespMsgType (m_Type m);
       if grant
       then do {
         r \<leftarrow> send ((mk_Message t)\<lparr>m_To := m_From m, m_Term := m_Term m\<rparr>) r;
         Some (if m_Type m = MsgVote then r\<lparr>r_electionElapsed := 0, r_Vote := m_From m\<rparr> else r)
       }
       else send ((mk_Message t)\<lparr>m_To := m_From m, m_Term := r_Term r, m_Reject := True\<rparr>) r
     }"

definition run_step :: "Message \<Rightarrow> raft \<Rightarrow> (raft \<times> RaftErr option) option" where
  "run_step m r =
     (case r_step r of
        NoStep \<Rightarrow> None
      | stepFollower_fn \<Rightarrow> stepFollower m r
      | stepCandidate_fn \<Rightarrow> stepCandidate m r
      | stepLeader_fn \<Rightarrow> stepLeader m r)"

definition Step :: "Message \<Rightarrow> raft \<Rightarrow> (raft \<times> RaftErr option) option" where
  "Step m r =
     do {
       (r, continue) \<leftarrow> Step_term m r;
       if \<not> continue then Some (r, None)
       else if m_Type m = MsgHup
       then no_err (hup (if r_preVote r then campaignPreElection else campaignElection) r)
       else if m_Type m = MsgVote \<or> m_Type m = MsgPreVote then no_err (Step_vote m r)
       else run_step m r
     }"

section \<open>The clock\<close>

definition tickElection :: "raft \<Rightarrow> raft option" where
  "tickElection r =
     (let r = r\<lparr>r_electionElapsed := r_electionElapsed r + 1\<rparr> in
      if promotable r \<and> pastElectionTimeout r
      then map_option fst (Step ((mk_Message MsgHup)\<lparr>m_From := r_id r\<rparr>) (r\<lparr>r_electionElapsed := 0\<rparr>))
      else Some r)"

definition tickHeartbeat :: "raft \<Rightarrow> raft option" where
  "tickHeartbeat r =
     do {
       let r = r\<lparr>r_heartbeatElapsed := r_heartbeatElapsed r + 1, r_electionElapsed := r_electionElapsed r + 1\<rparr>;
       r \<leftarrow> (if r_electionElapsed r \<ge> r_electionTimeout r
             then do {
               let r = r\<lparr>r_electionElapsed := 0\<rparr>;
               r \<leftarrow> (if r_checkQuorum r
                     then map_option fst (Step ((mk_Message MsgCheckQuorum)\<lparr>m_From := r_id r\<rparr>) r)
                     else Some r);
               Some (if r_state r = StateLeader \<and> r_leadTransferee r \<noteq> None_id then abortLeaderTransfer r else r)
             }
             else Some r);
       if r_state r \<noteq> StateLeader then Some r
       else if r_heartbeatElapsed r \<ge> r_heartbeatTimeout r
       then map_option fst (Step ((mk_Message MsgBeat)\<lparr>m_From := r_id r\<rparr>) (r\<lparr>r_heartbeatElapsed := 0\<rparr>))
       else Some r
     }"

definition tick :: "raft \<Rightarrow> raft option" where
  "tick r =
     (case r_tick r of
        NoTick \<Rightarrow> None
      | tickElection_fn \<Rightarrow> tickElection r
      | tickHeartbeat_fn \<Rightarrow> tickHeartbeat r)"

end
