(* ===== verification/Raft_Quiet.thy ===== *)
theory Raft_Quiet
  imports Raft_Step
begin

text \<open>
  What most operations of a node leave alone. \<open>quiet r r'\<close> says that the node keeps its identity,
  term, vote, role, timeouts, the votes it collected and the voters of its configuration, that its
  commit index does not fall and its applied index stays, and that messages are only appended, none
  of them an answer to a vote request. Every operation that does not change the role is quiet; the
  properties of \<^verbatim>\<open>Step\<close> are proved over this relation.

  Most operations only send messages, move the commit index and write fields that no invariant
  mentions. What follows from that is proved once, in the locale \<open>frame\<close>, for any relation between the
  states before and after that allows these moves.
\<close>

abbreviation voters :: "raft \<Rightarrow> JointConfig" where
  "voters r \<equiv> cfg_Voters (pt_Config (r_prs r))"

abbreviation votes :: "raft \<Rightarrow> u64 \<Rightarrow> bool option" where
  "votes r \<equiv> Mapping.lookup (pt_Votes (r_prs r))"

definition role where
  "role r = (r_id r, r_Term r, r_Vote r, r_state r, r_step r, r_tick r, r_lead r,
     r_electionTimeout r, r_randomizedElectionTimeout r, voters r, pt_Votes (r_prs r))"

text \<open>A message only a leader sends: it carries a term.\<close>

definition termed :: "Message \<Rightarrow> bool" where
  "termed m \<longleftrightarrow> (m_Type m = MsgApp \<or> m_Type m = MsgHeartbeat \<or> m_Type m = MsgSnap \<longrightarrow> m_Term m \<noteq> 0)"

definition plain_msg :: "bool \<Rightarrow> Message \<Rightarrow> bool" where
  "plain_msg b m \<longleftrightarrow> m_Type m \<noteq> MsgVoteResp \<and> (b \<longrightarrow> termed m)"

definition sends :: "(Message \<Rightarrow> bool) \<Rightarrow> raft \<Rightarrow> raft \<Rightarrow> bool" where
  "sends P r r' \<longleftrightarrow> (\<exists>ms. r_msgs r' = r_msgs r @ ms \<and> (\<forall>m \<in> set ms. P m))"

definition quiet :: "raft \<Rightarrow> raft \<Rightarrow> bool" where
  "quiet r r' \<longleftrightarrow>
     role r' = role r \<and> rl_committed (r_raftLog r) \<le> rl_committed (r_raftLog r') \<and>
     rl_applied (r_raftLog r') = rl_applied (r_raftLog r) \<and> sends (plain_msg (r_Term r \<noteq> 0)) r r'"

lemma sends_same: "r_msgs r' = r_msgs r \<Longrightarrow> sends P r r'"
  by (simp add: sends_def)

lemma sends_trans: "sends P r r' \<Longrightarrow> sends P r' r'' \<Longrightarrow> sends P r r''"
  unfolding sends_def by (metis (no_types, lifting) UnE append.assoc set_append)

lemma sends_mono: "sends P r r' \<Longrightarrow> (\<And>m. P m \<Longrightarrow> Q m) \<Longrightarrow> sends Q r r'"
  unfolding sends_def by blast

lemma sends_cong: "r_msgs x = r_msgs r \<Longrightarrow> r_msgs y = r_msgs r' \<Longrightarrow> sends P x y \<longleftrightarrow> sends P r r'"
  by (simp add: sends_def)

lemma mk_Message_Type [simp]: "m_Type (mk_Message t) = t"
  by (simp add: mk_Message_def)

named_theorems quiet_intros

text \<open>Writes to the log.\<close>

lemma quiet_log:
  assumes "rl_committed (r_raftLog r) \<le> rl_committed l" "rl_applied l = rl_applied (r_raftLog r)"
  shows "quiet r (r\<lparr>r_raftLog := l\<rparr>)"
  using assms by (simp add: quiet_def role_def sends_def)

lemma set_pr_fields [simp]:
  "r_raftLog (set_pr v pr r) = r_raftLog r" "r_id (set_pr v pr r) = r_id r" "r_Term (set_pr v pr r) = r_Term r"
  "r_state (set_pr v pr r) = r_state r" "r_msgs (set_pr v pr r) = r_msgs r"
  "r_maxMsgSize (set_pr v pr r) = r_maxMsgSize r" "r_leadTransferee (set_pr v pr r) = r_leadTransferee r"
  by (simp_all add: set_pr_def)

lemma r_pr_set_pr: "r_pr w (set_pr v pr r) = (if w = v then Some pr else r_pr w r)"
  by (simp add: r_pr_def set_pr_def Mapping.lookup_update')

section \<open>Pointers of the log\<close>

lemma rl_commitTo_pointers:
  "rl_commitTo c l = Some l' \<Longrightarrow> rl_committed l \<le> rl_committed l' \<and> rl_applied l' = rl_applied l"
  by (auto simp: rl_commitTo_def panic_simps split: if_splits)

lemma rl_maybeCommit_pointers:
  "rl_maybeCommit i t l = Some (l', b) \<Longrightarrow> rl_committed l \<le> rl_committed l' \<and> rl_applied l' = rl_applied l"
  by (auto simp: rl_maybeCommit_def panic_simps split: if_splits dest!: rl_commitTo_pointers)

lemma rl_append_pointers:
  "rl_append es l = Some (l', i) \<Longrightarrow> rl_committed l' = rl_committed l \<and> rl_applied l' = rl_applied l"
  by (auto simp: rl_append_def panic_simps Let_def split: if_splits)

lemma rl_maybeAppend_pointers:
  assumes "rl_maybeAppend i t c es l = Some (l', n, b)"
  shows "rl_committed l \<le> rl_committed l' \<and> rl_applied l' = rl_applied l"
  using assms
  by (auto simp: rl_maybeAppend_def panic_simps Let_def split: if_splits
      dest!: rl_append_pointers rl_commitTo_pointers)

section \<open>Operations that stay within a frame\<close>

text \<open>What a relation may look at.\<close>

definition core :: "raft \<Rightarrow> _" where
  "core r = (role r, r_raftLog r, r_msgs r)"

locale frame =
  fixes Q :: "raft \<Rightarrow> raft \<Rightarrow> bool"
  assumes frame_refl [simp, intro!]: "Q r r"
    and frame_trans: "Q r r' \<Longrightarrow> Q r' r'' \<Longrightarrow> Q r r''"
    and frame_cong: "core x = core r \<Longrightarrow> core y = core r' \<Longrightarrow> Q x y = Q r r'"
    and frame_send: "send m r = Some r' \<Longrightarrow> m_Type m \<noteq> MsgVoteResp \<Longrightarrow> Q r r'"
    and frame_commitTo: "rl_commitTo c (r_raftLog r) = Some l \<Longrightarrow> Q r (r\<lparr>r_raftLog := l\<rparr>)"
begin

text \<open>Writes to fields that \<open>quiet\<close> does not mention.\<close>

lemma frame_updates [simp]:
  "Q r (set_pr v pr r') = Q r r'" "Q (set_pr v pr r) r' = Q r r'"
  "Q r (r'\<lparr>r_readOnly := ro\<rparr>) = Q r r'" "Q (r\<lparr>r_readOnly := ro\<rparr>) r' = Q r r'"
  "Q r (r'\<lparr>r_readStates := s\<rparr>) = Q r r'" "Q (r\<lparr>r_readStates := s\<rparr>) r' = Q r r'"
  "Q r (r'\<lparr>r_uncommittedSize := u\<rparr>) = Q r r'" "Q (r\<lparr>r_uncommittedSize := u\<rparr>) r' = Q r r'"
  "Q r (r'\<lparr>r_pendingConfIndex := c\<rparr>) = Q r r'" "Q (r\<lparr>r_pendingConfIndex := c\<rparr>) r' = Q r r'"
  "Q r (r'\<lparr>r_leadTransferee := c\<rparr>) = Q r r'" "Q (r\<lparr>r_leadTransferee := c\<rparr>) r' = Q r r'"
  "Q r (r'\<lparr>r_electionElapsed := e\<rparr>) = Q r r'" "Q (r\<lparr>r_electionElapsed := e\<rparr>) r' = Q r r'"
  "Q r (r'\<lparr>r_heartbeatElapsed := e\<rparr>) = Q r r'" "Q (r\<lparr>r_heartbeatElapsed := e\<rparr>) r' = Q r r'"
  "Q r (r'\<lparr>r_isLearner := b\<rparr>) = Q r r'" "Q (r\<lparr>r_isLearner := b\<rparr>) r' = Q r r'"
  "Q r (r'\<lparr>r_pendingReadIndexMessages := pm\<rparr>) = Q r r'"
  "Q (r\<lparr>r_pendingReadIndexMessages := pm\<rparr>) r' = Q r r'"
  by (rule frame_cong; simp add: core_def role_def set_pr_def)+

lemma sendSnapshot_frame: "sendSnapshot to pr r = Some (r', b) \<Longrightarrow> Q r r'"
  by (auto simp: sendSnapshot_def panic_simps ret_simps Let_def dest!: frame_send)

lemma maybeSendAppend_frame [quiet_intros]: "maybeSendAppend to b r = Some (r', s) \<Longrightarrow> Q r r'"
  by (auto simp: maybeSendAppend_def panic_simps ret_simps Let_def dest!: frame_send sendSnapshot_frame)

lemma sendAppend_frame [quiet_intros]: "sendAppend to r = Some r' \<Longrightarrow> Q r r'"
  by (auto simp: sendAppend_def dest!: maybeSendAppend_frame)

lemma sendHeartbeat_frame [quiet_intros]: "sendHeartbeat to ctx r = Some r' \<Longrightarrow> Q r r'"
  by (auto simp: sendHeartbeat_def panic_simps Let_def dest!: frame_send)

lemma sendTimeoutNow_frame [quiet_intros]: "sendTimeoutNow to r = Some r' \<Longrightarrow> Q r r'"
  by (auto simp: sendTimeoutNow_def dest!: frame_send)

lemma visit_list_frame:
  assumes "\<And>v r r'. f v r = Some r' \<Longrightarrow> Q r r'" "visit_list f vs r = Some r'"
  shows "Q r r'"
  using assms(2)
proof (induction vs arbitrary: r)
  case (Cons v vs)
  then show ?case by (auto simp: panic_simps intro: frame_trans dest: assms(1))
qed simp

lemma visit_frame:
  assumes "\<And>v r r'. f v r = Some r' \<Longrightarrow> Q r r'" "visit f r = Some r'"
  shows "Q r r'"
  using visit_list_frame [OF assms(1)] assms(2) by (simp add: visit_def)

lemma fold_raft_frame:
  assumes "\<And>x r r'. f x r = Some r' \<Longrightarrow> Q r r'" "fold_raft f xs r = Some r'"
  shows "Q r r'"
  using assms(2)
proof (induction xs arbitrary: r)
  case (Cons x xs)
  then show ?case by (auto simp: panic_simps intro: frame_trans dest: assms(1))
qed simp

lemma bcastAppend_frame [quiet_intros]: "bcastAppend r = Some r' \<Longrightarrow> Q r r'"
  unfolding bcastAppend_def by (erule visit_frame [rotated]) (auto split: if_splits dest: sendAppend_frame)

lemma bcastHeartbeatWithCtx_frame [quiet_intros]: "bcastHeartbeatWithCtx ctx r = Some r' \<Longrightarrow> Q r r'"
  unfolding bcastHeartbeatWithCtx_def by (erule visit_frame [rotated]) (auto split: if_splits dest: sendHeartbeat_frame)

lemma bcastHeartbeat_frame [quiet_intros]: "bcastHeartbeat r = Some r' \<Longrightarrow> Q r r'"
  by (auto simp: bcastHeartbeat_def Let_def split: if_splits dest: bcastHeartbeatWithCtx_frame)

text \<open>Committing and reading.\<close>

lemma maybeCommit_frame [quiet_intros]:
  assumes "maybeCommit r = Some (r', b)"
  shows "Q r r'"
proof -
  obtain i t l where "rl_maybeCommit i t (r_raftLog r) = Some (l, b)" "r' = r\<lparr>r_raftLog := l\<rparr>"
    using assms by (auto simp: maybeCommit_def panic_simps)
  then show ?thesis
    by (auto simp: rl_maybeCommit_def panic_simps split: if_splits intro: frame_commitTo)
qed

lemma increaseUncommittedSize_frame: "increaseUncommittedSize es r = (r', b) \<Longrightarrow> Q r r' \<and> r_raftLog r' = r_raftLog r"
  by (auto simp: increaseUncommittedSize_def Let_def split: if_splits)

lemma reduceUncommittedSize_frame [simp]: "Q r (reduceUncommittedSize es r)"
  by (simp add: reduceUncommittedSize_def Let_def)

lemma respond_read_frame [quiet_intros]: "respond_read m i r = Some r' \<Longrightarrow> Q r r'"
  by (auto simp: respond_read_def responseToReadIndexReq_def panic_simps split: if_splits dest!: frame_send)

lemma sendMsgReadIndexResponse_frame [quiet_intros]: "sendMsgReadIndexResponse m r = Some r' \<Longrightarrow> Q r r'"
  by (cases "ro_option (r_readOnly r)") (auto simp: sendMsgReadIndexResponse_def panic_simps ret_simps
      dest!: bcastHeartbeatWithCtx_frame respond_read_frame)

lemma releasePendingReadIndexMessages_frame [quiet_intros]:
  assumes "releasePendingReadIndexMessages r = Some r'"
  shows "Q r r'"
proof -
  have "Q x y" if "fold_raft sendMsgReadIndexResponse ms x = Some y" for ms x y
    using fold_raft_frame [OF sendMsgReadIndexResponse_frame that] by simp
  then show ?thesis
    using assms by (fastforce simp: releasePendingReadIndexMessages_def panic_simps Let_def split: if_splits)
qed

text \<open>Handlers of the leader.\<close>

lemma send_all_frame [quiet_intros]: "send_all to r = Some r' \<Longrightarrow> Q r r'"
proof (rule send_all.raw_induct [of "\<lambda>to r r'. Q r r'"])
  fix send_all' :: "u64 \<Rightarrow> raft \<Rightarrow> raft option" and to r r'
  assume IH: "\<And>to r r'. send_all' to r = Some r' \<Longrightarrow> Q r r'"
    and "maybeSendAppend to False r \<bind> (\<lambda>(r', sent). if sent then send_all' to r' else Some r') = Some r'"
  then obtain r1 sent where m: "maybeSendAppend to False r = Some (r1, sent)"
      "if sent then send_all' to r1 = Some r' else r' = r1"
    by (auto simp: panic_simps ret_simps)
  have "Q r r1" using maybeSendAppend_frame [OF m(1)] .
  then show "Q r r'" using m(2) IH by (auto split: if_splits intro: frame_trans)
qed

lemma check_proposals_frame:
  "check_proposals i es r = Some (r', es') \<Longrightarrow> Q r r' \<and> r_raftLog r' = r_raftLog r"
proof (induction es arbitrary: i r es')
  case (Cons e es)
  then show ?case by (fastforce simp: panic_simps ret_simps)
qed simp

lemma stepLeader_ReadIndex_frame [quiet_intros]: "stepLeader_ReadIndex m r = Some r' \<Longrightarrow> Q r r'"
  by (auto simp: stepLeader_ReadIndex_def panic_simps ret_simps
      dest!: respond_read_frame sendMsgReadIndexResponse_frame)

lemma stepLeader_AppResp_frame [quiet_intros]:
  assumes "stepLeader_AppResp m pr r = Some r'"
  shows "Q r r'"
proof (cases "m_Reject m")
  case True
  then show ?thesis
    using assms by (auto simp: stepLeader_AppResp_def stepLeader_AppResp_reject_def panic_simps ret_simps Let_def
        dest!: sendAppend_frame)
next
  case False
  then show ?thesis
    using assms
    by (auto simp: stepLeader_AppResp_def stepLeader_AppResp_accept_def panic_simps ret_simps Let_def
        dest!: maybeCommit_frame releasePendingReadIndexMessages_frame bcastAppend_frame sendAppend_frame
          send_all_frame sendTimeoutNow_frame) (meson frame_trans)+
qed

lemma stepLeader_HeartbeatResp_frame [quiet_intros]:
  assumes "stepLeader_HeartbeatResp m pr r = Some r'"
  shows "Q r r'"
proof -
  have f: "Q x y" if "fold_raft (\<lambda>rs. respond_read (ris_req rs) (ris_index rs)) rss x = Some y" for rss x y
    using fold_raft_frame [OF respond_read_frame that] by simp
  show ?thesis
    using assms by (auto simp: stepLeader_HeartbeatResp_def panic_simps ret_simps Let_def
        dest!: sendAppend_frame f intro: frame_trans)
qed

lemma stepLeader_SnapStatus_frame [simp]: "Q r (stepLeader_SnapStatus m pr r)"
  by (simp add: stepLeader_SnapStatus_def Let_def)

lemma stepLeader_Unreachable_frame [simp]: "Q r (stepLeader_Unreachable m pr r)"
  by (simp add: stepLeader_Unreachable_def)

lemma stepLeader_TransferLeader_frame [quiet_intros]:
  "stepLeader_TransferLeader m pr r = Some r' \<Longrightarrow> Q r r'"
  by (cases "r_leadTransferee r = None_id")
     (auto simp: stepLeader_TransferLeader_def abortLeaderTransfer_def panic_simps ret_simps Let_def
      dest!: sendTimeoutNow_frame sendAppend_frame)

lemma handleHeartbeat_frame [quiet_intros]:
  assumes "handleHeartbeat m r = Some r'"
  shows "Q r r'"
proof -
  obtain l where l: "rl_commitTo (m_Commit m) (r_raftLog r) = Some l" and "Q (r\<lparr>r_raftLog := l\<rparr>) r'"
    using assms by (auto simp: handleHeartbeat_def panic_simps dest!: frame_send)
  then show ?thesis using frame_commitTo [OF l] by (blast intro: frame_trans)
qed

end

section \<open>The frame of quiet operations\<close>

interpretation quiet: frame quiet
proof
  fix x y r r' :: raft assume "core x = core r" "core y = core r'"
  then show "quiet x y = quiet r r'" by (simp add: core_def quiet_def role_def sends_def)
next
  fix m and r r' :: raft assume "send m r = Some r'" "m_Type m \<noteq> MsgVoteResp"
  then show "quiet r r'"
    by (auto simp: send_def Let_def quiet_def role_def sends_def plain_msg_def termed_def is_vote_msg_def
        split: if_splits)
next
  fix c l and r :: raft assume "rl_commitTo c (r_raftLog r) = Some l"
  then show "quiet r (r\<lparr>r_raftLog := l\<rparr>)" by (intro quiet_log) (auto dest: rl_commitTo_pointers)
qed (auto simp: quiet_def role_def sends_same intro: sends_trans)

lemmas quiet_trans = quiet.frame_trans
lemmas send_quiet = quiet.frame_send
lemmas handleHeartbeat_quiet = quiet.handleHeartbeat_frame
lemmas bcastAppend_quiet = quiet.bcastAppend_frame
lemmas bcastHeartbeatWithCtx_quiet = quiet.bcastHeartbeatWithCtx_frame
lemmas bcastHeartbeat_quiet = quiet.bcastHeartbeat_frame
lemmas check_proposals_quiet = quiet.check_proposals_frame
lemmas fold_raft_quiet = quiet.fold_raft_frame
lemmas increaseUncommittedSize_quiet = quiet.increaseUncommittedSize_frame
lemmas maybeCommit_quiet = quiet.maybeCommit_frame
lemmas maybeSendAppend_quiet = quiet.maybeSendAppend_frame
lemmas reduceUncommittedSize_quiet = quiet.reduceUncommittedSize_frame
lemmas releasePendingReadIndexMessages_quiet = quiet.releasePendingReadIndexMessages_frame
lemmas respond_read_quiet = quiet.respond_read_frame
lemmas sendAppend_quiet = quiet.sendAppend_frame
lemmas sendHeartbeat_quiet = quiet.sendHeartbeat_frame
lemmas sendMsgReadIndexResponse_quiet = quiet.sendMsgReadIndexResponse_frame
lemmas sendSnapshot_quiet = quiet.sendSnapshot_frame
lemmas sendTimeoutNow_quiet = quiet.sendTimeoutNow_frame
lemmas send_all_quiet = quiet.send_all_frame
lemmas stepLeader_AppResp_quiet = quiet.stepLeader_AppResp_frame
lemmas stepLeader_HeartbeatResp_quiet = quiet.stepLeader_HeartbeatResp_frame
lemmas stepLeader_ReadIndex_quiet = quiet.stepLeader_ReadIndex_frame
lemmas stepLeader_SnapStatus_quiet = quiet.stepLeader_SnapStatus_frame
lemmas stepLeader_TransferLeader_quiet = quiet.stepLeader_TransferLeader_frame
lemmas stepLeader_Unreachable_quiet = quiet.stepLeader_Unreachable_frame
lemmas visit_list_quiet = quiet.visit_list_frame
lemmas visit_quiet = quiet.visit_frame

section \<open>Appending\<close>

lemma appendEntry_quiet [quiet_intros]:
  assumes "appendEntry es r = Some (r', b)"
  shows "quiet r r'"
proof -
  obtain li where li: "rl_lastIndex (r_raftLog r) = Some li"
    using assms by (auto simp: appendEntry_def panic_simps)
  obtain r1 ok where i: "increaseUncommittedSize (stamp_entries (r_Term r) li es) r = (r1, ok)" by fastforce
  have q1: "quiet r r1" "r_raftLog r1 = r_raftLog r" using increaseUncommittedSize_quiet [OF i] by simp_all
  show ?thesis
  proof (cases ok)
    case False
    then show ?thesis using assms li i q1 by (simp add: appendEntry_def)
  next
    case True
    then obtain l n pr where l: "rl_append (stamp_entries (r_Term r) li es) (r_raftLog r1) = Some (l, n)"
        "maybeCommit (set_pr (r_id r1) (fst (MaybeUpdate n pr)) (r1\<lparr>r_raftLog := l\<rparr>)) = Some (r', True) \<or>
         (\<exists>c. maybeCommit (set_pr (r_id r1) (fst (MaybeUpdate n pr)) (r1\<lparr>r_raftLog := l\<rparr>)) = Some (r', c))"
      using assms li i by (fastforce simp: appendEntry_def panic_simps Let_def)
    have "quiet r1 (r1\<lparr>r_raftLog := l\<rparr>)"
      using rl_append_pointers [OF l(1)] by (intro quiet_log) simp_all
    moreover have "quiet (r1\<lparr>r_raftLog := l\<rparr>) r'" using l(2) by (auto dest!: maybeCommit_quiet)
    ultimately show ?thesis using q1(1) by (blast intro: quiet_trans)
  qed
qed

lemma stepLeader_Prop_quiet: "stepLeader_Prop m r = Some (r', e) \<Longrightarrow> quiet r r'"
  by (auto simp: stepLeader_Prop_def panic_simps ret_simps
      dest!: check_proposals_quiet appendEntry_quiet bcastAppend_quiet intro: quiet_trans)

lemma stepLeader_quiet:
  assumes "stepLeader m r = Some (r', e)" "m_Type m \<noteq> MsgCheckQuorum"
  shows "quiet r r'"
  using assms
  by (cases "m_Type m") (auto simp: stepLeader_def no_err_def ret_simps
      dest!: stepLeader_Prop_quiet intro: quiet_intros)

section \<open>Handlers of the others\<close>

lemma handleAppendEntries_quiet [quiet_intros]:
  assumes "handleAppendEntries m r = Some r'"
  shows "quiet r r'"
proof (cases "m_Index m < rl_committed (r_raftLog r)")
  case True
  then show ?thesis using assms by (auto simp: handleAppendEntries_def dest!: send_quiet)
next
  case False
  then obtain l n ok where l: "rl_maybeAppend (m_Index m) (m_LogTerm m) (m_Commit m) (m_Entries m) (r_raftLog r) =
      Some (l, n, ok)" and "quiet (r\<lparr>r_raftLog := l\<rparr>) r'"
    using assms by (auto simp: handleAppendEntries_def panic_simps ret_simps Let_def dest!: send_quiet)
  moreover have "quiet r (r\<lparr>r_raftLog := l\<rparr>)" using rl_maybeAppend_pointers [OF l] by (intro quiet_log) simp_all
  ultimately show ?thesis by (blast intro: quiet_trans)
qed

end
