(* ===== verification/Raft_Safety.thy ===== *)
theory Raft_Safety
  imports Raft_Quiet
begin

text \<open>
  How handling a message moves the term, the vote and the role of a node. \<open>evolves\<close> is the
  transition relation that every handler satisfies: terms never fall, a vote once cast stays for the
  term, a node becomes leader only by winning an election of its term with votes it collected.
\<close>

section \<open>Roles\<close>

definition timeouts_ok :: "raft \<Rightarrow> bool" where
  "timeouts_ok r \<longleftrightarrow> r_electionTimeout r \<le> r_randomizedElectionTimeout r \<and>
     r_randomizedElectionTimeout r < 2 * r_electionTimeout r"

text \<open>What the fields that depend on the role have to be.\<close>

definition role_ok :: "raft \<Rightarrow> bool" where
  "role_ok r \<longleftrightarrow>
     (case r_state r of
        StateFollower \<Rightarrow> r_step r = stepFollower_fn \<and> r_tick r = tickElection_fn
      | StatePreCandidate \<Rightarrow> r_step r = stepCandidate_fn \<and> r_tick r = tickElection_fn \<and> r_lead r = None_id
      | StateCandidate \<Rightarrow>
          r_step r = stepCandidate_fn \<and> r_tick r = tickElection_fn \<and> r_lead r = None_id \<and> r_Vote r = r_id r \<and>
          r_Term r \<noteq> 0
      | StateLeader \<Rightarrow>
          r_step r = stepLeader_fn \<and> r_tick r = tickHeartbeat_fn \<and> r_lead r = r_id r \<and> r_Vote r = r_id r \<and>
          r_Term r \<noteq> 0) \<and>
     timeouts_ok r \<and> r_id r \<noteq> None_id"

definition granted :: "Message \<Rightarrow> bool" where
  "granted m \<longleftrightarrow> m_Type m = MsgVoteResp \<and> \<not> m_Reject m"

text \<open>Where a vote counted by the node after handling \<open>m\<close> can come from.\<close>

definition supports :: "Message \<Rightarrow> raft \<Rightarrow> raft \<Rightarrow> u64 \<Rightarrow> bool" where
  "supports m r r' v \<longleftrightarrow>
     v = r_id r \<or>
     (r_state r = StateCandidate \<and> r_Term r' = r_Term r \<and> votes r v = Some True) \<or>
     (granted m \<and> m_From m = v \<and> m_Term m = r_Term r')"

definition vote_kept :: "raft \<Rightarrow> raft \<Rightarrow> bool" where
  "vote_kept r r' \<longleftrightarrow>
     r_id r' = r_id r \<and> r_Term r \<le> r_Term r' \<and>
     (r_Term r' = r_Term r \<longrightarrow> r_Vote r = None_id \<or> r_Vote r' = r_Vote r)"

definition pointers_kept :: "raft \<Rightarrow> raft \<Rightarrow> bool" where
  "pointers_kept r r' \<longleftrightarrow>
     rl_committed (r_raftLog r) \<le> rl_committed (r_raftLog r') \<and>
     rl_applied (r_raftLog r') = rl_applied (r_raftLog r)"

definition elected :: "Message \<Rightarrow> raft \<Rightarrow> raft \<Rightarrow> bool" where
  "elected m r r' \<longleftrightarrow>
     (\<exists>vs. joint_VoteResult (voters r') vs = VoteWon \<and> (\<forall>v. vs v = Some True \<longrightarrow> supports m r r' v))"

definition role_moves :: "Message \<Rightarrow> raft \<Rightarrow> raft \<Rightarrow> bool" where
  "role_moves m r r' \<longleftrightarrow>
     (r_state r' = StateCandidate \<longrightarrow> (\<forall>v. votes r' v = Some True \<longrightarrow> supports m r r' v)) \<and>
     (r_state r' = StateLeader \<longrightarrow>
        r_state r = StateLeader \<and> r_Term r' = r_Term r \<and> voters r' = voters r \<or> elected m r r')"

definition evolves :: "Message \<Rightarrow> raft \<Rightarrow> raft \<Rightarrow> bool" where
  "evolves m r r' \<longleftrightarrow>
     vote_kept r r' \<and> pointers_kept r r' \<and> (role_ok r \<longrightarrow> role_ok r') \<and> role_moves m r r' \<and>
     sends (plain_msg (role_ok r)) r r'"

lemmas evolves_defs = evolves_def vote_kept_def pointers_kept_def role_moves_def

lemma supports_same: "r_id r' = r_id r \<Longrightarrow> r_state r = StateCandidate \<Longrightarrow> r_Term r' = r_Term r \<Longrightarrow>
  votes r v = Some True \<Longrightarrow> supports m r r' v"
  by (simp add: supports_def)

lemma role_ok_cong: "role r' = role r \<Longrightarrow> role_ok r \<Longrightarrow> role_ok r'"
  by (simp add: role_def role_ok_def timeouts_ok_def split: StateType.splits)

lemma role_ok_prs [simp]: "role_ok (r\<lparr>r_prs := p\<rparr>) \<longleftrightarrow> role_ok r"
  by (simp add: role_ok_def timeouts_ok_def split: StateType.splits)

lemma quiet_evolves:
  assumes "quiet r r'" "role_ok r \<Longrightarrow> r_Term r \<noteq> 0"
  shows "evolves m r r'"
proof -
  have "role r' = role r" using assms(1) by (simp add: quiet_def)
  moreover from this have "vote_kept r r'" "role_moves m r r'"
    by (auto simp: role_def vote_kept_def role_moves_def supports_def)
  moreover have "sends (plain_msg (role_ok r)) r r'"
    using assms by (auto simp: quiet_def plain_msg_def elim!: sends_mono)
  ultimately show ?thesis
    using assms(1) role_ok_cong [of r' r] by (simp add: evolves_def pointers_kept_def quiet_def)
qed

lemma leader_term: "role_ok r \<Longrightarrow> r_state r = StateLeader \<or> r_state r = StateCandidate \<Longrightarrow> r_Term r \<noteq> 0"
  by (auto simp: role_ok_def)

text \<open>Operations that send nothing, or a message a follower may send, are harmless at any term.\<close>

lemma silent_evolves:
  assumes "quiet r r'" "r_msgs r' = r_msgs r"
  shows "evolves m r r'"
proof -
  have "role r' = role r" using assms(1) by (simp add: quiet_def)
  moreover from this have "vote_kept r r'" "role_moves m r r'"
    by (auto simp: role_def vote_kept_def role_moves_def supports_def)
  ultimately show ?thesis
    using assms role_ok_cong [of r' r] by (simp add: evolves_def pointers_kept_def quiet_def sends_same)
qed

lemma send_evolves:
  assumes "send x r = Some r'" "m_Type x \<notin> {MsgVoteResp, MsgApp, MsgHeartbeat, MsgSnap}"
  shows "evolves m r r'"
proof -
  have q: "quiet r r'" using assms by (auto intro: send_quiet)
  obtain y where y: "r_msgs r' = r_msgs r @ [y]" "m_Type y = m_Type x"
    using assms(1) by (auto simp: send_def Let_def split: if_splits)
  let ?r = "r'\<lparr>r_msgs := r_msgs r\<rparr>"
  have "sends (plain_msg (role_ok r)) r r'"
    using y assms(2) by (auto simp: sends_def plain_msg_def termed_def)
  moreover have "evolves m r ?r" using q by (intro silent_evolves) (simp_all add: quiet_def role_def sends_same)
  moreover have "role_ok ?r \<longleftrightarrow> role_ok r'"
    by (simp add: role_ok_def timeouts_ok_def split: StateType.splits)
  ultimately show ?thesis
    by (auto simp: evolves_def vote_kept_def pointers_kept_def role_moves_def elected_def supports_def)
qed

lemma evolves_refl [simp]: "evolves m r r"
  by (simp add: silent_evolves)

lemma supports_trans:
  assumes "supports m r1 r2 v" "role_moves m r r1" "vote_kept r r1"
  shows "supports m r r2 v"
proof -
  have i: "r_id r1 = r_id r" using assms(3) by (simp add: vote_kept_def)
  consider "v = r_id r1" | "r_state r1 = StateCandidate" "r_Term r2 = r_Term r1" "votes r1 v = Some True"
    | "granted m" "m_From m = v" "m_Term m = r_Term r2"
    using assms(1) unfolding supports_def by blast
  then show ?thesis
  proof cases
    case 2
    then have "supports m r r1 v" using assms(2) by (simp add: role_moves_def)
    then show ?thesis using 2(2) by (simp add: supports_def)
  qed (simp_all add: supports_def i)
qed

lemma vote_kept_trans: "vote_kept r r1 \<Longrightarrow> vote_kept r1 r2 \<Longrightarrow> vote_kept r r2"
  unfolding vote_kept_def by (metis antisym order_trans)

lemma pointers_kept_trans: "pointers_kept r r1 \<Longrightarrow> pointers_kept r1 r2 \<Longrightarrow> pointers_kept r r2"
  unfolding pointers_kept_def by (metis order_trans)

lemma evolves_sends_trans:
  assumes "evolves m r r1" "evolves m r1 r2"
  shows "sends (plain_msg (role_ok r)) r r2"
proof -
  have "sends (plain_msg (role_ok r)) r1 r2"
    using assms by (auto simp: evolves_def plain_msg_def elim!: sends_mono)
  then show ?thesis using assms(1) by (auto simp: evolves_def intro: sends_trans)
qed

lemma evolves_trans:
  assumes "evolves m r r1" "evolves m r1 r2"
  shows "evolves m r r2"
proof -
  have k: "vote_kept r r1" "vote_kept r1 r2" "role_moves m r r1" "role_moves m r1 r2"
    using assms by (simp_all add: evolves_def)
  have s: "supports m r1 r2 v \<Longrightarrow> supports m r r2 v" for v using supports_trans k by blast
  have "role_moves m r r2"
  proof (cases "r_state r2")
    case StateLeader
    then consider "r_state r1 = StateLeader" "r_Term r2 = r_Term r1" "voters r2 = voters r1" | "elected m r1 r2"
      using k(4) by (auto simp: role_moves_def)
    then show ?thesis
    proof cases
      case 1
      then consider "r_state r = StateLeader" "r_Term r1 = r_Term r" "voters r1 = voters r" | "elected m r r1"
        using k(3) by (auto simp: role_moves_def)
      then show ?thesis using StateLeader 1 by cases (simp_all add: role_moves_def elected_def supports_def)
    next
      case 2
      then show ?thesis using StateLeader s by (auto simp: elected_def role_moves_def)
    qed
  next
    case StateCandidate
    then show ?thesis using k(4) s by (auto simp: role_moves_def)
  qed (simp_all add: role_moves_def)
  then show ?thesis
    using assms vote_kept_trans [OF k(1,2)] evolves_sends_trans [OF assms] pointers_kept_trans [of r r1 r2]
    by (simp add: evolves_def)
qed

section \<open>Changing the role\<close>

text \<open>The loops over the peers write nothing but progresses.\<close>

definition progress_only :: "raft \<Rightarrow> raft \<Rightarrow> bool" where
  "progress_only r r' \<longleftrightarrow> (\<exists>ps. r' = r\<lparr>r_prs := (r_prs r)\<lparr>pt_Progress := ps\<rparr>\<rparr>)"

lemma progress_only_trans: "progress_only r r1 \<Longrightarrow> progress_only r1 r2 \<Longrightarrow> progress_only r r2"
  by (auto simp: progress_only_def)

lemma progress_only_set_pr [simp]: "progress_only r (set_pr v pr r)"
  by (auto simp: progress_only_def set_pr_def)

lemma progress_only_refl [simp]: "progress_only r r"
  by (auto simp: progress_only_def intro!: exI [of _ "pt_Progress (r_prs r)"])

lemma visit_progress_only:
  assumes "\<And>v r r'. f v r = Some r' \<Longrightarrow> progress_only r r'" "visit f r = Some r'"
  shows "progress_only r r'"
proof -
  have "visit_list f vs x = Some y \<Longrightarrow> progress_only x y" for vs x y
    by (induction vs arbitrary: x) (auto simp: panic_simps intro: progress_only_trans dest: assms(1))
  then show ?thesis using assms(2) by (simp add: visit_def)
qed

lemma progress_only_quiet: "progress_only r r' \<Longrightarrow> quiet r r'"
  by (auto simp: progress_only_def quiet_def role_def sends_def)

lemma reset_progress_only: "reset_progress v r = Some r' \<Longrightarrow> progress_only r r'"
  by (auto simp: reset_progress_def panic_simps)

definition reset_to :: "u64 \<Rightarrow> raft \<Rightarrow> raft \<Rightarrow> bool" where
  "reset_to trm r r' \<longleftrightarrow>
     r_id r' = r_id r \<and> r_Term r' = trm \<and> r_Vote r' = (if r_Term r = trm then r_Vote r else None_id) \<and>
     r_msgs r' = r_msgs r \<and> r_raftLog r' = r_raftLog r \<and> r_step r' = r_step r \<and> r_state r' = r_state r \<and>
     r_tick r' = r_tick r \<and> r_lead r' = None_id \<and> voters r' = voters r \<and>
     pt_Votes (r_prs r') = Mapping.empty \<and> timeouts_ok r'"

lemma reset_facts:
  assumes "reset trm r = Some r'"
  shows "reset_to trm r r'"
proof -
  define r0 where "r0 = (if r_Term r \<noteq> trm then r\<lparr>r_Term := trm, r_Vote := None_id\<rparr> else r)"
  obtain r1 r2 where
      r1: "resetRandomizedElectionTimeout (r0\<lparr>r_lead := None_id, r_electionElapsed := 0, r_heartbeatElapsed := 0\<rparr>) = Some r1"
    and r2: "visit reset_progress ((abortLeaderTransfer r1)\<lparr>r_prs := ResetVotes (r_prs (abortLeaderTransfer r1))\<rparr>) = Some r2"
    and r': "r' = r2\<lparr>r_pendingConfIndex := 0, r_uncommittedSize := 0, r_readOnly := newReadOnly (ro_option (r_readOnly r2))\<rparr>"
    using assms by (auto simp: reset_def r0_def panic_simps Let_def)
  obtain ps where ps: "r2 = (abortLeaderTransfer r1)\<lparr>r_prs := (ResetVotes (r_prs (abortLeaderTransfer r1)))\<lparr>pt_Progress := ps\<rparr>\<rparr>"
    using visit_progress_only [of reset_progress, OF _ r2] reset_progress_only by (auto simp: progress_only_def)
  have "timeouts_ok r1" using r1
    by (auto simp: resetRandomizedElectionTimeout_def timeouts_ok_def split: if_splits)
  then show ?thesis using r1
    by (auto simp: reset_to_def r' ps abortLeaderTransfer_def resetRandomizedElectionTimeout_def r0_def
        timeouts_ok_def split: if_splits)
qed

lemma becomeFollower_evolves:
  assumes "becomeFollower trm lead r = Some r'" "r_Term r \<le> trm"
  shows "evolves m r r' \<and> r_state r' = StateFollower \<and> (r_id r \<noteq> None_id \<longrightarrow> role_ok r') \<and> r_Term r' = trm \<and> r_raftLog r' = r_raftLog r \<and>
    r_lead r' = lead \<and> r_Vote r' = (if r_Term r = trm then r_Vote r else None_id) \<and> r_msgs r' = r_msgs r \<and> voters r' = voters r"
proof -
  obtain r1 where "reset trm (r\<lparr>r_step := stepFollower_fn\<rparr>) = Some r1"
    and r': "r' = r1\<lparr>r_tick := tickElection_fn, r_lead := lead, r_state := StateFollower\<rparr>"
    using assms(1) by (auto simp: becomeFollower_def panic_simps)
  then have f: "reset_to trm (r\<lparr>r_step := stepFollower_fn\<rparr>) r1" by (simp add: reset_facts)
  then have "r_id r \<noteq> None_id \<Longrightarrow> role_ok r'" by (simp add: role_ok_def r' reset_to_def timeouts_ok_def)
  moreover have "role_ok r \<Longrightarrow> r_id r \<noteq> None_id" by (simp add: role_ok_def)
  moreover have "vote_kept r r'" using f assms(2) by (auto simp: r' reset_to_def vote_kept_def)
  ultimately show ?thesis
    using f by (auto simp: evolves_def r' reset_to_def pointers_kept_def role_moves_def sends_def)
qed

lemma becomePreCandidate_evolves:
  assumes "becomePreCandidate r = Some r'"
  shows "evolves m r r' \<and> r_state r' = StatePreCandidate \<and> r_Term r' = r_Term r"
  using assms
  by (auto simp: becomePreCandidate_def evolves_defs role_ok_def timeouts_ok_def sends_def
      split: if_splits StateType.splits)

lemma u64_less_Suc: "(x::u64) < MaxUint64 \<Longrightarrow> x < x + 1"
proof -
  assume "x < MaxUint64"
  moreover have "unat MaxUint64 = 2 ^ 64 - 1" by (simp add: unsigned_minus_1_eq_mask mask_eq_exp_minus_1)
  ultimately have "unat x + 1 < 2 ^ 64" by (simp add: word_less_nat_alt)
  then show ?thesis by (simp add: word_less_nat_alt unat_Suc_u64)
qed

lemma becomeCandidate_facts:
  assumes "becomeCandidate r = Some r'" "r_Term r < MaxUint64"
  shows "evolves m r r' \<and> r_state r' = StateCandidate \<and> (r_id r \<noteq> None_id \<longrightarrow> role_ok r') \<and> r_Term r' = r_Term r + 1 \<and>
    r_id r' = r_id r \<and> pt_Votes (r_prs r') = Mapping.empty \<and> voters r' = voters r"
proof -
  obtain r1 where "reset (r_Term r + 1) (r\<lparr>r_step := stepCandidate_fn\<rparr>) = Some r1"
    and r': "r' = r1\<lparr>r_tick := tickElection_fn, r_Vote := r_id r1, r_state := StateCandidate\<rparr>"
    using assms(1) by (auto simp: becomeCandidate_def panic_simps split: if_splits)
  then have f: "reset_to (r_Term r + 1) (r\<lparr>r_step := stepCandidate_fn\<rparr>) r1" by (simp add: reset_facts)
  have lt: "r_Term r < r_Term r + 1" using assms(2) by (rule u64_less_Suc)
  then have "r_Term r + 1 \<noteq> 0" by auto
  then have "r_id r \<noteq> None_id \<Longrightarrow> role_ok r'" using f by (simp add: role_ok_def r' reset_to_def timeouts_ok_def)
  moreover have "role_ok r \<Longrightarrow> r_id r \<noteq> None_id" by (simp add: role_ok_def)
  moreover have "vote_kept r r'" using f lt by (simp add: r' reset_to_def vote_kept_def)
  ultimately show ?thesis
    using f by (auto simp: evolves_def r' reset_to_def pointers_kept_def role_moves_def sends_def)
qed

lemma poll_facts:
  assumes "poll v b r = (r', g, rj, res)"
  shows "r' = r\<lparr>r_prs := RecordVote v b (r_prs r)\<rparr> \<and> res = joint_VoteResult (voters r') (votes r')"
  using assms by (auto simp: poll_def Let_def TallyVotes_eq)

text \<open>Recording a vote is harmless unless the node is a candidate and the vote is granted.\<close>

lemma record_vote_evolves:
  assumes "r_state r = StateCandidate \<Longrightarrow> b \<Longrightarrow> supports m r r v"
  shows "evolves m r (r\<lparr>r_prs := RecordVote v b (r_prs r)\<rparr>)"
proof -
  let ?r = "r\<lparr>r_prs := RecordVote v b (r_prs r)\<rparr>"
  have "supports m r ?r w" if "r_state r = StateCandidate" "votes ?r w = Some True" for w
    using that assms by (auto simp: supports_def lookup_RecordVote split: option.splits if_splits)
  then show ?thesis
    by (auto simp: evolves_def vote_kept_def pointers_kept_def role_moves_def sends_def)
qed

lemma becomeLeader_evolves:
  assumes "becomeLeader r = Some r'" "r_state r = StateCandidate" "role_ok r"
    "joint_VoteResult (voters r) (votes r) = VoteWon"
  shows "evolves m r r'"
proof -
  obtain r1 pr li r3 where "reset (r_Term r) (r\<lparr>r_step := stepLeader_fn\<rparr>) = Some r1"
    and a: "appendEntry [zero_Entry] ((set_pr (r_id r1) (BecomeReplicate pr)
        (r1\<lparr>r_tick := tickHeartbeat_fn, r_lead := r_id r1, r_state := StateLeader\<rparr>))\<lparr>r_pendingConfIndex := li\<rparr>) =
        Some (r3, True)"
    and r': "r' = reduceUncommittedSize [zero_Entry] r3"
    using assms(1) by (auto simp: becomeLeader_def panic_simps ret_simps Let_def split: if_splits)
  then have f: "reset_to (r_Term r) (r\<lparr>r_step := stepLeader_fn\<rparr>) r1" by (simp add: reset_facts)
  let ?r2 = "r1\<lparr>r_tick := tickHeartbeat_fn, r_lead := r_id r1, r_state := StateLeader\<rparr>"
  have "role_ok ?r2" using f assms(2,3) by (simp add: role_ok_def reset_to_def timeouts_ok_def)
  moreover have "elected m r ?r2"
    unfolding elected_def using f assms(2,4)
    by (intro exI [of _ "votes r"]) (simp add: reset_to_def supports_def)
  ultimately have e: "evolves m r ?r2"
    using f by (simp add: evolves_def reset_to_def vote_kept_def pointers_kept_def role_moves_def sends_def)
  have "quiet ?r2 r3" using appendEntry_quiet [OF a] by simp
  moreover have "quiet r3 r'" by (simp add: r')
  ultimately have "quiet ?r2 r'" by (rule quiet_trans)
  then show ?thesis using leader_term [of ?r2] by (intro evolves_trans [OF e quiet_evolves]) simp_all
qed

lemma visit_list_request_evolves:
  assumes "visit_list (request_vote t ty trm) vs r = Some r'" "ty = MsgVote \<or> ty = MsgPreVote"
  shows "evolves m r r'"
  using assms(1)
proof (induction vs arbitrary: r)
  case (Cons v vs)
  then obtain r1 where r1: "request_vote t ty trm v r = Some r1" "visit_list (request_vote t ty trm) vs r1 = Some r'"
    by (auto simp: panic_simps)
  have "evolves m r r1"
    using r1(1) assms(2) by (auto simp: request_vote_def panic_simps split: if_splits intro: send_evolves)
  then show ?case using Cons.IH [OF r1(2)] by (rule evolves_trans)
qed simp

lemma campaign_election_evolves:
  assumes "campaign t r = Some r'" "t \<noteq> campaignPreElection" "r_Term r < MaxUint64" "r_id r \<noteq> None_id"
  shows "evolves m r r'"
proof -
  obtain r1 where r1: "becomeCandidate r = Some r1"
    using assms(1,2) by (auto simp: campaign.simps [of t r] panic_simps)
  have f: "evolves m r r1" "r_state r1 = StateCandidate" "role_ok r1" "r_id r1 = r_id r"
    using becomeCandidate_facts [OF r1 assms(3)] assms(4) by auto
  obtain r2 g rj res where p: "poll (r_id r1) True r1 = (r2, g, rj, res)" by (cases "poll (r_id r1) True r1") auto
  have r2: "r2 = r1\<lparr>r_prs := RecordVote (r_id r1) True (r_prs r1)\<rparr>" "res = joint_VoteResult (voters r2) (votes r2)"
    using poll_facts [OF p] by auto
  have e2: "evolves m r r2"
    unfolding r2(1) by (rule evolves_trans [OF f(1) record_vote_evolves]) (simp add: supports_def)
  have "evolves m r2 r'"
  proof (cases "res = VoteWon")
    case True
    then have "becomeLeader r2 = Some r'"
      using assms(1,2) r1 p by (simp add: campaign.simps [of t r])
    then show ?thesis
      using f(2,3) r2 True by (intro becomeLeader_evolves) auto
  next
    case False
    then have "visit_list (request_vote t MsgVote (r_Term r1)) (sort (range_ids (joint_IDs (voters r2)))) r2 = Some r'"
      using assms(1,2) r1 p by (simp add: campaign.simps [of t r])
    then show ?thesis by (rule visit_list_request_evolves) simp
  qed
  then show ?thesis by (rule evolves_trans [OF e2])
qed

lemma campaign_evolves:
  assumes "campaign t r = Some r'" "r_Term r < MaxUint64" "r_id r \<noteq> None_id"
  shows "evolves m r r'"
proof (cases "t = campaignPreElection")
  case True
  obtain r1 where r1: "becomePreCandidate r = Some r1"
    using assms(1) True by (auto simp: campaign.simps [of campaignPreElection r] panic_simps)
  have f: "evolves m r r1" "r_state r1 = StatePreCandidate" "r_Term r1 = r_Term r"
    using becomePreCandidate_evolves [OF r1] by auto
  have i: "r_id r1 = r_id r" using f(1) by (simp add: evolves_def vote_kept_def)
  obtain r2 g rj res where p: "poll (r_id r1) True r1 = (r2, g, rj, res)" by (cases "poll (r_id r1) True r1") auto
  have r2: "r2 = r1\<lparr>r_prs := RecordVote (r_id r1) True (r_prs r1)\<rparr>" using poll_facts [OF p] by auto
  have e2: "evolves m r r2"
    unfolding r2(1) by (rule evolves_trans [OF f(1) record_vote_evolves]) (simp add: f(2))
  have "evolves m r2 r'"
  proof (cases "res = VoteWon")
    case True
    then have "campaign campaignElection r2 = Some r'"
      using assms(1) \<open>t = campaignPreElection\<close> r1 p by (simp add: campaign.simps [of campaignPreElection r])
    then show ?thesis using assms(2,3) f(3) i by (intro campaign_election_evolves) (auto simp: r2)
  next
    case False
    then have "visit_list (request_vote t MsgPreVote (r_Term r1 + 1)) (sort (range_ids (joint_IDs (voters r2)))) r2 = Some r'"
      using assms(1) \<open>t = campaignPreElection\<close> r1 p by (simp add: campaign.simps [of campaignPreElection r])
    then show ?thesis by (rule visit_list_request_evolves) simp
  qed
  then show ?thesis by (rule evolves_trans [OF e2])
qed (rule campaign_election_evolves [OF assms(1) _ assms(2,3)])

lemma hup_evolves:
  "hup t r = Some r' \<Longrightarrow> r_Term r < MaxUint64 \<Longrightarrow> r_id r \<noteq> None_id \<Longrightarrow> evolves m r r'"
  by (auto simp: hup_def panic_simps ret_simps intro: campaign_evolves)

section \<open>Handlers\<close>

text \<open>A follower stays one, and keeps its term and vote, when only its log, its peers and its view of
  the leader change.\<close>

lemma follower_evolves:
  assumes "r_state r = StateFollower" "pointers_kept r r'" "r_msgs r' = r_msgs r"
    "r_id r' = r_id r" "r_Term r' = r_Term r" "r_Vote r' = r_Vote r" "r_state r' = StateFollower"
    "r_step r' = r_step r" "r_tick r' = r_tick r" "r_electionTimeout r' = r_electionTimeout r"
    "r_randomizedElectionTimeout r' = r_randomizedElectionTimeout r"
  shows "evolves m r r'"
  using assms
  by (simp add: evolves_def vote_kept_def role_moves_def sends_def role_ok_def timeouts_ok_def)

lemma switchToConfig_idle:
  assumes "switchToConfig cfg prs r = Some (r', cs)" "r_state r \<noteq> StateLeader"
  shows "\<exists>b. r' = r\<lparr>r_prs := (r_prs r)\<lparr>pt_Config := cfg, pt_Progress := prs\<rparr>, r_isLearner := b\<rparr>"
  using assms by (auto simp: switchToConfig_def Let_def)

lemma restore_config_idle:
  assumes "restore_config cs r = Some r'" "r_state r \<noteq> StateLeader"
  shows "\<exists>p b. r' = r\<lparr>r_prs := p, r_isLearner := b\<rparr>"
  using assms by (fastforce simp: restore_config_def panic_simps ret_simps dest!: switchToConfig_idle)

lemma restore_evolves:
  assumes "restore s r = Some (r', ok)" "r_state r = StateFollower"
  shows "evolves m r r' \<and> r_state r' = StateFollower"
proof -
  let ?cs = "sm_ConfState (s_Metadata s)"
  let ?r = "r\<lparr>r_raftLog := rl_restore s (r_raftLog r), r_prs := MakeProgressTracker (pt_MaxInflight (r_prs r))\<rparr>"
  consider "r' = r"
    | l where "rl_commitTo (snap_index s) (r_raftLog r) = Some l" "r' = r\<lparr>r_raftLog := l\<rparr>"
    | r1 pr where "rl_committed (r_raftLog r) < snap_index s" "restore_config ?cs ?r = Some r1"
        "r' = set_pr (r_id r1) pr r1"
    using assms by (auto simp: restore_def panic_simps ret_simps Let_def not_le)
  then show ?thesis
  proof cases
    case 2
    then show ?thesis
      using assms(2) rl_commitTo_pointers [OF 2(1)]
      by (auto intro!: follower_evolves simp: pointers_kept_def)
  next
    case 3
    obtain p b where r1: "r1 = ?r\<lparr>r_prs := p, r_isLearner := b\<rparr>"
      using restore_config_idle [OF 3(2)] assms(2) by auto
    show ?thesis
      using assms(2) 3(1) by (auto intro!: follower_evolves simp: 3(3) r1 set_pr_def pointers_kept_def rl_restore_def)
  qed (use assms(2) in simp)
qed

lemma handleSnapshot_evolves:
  assumes "handleSnapshot m r = Some r'" "r_state r = StateFollower"
  shows "evolves m r r'"
proof -
  obtain r1 ok i where r1: "restore (m_Snapshot m) r = Some (r1, ok)"
      and s: "send ((mk_Message MsgAppResp)\<lparr>m_To := m_From m, m_Index := i\<rparr>) r1 = Some r'"
    using assms(1) by (auto simp: handleSnapshot_def panic_simps ret_simps)
  have "evolves m r r1" using restore_evolves [OF r1 assms(2)] ..
  moreover have "evolves m r1 r'" using s by (rule send_evolves) simp
  ultimately show ?thesis by (rule evolves_trans)
qed

lemma stepLeader_CheckQuorum_evolves:
  assumes "stepLeader_CheckQuorum r = Some r'"
  shows "evolves m r r'"
proof -
  define r1 where "r1 = (case r_pr (r_id r) r of None \<Rightarrow> r
      | Some pr \<Rightarrow> set_pr (r_id r) (pr\<lparr>pr_RecentActive := True\<rparr>) r)"
  let ?f = "\<lambda>v r. if v \<noteq> r_id r
      then do { pr \<leftarrow> r_pr v r; Some (set_pr v (pr\<lparr>pr_RecentActive := False\<rparr>) r) } else Some r"
  obtain r2 where r2: "(if \<not> QuorumActive (r_prs r1) then becomeFollower (r_Term r1) None_id r1 else Some r1) = Some r2"
      and v: "visit ?f r2 = Some r'"
    using assms unfolding stepLeader_CheckQuorum_def Let_def r1_def [symmetric] by (auto simp: panic_simps)
  have "evolves m r r1" by (rule silent_evolves) (simp_all add: r1_def split: option.split)
  moreover have "evolves m r1 r2"
    using r2 becomeFollower_evolves [of "r_Term r1" None_id r1 r2 m] by (auto split: if_splits)
  moreover have "progress_only r2 r'"
    by (rule visit_progress_only [OF _ v]) (auto simp: panic_simps split: if_splits)
  then have "evolves m r2 r'"
    by (intro silent_evolves progress_only_quiet) (auto simp: progress_only_def)
  ultimately show ?thesis by (blast intro: evolves_trans)
qed

lemma stepLeader_evolves:
  assumes "stepLeader m r = Some (r', e)" "r_state r = StateLeader"
  shows "evolves m r r'"
proof (cases "m_Type m = MsgCheckQuorum")
  case True
  then show ?thesis using assms stepLeader_CheckQuorum_evolves by (auto simp: stepLeader_def no_err_def)
next
  case False
  then have "quiet r r'" using assms(1) by (intro stepLeader_quiet)
  then show ?thesis using leader_term assms(2) by (blast intro: quiet_evolves)
qed

lemma stepFollower_evolves:
  assumes "stepFollower m r = Some (r', e)" "r_state r = StateFollower" "r_Term r < MaxUint64" "r_id r \<noteq> None_id"
    "m_Type m \<in> {MsgApp, MsgHeartbeat, MsgSnap} \<Longrightarrow> r_Term r \<noteq> 0"
  shows "evolves m r r'"
proof -
  let ?r = "r\<lparr>r_electionElapsed := 0, r_lead := m_From m\<rparr>"
  have l: "evolves m r ?r" using assms(2) by (intro follower_evolves) (simp_all add: pointers_kept_def)
  consider "quiet ?r r'" "r_Term r \<noteq> 0" | "handleSnapshot m ?r = Some r'" | "hup campaignTransfer r = Some r'"
    | "r_msgs r' = r_msgs r" "quiet r r'" | x where "send x r = Some r'" "m_Type x = m_Type m"
        "m_Type m \<notin> {MsgVoteResp, MsgApp, MsgHeartbeat, MsgSnap}"
    using assms(1,5)
    by (cases "m_Type m")
       (auto simp: stepFollower_def no_err_def ret_simps termed_def split: list.splits
         dest!: handleAppendEntries_quiet handleHeartbeat_quiet)
  then show ?thesis
  proof cases
    case 1
    then show ?thesis by (intro evolves_trans [OF l quiet_evolves]) simp_all
  next
    case 2
    then show ?thesis using assms(2) by (intro evolves_trans [OF l handleSnapshot_evolves]) simp_all
  next
    case 3
    then show ?thesis using assms(3,4) by (rule hup_evolves)
  next
    case 4
    then show ?thesis by (simp add: silent_evolves)
  next
    case 5
    then show ?thesis by (intro send_evolves [OF 5(1)]) auto
  qed
qed

lemma stepCandidate_vote_evolves:
  assumes "stepCandidate_vote m r = Some r'" "role_ok r" "r_Term r < MaxUint64"
    "r_state r = StateCandidate \<or> r_state r = StatePreCandidate"
    "r_state r = StateCandidate \<Longrightarrow> m_Type m = MsgVoteResp \<and> m_Term m = r_Term r"
  shows "evolves m r r'"
proof -
  obtain r1 g rj res where p: "poll (m_From m) (\<not> m_Reject m) r = (r1, g, rj, res)"
    by (cases "poll (m_From m) (\<not> m_Reject m) r") auto
  have r1: "r1 = r\<lparr>r_prs := RecordVote (m_From m) (\<not> m_Reject m) (r_prs r)\<rparr>"
      "res = joint_VoteResult (voters r1) (votes r1)"
    using poll_facts [OF p] by auto
  have e: "evolves m r r1"
    unfolding r1(1) by (rule record_vote_evolves) (simp add: supports_def granted_def assms(5))
  have "evolves m r1 r'"
  proof (cases res)
    case VotePending
    then show ?thesis using assms(1) p by (simp add: stepCandidate_vote_def)
  next
    case VoteLost
    then have "becomeFollower (r_Term r1) None_id r1 = Some r'" using assms(1) p by (simp add: stepCandidate_vote_def)
    then show ?thesis using becomeFollower_evolves by blast
  next
    case VoteWon
    show ?thesis
    proof (cases "r_state r = StatePreCandidate")
      case True
      then have "campaign campaignElection r1 = Some r'" using assms(1) p VoteWon by (simp add: stepCandidate_vote_def r1)
      then show ?thesis using assms(2,3) by (intro campaign_evolves) (simp_all add: r1 role_ok_def)
    next
      case False
      then obtain r2 where r2: "becomeLeader r1 = Some r2" "bcastAppend r2 = Some r'"
        using assms(1) p VoteWon by (auto simp: stepCandidate_vote_def r1 panic_simps)
      have e2: "evolves m r1 r2"
        using r2(1) VoteWon r1 assms(2,4) False by (intro becomeLeader_evolves) auto
      have "r_Term r \<noteq> 0" using leader_term [OF assms(2)] assms(4) False by blast
      moreover have "r_Term r \<le> r_Term r2" using e2 by (simp add: evolves_def vote_kept_def r1)
      ultimately have "r_Term r2 \<noteq> 0" by auto
      then show ?thesis
        using bcastAppend_quiet [OF r2(2)] by (intro evolves_trans [OF e2 quiet_evolves])
    qed
  qed
  then show ?thesis by (rule evolves_trans [OF e])
qed

lemma stepCandidate_evolves:
  assumes "stepCandidate m r = Some (r', e)" "role_ok r" "r_Term r < MaxUint64"
    "r_state r = StateCandidate \<or> r_state r = StatePreCandidate"
    "m_Type m \<in> {MsgApp, MsgHeartbeat, MsgSnap, MsgVoteResp} \<Longrightarrow> m_Term m = r_Term r \<and> r_Term r \<noteq> 0"
  shows "evolves m r r'"
proof -
  consider "r' = r" | "stepCandidate_vote m r = Some r'" "m_Type m = MsgVoteResp \<or> r_state r = StatePreCandidate"
    | r1 where "m_Type m \<in> {MsgApp, MsgHeartbeat, MsgSnap}" "becomeFollower (m_Term m) (m_From m) r = Some r1"
        "quiet r1 r' \<or> handleSnapshot m r1 = Some r'"
    using assms(1)
    by (auto simp: stepCandidate_def no_err_def panic_simps ret_simps Let_def split: if_splits
        dest!: handleAppendEntries_quiet handleHeartbeat_quiet)
  then show ?thesis
  proof cases
    case 2
    then show ?thesis using assms by (intro stepCandidate_vote_evolves) auto
  next
    case 3
    have t: "m_Term m = r_Term r" "r_Term r \<noteq> 0" using assms(5) 3(1) by auto
    have f: "evolves m r r1" "r_state r1 = StateFollower" "r_Term r1 = m_Term m"
      using becomeFollower_evolves [OF 3(2), of m] t by auto
    have "evolves m r1 r'"
      using 3(3) f t by (auto intro: quiet_evolves handleSnapshot_evolves)
    then show ?thesis by (rule evolves_trans [OF f(1)])
  qed simp
qed

section \<open>Step\<close>

text \<open>The messages a node may be given: what leaders and voters send carries a term.\<close>

definition well_termed :: "Message \<Rightarrow> bool" where
  "well_termed m \<longleftrightarrow> termed m \<and> (m_Type m = MsgVoteResp \<longrightarrow> m_Term m \<noteq> 0)"

lemma Step_term_facts:
  assumes "Step_term m r = Some (r1, continue)"
  shows "evolves m r r1 \<and>
    (continue \<longrightarrow> m_Type m \<notin> {MsgPreVote, MsgPreVoteResp} \<longrightarrow> m_Term m \<noteq> 0 \<longrightarrow> m_Term m = r_Term r1) \<and>
    (r1 = r \<or> \<not> continue \<or> (r_Term r1 = m_Term m \<and> r_state r1 = StateFollower)) \<and>
    (r_Term r < MaxUint64 \<longrightarrow> m_Term m < MaxUint64 \<longrightarrow> r_Term r1 < MaxUint64)"
proof -
  consider "m_Term m = 0" | "m_Term m > r_Term r" "m_Term m \<noteq> 0" | "m_Term m < r_Term r" "m_Term m \<noteq> 0"
    | "m_Term m = r_Term r" "m_Term m \<noteq> 0"
    by (cases "m_Term m" "r_Term r" rule: linorder_cases) auto
  then show ?thesis
  proof cases
    case 2
    then have h: "Step_higher_term m r = Some (r1, continue)" using assms by (auto simp: Step_term_def)
    consider "r1 = r" "\<not> continue" | "r1 = r" "m_Type m \<in> {MsgPreVote, MsgPreVoteResp}"
      | l where "becomeFollower (m_Term m) l r = Some r1"
      using h by (auto simp: Step_higher_term_def panic_simps Let_def split: if_splits)
    then show ?thesis
    proof cases
      case (3 l)
      then show ?thesis using becomeFollower_evolves [OF 3, of m] 2 by simp
    qed auto
  next
    case 3
    then have "\<not> m_Term m > r_Term r" by simp
    with 3 have l: "Step_lower_term m r = Some r1" "\<not> continue" using assms by (auto simp: Step_term_def panic_simps)
    have "evolves m r r1"
      using l(1) by (auto simp: Step_lower_term_def panic_simps split: if_splits intro: send_evolves)
    moreover have "r_Term r1 = r_Term r"
      using l(1) by (auto simp: Step_lower_term_def send_def Let_def panic_simps split: if_splits)
    ultimately show ?thesis using l(2) by simp
  qed (use assms in \<open>auto simp: Step_term_def\<close>)
qed

text \<open>Every message but a vote request.\<close>

lemma Step_evolves:
  assumes "Step m r = Some (r', e)" "role_ok r" "r_Term r < MaxUint64" "m_Term m < MaxUint64"
    "well_termed m" "m_Type m \<noteq> MsgVote"
  shows "evolves m r r'"
proof -
  obtain r1 continue where s1: "Step_term m r = Some (r1, continue)"
      and s2: "if \<not> continue then r' = r1
        else if m_Type m = MsgHup then hup (if r_preVote r1 then campaignPreElection else campaignElection) r1 = Some r'
        else if m_Type m = MsgPreVote then Step_vote m r1 = Some r'
        else run_step m r1 = Some (r', e)"
    using assms(1,6) by (auto simp: Step_def no_err_def panic_simps ret_simps split: if_splits)
  note f = Step_term_facts [OF s1]
  have e: "evolves m r r1" using f ..
  have r1: "role_ok r1" using e assms(2) by (simp add: evolves_def)
  have nz: "r_id r1 \<noteq> None_id" using r1 by (simp add: role_ok_def)
  have lt: "r_Term r1 < MaxUint64" using f assms(3,4) by simp
  have t: "m_Term m = r_Term r1 \<and> r_Term r1 \<noteq> 0" if "continue" "m_Type m \<in> {MsgApp, MsgHeartbeat, MsgSnap, MsgVoteResp}"
  proof -
    have "m_Term m \<noteq> 0" using assms(5) that(2) by (auto simp: well_termed_def termed_def)
    moreover have "m_Type m \<notin> {MsgPreVote, MsgPreVoteResp}" using that(2) by auto
    ultimately have "m_Term m = r_Term r1" using f [THEN conjunct2, THEN conjunct1] that(1) by blast
    with \<open>m_Term m \<noteq> 0\<close> show ?thesis by simp
  qed
  have "evolves m r1 r'" if c: "continue" "m_Type m \<noteq> MsgHup" "m_Type m \<noteq> MsgPreVote"
  proof -
    have s: "run_step m r1 = Some (r', e)" using s2 c by simp
    show ?thesis
    proof (cases "r_state r1")
      case StateFollower
      then have "stepFollower m r1 = Some (r', e)" using s r1 by (simp add: run_step_def role_ok_def)
      then show ?thesis using StateFollower lt nz t [OF c(1)] by (intro stepFollower_evolves) auto
    next
      case StateLeader
      then have "stepLeader m r1 = Some (r', e)" using s r1 by (simp add: run_step_def role_ok_def)
      then show ?thesis using StateLeader by (rule stepLeader_evolves)
    next
      case StateCandidate
      then have "stepCandidate m r1 = Some (r', e)" using s r1 by (simp add: run_step_def role_ok_def)
      then show ?thesis using StateCandidate r1 lt t [OF c(1)] by (intro stepCandidate_evolves) auto
    next
      case StatePreCandidate
      then have "stepCandidate m r1 = Some (r', e)" using s r1 by (simp add: run_step_def role_ok_def)
      then show ?thesis using StatePreCandidate r1 lt t [OF c(1)] by (intro stepCandidate_evolves) auto
    qed
  qed
  moreover have "evolves m r1 r'" if "m_Type m = MsgPreVote" "Step_vote m r1 = Some r'"
    using that by (auto simp: Step_vote_def voteRespMsgType_def panic_simps ret_simps split: if_splits intro: send_evolves)
  moreover have "evolves m r1 r'" if "hup t r1 = Some r'" for t
    using that lt nz by (rule hup_evolves)
  ultimately have "evolves m r1 r'" using s2 by (auto split: if_splits)
  then show ?thesis by (rule evolves_trans [OF e])
qed

text \<open>What a node promises by the messages it sends while it moves to \<open>r'\<close>: a granted vote carries its
  identity and term, and goes to the node its vote names.\<close>

definition honest :: "raft \<Rightarrow> raft \<Rightarrow> Message \<Rightarrow> bool" where
  "honest r r' x \<longleftrightarrow>
     (role_ok r \<longrightarrow> well_termed x) \<and>
     (granted x \<longrightarrow> m_From x = r_id r \<and> m_Term x = r_Term r' \<and> m_To x = r_Vote r')"

definition safe_step :: "Message \<Rightarrow> raft \<Rightarrow> raft \<Rightarrow> bool" where
  "safe_step m r r' \<longleftrightarrow>
     vote_kept r r' \<and> pointers_kept r r' \<and> (role_ok r \<longrightarrow> role_ok r') \<and> role_moves m r r' \<and>
     sends (honest r r') r r'"

lemma evolves_safe: "evolves m r r' \<Longrightarrow> safe_step m r r'"
  by (auto simp: evolves_def safe_step_def honest_def plain_msg_def well_termed_def granted_def elim!: sends_mono)

lemma Step_vote_cases:
  assumes "Step_vote m r = Some r'" "m_Type m = MsgVote"
  obtains (Reject) x where "r' = r\<lparr>r_msgs := r_msgs r @ [x]\<rparr>" "m_Type x = MsgVoteResp" "m_Reject x" "m_Term x \<noteq> 0"
    | (Grant) x where "canVote m r" "rl_isUpToDate (r_raftLog r) (m_Index m) (m_LogTerm m) = Some True"
        "r' = r\<lparr>r_msgs := r_msgs r @ [x], r_electionElapsed := 0, r_Vote := m_From m\<rparr>"
        "m_Type x = MsgVoteResp" "\<not> m_Reject x" "m_Term x = m_Term m" "m_Term m \<noteq> 0" "m_From x = r_id r" "m_To x = m_From m"
proof -
  obtain grant where g: "(if canVote m r then rl_isUpToDate (r_raftLog r) (m_Index m) (m_LogTerm m) else Some False) = Some grant"
    using assms by (auto simp: Step_vote_def panic_simps)
  show thesis
  proof (cases grant)
    case True
    then have "canVote m r" "rl_isUpToDate (r_raftLog r) (m_Index m) (m_LogTerm m) = Some True"
      using g by (auto split: if_splits)
    then show ?thesis
      using assms by (intro Grant [of "(mk_Message MsgVoteResp)\<lparr>m_To := m_From m, m_Term := m_Term m, m_From := r_id r\<rparr>"])
        (auto simp: Step_vote_def voteRespMsgType_def panic_simps send_def mk_Message_def is_vote_msg_def Let_def split: if_splits)
  next
    case False
    then show ?thesis
      using assms g by (intro Reject [of "(mk_Message MsgVoteResp)\<lparr>m_To := m_From m, m_Term := r_Term r, m_Reject := True, m_From := r_id r\<rparr>"])
        (auto simp: Step_vote_def voteRespMsgType_def panic_simps send_def mk_Message_def is_vote_msg_def Let_def split: if_splits)
  qed
qed

lemma evolves_then_vote:
  assumes "evolves m r r1" "Step_vote m r1 = Some r'" "m_Type m = MsgVote"
    "m_Term m \<noteq> 0 \<Longrightarrow> m_Term m = r_Term r1" "role_ok r1"
  shows "safe_step m r r'"
  using assms(2,3)
proof (cases rule: Step_vote_cases)
  case (Reject x)
  have "role_ok r' \<longleftrightarrow> role_ok r1"
    by (simp add: Reject role_ok_def timeouts_ok_def split: StateType.splits)
  moreover have "sends (honest r r') r r1"
    using assms(1) by (auto simp: evolves_def honest_def plain_msg_def well_termed_def granted_def elim!: sends_mono)
  then have "sends (honest r r') r r'"
    using Reject by (auto simp: sends_def honest_def granted_def well_termed_def termed_def)
  ultimately show ?thesis
    using assms(1) by (simp add: Reject safe_step_def evolves_def vote_kept_def pointers_kept_def role_moves_def
        elected_def supports_def)
next
  case (Grant x)
  have v: "r_Vote r1 = m_From m \<or> r_Vote r1 = None_id"
    using Grant(1) assms(3) by (auto simp: canVote_def)
  have "role_ok r'"
    using v assms(5) by (auto simp: Grant role_ok_def timeouts_ok_def split: StateType.splits)
  moreover have "sends (honest r r') r r1"
    using assms(1) by (auto simp: evolves_def honest_def plain_msg_def well_termed_def granted_def elim!: sends_mono)
  then have "sends (honest r r') r r'"
    using Grant assms(1,4)
    by (auto simp: sends_def honest_def granted_def well_termed_def termed_def evolves_def vote_kept_def)
  ultimately show ?thesis
    using assms(1) v by (auto simp: Grant(3) safe_step_def evolves_def vote_kept_def pointers_kept_def role_moves_def
        elected_def supports_def)
qed

theorem Step_safe:
  assumes "Step m r = Some (r', e)" "role_ok r" "r_Term r < MaxUint64" "m_Term m < MaxUint64"
    "well_termed m"
  shows "safe_step m r r'"
proof (cases "m_Type m = MsgVote")
  case True
  then obtain r1 continue where s1: "Step_term m r = Some (r1, continue)"
      and s2: "if \<not> continue then r' = r1 else Step_vote m r1 = Some r'"
    using assms(1) by (auto simp: Step_def no_err_def panic_simps split: if_splits)
  note f = Step_term_facts [OF s1]
  have e: "evolves m r r1" using f ..
  then have r1: "role_ok r1" using assms(2) by (simp add: evolves_def)
  show ?thesis
  proof (cases continue)
    case False
    then show ?thesis using s2 e evolves_safe by simp
  next
    case c: True
    have "m_Term m \<noteq> 0 \<Longrightarrow> m_Term m = r_Term r1"
      using f [THEN conjunct2, THEN conjunct1] c True by simp
    then show ?thesis using e s2 c True r1 by (intro evolves_then_vote) simp_all
  qed
next
  case False
  then show ?thesis using Step_evolves assms evolves_safe by blast
qed

section \<open>The clock\<close>

abbreviation local_msg :: Message where
  "local_msg \<equiv> mk_Message MsgHup"

lemma not_granted_local [simp]: "\<not> granted local_msg"
  by (simp add: granted_def)

lemma evolves_local:
  assumes "evolves m r r'" "\<not> granted m"
  shows "evolves m' r r'"
  using assms by (auto simp: evolves_def role_moves_def elected_def supports_def)

lemma mk_Message_Term [simp]: "m_Term (mk_Message t) = 0"
  by (simp add: mk_Message_def)

lemma well_termed_local: "m_Type m \<notin> {MsgApp, MsgHeartbeat, MsgSnap, MsgVoteResp} \<Longrightarrow> well_termed m"
  by (auto simp: well_termed_def termed_def)

lemma Step_local_leader:
  assumes "role_ok r" "r_state r = StateLeader" "m_Term m = 0" "m_Type m \<notin> {MsgHup, MsgVote, MsgPreVote}"
  shows "Step m r = stepLeader m r"
  using assms by (auto simp: Step_def Step_term_def run_step_def role_ok_def)

lemma elapsed_quiet [simp]:
  "quiet r (r\<lparr>r_electionElapsed := a\<rparr>)" "quiet r (r\<lparr>r_heartbeatElapsed := a\<rparr>)"
  by simp_all

lemma tickElection_evolves:
  assumes "tickElection r = Some r'" "role_ok r" "r_Term r < MaxUint64"
  shows "evolves local_msg r r'"
proof -
  let ?r = "r\<lparr>r_electionElapsed := r_electionElapsed r + 1\<rparr>"
  have e: "evolves local_msg r ?r" by (intro silent_evolves) simp_all
  show ?thesis
  proof (cases "promotable ?r \<and> pastElectionTimeout ?r")
    case False
    then show ?thesis using assms(1) e by (auto simp: tickElection_def Let_def)
  next
    case True
    let ?m = "(mk_Message MsgHup)\<lparr>m_From := r_id r\<rparr>" and ?r0 = "?r\<lparr>r_electionElapsed := 0\<rparr>"
    obtain err where s: "Step ?m ?r0 = Some (r', err)" using assms(1) True by (auto simp: tickElection_def Let_def)
    have e0: "evolves local_msg r ?r0" by (intro silent_evolves) simp_all
    have "role_ok ?r0" using e0 assms(2) by (simp add: evolves_def)
    then have "evolves ?m ?r0 r'" using s assms(3) by (intro Step_evolves) (auto simp: well_termed_def termed_def word_gt_0)
    then have "evolves local_msg ?r0 r'" by (rule evolves_local) (simp add: granted_def)
    then show ?thesis by (rule evolves_trans [OF e0])
  qed
qed

lemma Step_leader_evolves:
  assumes "map_option fst (Step ((mk_Message t)\<lparr>m_From := v\<rparr>) r) = Some r'" "role_ok r" "r_state r = StateLeader"
    "t = MsgCheckQuorum \<or> t = MsgBeat"
  shows "evolves local_msg r r'"
proof -
  let ?m = "(mk_Message t)\<lparr>m_From := v\<rparr>"
  have "Step ?m r = stepLeader ?m r" using assms(2-4) by (intro Step_local_leader) auto
  then obtain err where "stepLeader ?m r = Some (r', err)" using assms(1) by auto
  then have "evolves ?m r r'" using assms(3) by (rule stepLeader_evolves)
  then show ?thesis by (rule evolves_local) (use assms(4) in \<open>auto simp: granted_def\<close>)
qed

lemma elapsed_select:
  "r_checkQuorum (r\<lparr>r_electionElapsed := n\<rparr>) = r_checkQuorum r" "r_id (r\<lparr>r_electionElapsed := n\<rparr>) = r_id r"
  by simp_all

lemma tickHeartbeat_evolves:
  assumes "tickHeartbeat r = Some r'" "role_ok r" "r_state r = StateLeader"
  shows "evolves local_msg r r'"
proof -
  define r1 where "r1 = r\<lparr>r_heartbeatElapsed := r_heartbeatElapsed r + 1, r_electionElapsed := r_electionElapsed r + 1\<rparr>"
  have e1: "evolves local_msg r r1" unfolding r1_def by (intro silent_evolves) simp_all
  have q: "evolves local_msg x (x\<lparr>r_electionElapsed := 0\<rparr>)" "evolves local_msg x (x\<lparr>r_heartbeatElapsed := 0\<rparr>)"
      "evolves local_msg x (abortLeaderTransfer x)" for x
    by (auto intro!: silent_evolves simp: abortLeaderTransfer_def)
  have ok: "role_ok x \<Longrightarrow> evolves local_msg x y \<Longrightarrow> role_ok y" for x y by (simp add: evolves_def)
  let ?check = "map_option fst (Step ((mk_Message MsgCheckQuorum)\<lparr>m_From := r_id r1\<rparr>) (r1\<lparr>r_electionElapsed := 0\<rparr>))"
  obtain r2 where r2: "(if r_electionElapsed r1 \<ge> r_electionTimeout r1
        then (if r_checkQuorum r1 then ?check else Some (r1\<lparr>r_electionElapsed := 0\<rparr>)) \<bind>
          (\<lambda>r. Some (if r_state r = StateLeader \<and> r_leadTransferee r \<noteq> None_id then abortLeaderTransfer r else r))
        else Some r1) = Some r2"
      and r': "(if r_state r2 \<noteq> StateLeader then Some r2
        else if r_heartbeatElapsed r2 \<ge> r_heartbeatTimeout r2
        then map_option fst (Step ((mk_Message MsgBeat)\<lparr>m_From := r_id r2\<rparr>) (r2\<lparr>r_heartbeatElapsed := 0\<rparr>))
        else Some r2) = Some r'"
    using assms(1) unfolding tickHeartbeat_def Let_def r1_def [symmetric] bind_Some_iff elapsed_select
    by blast
  have c: "evolves local_msg (r1\<lparr>r_electionElapsed := 0\<rparr>) r3" if "?check = Some r3" for r3
    using that assms(3) ok [OF ok [OF assms(2) e1] q(1)] by (intro Step_leader_evolves) (auto simp: r1_def)
  have e2: "evolves local_msg r1 r2"
  proof (cases "r_electionElapsed r1 \<ge> r_electionTimeout r1")
    case True
    then obtain r3 where r3: "(if r_checkQuorum r1 then ?check else Some (r1\<lparr>r_electionElapsed := 0\<rparr>)) = Some r3"
        "r2 = r3 \<or> r2 = abortLeaderTransfer r3"
      using r2 by (auto simp: panic_simps)
    have "evolves local_msg (r1\<lparr>r_electionElapsed := 0\<rparr>) r3" using r3(1) c by (auto split: if_splits)
    then have "evolves local_msg r1 r3" by (rule evolves_trans [OF q(1)])
    then show ?thesis using r3(2) evolves_trans [OF _ q(3)] by blast
  qed (use r2 in simp)
  have "evolves local_msg (r2\<lparr>r_heartbeatElapsed := 0\<rparr>) r'"
    if "map_option fst (Step ((mk_Message MsgBeat)\<lparr>m_From := r_id r2\<rparr>) (r2\<lparr>r_heartbeatElapsed := 0\<rparr>)) = Some r'"
      "r_state r2 = StateLeader"
    using that ok [OF ok [OF ok [OF assms(2) e1] e2] q(2)] by (intro Step_leader_evolves) auto
  then have "evolves local_msg r2 r'" using r' evolves_trans [OF q(2)] by (auto split: if_splits)
  then show ?thesis by (rule evolves_trans [OF evolves_trans [OF e1 e2]])
qed

lemma tick_evolves:
  assumes "tick r = Some r'" "role_ok r" "r_Term r < MaxUint64"
  shows "evolves local_msg r r'"
proof (cases "r_state r = StateLeader")
  case True
  then have "tickHeartbeat r = Some r'" using assms(1,2) by (simp add: tick_def role_ok_def)
  then show ?thesis using assms(2) True by (rule tickHeartbeat_evolves)
next
  case False
  then have "tickElection r = Some r'" using assms(1,2) by (cases "r_state r") (simp_all add: tick_def role_ok_def)
  then show ?thesis using assms(2,3) by (rule tickElection_evolves)
qed

end
