(* ===== verification/Encode.thy ===== *)
theory Encode
  imports Decode
begin

unbundle bit_operations_syntax

text \<open>
  The encoders of \<^verbatim>\<open>raftpb/raft.pb.go\<close>, and \<^verbatim>\<open>MarshalConfChange\<close>.

  The generated code computes the size first, allocates a buffer of that size, and fills it from
  the right end to the left. The model keeps the buffer and the position; a write or a slice out of
  range panics (\<open>None\<close>).
\<close>

section \<open>Sizes\<close>

fun MessageType_value :: "MessageType \<Rightarrow> 32 word" where
  "MessageType_value MsgHup = 0"
| "MessageType_value MsgBeat = 1"
| "MessageType_value MsgProp = 2"
| "MessageType_value MsgApp = 3"
| "MessageType_value MsgAppResp = 4"
| "MessageType_value MsgVote = 5"
| "MessageType_value MsgVoteResp = 6"
| "MessageType_value MsgSnap = 7"
| "MessageType_value MsgHeartbeat = 8"
| "MessageType_value MsgHeartbeatResp = 9"
| "MessageType_value MsgUnreachable = 10"
| "MessageType_value MsgSnapStatus = 11"
| "MessageType_value MsgCheckQuorum = 12"
| "MessageType_value MsgTransferLeader = 13"
| "MessageType_value MsgTimeoutNow = 14"
| "MessageType_value MsgReadIndex = 15"
| "MessageType_value MsgReadIndexResp = 16"
| "MessageType_value MsgPreVote = 17"
| "MessageType_value MsgPreVoteResp = 18"
| "MessageType_value (MsgTypeOther w) = w"

fun ConfChangeType_value :: "ConfChangeType \<Rightarrow> 32 word" where
  "ConfChangeType_value ConfChangeAddNode = 0"
| "ConfChangeType_value ConfChangeRemoveNode = 1"
| "ConfChangeType_value ConfChangeUpdateNode = 2"
| "ConfChangeType_value ConfChangeAddLearnerNode = 3"
| "ConfChangeType_value (ConfChangeTypeOther w) = w"

fun ConfChangeTransition_value :: "ConfChangeTransition \<Rightarrow> 32 word" where
  "ConfChangeTransition_value ConfChangeTransitionAuto = 0"
| "ConfChangeTransition_value ConfChangeTransitionJointImplicit = 1"
| "ConfChangeTransition_value ConfChangeTransitionJointExplicit = 2"
| "ConfChangeTransition_value (ConfChangeTransitionOther w) = w"

text \<open>The conversion \<^verbatim>\<open>uint64(t)\<close> of an \<^verbatim>\<open>int32\<close> extends the sign.\<close>

definition type_u64 :: "ConfChangeType \<Rightarrow> u64" where
  "type_u64 t = scast (ConfChangeType_value t)"

definition transition_u64 :: "ConfChangeTransition \<Rightarrow> u64" where
  "transition_u64 t = scast (ConfChangeTransition_value t)"

definition entry_type_u64 :: "EntryType \<Rightarrow> u64" where
  "entry_type_u64 t = scast (EntryType_value t)"

definition message_type_u64 :: "MessageType \<Rightarrow> u64" where
  "message_type_u64 t = scast (MessageType_value t)"

text \<open>The sizes of a field that may be nil, of a nested message and of a list of integers.\<close>

definition context_Size :: "gobytes \<Rightarrow> nat" where
  "context_Size c = (case c of None \<Rightarrow> 0 | Some b \<Rightarrow> 1 + length b + sovRaft (of_nat (length b)))"

definition nested_Size :: "nat \<Rightarrow> nat" where
  "nested_Size l = 1 + l + sovRaft (of_nat l)"

definition ids_Size :: "u64 list \<Rightarrow> nat" where
  "ids_Size vs = sum_list (map (\<lambda>e. 1 + sovRaft e) vs)"

text \<open>
  The size of an entry once more, as the length of the buffer to allocate; \<open>Entry_Size\<close> is its value
  as a \<^verbatim>\<open>uint64\<close>, in the sums that limit what is sent and proposed.
\<close>

definition Entry_buffer_Size :: "Entry \<Rightarrow> nat" where
  "Entry_buffer_Size m =
     (1 + sovRaft (entry_type_u64 (e_Type m))) + (1 + sovRaft (e_Term m)) + (1 + sovRaft (e_Index m)) +
     context_Size (e_Data m)"

lemma Entry_Size_buffer: "Entry_Size e = of_nat (Entry_buffer_Size e)"
  by (simp add: Entry_Size_def Entry_buffer_Size_def entry_type_u64_def context_Size_def split: option.split)

definition HardState_Size :: "HardState \<Rightarrow> nat" where
  "HardState_Size m = (1 + sovRaft (hs_Term m)) + (1 + sovRaft (hs_Vote m)) + (1 + sovRaft (hs_Commit m))"

definition ConfState_Size :: "ConfState \<Rightarrow> nat" where
  "ConfState_Size m =
     ids_Size (cs_Voters m) + ids_Size (cs_Learners m) + ids_Size (cs_VotersOutgoing m) +
     ids_Size (cs_LearnersNext m) + 2"

definition SnapshotMetadata_Size :: "SnapshotMetadata \<Rightarrow> nat" where
  "SnapshotMetadata_Size m =
     nested_Size (ConfState_Size (sm_ConfState m)) + (1 + sovRaft (sm_Index m)) + (1 + sovRaft (sm_Term m))"

definition Snapshot_Size :: "Snapshot \<Rightarrow> nat" where
  "Snapshot_Size m = context_Size (s_Data m) + nested_Size (SnapshotMetadata_Size (s_Metadata m))"

definition Message_Size :: "Message \<Rightarrow> nat" where
  "Message_Size m =
     (1 + sovRaft (message_type_u64 (m_Type m))) + (1 + sovRaft (m_To m)) + (1 + sovRaft (m_From m)) +
     (1 + sovRaft (m_Term m)) + (1 + sovRaft (m_LogTerm m)) + (1 + sovRaft (m_Index m)) +
     sum_list (map (\<lambda>e. nested_Size (Entry_buffer_Size e)) (m_Entries m)) +
     (1 + sovRaft (m_Commit m)) + nested_Size (Snapshot_Size (m_Snapshot m)) + 2 +
     (1 + sovRaft (m_RejectHint m)) + context_Size (m_Context m)"

definition ConfChange_Size :: "ConfChange \<Rightarrow> nat" where
  "ConfChange_Size m =
     (1 + sovRaft (cc_ID m)) + (1 + sovRaft (type_u64 (cc_Type m))) + (1 + sovRaft (cc_NodeID m)) +
     context_Size (cc_Context m)"

definition ConfChangeSingle_Size :: "ConfChangeSingle \<Rightarrow> nat" where
  "ConfChangeSingle_Size m = (1 + sovRaft (type_u64 (ccs_Type m))) + (1 + sovRaft (ccs_NodeID m))"

definition ConfChangeV2_Size :: "ConfChangeV2 \<Rightarrow> nat" where
  "ConfChangeV2_Size m =
     (1 + sovRaft (transition_u64 (v2_Transition m))) +
     sum_list (map (\<lambda>e. nested_Size (ConfChangeSingle_Size e)) (v2_Changes m)) +
     context_Size (v2_Context m)"

section \<open>Writing\<close>

function (sequential) encodeVarint_loop :: "bytes \<Rightarrow> nat \<Rightarrow> u64 \<Rightarrow> bytes option" where
  "encodeVarint_loop dAtA offset v =
     (if v \<ge> 128
      then do {
        dAtA \<leftarrow> go_update dAtA offset (ucast (v AND 0x7F OR 0x80));
        encodeVarint_loop dAtA (offset + 1) (drop_bit 7 v)
      }
      else go_update dAtA offset (ucast v))"
  by pat_completeness auto
termination
proof (relation "measure (\<lambda>(dAtA, offset, v). unat v)")
  fix dAtA :: bytes and offset :: nat and v :: u64 and dAtA'
  assume "128 \<le> v"
  then have "unat v \<ge> 128" by (simp add: word_le_nat_alt)
  moreover have "unat (drop_bit 7 v) = unat v div 128" by (simp add: drop_bit_eq_div unat_div)
  ultimately show "((dAtA', offset + 1, drop_bit 7 v), dAtA, offset, v) \<in> measure (\<lambda>(dAtA, offset, v). unat v)"
    by simp
qed simp

declare encodeVarint_loop.simps [simp del]

text \<open>A buffer with the position of the first byte written so far.\<close>

type_synonym cursor = "bytes \<times> nat"

definition encodeVarintRaft :: "u64 \<Rightarrow> cursor \<Rightarrow> cursor option" where
  "encodeVarintRaft v c =
     (let (dAtA, offset) = c in
      if offset < sovRaft v then None
      else
        let base = offset - sovRaft v in
        do { dAtA \<leftarrow> encodeVarint_loop dAtA base v; Some (dAtA, base) })"

definition put_byte :: "byte \<Rightarrow> cursor \<Rightarrow> cursor option" where
  "put_byte b c =
     (let (dAtA, i) = c in
      if i = 0 then None else do { dAtA \<leftarrow> go_update dAtA (i - 1) b; Some (dAtA, i - 1) })"

text \<open>\<^verbatim>\<open>i -= len(b); copy(dAtA[i:], b)\<close>.\<close>

definition put_bytes :: "bytes \<Rightarrow> cursor \<Rightarrow> cursor option" where
  "put_bytes b c =
     (let (dAtA, i) = c in
      if i < length b \<or> length dAtA < i - length b then None
      else
        let i = i - length b; n = min (length b) (length dAtA - i) in
        Some (take i dAtA @ take n b @ drop (i + n) dAtA, i))"

definition put_context :: "byte \<Rightarrow> gobytes \<Rightarrow> cursor \<Rightarrow> cursor option" where
  "put_context tag ctx c =
     (case ctx of
        None \<Rightarrow> Some c
      | Some b \<Rightarrow> do {
          c \<leftarrow> put_bytes b c;
          c \<leftarrow> encodeVarintRaft (of_nat (length b)) c;
          put_byte tag c
        })"

definition put_varint :: "byte \<Rightarrow> u64 \<Rightarrow> cursor \<Rightarrow> cursor option" where
  "put_varint tag v c = do { c \<leftarrow> encodeVarintRaft v c; put_byte tag c }"

definition put_bool :: "byte \<Rightarrow> bool \<Rightarrow> cursor \<Rightarrow> cursor option" where
  "put_bool tag b c = do { c \<leftarrow> put_byte (if b then 1 else 0) c; put_byte tag c }"

text \<open>A nested message, written into the part of the buffer before the position.\<close>

definition put_nested :: "(bytes \<Rightarrow> (bytes \<times> nat) option) \<Rightarrow> byte \<Rightarrow> cursor \<Rightarrow> cursor option" where
  "put_nested to_sized tag c =
     (let (dAtA, i) = c in
      do {
        pre \<leftarrow> go_slice dAtA 0 i;
        (pre, written) \<leftarrow> to_sized pre;
        c \<leftarrow> encodeVarintRaft (of_nat written) (pre @ drop i dAtA, i - written);
        put_byte tag c
      })"

text \<open>A repeated field, written from the last element to the first.\<close>

fun put_each :: "('a \<Rightarrow> cursor \<Rightarrow> cursor option) \<Rightarrow> 'a list \<Rightarrow> cursor \<Rightarrow> cursor option" where
  "put_each put [] c = Some c"
| "put_each put (x # xs) c = do { c \<leftarrow> put_each put xs c; put x c }"

text \<open>
  The frame of \<^verbatim>\<open>MarshalToSizedBuffer\<close>: the position starts at the end of the buffer, and the number
  of bytes written is returned. \<^verbatim>\<open>Marshal\<close> allocates the buffer, \<^verbatim>\<open>MarshalTo\<close> uses the front of the
  caller's, given here up to its capacity.
\<close>

definition sized_buffer :: "(cursor \<Rightarrow> cursor option) \<Rightarrow> bytes \<Rightarrow> (bytes \<times> nat) option" where
  "sized_buffer write dAtA = do { (dAtA, i) \<leftarrow> write (dAtA, length dAtA); Some (dAtA, length dAtA - i) }"

definition marshal :: "nat \<Rightarrow> (bytes \<Rightarrow> (bytes \<times> nat) option) \<Rightarrow> bytes option" where
  "marshal len to_sized = do { (dAtA, n) \<leftarrow> to_sized (replicate len 0); go_slice dAtA 0 n }"

definition marshal_to :: "nat \<Rightarrow> (bytes \<Rightarrow> (bytes \<times> nat) option) \<Rightarrow> bytes \<Rightarrow> (bytes \<times> nat) option" where
  "marshal_to len to_sized dAtA =
     do { pre \<leftarrow> go_slice dAtA 0 len; (pre, n) \<leftarrow> to_sized pre; Some (pre @ drop len dAtA, n) }"

section \<open>The messages\<close>

definition Entry_MarshalToSizedBuffer :: "Entry \<Rightarrow> bytes \<Rightarrow> (bytes \<times> nat) option" where
  "Entry_MarshalToSizedBuffer m = sized_buffer (\<lambda>c. do {
       c \<leftarrow> put_context 0x22 (e_Data m) c;
       c \<leftarrow> put_varint 0x18 (e_Index m) c;
       c \<leftarrow> put_varint 0x10 (e_Term m) c;
       put_varint 0x8 (entry_type_u64 (e_Type m)) c
     })"

definition Entry_Marshal :: "Entry \<Rightarrow> bytes option" where
  "Entry_Marshal m = marshal (Entry_buffer_Size m) (Entry_MarshalToSizedBuffer m)"

definition Entry_MarshalTo :: "Entry \<Rightarrow> bytes \<Rightarrow> (bytes \<times> nat) option" where
  "Entry_MarshalTo m = marshal_to (Entry_buffer_Size m) (Entry_MarshalToSizedBuffer m)"

definition HardState_MarshalToSizedBuffer :: "HardState \<Rightarrow> bytes \<Rightarrow> (bytes \<times> nat) option" where
  "HardState_MarshalToSizedBuffer m = sized_buffer (\<lambda>c. do {
       c \<leftarrow> put_varint 0x18 (hs_Commit m) c;
       c \<leftarrow> put_varint 0x10 (hs_Vote m) c;
       put_varint 0x8 (hs_Term m) c
     })"

definition HardState_Marshal :: "HardState \<Rightarrow> bytes option" where
  "HardState_Marshal m = marshal (HardState_Size m) (HardState_MarshalToSizedBuffer m)"

definition HardState_MarshalTo :: "HardState \<Rightarrow> bytes \<Rightarrow> (bytes \<times> nat) option" where
  "HardState_MarshalTo m = marshal_to (HardState_Size m) (HardState_MarshalToSizedBuffer m)"

definition ConfState_MarshalToSizedBuffer :: "ConfState \<Rightarrow> bytes \<Rightarrow> (bytes \<times> nat) option" where
  "ConfState_MarshalToSizedBuffer m = sized_buffer (\<lambda>c. do {
       c \<leftarrow> put_bool 0x28 (cs_AutoLeave m) c;
       c \<leftarrow> put_each (put_varint 0x20) (cs_LearnersNext m) c;
       c \<leftarrow> put_each (put_varint 0x18) (cs_VotersOutgoing m) c;
       c \<leftarrow> put_each (put_varint 0x10) (cs_Learners m) c;
       put_each (put_varint 0x8) (cs_Voters m) c
     })"

definition ConfState_Marshal :: "ConfState \<Rightarrow> bytes option" where
  "ConfState_Marshal m = marshal (ConfState_Size m) (ConfState_MarshalToSizedBuffer m)"

definition ConfState_MarshalTo :: "ConfState \<Rightarrow> bytes \<Rightarrow> (bytes \<times> nat) option" where
  "ConfState_MarshalTo m = marshal_to (ConfState_Size m) (ConfState_MarshalToSizedBuffer m)"

definition SnapshotMetadata_MarshalToSizedBuffer :: "SnapshotMetadata \<Rightarrow> bytes \<Rightarrow> (bytes \<times> nat) option" where
  "SnapshotMetadata_MarshalToSizedBuffer m = sized_buffer (\<lambda>c. do {
       c \<leftarrow> put_varint 0x18 (sm_Term m) c;
       c \<leftarrow> put_varint 0x10 (sm_Index m) c;
       put_nested (ConfState_MarshalToSizedBuffer (sm_ConfState m)) 0xA c
     })"

definition SnapshotMetadata_Marshal :: "SnapshotMetadata \<Rightarrow> bytes option" where
  "SnapshotMetadata_Marshal m = marshal (SnapshotMetadata_Size m) (SnapshotMetadata_MarshalToSizedBuffer m)"

definition SnapshotMetadata_MarshalTo :: "SnapshotMetadata \<Rightarrow> bytes \<Rightarrow> (bytes \<times> nat) option" where
  "SnapshotMetadata_MarshalTo m = marshal_to (SnapshotMetadata_Size m) (SnapshotMetadata_MarshalToSizedBuffer m)"

definition Snapshot_MarshalToSizedBuffer :: "Snapshot \<Rightarrow> bytes \<Rightarrow> (bytes \<times> nat) option" where
  "Snapshot_MarshalToSizedBuffer m = sized_buffer (\<lambda>c. do {
       c \<leftarrow> put_nested (SnapshotMetadata_MarshalToSizedBuffer (s_Metadata m)) 0x12 c;
       put_context 0xA (s_Data m) c
     })"

definition Snapshot_Marshal :: "Snapshot \<Rightarrow> bytes option" where
  "Snapshot_Marshal m = marshal (Snapshot_Size m) (Snapshot_MarshalToSizedBuffer m)"

definition Snapshot_MarshalTo :: "Snapshot \<Rightarrow> bytes \<Rightarrow> (bytes \<times> nat) option" where
  "Snapshot_MarshalTo m = marshal_to (Snapshot_Size m) (Snapshot_MarshalToSizedBuffer m)"

definition Message_MarshalToSizedBuffer :: "Message \<Rightarrow> bytes \<Rightarrow> (bytes \<times> nat) option" where
  "Message_MarshalToSizedBuffer m = sized_buffer (\<lambda>c. do {
       c \<leftarrow> put_context 0x62 (m_Context m) c;
       c \<leftarrow> put_varint 0x58 (m_RejectHint m) c;
       c \<leftarrow> put_bool 0x50 (m_Reject m) c;
       c \<leftarrow> put_nested (Snapshot_MarshalToSizedBuffer (m_Snapshot m)) 0x4A c;
       c \<leftarrow> put_varint 0x40 (m_Commit m) c;
       c \<leftarrow> put_each (\<lambda>e. put_nested (Entry_MarshalToSizedBuffer e) 0x3A) (m_Entries m) c;
       c \<leftarrow> put_varint 0x30 (m_Index m) c;
       c \<leftarrow> put_varint 0x28 (m_LogTerm m) c;
       c \<leftarrow> put_varint 0x20 (m_Term m) c;
       c \<leftarrow> put_varint 0x18 (m_From m) c;
       c \<leftarrow> put_varint 0x10 (m_To m) c;
       put_varint 0x8 (message_type_u64 (m_Type m)) c
     })"

definition Message_Marshal :: "Message \<Rightarrow> bytes option" where
  "Message_Marshal m = marshal (Message_Size m) (Message_MarshalToSizedBuffer m)"

definition Message_MarshalTo :: "Message \<Rightarrow> bytes \<Rightarrow> (bytes \<times> nat) option" where
  "Message_MarshalTo m = marshal_to (Message_Size m) (Message_MarshalToSizedBuffer m)"

definition ConfChange_MarshalToSizedBuffer :: "ConfChange \<Rightarrow> bytes \<Rightarrow> (bytes \<times> nat) option" where
  "ConfChange_MarshalToSizedBuffer m = sized_buffer (\<lambda>c. do {
       c \<leftarrow> put_context 0x22 (cc_Context m) c;
       c \<leftarrow> put_varint 0x18 (cc_NodeID m) c;
       c \<leftarrow> put_varint 0x10 (type_u64 (cc_Type m)) c;
       put_varint 0x8 (cc_ID m) c
     })"

definition ConfChange_Marshal :: "ConfChange \<Rightarrow> bytes option" where
  "ConfChange_Marshal m = marshal (ConfChange_Size m) (ConfChange_MarshalToSizedBuffer m)"

definition ConfChange_MarshalTo :: "ConfChange \<Rightarrow> bytes \<Rightarrow> (bytes \<times> nat) option" where
  "ConfChange_MarshalTo m = marshal_to (ConfChange_Size m) (ConfChange_MarshalToSizedBuffer m)"

definition ConfChangeSingle_MarshalToSizedBuffer :: "ConfChangeSingle \<Rightarrow> bytes \<Rightarrow> (bytes \<times> nat) option" where
  "ConfChangeSingle_MarshalToSizedBuffer m = sized_buffer (\<lambda>c. do {
       c \<leftarrow> put_varint 0x10 (ccs_NodeID m) c;
       put_varint 0x8 (type_u64 (ccs_Type m)) c
     })"

definition ConfChangeSingle_Marshal :: "ConfChangeSingle \<Rightarrow> bytes option" where
  "ConfChangeSingle_Marshal m = marshal (ConfChangeSingle_Size m) (ConfChangeSingle_MarshalToSizedBuffer m)"

definition ConfChangeSingle_MarshalTo :: "ConfChangeSingle \<Rightarrow> bytes \<Rightarrow> (bytes \<times> nat) option" where
  "ConfChangeSingle_MarshalTo m = marshal_to (ConfChangeSingle_Size m) (ConfChangeSingle_MarshalToSizedBuffer m)"

definition ConfChangeV2_MarshalToSizedBuffer :: "ConfChangeV2 \<Rightarrow> bytes \<Rightarrow> (bytes \<times> nat) option" where
  "ConfChangeV2_MarshalToSizedBuffer m = sized_buffer (\<lambda>c. do {
       c \<leftarrow> put_context 0x1A (v2_Context m) c;
       c \<leftarrow> put_each (\<lambda>ch. put_nested (ConfChangeSingle_MarshalToSizedBuffer ch) 0x12) (v2_Changes m) c;
       put_varint 0x8 (transition_u64 (v2_Transition m)) c
     })"

definition ConfChangeV2_Marshal :: "ConfChangeV2 \<Rightarrow> bytes option" where
  "ConfChangeV2_Marshal m = marshal (ConfChangeV2_Size m) (ConfChangeV2_MarshalToSizedBuffer m)"

definition ConfChangeV2_MarshalTo :: "ConfChangeV2 \<Rightarrow> bytes \<Rightarrow> (bytes \<times> nat) option" where
  "ConfChangeV2_MarshalTo m = marshal_to (ConfChangeV2_Size m) (ConfChangeV2_MarshalToSizedBuffer m)"

definition MarshalConfChange :: "ConfChangeI \<Rightarrow> (EntryType \<times> bytes) option" where
  "MarshalConfChange c =
     (let (ccv1, ok) = AsV1 c in
      if ok then do { ccdata \<leftarrow> ConfChange_Marshal ccv1; Some (EntryConfChange, ccdata) }
      else do { ccdata \<leftarrow> ConfChangeV2_Marshal (AsV2 c); Some (EntryConfChangeV2, ccdata) })"

end
