(* ===== verification/Raw_Node.thy ===== *)
theory Raw_Node
  imports Raft_Step Encode
begin

text \<open>
  The life cycle of a node: its configuration and start (\<^verbatim>\<open>newRaft\<close>), the \<^verbatim>\<open>Ready\<close> exchange with the
  application (\<^verbatim>\<open>node.go\<close>, \<^verbatim>\<open>raft.advance\<close>), the interface \<^verbatim>\<open>RawNode\<close> (\<^verbatim>\<open>rawnode.go\<close>),
  \<^verbatim>\<open>Bootstrap\<close> (\<^verbatim>\<open>bootstrap.go\<close>) and the status (\<^verbatim>\<open>status.go\<close>).
\<close>

section \<open>Starting a node\<close>

record RaftConfig =
  c_ID :: u64
  c_ElectionTick :: int
  c_HeartbeatTick :: int
  c_Storage :: "Storage option"
  c_Applied :: u64
  c_MaxSizePerMsg :: u64
  c_MaxCommittedSizePerReady :: u64
  c_MaxUncommittedEntriesSize :: u64
  c_MaxInflightMsgs :: int
  c_CheckQuorum :: bool
  c_PreVote :: bool
  c_ReadOnlyOption :: ReadOnlyOption
  c_DisableProposalForwarding :: bool

datatype ConfigErr =
    NoneAsID | HeartbeatTickNotPositive | ElectionTickTooSmall | StorageNil
  | MaxInflightNotPositive | LeaseNeedsCheckQuorum

definition validate :: "RaftConfig \<Rightarrow> ConfigErr + RaftConfig" where
  "validate c =
     (if c_ID c = None_id then Inl NoneAsID
      else if c_HeartbeatTick c \<le> 0 then Inl HeartbeatTickNotPositive
      else if c_ElectionTick c \<le> c_HeartbeatTick c then Inl ElectionTickTooSmall
      else if c_Storage c = None then Inl StorageNil
      else
        let c = (if c_MaxUncommittedEntriesSize c = 0 then c\<lparr>c_MaxUncommittedEntriesSize := noLimit\<rparr> else c);
            c = (if c_MaxCommittedSizePerReady c = 0
                 then c\<lparr>c_MaxCommittedSizePerReady := c_MaxSizePerMsg c\<rparr> else c)
        in if c_MaxInflightMsgs c \<le> 0 then Inl MaxInflightNotPositive
           else if c_ReadOnlyOption c = ReadOnlyLeaseBased \<and> \<not> c_CheckQuorum c then Inl LeaseNeedsCheckQuorum
           else Inr c)"

definition isHardStateEqual :: "HardState \<Rightarrow> HardState \<Rightarrow> bool" where
  "isHardStateEqual a b \<longleftrightarrow> hs_Term a = hs_Term b \<and> hs_Vote a = hs_Vote b \<and> hs_Commit a = hs_Commit b"

definition IsEmptyHardState :: "HardState \<Rightarrow> bool" where
  "IsEmptyHardState st = isHardStateEqual st zero_HardState"

text \<open>The composite literal of \<^verbatim>\<open>newRaft\<close>.\<close>

definition init_raft :: "RaftConfig \<Rightarrow> raftLog \<Rightarrow> (nat \<Rightarrow> nat) \<Rightarrow> raft" where
  "init_raft c raftlog rnd =
     \<lparr>r_id = c_ID c, r_Term = 0, r_Vote = 0, r_readStates = [], r_raftLog = raftlog,
      r_maxMsgSize = c_MaxSizePerMsg c, r_maxUncommittedSize = c_MaxUncommittedEntriesSize c,
      r_prs = MakeProgressTracker (nat (c_MaxInflightMsgs c)), r_state = StateFollower,
      r_isLearner = False, r_msgs = [], r_lead = None_id, r_leadTransferee = 0,
      r_pendingConfIndex = 0, r_uncommittedSize = 0, r_readOnly = newReadOnly (c_ReadOnlyOption c),
      r_electionElapsed = 0, r_heartbeatElapsed = 0, r_checkQuorum = c_CheckQuorum c,
      r_preVote = c_PreVote c, r_heartbeatTimeout = c_HeartbeatTick c,
      r_electionTimeout = c_ElectionTick c, r_randomizedElectionTimeout = 0,
      r_disableProposalForwarding = c_DisableProposalForwarding c, r_tick = NoTick, r_step = NoStep,
      r_pendingReadIndexMessages = [], r_rand = rnd, r_rand_pos = 0\<rparr>"

definition newRaft :: "RaftConfig \<Rightarrow> (nat \<Rightarrow> nat) \<Rightarrow> raft option" where
  "newRaft c rnd =
     (case validate c of
        Inl err \<Rightarrow> None
      | Inr c \<Rightarrow> do {
          storage \<leftarrow> c_Storage c;
          raftlog \<leftarrow> newLogWithSize storage (c_MaxCommittedSizePerReady c);
          (hs, cs) \<leftarrow> must_ok (st_InitialState storage);
          r \<leftarrow> restore_config cs (init_raft c raftlog rnd);
          r \<leftarrow> (if \<not> IsEmptyHardState hs then loadState hs r else Some r);
          r \<leftarrow> (if c_Applied c > 0
                then do { l \<leftarrow> rl_appliedTo (c_Applied c) (r_raftLog r); Some (r\<lparr>r_raftLog := l\<rparr>) }
                else Some r);
          r \<leftarrow> becomeFollower (r_Term r) None_id r;
          log_last r;
          Some r
        })"

section \<open>Ready\<close>

record Ready =
  rd_SoftState :: "SoftState option"
  rd_HardState :: HardState
  rd_ReadStates :: "ReadState list"
  rd_Entries :: "Entry list"
  rd_Snapshot :: Snapshot
  rd_CommittedEntries :: "Entry list"
  rd_Messages :: "Message list"
  rd_MustSync :: bool

definition SoftState_equal :: "SoftState \<Rightarrow> SoftState \<Rightarrow> bool" where
  "SoftState_equal a b \<longleftrightarrow> ss_Lead a = ss_Lead b \<and> ss_RaftState a = ss_RaftState b"

definition containsUpdates :: "Ready \<Rightarrow> bool" where
  "containsUpdates rd \<longleftrightarrow>
     rd_SoftState rd \<noteq> None \<or> \<not> IsEmptyHardState (rd_HardState rd) \<or> \<not> IsEmptySnap (rd_Snapshot rd) \<or>
     length (rd_Entries rd) > 0 \<or> length (rd_CommittedEntries rd) > 0 \<or> length (rd_Messages rd) > 0 \<or>
     length (rd_ReadStates rd) \<noteq> 0"

definition appliedCursor :: "Ready \<Rightarrow> u64" where
  "appliedCursor rd =
     (let n = length (rd_CommittedEntries rd) in
      if n > 0 then e_Index (rd_CommittedEntries rd ! (n - 1))
      else if snap_index (rd_Snapshot rd) > 0 then snap_index (rd_Snapshot rd)
      else 0)"

definition MustSync :: "HardState \<Rightarrow> HardState \<Rightarrow> nat \<Rightarrow> bool" where
  "MustSync st prevst entsnum \<longleftrightarrow> entsnum \<noteq> 0 \<or> hs_Vote st \<noteq> hs_Vote prevst \<or> hs_Term st \<noteq> hs_Term prevst"

definition newReady :: "raft \<Rightarrow> SoftState \<Rightarrow> HardState \<Rightarrow> Ready option" where
  "newReady r prevSoftSt prevHardSt =
     do {
       committed \<leftarrow> rl_nextEnts (r_raftLog r);
       let ents = rl_unstableEntries (r_raftLog r);
       Some \<lparr>rd_SoftState = (if \<not> SoftState_equal (softState r) prevSoftSt then Some (softState r) else None),
             rd_HardState = (if \<not> isHardStateEqual (hardState r) prevHardSt then hardState r else zero_HardState),
             rd_ReadStates = r_readStates r,
             rd_Entries = ents,
             rd_Snapshot = (case u_snapshot (rl_unstable (r_raftLog r)) of
                              Some s \<Rightarrow> s | None \<Rightarrow> zero_Snapshot),
             rd_CommittedEntries = committed,
             rd_Messages = r_msgs r,
             rd_MustSync = MustSync (hardState r) prevHardSt (length ents)\<rparr>
     }"

text \<open>The part of \<^verbatim>\<open>advance\<close> that starts leaving a joint configuration.\<close>

definition auto_leave :: "u64 \<Rightarrow> u64 \<Rightarrow> raft \<Rightarrow> raft option" where
  "auto_leave oldApplied newApplied r =
     (if cfg_AutoLeave (pt_Config (r_prs r)) \<and> oldApplied \<le> r_pendingConfIndex r \<and>
         newApplied \<ge> r_pendingConfIndex r \<and> r_state r = StateLeader
      then do {
        (r, ok) \<leftarrow> appendEntry [zero_Entry\<lparr>e_Type := EntryConfChangeV2\<rparr>] r;
        if \<not> ok then None
        else do { li \<leftarrow> rl_lastIndex (r_raftLog r); Some (r\<lparr>r_pendingConfIndex := li\<rparr>) }
      }
      else Some r)"

definition advance :: "Ready \<Rightarrow> raft \<Rightarrow> raft option" where
  "advance rd r =
     do {
       let r = reduceUncommittedSize (rd_CommittedEntries rd) r;
       let newApplied = appliedCursor rd;
       r \<leftarrow> (if newApplied > 0
             then do {
               let oldApplied = rl_applied (r_raftLog r);
               l \<leftarrow> rl_appliedTo newApplied (r_raftLog r);
               auto_leave oldApplied newApplied (r\<lparr>r_raftLog := l\<rparr>)
             }
             else Some r);
       r \<leftarrow> (if length (rd_Entries rd) > 0
             then
               let e = rd_Entries rd ! (length (rd_Entries rd) - 1) in
               do { l \<leftarrow> rl_stableTo (e_Index e) (e_Term e) (r_raftLog r); Some (r\<lparr>r_raftLog := l\<rparr>) }
             else Some r);
       Some (if \<not> IsEmptySnap (rd_Snapshot rd)
             then r\<lparr>r_raftLog := rl_stableSnapTo (snap_index (rd_Snapshot rd)) (r_raftLog r)\<rparr>
             else r)
     }"

section \<open>RawNode\<close>

record RawNode =
  rn_raft :: raft
  rn_prevSoftSt :: SoftState
  rn_prevHardSt :: HardState

datatype NodeErr =
    StepErr RaftErr | ErrStepLocalMsg | ErrStepPeerNotFound | NoPeers | StorageFailed StorageErr | NonemptyStorage

definition IsLocalMsg :: "MessageType \<Rightarrow> bool" where
  "IsLocalMsg t \<longleftrightarrow> t = MsgHup \<or> t = MsgBeat \<or> t = MsgUnreachable \<or> t = MsgSnapStatus \<or> t = MsgCheckQuorum"

definition IsResponseMsg :: "MessageType \<Rightarrow> bool" where
  "IsResponseMsg t \<longleftrightarrow> t = MsgAppResp \<or> t = MsgVoteResp \<or> t = MsgHeartbeatResp \<or> t = MsgUnreachable \<or>
     t = MsgPreVoteResp"

definition NewRawNode :: "RaftConfig \<Rightarrow> (nat \<Rightarrow> nat) \<Rightarrow> RawNode option" where
  "NewRawNode c rnd =
     do {
       r \<leftarrow> newRaft c rnd;
       Some \<lparr>rn_raft = r, rn_prevSoftSt = softState r, rn_prevHardSt = hardState r\<rparr>
     }"

text \<open>A step of the wrapped node, with its error.\<close>

definition rn_raft_Step :: "Message \<Rightarrow> RawNode \<Rightarrow> (RawNode \<times> NodeErr option) option" where
  "rn_raft_Step m rn =
     do {
       (r, err) \<leftarrow> Step m (rn_raft rn);
       Some (rn\<lparr>rn_raft := r\<rparr>, map_option StepErr err)
     }"

definition rn_Tick :: "RawNode \<Rightarrow> RawNode option" where
  "rn_Tick rn = do { r \<leftarrow> tick (rn_raft rn); Some (rn\<lparr>rn_raft := r\<rparr>) }"

definition rn_TickQuiesced :: "RawNode \<Rightarrow> RawNode" where
  "rn_TickQuiesced rn =
     rn\<lparr>rn_raft := (rn_raft rn)\<lparr>r_electionElapsed := r_electionElapsed (rn_raft rn) + 1\<rparr>\<rparr>"

definition rn_Campaign :: "RawNode \<Rightarrow> (RawNode \<times> NodeErr option) option" where
  "rn_Campaign rn = rn_raft_Step (mk_Message MsgHup) rn"

definition rn_Propose :: "gobytes \<Rightarrow> RawNode \<Rightarrow> (RawNode \<times> NodeErr option) option" where
  "rn_Propose data rn =
     rn_raft_Step ((mk_Message MsgProp)\<lparr>m_From := r_id (rn_raft rn), m_Entries := [zero_Entry\<lparr>e_Data := data\<rparr>]\<rparr>) rn"

definition confChangeToMsg :: "ConfChangeI \<Rightarrow> Message option" where
  "confChangeToMsg c =
     do {
       (typ, data) \<leftarrow> MarshalConfChange c;
       Some ((mk_Message MsgProp)\<lparr>m_Entries := [zero_Entry\<lparr>e_Type := typ, e_Data := Some data\<rparr>]\<rparr>)
     }"

definition rn_ProposeConfChange :: "ConfChangeI \<Rightarrow> RawNode \<Rightarrow> (RawNode \<times> NodeErr option) option" where
  "rn_ProposeConfChange cc rn = do { m \<leftarrow> confChangeToMsg cc; rn_raft_Step m rn }"

definition rn_ApplyConfChange ::
  "(ConfChangeV2 \<Rightarrow> ConfChangeV2 \<Rightarrow> bool) \<Rightarrow> ConfChangeI \<Rightarrow> RawNode \<Rightarrow> (RawNode \<times> ConfState) option" where
  "rn_ApplyConfChange proto_Equal cc rn =
     do {
       (r, cs) \<leftarrow> applyConfChange proto_Equal (AsV2 cc) (rn_raft rn);
       Some (rn\<lparr>rn_raft := r\<rparr>, cs)
     }"

definition rn_Step :: "Message \<Rightarrow> RawNode \<Rightarrow> (RawNode \<times> NodeErr option) option" where
  "rn_Step m rn =
     (if IsLocalMsg (m_Type m) then Some (rn, Some ErrStepLocalMsg)
      else if r_pr (m_From m) (rn_raft rn) \<noteq> None \<or> \<not> IsResponseMsg (m_Type m) then rn_raft_Step m rn
      else Some (rn, Some ErrStepPeerNotFound))"

definition rn_readyWithoutAccept :: "RawNode \<Rightarrow> Ready option" where
  "rn_readyWithoutAccept rn = newReady (rn_raft rn) (rn_prevSoftSt rn) (rn_prevHardSt rn)"

definition rn_acceptReady :: "Ready \<Rightarrow> RawNode \<Rightarrow> RawNode" where
  "rn_acceptReady rd rn =
     (let rn = (case rd_SoftState rd of None \<Rightarrow> rn | Some ss \<Rightarrow> rn\<lparr>rn_prevSoftSt := ss\<rparr>);
          r = rn_raft rn;
          r = (if length (rd_ReadStates rd) \<noteq> 0 then r\<lparr>r_readStates := []\<rparr> else r)
      in rn\<lparr>rn_raft := r\<lparr>r_msgs := []\<rparr>\<rparr>)"

definition rn_Ready :: "RawNode \<Rightarrow> (RawNode \<times> Ready) option" where
  "rn_Ready rn = do { rd \<leftarrow> rn_readyWithoutAccept rn; Some (rn_acceptReady rd rn, rd) }"

definition rn_HasReady :: "RawNode \<Rightarrow> bool option" where
  "rn_HasReady rn =
     (let r = rn_raft rn in
      if \<not> SoftState_equal (softState r) (rn_prevSoftSt rn) then Some True
      else if \<not> IsEmptyHardState (hardState r) \<and> \<not> isHardStateEqual (hardState r) (rn_prevHardSt rn) then Some True
      else if rl_hasPendingSnapshot (r_raftLog r) then Some True
      else if length (r_msgs r) > 0 \<or> length (rl_unstableEntries (r_raftLog r)) > 0 then Some True
      else do {
        b \<leftarrow> rl_hasNextEnts (r_raftLog r);
        Some (b \<or> length (r_readStates r) \<noteq> 0)
      })"

definition rn_Advance :: "Ready \<Rightarrow> RawNode \<Rightarrow> RawNode option" where
  "rn_Advance rd rn =
     (let rn = (if \<not> IsEmptyHardState (rd_HardState rd) then rn\<lparr>rn_prevHardSt := rd_HardState rd\<rparr> else rn) in
      do { r \<leftarrow> advance rd (rn_raft rn); Some (rn\<lparr>rn_raft := r\<rparr>) })"

definition rn_ReportUnreachable :: "u64 \<Rightarrow> RawNode \<Rightarrow> RawNode option" where
  "rn_ReportUnreachable v rn =
     map_option fst (rn_raft_Step ((mk_Message MsgUnreachable)\<lparr>m_From := v\<rparr>) rn)"

datatype SnapshotStatus = SnapshotFinish | SnapshotFailure | SnapshotStatusOther int

definition rn_ReportSnapshot :: "u64 \<Rightarrow> SnapshotStatus \<Rightarrow> RawNode \<Rightarrow> RawNode option" where
  "rn_ReportSnapshot v status rn =
     map_option fst (rn_raft_Step
       ((mk_Message MsgSnapStatus)\<lparr>m_From := v, m_Reject := (status = SnapshotFailure)\<rparr>) rn)"

definition rn_TransferLeader :: "u64 \<Rightarrow> RawNode \<Rightarrow> RawNode option" where
  "rn_TransferLeader transferee rn =
     map_option fst (rn_raft_Step ((mk_Message MsgTransferLeader)\<lparr>m_From := transferee\<rparr>) rn)"

definition rn_ReadIndex :: "gobytes \<Rightarrow> RawNode \<Rightarrow> RawNode option" where
  "rn_ReadIndex rctx rn =
     map_option fst (rn_raft_Step
       ((mk_Message MsgReadIndex)\<lparr>m_Entries := [zero_Entry\<lparr>e_Data := rctx\<rparr>]\<rparr>) rn)"

section \<open>Bootstrapping\<close>

record Peer =
  peer_ID :: u64
  peer_Context :: gobytes

fun bootstrap_entries :: "nat \<Rightarrow> Peer list \<Rightarrow> Entry list option" where
  "bootstrap_entries i [] = Some []"
| "bootstrap_entries i (p # ps) =
     do {
       data \<leftarrow> ConfChange_Marshal (zero_ConfChange\<lparr>cc_Type := ConfChangeAddNode, cc_NodeID := peer_ID p,
                cc_Context := peer_Context p\<rparr>);
       es \<leftarrow> bootstrap_entries (Suc i) ps;
       Some (\<lparr>e_Term = 1, e_Index = of_nat (i + 1), e_Type = EntryConfChange, e_Data = Some data\<rparr> # es)
     }"

fun bootstrap_apply :: "(ConfChangeV2 \<Rightarrow> ConfChangeV2 \<Rightarrow> bool) \<Rightarrow> Peer list \<Rightarrow> raft \<Rightarrow> raft option" where
  "bootstrap_apply proto_Equal [] r = Some r"
| "bootstrap_apply proto_Equal (p # ps) r =
     do {
       (r, _) \<leftarrow> applyConfChange proto_Equal
          (AsV2 (CCv1 (zero_ConfChange\<lparr>cc_NodeID := peer_ID p, cc_Type := ConfChangeAddNode\<rparr>))) r;
       bootstrap_apply proto_Equal ps r
     }"

definition rn_Bootstrap ::
  "(ConfChangeV2 \<Rightarrow> ConfChangeV2 \<Rightarrow> bool) \<Rightarrow> Peer list \<Rightarrow> RawNode \<Rightarrow> (RawNode \<times> NodeErr option) option" where
  "rn_Bootstrap proto_Equal peers rn =
     (if length peers = 0 then Some (rn, Some NoPeers)
      else do {
        res \<leftarrow> st_LastIndex (rl_storage (r_raftLog (rn_raft rn)));
        case res of
          Inl err \<Rightarrow> Some (rn, Some (StorageFailed err))
        | Inr lastIndex \<Rightarrow>
            if lastIndex \<noteq> 0 then Some (rn, Some NonemptyStorage)
            else do {
              r \<leftarrow> becomeFollower 1 None_id (rn_raft rn);
              ents \<leftarrow> bootstrap_entries 0 peers;
              (l, _) \<leftarrow> rl_append ents (r_raftLog r);
              r \<leftarrow> bootstrap_apply proto_Equal peers
                     (r\<lparr>r_raftLog := l\<lparr>rl_committed := of_nat (length ents)\<rparr>\<rparr>);
              Some (rn\<lparr>rn_prevHardSt := zero_HardState, rn_raft := r\<rparr>, None)
            }
      })"

section \<open>Status\<close>

record BasicStatus =
  bs_ID :: u64
  bs_HardState :: HardState
  bs_SoftState :: SoftState
  bs_Applied :: u64
  bs_LeadTransferee :: u64

record Status =
  st_BasicStatus :: BasicStatus
  st_Config :: TrackerConfig
  st_Progress :: ProgressMap

definition getProgressCopy :: "raft \<Rightarrow> ProgressMap" where
  "getProgressCopy r =
     foldl (\<lambda>m v. case r_pr v r of
                    None \<Rightarrow> m
                  | Some pr \<Rightarrow> Mapping.update v (pr\<lparr>pr_Inflights := Inflights_Clone (pr_Inflights pr)\<rparr>) m)
       Mapping.empty (Visit_ids (pt_Progress (r_prs r)))"

definition getBasicStatus :: "raft \<Rightarrow> BasicStatus" where
  "getBasicStatus r =
     \<lparr>bs_ID = r_id r, bs_HardState = hardState r, bs_SoftState = softState r,
      bs_Applied = rl_applied (r_raftLog r), bs_LeadTransferee = r_leadTransferee r\<rparr>"

definition getStatus :: "raft \<Rightarrow> Status" where
  "getStatus r =
     \<lparr>st_BasicStatus = getBasicStatus r,
      st_Config = Config_Clone (pt_Config (r_prs r)),
      st_Progress = (if r_state r = StateLeader then getProgressCopy r else Mapping.empty)\<rparr>"

end
