(* ===== verification/Cluster.thy ===== *)
theory Cluster
  imports Raft_Safety Raw_Node
begin

text \<open>
  A cluster of nodes that talk over a network. Each member runs a \<^verbatim>\<open>RawNode\<close> on a \<^verbatim>\<open>MemoryStorage\<close>, which
  is what its application has written to disk. Messages may be lost, delayed, reordered and delivered
  more than once; members may crash between any two steps and restart from their disk. The application
  follows the contract of \<^verbatim>\<open>Ready\<close> (\<^verbatim>\<open>raft/doc.go\<close>): it takes a \<^verbatim>\<open>Ready\<close>, writes its hard state, snapshot and
  entries to the storage in one step, which releases all its messages, and calls \<^verbatim>\<open>Advance\<close> before it takes
  the next; the node may be called in between. Messages that do not answer a request for a vote may
  leave before the write, as those of a leader do that writes while it replicates. The application may
  also create snapshots in the storage and compact it. The main result is election safety: no two
  members lead in the same term.
\<close>

section \<open>Calls on a RawNode\<close>

datatype rn_call =
    CallTick | CallTickQuiesced | CallCampaign | CallPropose gobytes | CallProposeConfChange ConfChangeI
  | CallApplyConfChange ConfChangeI | CallStep Message | CallReportUnreachable u64
  | CallReportSnapshot u64 SnapshotStatus | CallTransferLeader u64 | CallReadIndex gobytes

definition run_call :: "(ConfChangeV2 \<Rightarrow> ConfChangeV2 \<Rightarrow> bool) \<Rightarrow> rn_call \<Rightarrow> RawNode \<Rightarrow> RawNode option" where
  "run_call proto_Equal c rn =
     (case c of
        CallTick \<Rightarrow> rn_Tick rn
      | CallTickQuiesced \<Rightarrow> Some (rn_TickQuiesced rn)
      | CallCampaign \<Rightarrow> map_option fst (rn_Campaign rn)
      | CallPropose data \<Rightarrow> map_option fst (rn_Propose data rn)
      | CallProposeConfChange cc \<Rightarrow> map_option fst (rn_ProposeConfChange cc rn)
      | CallApplyConfChange cc \<Rightarrow> map_option fst (rn_ApplyConfChange proto_Equal cc rn)
      | CallStep m \<Rightarrow> map_option fst (rn_Step m rn)
      | CallReportUnreachable v \<Rightarrow> rn_ReportUnreachable v rn
      | CallReportSnapshot v st \<Rightarrow> rn_ReportSnapshot v st rn
      | CallTransferLeader v \<Rightarrow> rn_TransferLeader v rn
      | CallReadIndex ctx \<Rightarrow> rn_ReadIndex ctx rn)"

text \<open>The message a call hands to the node, if it came from the network.\<close>

definition call_msg :: "rn_call \<Rightarrow> Message" where
  "call_msg c = (case c of CallStep m \<Rightarrow> m | _ \<Rightarrow> local_msg)"

definition moved :: "Message \<Rightarrow> raft \<Rightarrow> raft \<Rightarrow> bool" where
  "moved m r r' \<longleftrightarrow> vote_kept r r' \<and> role_ok r' \<and> role_moves m r r' \<and> sends (honest r r') r r'"

lemma safe_moved: "safe_step m r r' \<Longrightarrow> role_ok r \<Longrightarrow> moved m r r'"
  by (simp add: safe_step_def moved_def)

lemma evolves_moved: "evolves m r r' \<Longrightarrow> role_ok r \<Longrightarrow> moved m r r'"
  by (simp add: safe_moved evolves_safe)

lemma raft_Step_moved:
  assumes "rn_raft_Step m rn = Some (rn', e)" "role_ok (rn_raft rn)" "r_Term (rn_raft rn) < MaxUint64"
    "m_Term m < MaxUint64" "well_termed m"
  shows "moved m (rn_raft rn) (rn_raft rn') \<and> rn_prevSoftSt rn' = rn_prevSoftSt rn \<and> rn_prevHardSt rn' = rn_prevHardSt rn"
  using assms by (auto simp: rn_raft_Step_def panic_simps ret_simps intro!: safe_moved Step_safe)

lemma local_moved: "moved m r r' \<Longrightarrow> \<not> granted m \<Longrightarrow> moved local_msg r r'"
  by (auto simp: moved_def role_moves_def elected_def supports_def)

lemma local_Step_moved:
  assumes "rn_raft_Step m rn = Some (rn', e)" "role_ok (rn_raft rn)" "r_Term (rn_raft rn) < MaxUint64"
    "m_Term m = 0" "m_Type m \<notin> {MsgApp, MsgHeartbeat, MsgSnap, MsgVoteResp}"
  shows "moved local_msg (rn_raft rn) (rn_raft rn') \<and> rn_prevHardSt rn' = rn_prevHardSt rn"
proof -
  have "\<not> granted m" using assms(5) by (auto simp: granted_def)
  moreover have "m_Term m < MaxUint64" by (simp add: assms(4) word_gt_0)
  ultimately show ?thesis
    using raft_Step_moved [OF assms(1-3)] assms(5) well_termed_local local_moved by blast
qed

section \<open>Configuration changes that keep the voters\<close>

lemma switchToConfig_quiet:
  assumes "switchToConfig cfg prs r = Some (r', cs)"
  shows "\<exists>b. quiet (r\<lparr>r_prs := (r_prs r)\<lparr>pt_Config := cfg, pt_Progress := prs\<rparr>, r_isLearner := b\<rparr>) r' \<and>
    (r_state r = StateLeader \<or> r_msgs r' = r_msgs r)"
proof -
  have v: "quiet x y" if "visit (\<lambda>v r. map_option fst (maybeSendAppend v False r)) x = Some y" for x y
    by (rule visit_quiet [OF _ that]) (auto dest: maybeSendAppend_quiet)
  define r0 where "r0 = r\<lparr>r_prs := (r_prs r)\<lparr>pt_Config := cfg, pt_Progress := prs\<rparr>\<rparr>"
  define b where "b = (case r_pr (r_id r0) r0 of None \<Rightarrow> False | Some pr \<Rightarrow> pr_IsLearner pr)"
  define r1 where "r1 = r0\<lparr>r_isLearner := b\<rparr>"
  note r1_fold = r0_def [symmetric] b_def [symmetric] r1_def [symmetric]
  let ?bcast = "\<lambda>c x. if c then bcastAppend x else visit (\<lambda>v r. map_option fst (maybeSendAppend v False r)) x"
  have f: "r_state r1 = r_state r" "r_id r1 = r_id r" "r_msgs r1 = r_msgs r" by (simp_all add: r1_def r0_def)
  consider "r' = r1"
    | r2 c r3 where "r_state r = StateLeader" "maybeCommit r1 = Some (r2, c)" "?bcast c r2 = Some r3"
        "r' = r3 \<or> r' = abortLeaderTransfer r3"
  proof -
    have "r' = r1 \<or> (r_state r = StateLeader \<and> (\<exists>r2 c r3. maybeCommit r1 = Some (r2, c) \<and> ?bcast c r2 = Some r3 \<and>
        (r' = r3 \<or> r' = abortLeaderTransfer r3)))"
      using assms unfolding switchToConfig_def Let_def r1_fold if_Some_iff bind_Some_iff case_prod_Some_iff f by force
    then show thesis using that by blast
  qed
  then show ?thesis
  proof cases
    case 1
    then show ?thesis unfolding r1_def r0_def by fastforce
  next
    case (2 r2 c r3)
    have "quiet r1 r2" "quiet r2 r3" using 2 maybeCommit_quiet bcastAppend_quiet v by (auto split: if_splits)
    then have "quiet r1 r3" by (rule quiet_trans)
    then have "quiet r1 r'" using 2(4) by (auto simp: abortLeaderTransfer_def)
    then show ?thesis using 2(1) unfolding r1_def r0_def by blast
  qed
qed

lemma switchToConfig_evolves:
  assumes "switchToConfig cfg prs r = Some (r', cs)" "voters r' = voters r"
  shows "evolves m r r'"
proof -
  obtain b where q: "quiet (r\<lparr>r_prs := (r_prs r)\<lparr>pt_Config := cfg, pt_Progress := prs\<rparr>, r_isLearner := b\<rparr>) r'"
      (is "quiet ?r r'") and l: "r_state r = StateLeader \<or> r_msgs r' = r_msgs r"
    using switchToConfig_quiet [OF assms(1)] by blast
  have "voters ?r = voters r" using q assms(2) by (simp add: quiet_def role_def)
  then have "quiet r ?r" by (simp add: quiet_def role_def sends_def)
  then have "quiet r r'" using q by (rule quiet_trans)
  then show ?thesis using l leader_term by (blast intro: quiet_evolves silent_evolves)
qed

lemma applyConfChange_evolves:
  assumes "applyConfChange proto_Equal cc r = Some (r', cs)" "voters r' = voters r"
  shows "evolves m r r'"
proof -
  obtain cfg prs where "switchToConfig cfg prs r = Some (r', cs)"
    using assms(1) by (auto simp: applyConfChange_def panic_simps ret_simps Let_def)
  then show ?thesis using assms(2) by (rule switchToConfig_evolves)
qed

text \<open>Every call moves the node.\<close>

lemma run_call_moved:
  assumes "run_call proto_Equal c rn = Some rn'" "role_ok (rn_raft rn)" "r_Term (rn_raft rn) < MaxUint64"
    "voters (rn_raft rn') = voters (rn_raft rn)" "m_Term (call_msg c) < MaxUint64" "well_termed (call_msg c)"
  shows "moved (call_msg c) (rn_raft rn) (rn_raft rn') \<and> rn_prevHardSt rn' = rn_prevHardSt rn"
proof (cases c)
  case CallTick
  then obtain r' where "tick (rn_raft rn) = Some r'" "rn' = rn\<lparr>rn_raft := r'\<rparr>"
    using assms(1) by (auto simp: run_call_def rn_Tick_def panic_simps)
  then show ?thesis using tick_evolves assms(2,3) CallTick by (auto simp: call_msg_def intro: evolves_moved)
next
  case CallTickQuiesced
  then show ?thesis
    using assms(1,2) by (auto simp: run_call_def rn_TickQuiesced_def call_msg_def intro!: evolves_moved silent_evolves)
next
  case (CallApplyConfChange cc)
  then obtain r' cs where "applyConfChange proto_Equal (AsV2 cc) (rn_raft rn) = Some (r', cs)" "rn' = rn\<lparr>rn_raft := r'\<rparr>"
    using assms(1) by (auto simp: run_call_def rn_ApplyConfChange_def panic_simps ret_simps)
  then show ?thesis
    using applyConfChange_evolves assms(2,4) CallApplyConfChange by (auto simp: call_msg_def intro: evolves_moved)
next
  case (CallStep m)
  then obtain e where "rn_Step m rn = Some (rn', e)" using assms(1) by (auto simp: run_call_def)
  then consider "rn' = rn" | "rn_raft_Step m rn = Some (rn', e)" by (auto simp: rn_Step_def split: if_splits)
  then show ?thesis
    using raft_Step_moved assms(2,3,5,6) CallStep by cases (auto simp: call_msg_def evolves_moved)
next
  case (CallProposeConfChange cc)
  then obtain x e where "confChangeToMsg cc = Some x" "rn_raft_Step x rn = Some (rn', e)"
    using assms(1) by (auto simp: run_call_def rn_ProposeConfChange_def panic_simps)
  moreover from this have "m_Term x = 0" "m_Type x = MsgProp"
    by (auto simp: confChangeToMsg_def panic_simps ret_simps)
  ultimately show ?thesis using local_Step_moved assms(2,3) CallProposeConfChange by (simp add: call_msg_def)
qed (use assms(1-3) local_Step_moved in \<open>auto simp: run_call_def call_msg_def rn_Campaign_def rn_Propose_def
      rn_ReportUnreachable_def rn_ReportSnapshot_def rn_TransferLeader_def rn_ReadIndex_def\<close>)

section \<open>The cluster\<close>

record member =
  mb_node :: RawNode
  mb_disk :: MemoryStorage
  mb_ready :: "Ready option"
  mb_saved :: bool

record cluster =
  cl_members :: "u64 \<rightharpoonup> member"
  cl_net :: "Message set"

abbreviation mb_raft :: "member \<Rightarrow> raft" where
  "mb_raft n \<equiv> rn_raft (mb_node n)"

text \<open>A member that (re)starts from its disk.\<close>

definition starts :: "u64 \<Rightarrow> MemoryStorage \<Rightarrow> member \<Rightarrow> bool" where
  "starts i ms n \<longleftrightarrow>
     (\<exists>c rnd. c_ID c = i \<and> c_Storage c = Some (MemoryStorage_Storage ms) \<and> NewRawNode c rnd = Some (mb_node n)) \<and>
     mb_disk n = ms \<and> mb_ready n = None \<and> \<not> mb_saved n"

text \<open>The assumptions on an execution: the voters stay \<open>C\<close> and terms stay below the largest word.\<close>

definition within :: "JointConfig \<Rightarrow> member \<Rightarrow> bool" where
  "within C n \<longleftrightarrow> voters (mb_raft n) = C \<and> r_Term (mb_raft n) < MaxUint64"

definition cluster_init :: "JointConfig \<Rightarrow> cluster \<Rightarrow> bool" where
  "cluster_init C s \<longleftrightarrow> cl_net s = {} \<and>
     (\<forall>i n. cl_members s i = Some n \<longrightarrow> starts i (mb_disk n) n \<and> within C n)"

definition persist :: "Ready \<Rightarrow> HardState \<Rightarrow> HardState" where
  "persist rd hs = (if IsEmptyHardState (rd_HardState rd) then hs else rd_HardState rd)"

text \<open>What is written of a \<^verbatim>\<open>Ready\<close>; a snapshot that the storage finds outdated is left out.\<close>

definition save_ready :: "Ready \<Rightarrow> MemoryStorage \<Rightarrow> MemoryStorage option" where
  "save_ready rd ms = do {
     let ms = (if IsEmptyHardState (rd_HardState rd) then ms else ms_SetHardState (rd_HardState rd) ms);
     let ms = (if IsEmptySnap (rd_Snapshot rd) then ms else (case ms_ApplySnapshot (rd_Snapshot rd) ms of Inl _ \<Rightarrow> ms | Inr ms \<Rightarrow> ms));
     ms_Append (rd_Entries rd) ms
   }"

text \<open>The storage of a node is that of its application, so what is written is at once what the node reads.\<close>

definition on_storage :: "MemoryStorage \<Rightarrow> RawNode \<Rightarrow> RawNode" where
  "on_storage ms rn = rn\<lparr>rn_raft := (rn_raft rn)\<lparr>r_raftLog := (r_raftLog (rn_raft rn))\<lparr>rl_storage := MemoryStorage_Storage ms\<rparr>\<rparr>\<rparr>"

text \<open>Work on the storage that is not asked for by a \<^verbatim>\<open>Ready\<close>.\<close>

datatype storage_call = StorageCompact u64 | StorageCreateSnapshot u64 "ConfState option" gobytes

fun run_storage_call :: "storage_call \<Rightarrow> MemoryStorage \<Rightarrow> MemoryStorage option" where
  "run_storage_call (StorageCompact i) ms = do { res \<leftarrow> ms_Compact i ms; Some (case res of Inl _ \<Rightarrow> ms | Inr ms \<Rightarrow> ms) }"
| "run_storage_call (StorageCreateSnapshot i cs data) ms =
     do { res \<leftarrow> ms_CreateSnapshot i cs data ms; Some (case res of Inl _ \<Rightarrow> ms | Inr (ms, _) \<Rightarrow> ms) }"

inductive cluster_step :: "JointConfig \<Rightarrow> cluster \<Rightarrow> cluster \<Rightarrow> bool" for C where
  Call: "\<lbrakk>cl_members s i = Some n;
      \<And>m. c = CallStep m \<Longrightarrow> m \<in> cl_net s \<and> m_To m = i \<and> m_Term m < MaxUint64;
      run_call proto_Equal c (mb_node n) = Some rn; n' = n\<lparr>mb_node := rn\<rparr>; within C n'\<rbrakk>
    \<Longrightarrow> cluster_step C s (s\<lparr>cl_members := (cl_members s)(i \<mapsto> n')\<rparr>)"
| Ready: "\<lbrakk>cl_members s i = Some n; mb_ready n = None; rn_Ready (mb_node n) = Some (rn, rd);
      n' = n\<lparr>mb_node := rn, mb_ready := Some rd, mb_saved := False\<rparr>\<rbrakk>
    \<Longrightarrow> cluster_step C s (s\<lparr>cl_members := (cl_members s)(i \<mapsto> n')\<rparr>)"
| Send: "\<lbrakk>cl_members s i = Some n; mb_ready n = Some rd; \<not> mb_saved n; m \<in> set (rd_Messages rd); m_Type m \<noteq> MsgVoteResp\<rbrakk>
    \<Longrightarrow> cluster_step C s (s\<lparr>cl_net := insert m (cl_net s)\<rparr>)"
| Save: "\<lbrakk>cl_members s i = Some n; mb_ready n = Some rd; \<not> mb_saved n; save_ready rd (mb_disk n) = Some ms;
      n' = n\<lparr>mb_node := on_storage ms (mb_node n), mb_disk := ms, mb_saved := True\<rparr>\<rbrakk>
    \<Longrightarrow> cluster_step C s (s\<lparr>cl_members := (cl_members s)(i \<mapsto> n'), cl_net := cl_net s \<union> set (rd_Messages rd)\<rparr>)"
| Advance: "\<lbrakk>cl_members s i = Some n; mb_ready n = Some rd; mb_saved n; rn_Advance rd (mb_node n) = Some rn;
      n' = n\<lparr>mb_node := rn, mb_ready := None, mb_saved := False\<rparr>\<rbrakk>
    \<Longrightarrow> cluster_step C s (s\<lparr>cl_members := (cl_members s)(i \<mapsto> n')\<rparr>)"
| Maintain: "\<lbrakk>cl_members s i = Some n; run_storage_call c (mb_disk n) = Some ms;
      n' = n\<lparr>mb_node := on_storage ms (mb_node n), mb_disk := ms\<rparr>\<rbrakk>
    \<Longrightarrow> cluster_step C s (s\<lparr>cl_members := (cl_members s)(i \<mapsto> n')\<rparr>)"
| Restart: "\<lbrakk>cl_members s i = Some n; starts i (mb_disk n) n'; within C n'\<rbrakk>
    \<Longrightarrow> cluster_step C s (s\<lparr>cl_members := (cl_members s)(i \<mapsto> n')\<rparr>)"

inductive cluster_reachable :: "JointConfig \<Rightarrow> cluster \<Rightarrow> bool" for C where
  Init: "cluster_init C s \<Longrightarrow> cluster_reachable C s"
| Step: "cluster_reachable C s \<Longrightarrow> cluster_step C s s' \<Longrightarrow> cluster_reachable C s'"

section \<open>The invariant\<close>

text \<open>A granted vote is bounded by a term and vote if it is older or names the vote.\<close>

definition bounded :: "u64 \<Rightarrow> u64 \<Rightarrow> Message \<Rightarrow> bool" where
  "bounded trm vote x \<longleftrightarrow> m_Term x < trm \<or> (m_Term x = trm \<and> m_To x = vote)"

definition grant_of :: "u64 \<Rightarrow> Message \<Rightarrow> bool" where
  "grant_of i x \<longleftrightarrow> granted x \<and> m_From x = i \<and> m_To x \<noteq> None_id"

definition unique_grants :: "u64 \<Rightarrow> Message set \<Rightarrow> bool" where
  "unique_grants i X \<longleftrightarrow> (\<forall>x \<in> X. \<forall>y \<in> X. grant_of i x \<and> grant_of i y \<and> m_Term x = m_Term y \<longrightarrow> m_To x = m_To y)"

definition backs :: "Message set \<Rightarrow> raft \<Rightarrow> u64 \<Rightarrow> bool" where
  "backs net r v \<longleftrightarrow> v = r_id r \<or> (\<exists>x \<in> net. grant_of v x \<and> m_To x = r_id r \<and> m_Term x = r_Term r)"

definition votes_backed :: "Message set \<Rightarrow> raft \<Rightarrow> bool" where
  "votes_backed net r \<longleftrightarrow>
     (r_state r = StateCandidate \<longrightarrow> (\<forall>v. votes r v = Some True \<longrightarrow> backs net r v)) \<and>
     (r_state r = StateLeader \<longrightarrow>
        (\<exists>vs. joint_VoteResult (voters r) vs = VoteWon \<and> (\<forall>v. vs v = Some True \<longrightarrow> backs net r v)))"

definition disk_behind :: "HardState \<Rightarrow> raft \<Rightarrow> bool" where
  "disk_behind hs r \<longleftrightarrow> hs_Term hs \<le> r_Term r \<and>
     (hs_Term hs = r_Term r \<longrightarrow> hs_Vote hs = None_id \<or> hs_Vote hs = r_Vote r)"

definition same_vote :: "HardState \<Rightarrow> HardState \<Rightarrow> bool" where
  "same_vote a b \<longleftrightarrow> hs_Term a = hs_Term b \<and> hs_Vote a = hs_Vote b"

text \<open>The hard state on disk once a pending \<^verbatim>\<open>Ready\<close> is written, and the messages that wait for it.\<close>

definition goal_state :: "member \<Rightarrow> HardState" where
  "goal_state n = (case mb_ready n of Some rd \<Rightarrow> if mb_saved n then ms_hardState (mb_disk n) else persist rd (ms_hardState (mb_disk n))
     | None \<Rightarrow> ms_hardState (mb_disk n))"

definition held :: "member \<Rightarrow> Message set" where
  "held n = (case mb_ready n of Some rd \<Rightarrow> if mb_saved n then {} else set (rd_Messages rd) | None \<Rightarrow> {})"

definition disk_synced :: "member \<Rightarrow> bool" where
  "disk_synced n \<longleftrightarrow>
     same_vote (case mb_ready n of
        None \<Rightarrow> rn_prevHardSt (mb_node n)
      | Some rd \<Rightarrow> if IsEmptyHardState (rd_HardState rd) then rn_prevHardSt (mb_node n) else rd_HardState rd) (goal_state n)"

definition member_inv :: "JointConfig \<Rightarrow> Message set \<Rightarrow> u64 \<Rightarrow> member \<Rightarrow> bool" where
  "member_inv C net i n \<longleftrightarrow>
     r_id (mb_raft n) = i \<and> role_ok (mb_raft n) \<and> within C n \<and>
     disk_behind (goal_state n) (mb_raft n) \<and> disk_synced n \<and>
     (\<forall>x \<in> held n \<union> set (r_msgs (mb_raft n)). well_termed x \<and> (granted x \<longrightarrow> m_From x = i)) \<and>
     (\<forall>x \<in> set (r_msgs (mb_raft n)). grant_of i x \<longrightarrow> bounded (r_Term (mb_raft n)) (r_Vote (mb_raft n)) x) \<and>
     (\<forall>x \<in> net \<union> held n. grant_of i x \<longrightarrow> bounded (hs_Term (goal_state n)) (hs_Vote (goal_state n)) x) \<and>
     (\<forall>x \<in> net. grant_of i x \<longrightarrow> bounded (hs_Term (ms_hardState (mb_disk n))) (hs_Vote (ms_hardState (mb_disk n))) x) \<and>
     unique_grants i (net \<union> held n \<union> set (r_msgs (mb_raft n))) \<and>
     votes_backed net (mb_raft n)"

definition cluster_inv :: "JointConfig \<Rightarrow> cluster \<Rightarrow> bool" where
  "cluster_inv C s \<longleftrightarrow>
     (\<forall>i n. cl_members s i = Some n \<longrightarrow> member_inv C (cl_net s) i n) \<and>
     (\<forall>x \<in> cl_net s. well_termed x \<and> (granted x \<longrightarrow> m_From x \<in> dom (cl_members s)))"

subsection \<open>Starting\<close>

lemma loadState_facts:
  assumes "loadState hs r = Some r'"
  shows "\<exists>l. r' = r\<lparr>r_raftLog := l, r_Term := hs_Term hs, r_Vote := hs_Vote hs\<rparr>"
  using assms by (auto simp: loadState_def panic_simps split: if_splits)

lemma newRaft_facts:
  assumes "newRaft c rnd = Some r" "c_Storage c = Some storage" "st_InitialState storage = Some (Inr (hs, cs))"
  shows "r_id r = c_ID c \<and> role_ok r \<and> r_state r = StateFollower \<and> r_Term r = hs_Term hs \<and>
    r_Vote r = hs_Vote hs \<and> r_msgs r = []"
proof -
  obtain c' where c': "validate c = Inr c'" using assms(1) by (auto simp: newRaft_def split: sum.splits)
  have v: "c_ID c \<noteq> None_id" "c_ID c' = c_ID c" "c_Storage c' = Some storage"
    using c' assms(2) by (auto simp: validate_def Let_def split: if_splits)
  obtain l r1 r2 r3 where r1: "restore_config cs (init_raft c' l rnd) = Some r1"
      and r2: "(if \<not> IsEmptyHardState hs then loadState hs r1 else Some r1) = Some r2"
      and r3: "(if c_Applied c' > 0 then do { l \<leftarrow> rl_appliedTo (c_Applied c') (r_raftLog r2); Some (r2\<lparr>r_raftLog := l\<rparr>) }
        else Some r2) = Some r3"
      and r: "becomeFollower (r_Term r3) None_id r3 = Some r"
    using assms(1,3) v(3) c' by (auto simp: newRaft_def must_ok_def panic_simps ret_simps)
  have 1: "r_id r1 = c_ID c" "r_Term r1 = 0" "r_Vote r1 = 0" "r_msgs r1 = []"
    using restore_config_idle [OF r1] v(2) by (auto simp: init_raft_def)
  have 2: "r_id r2 = c_ID c" "r_Term r2 = hs_Term hs" "r_Vote r2 = hs_Vote hs" "r_msgs r2 = []"
    using r2 1 by (auto simp: IsEmptyHardState_def isHardStateEqual_def zero_HardState_def split: if_splits
        dest!: loadState_facts)
  have 3: "r_id r3 = c_ID c" "r_Term r3 = hs_Term hs" "r_Vote r3 = hs_Vote hs" "r_msgs r3 = []"
    using r3 2 by (auto simp: panic_simps split: if_splits)
  note b = becomeFollower_evolves [OF r order_refl, of local_msg]
  have "r_id r = r_id r3" using conjunct1 [OF b] by (simp add: evolves_def vote_kept_def)
  then show ?thesis using conjunct2 [OF b] 3 v(1) by simp
qed

lemma starts_inv:
  assumes "starts i ms n" "within C n" "\<forall>x \<in> net. grant_of i x \<longrightarrow> bounded (hs_Term (ms_hardState ms)) (hs_Vote (ms_hardState ms)) x"
    "unique_grants i net"
  shows "member_inv C net i n"
proof -
  obtain c rnd where c: "c_ID c = i" "c_Storage c = Some (MemoryStorage_Storage ms)" "NewRawNode c rnd = Some (mb_node n)"
    using assms(1) by (auto simp: starts_def)
  have st: "st_InitialState (MemoryStorage_Storage ms) = Some (Inr (ms_hardState ms, sm_ConfState (s_Metadata (ms_snapshot ms))))"
    by (simp add: MemoryStorage_Storage_def ms_InitialState_def)
  obtain r where r: "newRaft c rnd = Some r" "mb_node n = \<lparr>rn_raft = r, rn_prevSoftSt = softState r, rn_prevHardSt = hardState r\<rparr>"
    using c(3) by (auto simp: NewRawNode_def panic_simps)
  have n: "mb_disk n = ms" "mb_ready n = None" "mb_raft n = r" using assms(1) r(2) by (simp_all add: starts_def)
  have g: "goal_state n = ms_hardState ms" "held n = {}" using n by (simp_all add: goal_state_def held_def)
  note f = newRaft_facts [OF r(1) c(2) st]
  have d: "disk_behind (ms_hardState ms) r" "disk_synced n" "votes_backed net r"
    using f n g r(2) by (simp_all add: disk_behind_def disk_synced_def same_vote_def hardState_def votes_backed_def)
  have m: "r_id r = i" "role_ok r" "r_msgs r = []" using f c(1) by simp_all
  show ?thesis unfolding member_inv_def n g m(3) using assms(2-4) d m by simp
qed

subsection \<open>Steps of one member\<close>

lemma backs_mono: "backs net r v \<Longrightarrow> net \<subseteq> net' \<Longrightarrow> backs net' r v"
  by (auto simp: backs_def)

lemma votes_backed_mono: "votes_backed net r \<Longrightarrow> net \<subseteq> net' \<Longrightarrow> votes_backed net' r"
  unfolding votes_backed_def using backs_mono by metis

lemma supports_backs:
  assumes "supports m r r' v" "vote_kept r r'" "votes_backed net r"
    "granted m \<Longrightarrow> m \<in> net \<and> m_To m = r_id r" "r_id r \<noteq> None_id"
  shows "backs net r' v"
proof -
  have i: "r_id r' = r_id r" using assms(2) by (simp add: vote_kept_def)
  consider "v = r_id r" | "r_state r = StateCandidate" "r_Term r' = r_Term r" "votes r v = Some True"
    | "granted m" "m_From m = v" "m_Term m = r_Term r'"
    using assms(1) unfolding supports_def by blast
  then show ?thesis
  proof cases
    case 2
    then have "backs net r v" using assms(3) by (simp add: votes_backed_def)
    then show ?thesis using i 2(2) by (simp add: backs_def)
  next
    case 3
    then show ?thesis using assms(4,5) i by (auto simp: backs_def grant_of_def)
  qed (simp add: backs_def i)
qed

lemma moved_votes_backed:
  assumes "moved m r r'" "votes_backed net r" "granted m \<Longrightarrow> m \<in> net \<and> m_To m = r_id r" "r_id r \<noteq> None_id"
  shows "votes_backed net r'"
proof -
  have k: "vote_kept r r'" "role_moves m r r'" using assms(1) by (simp_all add: moved_def)
  have s: "supports m r r' v \<Longrightarrow> backs net r' v" for v using supports_backs k(1) assms(2-4) by blast
  have "\<exists>vs. joint_VoteResult (voters r') vs = VoteWon \<and> (\<forall>v. vs v = Some True \<longrightarrow> backs net r' v)"
    if l: "r_state r' = StateLeader"
  proof -
    consider "r_state r = StateLeader" "r_Term r' = r_Term r" "voters r' = voters r" | "elected m r r'"
      using k(2) l by (auto simp: role_moves_def)
    then show ?thesis
    proof cases
      case 1
      then show ?thesis using assms(2) k(1) by (auto simp: votes_backed_def backs_def vote_kept_def)
    next
      case 2
      then show ?thesis using s by (auto simp: elected_def)
    qed
  qed
  moreover have "backs net r' v" if "r_state r' = StateCandidate" "votes r' v = Some True" for v
    using that k(2) s by (auto simp: role_moves_def)
  ultimately show ?thesis by (simp add: votes_backed_def)
qed

lemma bounded_vote_kept:
  assumes "bounded (r_Term r) (r_Vote r) x" "vote_kept r r'" "m_To x \<noteq> None_id"
  shows "bounded (r_Term r') (r_Vote r') x"
  using assms unfolding bounded_def vote_kept_def by (metis order_less_le_trans order_le_less)

lemma disk_behind_vote_kept: "disk_behind hs r \<Longrightarrow> vote_kept r r' \<Longrightarrow> disk_behind hs r'"
  unfolding disk_behind_def vote_kept_def by (metis order_antisym order_trans)

lemma disk_behind_bounded:
  "disk_behind hs r \<Longrightarrow> bounded (hs_Term hs) (hs_Vote hs) x \<Longrightarrow> m_To x \<noteq> None_id \<Longrightarrow> bounded (r_Term r) (r_Vote r) x"
  unfolding disk_behind_def bounded_def by (metis order_less_le_trans order_le_less)

text \<open>Grants bounded by the old term and vote agree with a new one.\<close>

lemma unique_grants_extend:
  assumes "unique_grants i X" "\<And>x. x \<in> X \<Longrightarrow> grant_of i x \<Longrightarrow> bounded (r_Term r) (r_Vote r) x" "vote_kept r r'"
    "\<And>y. y \<in> Y \<Longrightarrow> grant_of i y \<Longrightarrow> m_Term y = r_Term r' \<and> m_To y = r_Vote r'"
  shows "unique_grants i (X \<union> Y)"
proof -
  have b: "m_To x = m_To y" if "x \<in> X" "y \<in> Y" "grant_of i x" "grant_of i y" "m_Term x = m_Term y" for x y
  proof -
    have "bounded (r_Term r') (r_Vote r') x"
      using bounded_vote_kept [OF assms(2) [OF that(1,3)] assms(3)] that(3) by (simp add: grant_of_def)
    then show ?thesis using assms(4) [OF that(2,4)] that(5) by (auto simp: bounded_def)
  qed
  show ?thesis
    unfolding unique_grants_def
  proof (intro ballI impI)
    fix x y assume "x \<in> X \<union> Y" "y \<in> X \<union> Y" and g: "grant_of i x \<and> grant_of i y \<and> m_Term x = m_Term y"
    then consider "x \<in> X" "y \<in> X" | "x \<in> X" "y \<in> Y" | "x \<in> Y" "y \<in> X" | "x \<in> Y" "y \<in> Y" by blast
    then show "m_To x = m_To y"
    proof cases
      case 1 then show ?thesis using assms(1) g unfolding unique_grants_def by blast
    next
      case 2 then show ?thesis using b g by blast
    next
      case 3 then show ?thesis using b [of y x] g by simp
    next
      case 4 then show ?thesis using assms(4) g by simp
    qed
  qed
qed

lemma member_inv_moved:
  assumes inv: "member_inv C net i n" and mv: "moved m (mb_raft n) (rn_raft rn)"
    and prev: "rn_prevHardSt rn = rn_prevHardSt (mb_node n)" and wi: "within C (n\<lparr>mb_node := rn\<rparr>)"
    and m: "granted m \<Longrightarrow> m \<in> net \<and> m_To m = i"
  shows "member_inv C net i (n\<lparr>mb_node := rn\<rparr>)" (is "member_inv C net i ?n")
proof -
  let ?r = "mb_raft n" and ?r' = "rn_raft rn" and ?g = "goal_state n"
  have k: "vote_kept ?r ?r'" "role_ok ?r'" using mv by (simp_all add: moved_def)
  have g: "goal_state ?n = ?g" "held ?n = held n" "mb_disk ?n = mb_disk n" by (simp_all add: goal_state_def held_def split: option.split)
  have i: "r_id ?r = i" "role_ok ?r" "disk_behind ?g ?r" "votes_backed net ?r" "disk_synced n"
    and own: "\<And>x. x \<in> held n \<union> set (r_msgs ?r) \<Longrightarrow> well_termed x \<and> (granted x \<longrightarrow> m_From x = i)"
      "\<And>x. x \<in> set (r_msgs ?r) \<Longrightarrow> grant_of i x \<Longrightarrow> bounded (r_Term ?r) (r_Vote ?r) x"
    and disk: "\<And>x. x \<in> net \<union> held n \<Longrightarrow> grant_of i x \<Longrightarrow> bounded (hs_Term ?g) (hs_Vote ?g) x"
      "\<And>x. x \<in> net \<Longrightarrow> grant_of i x \<Longrightarrow> bounded (hs_Term (ms_hardState (mb_disk n))) (hs_Vote (ms_hardState (mb_disk n))) x"
    and uniq: "unique_grants i (net \<union> held n \<union> set (r_msgs ?r))"
    using inv unfolding member_inv_def by blast+
  obtain ms where ms: "r_msgs ?r' = r_msgs ?r @ ms" "\<And>x. x \<in> set ms \<Longrightarrow> honest ?r ?r' x"
    using mv unfolding moved_def sends_def by blast
  have new: "well_termed x" "granted x \<Longrightarrow> m_From x = i \<and> m_Term x = r_Term ?r' \<and> m_To x = r_Vote ?r'"
    if "x \<in> set ms" for x using ms(2) [OF that] i(1,2) by (simp_all add: honest_def)
  have old: "bounded (r_Term ?r) (r_Vote ?r) x" if "x \<in> net \<union> held n \<union> set (r_msgs ?r)" "grant_of i x" for x
    using that own(2) disk(1) disk_behind_bounded [OF i(3)] by (auto simp: grant_of_def)
  have "unique_grants i ((net \<union> held n \<union> set (r_msgs ?r)) \<union> set ms)"
    using unique_grants_extend [OF uniq old k(1), of "set ms"] new(2) by (simp add: grant_of_def)
  then have u: "unique_grants i (net \<union> held n \<union> set (r_msgs ?r'))" using ms(1) by (simp add: Un_assoc)
  have "well_termed x \<and> (granted x \<longrightarrow> m_From x = i)" if "x \<in> held n \<union> set (r_msgs ?r')" for x
    using that own(1) new ms(1) by auto
  moreover have "bounded (r_Term ?r') (r_Vote ?r') x" if x: "x \<in> set (r_msgs ?r')" "grant_of i x" for x
  proof (cases "x \<in> set ms")
    case True
    then show ?thesis using new(2) [OF True] x(2) by (auto simp: bounded_def grant_of_def)
  next
    case False
    then have "x \<in> set (r_msgs ?r)" using x(1) ms(1) by simp
    then show ?thesis using own(2) bounded_vote_kept [OF _ k(1)] x(2) by (auto simp: grant_of_def)
  qed
  moreover have "votes_backed net ?r'"
    using moved_votes_backed [OF mv i(4)] m i(1,2) by (simp add: role_ok_def)
  moreover have "r_id ?r' = i" using k(1) i(1) by (simp add: vote_kept_def)
  moreover have "disk_synced ?n" using i(5) prev g(1) by (auto simp: disk_synced_def split: option.splits if_splits)
  ultimately show ?thesis
    unfolding member_inv_def g using wi k(2) disk disk_behind_vote_kept [OF i(3) k(1)] u by auto
qed

lemma member_inv_other:
  assumes "member_inv C net i n" "\<And>x. x \<in> ms \<Longrightarrow> granted x \<Longrightarrow> m_From x \<noteq> i"
  shows "member_inv C (net \<union> ms) i n"
proof -
  have g: "\<not> grant_of i x" if "x \<in> ms" for x using assms(2) that by (auto simp: grant_of_def)
  have "unique_grants i (net \<union> ms \<union> Y)" if "unique_grants i (net \<union> Y)" for Y
    using that g unfolding unique_grants_def by blast
  from this [of "held n \<union> set (r_msgs (mb_raft n))"] show ?thesis
    using assms(1) g votes_backed_mono [of net "mb_raft n" "net \<union> ms"] unfolding member_inv_def Un_assoc by blast
qed

text \<open>\<^verbatim>\<open>Ready\<close>: the disk catches up with the node before its messages leave.\<close>

lemma rn_Ready_facts:
  assumes "rn_Ready rn = Some (rn', rd)"
  shows "rd_Messages rd = r_msgs (rn_raft rn) \<and>
    rd_HardState rd = (if \<not> isHardStateEqual (hardState (rn_raft rn)) (rn_prevHardSt rn)
                       then hardState (rn_raft rn) else zero_HardState) \<and>
    rn_prevHardSt rn' = rn_prevHardSt rn \<and> role (rn_raft rn') = role (rn_raft rn) \<and> r_msgs (rn_raft rn') = []"
  using assms
  by (auto simp: rn_Ready_def rn_readyWithoutAccept_def newReady_def rn_acceptReady_def panic_simps Let_def role_def
      split: option.splits)

lemma disk_catches_up:
  assumes "same_vote (rn_prevHardSt rn) hs" "disk_behind hs (rn_raft rn)" "rn_Ready rn = Some (rn', rd)"
  shows "hs_Term (persist rd hs) = r_Term (rn_raft rn) \<and> hs_Vote (persist rd hs) = r_Vote (rn_raft rn)"
proof -
  note f = rn_Ready_facts [OF assms(3)]
  have e: "IsEmptyHardState zero_HardState" by (simp add: IsEmptyHardState_def isHardStateEqual_def)
  show ?thesis
  proof (cases "isHardStateEqual (hardState (rn_raft rn)) (rn_prevHardSt rn)")
    case True
    then show ?thesis using f assms(1) e by (simp add: persist_def isHardStateEqual_def same_vote_def hardState_def)
  next
    case False
    then show ?thesis
      using f assms(2)
      by (auto simp: persist_def IsEmptyHardState_def isHardStateEqual_def zero_HardState_def hardState_def disk_behind_def)
  qed
qed

lemma votes_backed_role:
  assumes "role r' = role r"
  shows "votes_backed net r' \<longleftrightarrow> votes_backed net r"
  using assms by (simp add: votes_backed_def backs_def role_def)

lemma member_inv_ready:
  assumes inv: "member_inv C net i n" and none: "mb_ready n = None" and rd: "rn_Ready (mb_node n) = Some (rn, rd)"
  shows "member_inv C net i (n\<lparr>mb_node := rn, mb_ready := Some rd, mb_saved := False\<rparr>)" (is "member_inv C net i ?n")
proof -
  let ?r = "mb_raft n" and ?r' = "rn_raft rn" and ?hs = "ms_hardState (mb_disk n)"
  note f = rn_Ready_facts [OF rd]
  have g: "goal_state n = ?hs" "held n = {}" "goal_state ?n = persist rd ?hs" "held ?n = set (rd_Messages rd)"
    using none by (simp_all add: goal_state_def held_def)
  have i: "r_id ?r = i" "role_ok ?r" "within C n" "disk_behind ?hs ?r" "votes_backed net ?r" "disk_synced n"
    and own: "\<And>x. x \<in> set (r_msgs ?r) \<Longrightarrow> well_termed x \<and> (granted x \<longrightarrow> m_From x = i)"
      "\<And>x. x \<in> set (r_msgs ?r) \<Longrightarrow> grant_of i x \<Longrightarrow> bounded (r_Term ?r) (r_Vote ?r) x"
    and disk: "\<And>x. x \<in> net \<Longrightarrow> grant_of i x \<Longrightarrow> bounded (hs_Term ?hs) (hs_Vote ?hs) x"
    and uniq: "unique_grants i (net \<union> set (r_msgs ?r))"
    using inv unfolding member_inv_def g(1,2) by auto
  have ro: "role ?r' = role ?r" using f by blast
  have s: "same_vote (rn_prevHardSt (mb_node n)) ?hs" using i(6) none g(1) by (simp add: disk_synced_def)
  have d: "hs_Term (persist rd ?hs) = r_Term ?r" "hs_Vote (persist rd ?hs) = r_Vote ?r"
    using disk_catches_up [OF s i(4) rd] by simp_all
  have "bounded (hs_Term (persist rd ?hs)) (hs_Vote (persist rd ?hs)) x" if "x \<in> net \<union> set (r_msgs ?r)" "grant_of i x" for x
    using that own(2) disk disk_behind_bounded [OF i(4)] d by (auto simp: grant_of_def)
  moreover have "disk_synced ?n" using s f g(3) by (simp add: disk_synced_def persist_def same_vote_def)
  moreover have "disk_behind (persist rd ?hs) ?r'" using d ro by (simp add: disk_behind_def role_def)
  moreover have "role_ok ?r'" using role_ok_cong [OF ro i(2)] .
  moreover have "votes_backed net ?r'" using votes_backed_role [OF ro] i(5) by blast
  moreover have "r_id ?r' = i" "within C ?n" using i(1,3) ro by (simp_all add: role_def within_def)
  moreover have "r_msgs ?r' = []" "rd_Messages rd = r_msgs ?r" using f by auto
  ultimately show ?thesis using uniq own disk unfolding member_inv_def g(3,4) by auto
qed

text \<open>Work on the storage leaves the role and the messages of the node; saving makes the messages free to go.\<close>

lemma on_storage_role [simp]:
  "role (rn_raft (on_storage ms rn)) = role (rn_raft rn)" "r_msgs (rn_raft (on_storage ms rn)) = r_msgs (rn_raft rn)"
  "rn_prevHardSt (on_storage ms rn) = rn_prevHardSt rn"
  by (simp_all add: on_storage_def role_def)

lemma ms_Append_hardState: "ms_Append es ms = Some ms' \<Longrightarrow> ms_hardState ms' = ms_hardState ms"
  by (auto simp: ms_Append_def panic_simps Let_def split: if_splits)

lemma save_ready_hardState: "save_ready rd ms = Some ms' \<Longrightarrow> ms_hardState ms' = persist rd (ms_hardState ms)"
  by (auto simp: save_ready_def persist_def ms_SetHardState_def ms_ApplySnapshot_def Let_def dest!: ms_Append_hardState split: if_splits)

lemma storage_call_hardState: "run_storage_call c ms = Some ms' \<Longrightarrow> ms_hardState ms' = ms_hardState ms"
  by (cases c) (auto simp: ms_Compact_def ms_CreateSnapshot_def panic_simps Let_def split: if_splits)

lemma member_inv_role:
  assumes "member_inv C net i n" "role (mb_raft n') = role (mb_raft n)" "r_msgs (mb_raft n') = r_msgs (mb_raft n)"
    "ms_hardState (mb_disk n') = ms_hardState (mb_disk n)" "goal_state n' = goal_state n" "held n' = held n" "disk_synced n'"
  shows "member_inv C net i n'"
proof -
  have "r_id (mb_raft n') = r_id (mb_raft n)" "voters (mb_raft n') = voters (mb_raft n)"
      "r_Term (mb_raft n') = r_Term (mb_raft n)" "r_Vote (mb_raft n') = r_Vote (mb_raft n)"
    using assms(2) by (simp_all add: role_def)
  moreover have "role_ok (mb_raft n')" using assms(1) role_ok_cong [OF assms(2)] by (simp add: member_inv_def)
  moreover have "votes_backed net (mb_raft n')" using assms(1) votes_backed_role [OF assms(2)] by (simp add: member_inv_def)
  ultimately show ?thesis
    using assms(1,7) unfolding member_inv_def within_def disk_behind_def assms(3-6) by simp
qed

lemma member_inv_save:
  assumes inv: "member_inv C net i n" and rd: "mb_ready n = Some rd" "\<not> mb_saved n" and ms: "save_ready rd (mb_disk n) = Some ms"
  shows "member_inv C (net \<union> set (rd_Messages rd)) i (n\<lparr>mb_node := on_storage ms (mb_node n), mb_disk := ms, mb_saved := True\<rparr>)"
    (is "member_inv C ?net i ?n")
proof -
  let ?r = "mb_raft n" and ?r' = "mb_raft ?n" and ?g = "persist rd (ms_hardState (mb_disk n))"
  have g: "goal_state n = ?g" "held n = set (rd_Messages rd)" "goal_state ?n = ?g" "held ?n = {}" "ms_hardState (mb_disk ?n) = ?g"
    using rd save_ready_hardState [OF ms] by (simp_all add: goal_state_def held_def)
  note i = inv [unfolded member_inv_def g(1,2)]
  have ro: "role ?r' = role ?r" "r_msgs ?r' = r_msgs ?r" by simp_all
  have "r_id ?r' = r_id ?r" "voters ?r' = voters ?r" "r_Term ?r' = r_Term ?r" "r_Vote ?r' = r_Vote ?r" using ro(1) by (simp_all add: role_def)
  moreover have "role_ok ?r'" using i role_ok_cong [OF ro(1)] by blast
  moreover have "votes_backed ?net ?r'" using i votes_backed_role [OF ro(1)] votes_backed_mono [of net ?r ?net] by blast
  moreover have "disk_synced ?n" using i rd g(1,3) by (auto simp: disk_synced_def split: if_splits)
  ultimately show ?thesis
    using i unfolding member_inv_def within_def disk_behind_def g(3-5) ro(2) by auto
qed

text \<open>\<^verbatim>\<open>Advance\<close> moves neither the role nor the messages.\<close>

lemma appendEntry_role:
  assumes "appendEntry es r = Some (r', b)"
  shows "role r' = role r \<and> r_msgs r' = r_msgs r"
proof
  show "role r' = role r" using appendEntry_quiet [OF assms] by (simp add: quiet_def)
  show "r_msgs r' = r_msgs r"
    using assms by (auto simp: appendEntry_def maybeCommit_def increaseUncommittedSize_def panic_simps ret_simps Let_def
        split: if_splits)
qed

lemma advance_role:
  assumes "advance rd r = Some r'"
  shows "role r' = role r \<and> r_msgs r' = r_msgs r"
proof -
  have lg: "role (x\<lparr>r_raftLog := l\<rparr>) = role x" for x l by (simp add: role_def)
  have rd: "role (reduceUncommittedSize es x) = role x" "r_msgs (reduceUncommittedSize es x) = r_msgs x" for es x
    by (simp_all add: reduceUncommittedSize_def role_def Let_def)
  have pc: "role (x\<lparr>r_pendingConfIndex := c\<rparr>) = role x" for x c by (simp add: role_def)
  have al: "role y = role x \<and> r_msgs y = r_msgs x" if "auto_leave a b x = Some y" for a b x y
    using that by (auto simp: auto_leave_def panic_simps ret_simps pc dest!: appendEntry_role)
  show ?thesis
    using assms by (auto simp: advance_def panic_simps ret_simps Let_def lg rd dest!: al)
qed

lemma member_inv_advance:
  assumes inv: "member_inv C net i n" and rd: "mb_ready n = Some rd" "mb_saved n" and adv: "rn_Advance rd (mb_node n) = Some rn"
  shows "member_inv C net i (n\<lparr>mb_node := rn, mb_ready := None, mb_saved := False\<rparr>)" (is "member_inv C net i ?n")
proof (rule member_inv_role [OF inv])
  show "role (mb_raft ?n) = role (mb_raft n)" "r_msgs (mb_raft ?n) = r_msgs (mb_raft n)"
    using adv advance_role by (auto simp: rn_Advance_def panic_simps Let_def split: if_splits)
  show g: "goal_state ?n = goal_state n" "held ?n = held n" using rd by (simp_all add: goal_state_def held_def)
  have "rn_prevHardSt rn = (if IsEmptyHardState (rd_HardState rd) then rn_prevHardSt (mb_node n) else rd_HardState rd)"
    using adv by (auto simp: rn_Advance_def panic_simps Let_def split: if_splits)
  then show "disk_synced ?n" using inv rd(1) g(1) by (simp add: member_inv_def disk_synced_def)
qed simp

lemma member_inv_maintain:
  assumes inv: "member_inv C net i n" and ms: "run_storage_call c (mb_disk n) = Some ms"
  shows "member_inv C net i (n\<lparr>mb_node := on_storage ms (mb_node n), mb_disk := ms\<rparr>)" (is "member_inv C net i ?n")
proof (rule member_inv_role [OF inv])
  show g: "goal_state ?n = goal_state n" "held ?n = held n" "ms_hardState (mb_disk ?n) = ms_hardState (mb_disk n)"
    using storage_call_hardState [OF ms] by (simp_all add: goal_state_def held_def split: option.split)
  show "disk_synced ?n" using inv g(1) by (auto simp: member_inv_def disk_synced_def split: option.splits if_splits)
qed simp_all

section \<open>Election safety\<close>

lemma cluster_init_inv: "cluster_init C s \<Longrightarrow> cluster_inv C s"
  by (auto simp: cluster_init_def cluster_inv_def unique_grants_def intro!: starts_inv)

lemma cluster_step_inv:
  assumes "cluster_step C s s'" "cluster_inv C s"
  shows "cluster_inv C s'"
  using assms
proof (cases rule: cluster_step.cases)
  case (Call i n c proto_Equal rn n')
  have n: "member_inv C (cl_net s) i n" using assms(2) Call(2) by (simp add: cluster_inv_def)
  have wt: "well_termed (call_msg c) \<and> m_Term (call_msg c) < MaxUint64"
    using Call(3) assms(2) by (cases c) (auto simp: call_msg_def cluster_inv_def well_termed_def termed_def word_gt_0)
  have w: "within C n" "role_ok (mb_raft n)" using n by (simp_all add: member_inv_def)
  have "moved (call_msg c) (mb_raft n) (rn_raft rn) \<and> rn_prevHardSt rn = rn_prevHardSt (mb_node n)"
    using Call(4-6) w wt by (intro run_call_moved) (auto simp: within_def)
  moreover have "granted (call_msg c) \<Longrightarrow> call_msg c \<in> cl_net s \<and> m_To (call_msg c) = i"
    using Call(3) by (cases c) (auto simp: call_msg_def)
  ultimately have "member_inv C (cl_net s) i n'"
    using member_inv_moved [OF n, of "call_msg c" rn] Call(5,6) by blast
  then show ?thesis using assms(2) Call(1,2) by (auto simp: cluster_inv_def)
next
  case (Ready i n rn rd n')
  have "member_inv C (cl_net s) i n" using assms(2) Ready(2) by (simp add: cluster_inv_def)
  then have "member_inv C (cl_net s) i n'" unfolding Ready(5) using Ready(3,4) by (rule member_inv_ready)
  then show ?thesis using assms(2) Ready(1,2) by (auto simp: cluster_inv_def)
next
  case (Send i n rd m)
  have "held n = set (rd_Messages rd)" using Send(3,4) by (simp add: held_def)
  then have m: "well_termed m" "\<not> granted m" using assms(2) Send(2,5,6) by (auto simp: cluster_inv_def member_inv_def granted_def)
  have "member_inv C (cl_net s \<union> {m}) j k" if "cl_members s j = Some k" for j k
    using assms(2) that m(2) by (intro member_inv_other) (auto simp: cluster_inv_def)
  then show ?thesis using assms(2) m Send(1) by (auto simp: cluster_inv_def)
next
  case (Save i n rd ms n')
  have n: "member_inv C (cl_net s) i n" using assms(2) Save(2) by (simp add: cluster_inv_def)
  have "held n = set (rd_Messages rd)" using Save(3,4) by (simp add: held_def)
  then have m: "well_termed x \<and> (granted x \<longrightarrow> m_From x = i)" if "x \<in> set (rd_Messages rd)" for x
    using n that by (simp add: member_inv_def)
  have "member_inv C (cl_net s \<union> set (rd_Messages rd)) i n'"
    unfolding Save(6) by (rule member_inv_save [OF n Save(3,4,5)])
  moreover have "member_inv C (cl_net s \<union> set (rd_Messages rd)) j k" if "cl_members s j = Some k" "j \<noteq> i" for j k
    using assms(2) that m by (intro member_inv_other) (auto simp: cluster_inv_def)
  moreover have "well_termed x \<and> (granted x \<longrightarrow> m_From x \<in> insert i (dom (cl_members s)))"
    if "x \<in> cl_net s \<union> set (rd_Messages rd)" for x
    using that m assms(2) by (auto simp: cluster_inv_def)
  ultimately show ?thesis using Save(1) by (auto simp: cluster_inv_def)
next
  case (Advance i n rd rn n')
  have "member_inv C (cl_net s) i n" using assms(2) Advance(2) by (simp add: cluster_inv_def)
  then have "member_inv C (cl_net s) i n'" unfolding Advance(6) using Advance(3-5) by (rule member_inv_advance)
  then show ?thesis using assms(2) Advance(1,2) by (auto simp: cluster_inv_def)
next
  case (Maintain i n c ms n')
  have "member_inv C (cl_net s) i n" using assms(2) Maintain(2) by (simp add: cluster_inv_def)
  then have "member_inv C (cl_net s) i n'" unfolding Maintain(4) using Maintain(3) by (rule member_inv_maintain)
  then show ?thesis using assms(2) Maintain(1,2) by (auto simp: cluster_inv_def)
next
  case (Restart i n n')
  have "member_inv C (cl_net s) i n" using assms(2) Restart(2) by (simp add: cluster_inv_def)
  then have "unique_grants i (cl_net s)"
    "\<forall>x \<in> cl_net s. grant_of i x \<longrightarrow> bounded (hs_Term (ms_hardState (mb_disk n))) (hs_Vote (ms_hardState (mb_disk n))) x"
    unfolding member_inv_def unique_grants_def by blast+
  then have "member_inv C (cl_net s) i n'" using Restart(3,4) starts_inv by blast
  then show ?thesis using assms(2) Restart(1,2) by (auto simp: cluster_inv_def)
qed

lemma cluster_reachable_inv: "cluster_reachable C s \<Longrightarrow> cluster_inv C s"
  by (induction rule: cluster_reachable.induct) (auto intro: cluster_init_inv cluster_step_inv)

lemma leaders_agree:
  assumes inv: "cluster_inv C s" and C: "ids (fst C) \<noteq> {}"
    and a: "cl_members s i = Some a" "r_state (mb_raft a) = StateLeader"
    and b: "cl_members s j = Some b" "r_state (mb_raft b) = StateLeader"
    and t: "r_Term (mb_raft a) = r_Term (mb_raft b)"
  shows "i = j"
proof -
  have ia: "member_inv C (cl_net s) i a" and ib: "member_inv C (cl_net s) j b"
    using inv a(1) b(1) by (simp_all add: cluster_inv_def)
  have ids: "r_id (mb_raft a) = i" "r_id (mb_raft b) = j" "voters (mb_raft a) = C" "voters (mb_raft b) = C"
    using ia ib by (simp_all add: member_inv_def within_def)
  obtain va where va: "joint_VoteResult C va = VoteWon" "\<And>v. va v = Some True \<Longrightarrow> backs (cl_net s) (mb_raft a) v"
    using ia a(2) ids by (auto simp: member_inv_def votes_backed_def)
  obtain vb where vb: "joint_VoteResult C vb = VoteWon" "\<And>v. vb v = Some True \<Longrightarrow> backs (cl_net s) (mb_raft b) v"
    using ib b(2) ids by (auto simp: member_inv_def votes_backed_def)
  obtain v where v: "backs (cl_net s) (mb_raft a) v" "backs (cl_net s) (mb_raft b) v"
    using jointq.common_supporter [OF C va(1) vb(1)] va(2) vb(2) by blast
  txt \<open>A leader that granted another vote in its own term voted for itself.\<close>
  have self: "m_To x = k"
    if "member_inv C (cl_net s) k n" "r_state (mb_raft n) = StateLeader" "x \<in> cl_net s" "grant_of k x"
      "m_Term x = r_Term (mb_raft n)" for k n x
  proof -
    have "bounded (hs_Term (goal_state n)) (hs_Vote (goal_state n)) x" "disk_behind (goal_state n) (mb_raft n)"
        "role_ok (mb_raft n)" "r_id (mb_raft n) = k"
      using that(1,3,4) by (auto simp: member_inv_def)
    then show ?thesis
      using disk_behind_bounded that(2,4,5) by (fastforce simp: bounded_def grant_of_def role_ok_def)
  qed
  consider "v = i" "v = j"
    | x where "v = i" "x \<in> cl_net s" "grant_of i x" "m_To x = j" "m_Term x = r_Term (mb_raft a)"
    | x where "v = j" "x \<in> cl_net s" "grant_of j x" "m_To x = i" "m_Term x = r_Term (mb_raft b)"
    | x y where "x \<in> cl_net s" "grant_of v x" "m_To x = i" "y \<in> cl_net s" "grant_of v y" "m_To y = j" "m_Term x = m_Term y"
    using v t ids unfolding backs_def by metis
  then show ?thesis
  proof cases
    case (2 x) then show ?thesis using self [OF ia a(2)] by simp
  next
    case (3 x) then show ?thesis using self [OF ib b(2)] by simp
  next
    case (4 x y)
    then have "v \<in> dom (cl_members s)" using inv by (auto simp: cluster_inv_def grant_of_def)
    then have "unique_grants v (cl_net s)"
      using inv by (auto simp: cluster_inv_def member_inv_def unique_grants_def)
    then show ?thesis using 4 unfolding unique_grants_def by blast
  qed simp
qed

end
