(* ===== verification/Cluster_Run.thy ===== *)
theory Cluster_Run
  imports Cluster
begin

text \<open>
  An election of three members, run on the model: the first campaigns, the second grants its vote, the
  first becomes leader and writes its first entry to its storage. It shows that the assumptions of
  election safety can be met.
\<close>

section \<open>A run\<close>

definition run_voters :: JointConfig where
  "run_voters = (Some {1, 2, 3}, None)"

definition run_disk :: MemoryStorage where
  "run_disk = NewMemoryStorage\<lparr>ms_snapshot := zero_Snapshot\<lparr>s_Metadata :=
     \<lparr>sm_ConfState = zero_ConfState\<lparr>cs_Voters := [1, 2, 3]\<rparr>, sm_Index = 0, sm_Term = 0\<rparr>\<rparr>\<rparr>"

definition run_config :: "u64 \<Rightarrow> RaftConfig" where
  "run_config i = \<lparr>c_ID = i, c_ElectionTick = 10, c_HeartbeatTick = 1, c_Storage = Some (MemoryStorage_Storage run_disk), c_Applied = 0,
     c_MaxSizePerMsg = 1000, c_MaxCommittedSizePerReady = 0, c_MaxUncommittedEntriesSize = 0, c_MaxInflightMsgs = 4,
     c_CheckQuorum = False, c_PreVote = False, c_ReadOnlyOption = ReadOnlySafe, c_DisableProposalForwarding = False\<rparr>"

definition run_start :: "u64 \<Rightarrow> RawNode option" where
  "run_start i = NewRawNode (run_config i) (\<lambda>_. 0)"

definition run_member :: "u64 \<Rightarrow> member option" where
  "run_member i = map_option (\<lambda>rn. \<lparr>mb_node = rn, mb_disk = run_disk, mb_ready = None, mb_saved = False\<rparr>) (run_start i)"

text \<open>The steps of a member, as functions; a call must stay within the assumptions of the cluster.\<close>

definition mb_within :: "member \<Rightarrow> bool" where
  "mb_within n \<longleftrightarrow> voters (mb_raft n) = run_voters \<and> r_Term (mb_raft n) < MaxUint64"

definition mb_call :: "rn_call \<Rightarrow> member \<Rightarrow> member option" where
  "mb_call c n = do {
     rn \<leftarrow> run_call (\<lambda>_ _. False) c (mb_node n);
     let n' = n\<lparr>mb_node := rn\<rparr>;
     if mb_within n' then Some n' else None
   }"

definition mb_take :: "member \<Rightarrow> member option" where
  "mb_take n = (case mb_ready n of
     Some _ \<Rightarrow> None
   | None \<Rightarrow> do { (rn, rd) \<leftarrow> rn_Ready (mb_node n); Some (n\<lparr>mb_node := rn, mb_ready := Some rd, mb_saved := False\<rparr>) })"

definition mb_save :: "member \<Rightarrow> member option" where
  "mb_save n = (case mb_ready n of
     None \<Rightarrow> None
   | Some rd \<Rightarrow> if mb_saved n then None
       else do { ms \<leftarrow> save_ready rd (mb_disk n); Some (n\<lparr>mb_node := on_storage ms (mb_node n), mb_disk := ms, mb_saved := True\<rparr>) })"

definition mb_advance :: "member \<Rightarrow> member option" where
  "mb_advance n = (case mb_ready n of
     None \<Rightarrow> None
   | Some rd \<Rightarrow> if \<not> mb_saved n then None
       else do { rn \<leftarrow> rn_Advance rd (mb_node n); Some (n\<lparr>mb_node := rn, mb_ready := None, mb_saved := False\<rparr>) })"

text \<open>The first message of a pending \<^verbatim>\<open>Ready\<close>, if it is for the given member.\<close>

definition mb_message :: "u64 \<Rightarrow> member \<Rightarrow> Message option" where
  "mb_message i n = do {
     rd \<leftarrow> mb_ready n;
     (case rd_Messages rd of [] \<Rightarrow> None | m # _ \<Rightarrow> if m_To m = i \<and> m_Term m < MaxUint64 then Some m else None)
   }"

definition requested :: "member option" where
  "requested = run_member 1 \<bind> mb_call CallCampaign \<bind> mb_take \<bind> mb_save"

definition answered :: "member option" where
  "answered = do { m \<leftarrow> requested \<bind> mb_message 2; run_member 2 \<bind> mb_call (CallStep m) \<bind> mb_take \<bind> mb_save }"

definition elected_leader :: "member option" where
  "elected_leader = do {
     m \<leftarrow> answered \<bind> mb_message 1;
     requested \<bind> mb_call (CallStep m) \<bind> mb_advance \<bind> mb_take \<bind> mb_save \<bind> mb_advance
   }"

definition node_within :: "RawNode option \<Rightarrow> bool" where
  "node_within rn = (case rn of None \<Rightarrow> False
     | Some rn \<Rightarrow> voters (rn_raft rn) = run_voters \<and> r_Term (rn_raft rn) < MaxUint64)"

lemma run_start_within: "node_within (run_start 1)" "node_within (run_start 2)" "node_within (run_start 3)"
  by code_simp+

lemma run_member_within:
  assumes "i \<in> {1, 2, 3}" "run_member i = Some n"
  shows "within run_voters n"
proof -
  have "node_within (run_start i)" using assms(1) run_start_within by blast
  then show ?thesis using assms(2) by (auto simp: run_member_def node_within_def within_def)
qed

lemma run_leader_leads:
  "map_option (\<lambda>n. (r_state (mb_raft n), r_Term (mb_raft n), rl_lastIndex (r_raftLog (mb_raft n)), ms_lastIndex (mb_disk n))) elected_leader =
     Some (StateLeader, 1, Some 1, Some 1)"
  by code_simp

section \<open>The run as steps of the cluster\<close>

lemma run_member_starts: "run_member i = Some n \<Longrightarrow> starts i run_disk n \<and> mb_disk n = run_disk"
  by (auto simp: run_member_def run_start_def starts_def run_config_def intro!: exI [of _ "run_config i"])

lemma mb_within: "mb_within n \<longleftrightarrow> within run_voters n"
  by (simp add: mb_within_def within_def)

definition run_init :: cluster where
  "run_init = \<lparr>cl_members = (\<lambda>i. if i \<in> {1, 2, 3} then run_member i else None), cl_net = {}\<rparr>"

lemma run_init_init: "cluster_init run_voters run_init"
proof -
  have "starts i (mb_disk n) n \<and> within run_voters n" if "cl_members run_init i = Some n" for i n
  proof -
    have i: "i \<in> {1, 2, 3}" "run_member i = Some n" using that unfolding run_init_def cluster.simps by (metis option.distinct(1))+
    then show ?thesis using run_member_within [OF i] run_member_starts [OF i(2)] by simp
  qed
  moreover have "cl_net run_init = {}" by (simp add: run_init_def)
  ultimately show ?thesis by (simp add: cluster_init_def)
qed

lemma reach_call:
  assumes "cluster_reachable run_voters s" "cl_members s i = Some n" "mb_call c n = Some n'"
    "\<And>m. c = CallStep m \<Longrightarrow> m \<in> cl_net s \<and> m_To m = i \<and> m_Term m < MaxUint64"
  shows "cluster_reachable run_voters (s\<lparr>cl_members := (cl_members s)(i \<mapsto> n')\<rparr>)"
proof -
  obtain rn where rn: "run_call (\<lambda>_ _. False) c (mb_node n) = Some rn" "n' = n\<lparr>mb_node := rn\<rparr>" "within run_voters n'"
    using assms(3) by (auto simp: mb_call_def mb_within bind_eq_Some_conv Let_def split: if_splits)
  show ?thesis using cluster_reachable.Step [OF assms(1) cluster_step.Call [OF assms(2,4) rn]] .
qed

lemma reach_take:
  assumes "cluster_reachable run_voters s" "cl_members s i = Some n" "mb_take n = Some n'"
  shows "cluster_reachable run_voters (s\<lparr>cl_members := (cl_members s)(i \<mapsto> n')\<rparr>)"
proof -
  obtain rn rd where "mb_ready n = None" "rn_Ready (mb_node n) = Some (rn, rd)" "n' = n\<lparr>mb_node := rn, mb_ready := Some rd, mb_saved := False\<rparr>"
    using assms(3) by (auto simp: mb_take_def bind_eq_Some_conv split: option.splits)
  from cluster_reachable.Step [OF assms(1) cluster_step.Ready [OF assms(2) this]] show ?thesis .
qed

text \<open>The messages a member has taken from its node and written the state for.\<close>

definition mb_messages :: "member \<Rightarrow> Message set" where
  "mb_messages n = (case mb_ready n of None \<Rightarrow> {} | Some rd \<Rightarrow> set (rd_Messages rd))"

lemma reach_save:
  assumes "cluster_reachable run_voters s" "cl_members s i = Some n" "mb_save n = Some n'"
  shows "cluster_reachable run_voters (s\<lparr>cl_members := (cl_members s)(i \<mapsto> n'), cl_net := cl_net s \<union> mb_messages n'\<rparr>)"
proof -
  obtain rd ms where r: "mb_ready n = Some rd" "\<not> mb_saved n" "save_ready rd (mb_disk n) = Some ms"
      "n' = n\<lparr>mb_node := on_storage ms (mb_node n), mb_disk := ms, mb_saved := True\<rparr>"
    using assms(3) by (auto simp: mb_save_def bind_eq_Some_conv split: option.splits if_splits)
  then have "mb_messages n' = set (rd_Messages rd)" by (simp add: mb_messages_def)
  then show ?thesis using cluster_reachable.Step [OF assms(1) cluster_step.Save [OF assms(2) r]] by simp
qed

lemma reach_advance:
  assumes "cluster_reachable run_voters s" "cl_members s i = Some n" "mb_advance n = Some n'"
  shows "cluster_reachable run_voters (s\<lparr>cl_members := (cl_members s)(i \<mapsto> n')\<rparr>)"
proof -
  obtain rd rn where "mb_ready n = Some rd" "mb_saved n" "rn_Advance rd (mb_node n) = Some rn"
      "n' = n\<lparr>mb_node := rn, mb_ready := None, mb_saved := False\<rparr>"
    using assms(3) by (auto simp: mb_advance_def bind_eq_Some_conv split: option.splits if_splits)
  from cluster_reachable.Step [OF assms(1) cluster_step.Advance [OF assms(2) this]] show ?thesis .
qed

lemma mb_message_in: "mb_message i n = Some m \<Longrightarrow> m \<in> mb_messages n \<and> m_To m = i \<and> m_Term m < MaxUint64"
  by (cases "mb_ready n"; cases "rd_Messages (the (mb_ready n))") (auto simp: mb_message_def mb_messages_def split: if_splits)

text \<open>The three turns: a candidate that has sent its requests, a voter that has answered, a leader.\<close>

lemma reach_candidate:
  assumes "cluster_reachable run_voters s" "cl_members s 1 = run_member 1" "requested = Some a"
  shows "\<exists>s'. cluster_reachable run_voters s' \<and> cl_members s' = (cl_members s)(1 \<mapsto> a) \<and> mb_messages a \<subseteq> cl_net s'"
proof -
  obtain a0 a1 a2 where a: "run_member 1 = Some a0" "mb_call CallCampaign a0 = Some a1" "mb_take a1 = Some a2" "mb_save a2 = Some a"
    using assms(3) by (auto simp: requested_def bind_eq_Some_conv)
  note r1 = reach_call [OF assms(1) _ a(2), of 1]
  note r2 = reach_take [OF r1 _ a(3), of 1]
  note r3 = reach_save [OF r2 _ a(4), of 1]
  show ?thesis by (rule exI, rule conjI, rule r3) (use assms(2) a(1) in auto)
qed

lemma reach_voter:
  assumes "cluster_reachable run_voters s" "cl_members s 2 = run_member 2" "requested = Some a" "mb_messages a \<subseteq> cl_net s" "answered = Some b"
  shows "\<exists>s'. cluster_reachable run_voters s' \<and> cl_members s' = (cl_members s)(2 \<mapsto> b) \<and> mb_messages b \<subseteq> cl_net s'"
proof -
  obtain m b0 b1 b2 where b: "mb_message 2 a = Some m" "run_member 2 = Some b0" "mb_call (CallStep m) b0 = Some b1"
      "mb_take b1 = Some b2" "mb_save b2 = Some b"
    using assms(5) unfolding answered_def assms(3) by (auto simp: bind_eq_Some_conv)
  note r1 = reach_call [OF assms(1) _ b(3), of 2]
  note r2 = reach_take [OF r1 _ b(4), of 2]
  note r3 = reach_save [OF r2 _ b(5), of 2]
  show ?thesis by (rule exI, rule conjI, rule r3) (use assms(2,4) b(2) mb_message_in [OF b(1)] in auto)
qed

lemma reach_leader:
  assumes "cluster_reachable run_voters s" "cl_members s 1 = Some a" "requested = Some a" "answered = Some b" "mb_messages b \<subseteq> cl_net s"
    "elected_leader = Some n"
  shows "\<exists>s'. cluster_reachable run_voters s' \<and> cl_members s' = (cl_members s)(1 \<mapsto> n)"
proof -
  obtain m a1 a2 a3 a4 where a: "mb_message 1 b = Some m" "mb_call (CallStep m) a = Some a1" "mb_advance a1 = Some a2"
      "mb_take a2 = Some a3" "mb_save a3 = Some a4" "mb_advance a4 = Some n"
    using assms(6) unfolding elected_leader_def assms(3,4) by (auto simp: bind_eq_Some_conv)
  note r1 = reach_call [OF assms(1,2) a(2)]
  note r2 = reach_advance [OF r1 _ a(3), of 1]
  note r3 = reach_take [OF r2 _ a(4), of 1]
  note r4 = reach_save [OF r3 _ a(5), of 1]
  note r5 = reach_advance [OF r4 _ a(6), of 1]
  show ?thesis by (rule exI, rule conjI, rule r5) (use assms(5) mb_message_in [OF a(1)] in auto)
qed

lemma run_reaches_leader:
  "\<exists>s n. cluster_reachable run_voters s \<and> cl_members s 1 = Some n \<and> r_state (mb_raft n) = StateLeader \<and> r_Term (mb_raft n) = 1 \<and>
     rl_lastIndex (r_raftLog (mb_raft n)) = Some 1 \<and> ms_lastIndex (mb_disk n) = Some 1"
proof -
  obtain n where n: "elected_leader = Some n" "r_state (mb_raft n) = StateLeader" "r_Term (mb_raft n) = 1"
      "rl_lastIndex (r_raftLog (mb_raft n)) = Some 1" "ms_lastIndex (mb_disk n) = Some 1"
    using run_leader_leads by auto
  obtain b where b: "answered = Some b" using n(1) by (auto simp: elected_leader_def bind_eq_Some_conv)
  obtain a where a: "requested = Some a" using b by (auto simp: answered_def bind_eq_Some_conv)
  have m: "cl_members run_init 1 = run_member 1" "cl_members run_init 2 = run_member 2" by (simp_all add: run_init_def)
  obtain s1 where s1: "cluster_reachable run_voters s1" "cl_members s1 = (cl_members run_init)(1 \<mapsto> a)" "mb_messages a \<subseteq> cl_net s1"
    using reach_candidate [OF cluster_reachable.Init [OF run_init_init] m(1) a] by blast
  obtain s2 where s2: "cluster_reachable run_voters s2" "cl_members s2 = (cl_members s1)(2 \<mapsto> b)" "mb_messages b \<subseteq> cl_net s2"
    using reach_voter [OF s1(1) _ a s1(3) b] s1(2) m(2) by auto
  obtain s3 where "cluster_reachable run_voters s3" "cl_members s3 1 = Some n"
    using reach_leader [OF s2(1) _ a b s2(3) n(1)] s1(2) s2(2) by auto
  then show ?thesis using n(2-5) by blast
qed

section \<open>Properties\<close>

text \<open>
  (C1) Election safety. In a cluster of members that exchange messages over a network that loses,
  delays, reorders and repeats them, that write the hard state, snapshot and entries of each \<^verbatim>\<open>Ready\<close> to
  their storage before its answers to votes go out, and that crash and restart from that storage, no two
  members are leader in the same term. The executions are those in which the voters stay the same (a
  configuration, joint or not, that is not empty) and the terms of the members and of the messages they
  take stay below the largest word.
\<close>

theorem election_safety:
  assumes "cluster_reachable C s" "ids (fst C) \<noteq> {}"
    "cl_members s i = Some a" "r_state (rn_raft (mb_node a)) = StateLeader"
    "cl_members s j = Some b" "r_state (rn_raft (mb_node b)) = StateLeader"
    "r_Term (rn_raft (mb_node a)) = r_Term (rn_raft (mb_node b))"
  shows "i = j"
  using leaders_agree [OF cluster_reachable_inv [OF assms(1)] assms(2-7)] .

text \<open>The run: the leader still has its entry, number 1, after it wrote it to its storage and called \<^verbatim>\<open>Advance\<close>.\<close>

theorem election_safety_witness:
  "\<exists>s. cluster_reachable run_voters s \<and>
     (\<exists>n. cl_members s 1 = Some n \<and> r_state (rn_raft (mb_node n)) = StateLeader \<and>
        rl_lastIndex (r_raftLog (rn_raft (mb_node n))) = Some 1 \<and> ms_lastIndex (mb_disk n) = Some 1) \<and>
     (\<exists>!i. \<exists>n. cl_members s i = Some n \<and> r_state (rn_raft (mb_node n)) = StateLeader \<and> r_Term (rn_raft (mb_node n)) = 1)"
proof -
  obtain s n where s: "cluster_reachable run_voters s" "cl_members s 1 = Some n"
      "r_state (mb_raft n) = StateLeader" "r_Term (mb_raft n) = 1"
      "rl_lastIndex (r_raftLog (mb_raft n)) = Some 1" "ms_lastIndex (mb_disk n) = Some 1"
    using run_reaches_leader by blast
  have "ids (fst run_voters) \<noteq> {}" by (simp add: run_voters_def ids_def)
  then have "i = 1" if "cl_members s i = Some a" "r_state (mb_raft a) = StateLeader" "r_Term (mb_raft a) = 1" for i a
    using election_safety [OF s(1) _ that(1,2) s(2,3)] that(3) s(4) by simp
  then show ?thesis using s by blast
qed

end
