(* ===== verification/Codec_Spec.thy ===== *)
theory Codec_Spec
  imports Encode
begin

unbundle bit_operations_syntax

text \<open>
  The wire format of the encoders and decoders, as byte lists. \<open>varint_bytes\<close> is the encoding of an
  integer; a field is its tag followed by an integer, or by the length and the bytes of its value.
  The lemmas show that the writers put exactly these bytes in front of what the buffer holds, and
  that the loop of the decoders reads one field off the front of the rest. Round trips follow by
  composing them.
\<close>

section \<open>Integers\<close>

function (sequential) varint_bytes :: "u64 \<Rightarrow> bytes" where
  "varint_bytes v = (if v \<ge> 128 then ucast (v AND 0x7F OR 0x80) # varint_bytes (drop_bit 7 v) else [ucast v])"
  by pat_completeness auto
termination
proof (relation "measure unat")
  fix v :: u64
  assume "128 \<le> v"
  then have "unat v \<ge> 128" by (simp add: word_le_nat_alt)
  moreover have "unat (drop_bit 7 v) = unat v div 128" by (simp add: drop_bit_eq_div unat_div)
  ultimately show "(drop_bit 7 v, v) \<in> measure unat" by simp
qed simp

declare varint_bytes.simps [simp del]

lemma varint_bytes_more: "128 \<le> v \<Longrightarrow> varint_bytes v = ucast (v AND 0x7F OR 0x80) # varint_bytes (drop_bit 7 v)"
  by (subst varint_bytes.simps) simp

lemma varint_bytes_last: "v < 128 \<Longrightarrow> varint_bytes v = [ucast v]"
  by (subst varint_bytes.simps) (simp only: if_False not_le [symmetric])

lemma unat_drop7: "unat (drop_bit 7 (v :: u64)) = unat v div 128"
  by (simp add: drop_bit_eq_div unat_div)

lemma Len64_nat_div: "128 \<le> n \<Longrightarrow> Len64_nat n = Len64_nat (n div 128) + 7"
proof -
  have s: "Len64_nat n = Suc (Len64_nat (n div 2))" if "0 < n" for n using that Len64_nat.simps [of n] by simp
  assume "128 \<le> n"
  then show ?thesis by (simp add: s div_mult2_eq [symmetric])
qed

lemma Len64_nat_le: "n < 2 ^ k \<Longrightarrow> Len64_nat n \<le> k"
proof (induction k arbitrary: n)
  case 0
  then show ?case by (simp add: Len64_nat.simps)
next
  case (Suc k)
  then have "Len64_nat (n div 2) \<le> k" by (intro Suc.IH) auto
  then show ?case by (simp add: Len64_nat.simps [of n])
qed

lemma sovRaft_le: "sovRaft v \<le> 10"
proof -
  have "unat (v OR 1) < 2 ^ 64" using unsigned_less [of "v OR 1"] by simp
  then show ?thesis using Len64_nat_le [of "unat (v OR 1)" 64] by (simp add: sovRaft_def)
qed

lemma sovRaft_pos_eq: "0 < v \<Longrightarrow> sovRaft v = (Len64_nat (unat v) + 6) div 7"
proof -
  assume "0 < v"
  then have p: "0 < unat v" by (simp add: word_less_nat_alt)
  have u: "unat (v OR 1) = unat v OR 1" by (simp add: unsigned_or_eq)
  have d: "(n OR 1) div 2 = (n div 2 :: nat)" for n by (simp add: or_Suc_0_eq)
  have "Len64_nat (unat v OR 1) = Len64_nat (unat v)"
    using p Len64_nat.simps [of "unat v OR 1"] Len64_nat.simps [of "unat v"] d by (simp add: or_eq_0_iff)
  then show ?thesis unfolding sovRaft_def u by simp
qed

lemma sovRaft_zero: "sovRaft 0 = 1"
proof -
  have "Len64_nat 1 = 1" by (simp add: Len64_nat.simps)
  then show ?thesis by (simp add: sovRaft_def)
qed

lemma sovRaft_small:
  assumes "v < 128"
  shows "sovRaft v = 1"
proof (cases "v = 0")
  case False
  then have p: "0 < v" by (simp add: word_gt_0)
  have n: "unat v < 128" using assms by (simp add: word_less_nat_alt)
  have "0 < unat v" using p by (simp add: word_less_nat_alt)
  then have "1 \<le> Len64_nat (unat v)" by (simp add: Len64_nat.simps [of "unat v"])
  then show ?thesis using Len64_nat_le [of "unat v" 7] n by (simp add: sovRaft_pos_eq [OF p])
qed (simp add: sovRaft_zero)

lemma sovRaft_step:
  assumes "128 \<le> v"
  shows "sovRaft v = Suc (sovRaft (drop_bit 7 v))"
proof -
  have n: "128 \<le> unat v" using assms by (simp add: word_le_nat_alt)
  then have "0 < unat v" "0 < unat v div 128" by simp_all
  then have p: "0 < v" "0 < drop_bit 7 v" by (simp_all add: word_less_nat_alt unat_drop7)
  show ?thesis by (simp add: sovRaft_pos_eq [OF p(1)] sovRaft_pos_eq [OF p(2)] unat_drop7 Len64_nat_div [OF n])
qed

text \<open>The size computed in advance is the number of bytes written.\<close>

lemma length_varint_bytes: "length (varint_bytes v) = sovRaft v"
proof (induction v rule: varint_bytes.induct)
  case (1 v)
  show ?case
  proof (cases "128 \<le> v")
    case True
    show ?thesis
      using 1(1) [OF True] sovRaft_step [OF True] varint_bytes_more [OF True] by (simp only: list.size)
  next
    case False
    then show ?thesis using varint_bytes_last [of v] sovRaft_small [of v] by (simp add: not_le)
  qed
qed

lemma sovRaft_pos [simp]: "0 < sovRaft v"
proof -
  have "varint_bytes v \<noteq> []" by (simp add: varint_bytes.simps [of v])
  then show ?thesis by (simp add: length_varint_bytes [symmetric])
qed

lemma encodeVarint_loop_bytes:
  assumes "offset + sovRaft v \<le> length dAtA"
  shows "encodeVarint_loop dAtA offset v = Some (take offset dAtA @ varint_bytes v @ drop (offset + sovRaft v) dAtA)"
  using assms
proof (induction v arbitrary: dAtA offset rule: varint_bytes.induct)
  case (1 v)
  have lt: "offset < length dAtA" using 1(2) sovRaft_pos [of v] by linarith
  show ?case
  proof (cases "128 \<le> v")
    case True
    let ?d = "dAtA[offset := ucast (v AND 0x7F OR 0x80)]"
    have "encodeVarint_loop ?d (offset + 1) (drop_bit 7 v) =
        Some (take (offset + 1) ?d @ varint_bytes (drop_bit 7 v) @ drop (offset + 1 + sovRaft (drop_bit 7 v)) ?d)"
      using 1(2) True by (intro 1(1)) (simp_all add: sovRaft_step)
    then show ?thesis
      using True lt by (simp add: encodeVarint_loop.simps [of dAtA] varint_bytes.simps [of v] sovRaft_step take_Suc_conv_app_nth)
  next
    case False
    then show ?thesis
      using lt by (simp add: encodeVarint_loop.simps [of dAtA] varint_bytes.simps [of v] sovRaft_small upd_conv_take_nth_drop)
  qed
qed

section \<open>Writing from the right\<close>

text \<open>A cursor with \<open>n\<close> free bytes in front of the bytes \<open>suf\<close> written so far.\<close>

definition cursor_at :: "nat \<Rightarrow> bytes \<Rightarrow> cursor \<Rightarrow> bool" where
  "cursor_at n suf c \<longleftrightarrow> (\<exists>pre. length pre = n \<and> c = (pre @ suf, n))"

lemma cursor_start: "cursor_at n [] (replicate n 0, n)"
  by (simp add: cursor_at_def)

lemma put_byte_at:
  assumes "cursor_at (Suc n) suf c"
  shows "\<exists>c'. put_byte b c = Some c' \<and> cursor_at n (b # suf) c'"
proof -
  obtain pre x where pre: "length pre = n" "c = ((pre @ [x]) @ suf, Suc n)"
    using assms by (auto simp: cursor_at_def length_Suc_conv_rev)
  then have "put_byte b c = Some (pre @ b # suf, n)" by (auto simp: put_byte_def go_update_def)
  then show ?thesis using pre(1) by (auto simp: cursor_at_def)
qed

lemma put_bytes_at:
  assumes "cursor_at k suf c" "k = n + length b"
  shows "\<exists>c'. put_bytes b c = Some c' \<and> cursor_at n (b @ suf) c'"
proof -
  obtain pre where pre: "length pre = n + length b" "c = (pre @ suf, n + length b)" using assms by (auto simp: cursor_at_def)
  then have "put_bytes b c = Some (take n pre @ b @ suf, n)" by (simp add: put_bytes_def Let_def)
  then show ?thesis using pre(1) by (auto simp: cursor_at_def)
qed

lemma encodeVarintRaft_at:
  assumes "cursor_at k suf c" "k = n + sovRaft v"
  shows "\<exists>c'. encodeVarintRaft v c = Some c' \<and> cursor_at n (varint_bytes v @ suf) c'"
proof -
  obtain pre where pre: "length pre = n + sovRaft v" "c = (pre @ suf, n + sovRaft v)" using assms by (auto simp: cursor_at_def)
  then have "encodeVarint_loop (pre @ suf) n v = Some (take n pre @ varint_bytes v @ suf)"
    by (simp add: encodeVarint_loop_bytes)
  then have "encodeVarintRaft v c = Some (take n pre @ varint_bytes v @ suf, n)"
    using pre by (simp add: encodeVarintRaft_def Let_def)
  then show ?thesis using pre(1) by (auto simp: cursor_at_def)
qed

text \<open>Fields.\<close>

definition varint_wire :: "byte \<Rightarrow> u64 \<Rightarrow> bytes" where
  "varint_wire tag v = tag # varint_bytes v"

definition bytes_wire :: "byte \<Rightarrow> bytes \<Rightarrow> bytes" where
  "bytes_wire tag b = tag # varint_bytes (of_nat (length b)) @ b"

definition context_wire :: "byte \<Rightarrow> gobytes \<Rightarrow> bytes" where
  "context_wire tag ctx = (case ctx of None \<Rightarrow> [] | Some b \<Rightarrow> bytes_wire tag b)"

lemma length_wire [simp]:
  "length (varint_wire tag v) = 1 + sovRaft v"
  "length (bytes_wire tag b) = 1 + length b + sovRaft (of_nat (length b))"
  "length (context_wire tag ctx) = context_Size ctx"
  by (simp_all add: varint_wire_def bytes_wire_def context_wire_def context_Size_def length_varint_bytes split: option.split)

text \<open>A writer that puts the bytes \<open>w\<close> in front of what is written, if there is room.\<close>

definition writes :: "bytes \<Rightarrow> (cursor \<Rightarrow> cursor option) \<Rightarrow> bool" where
  "writes w F \<longleftrightarrow> (\<forall>n suf c. cursor_at (n + length w) suf c \<longrightarrow> (\<exists>c'. F c = Some c' \<and> cursor_at n (w @ suf) c'))"

lemma writesI:
  "(\<And>n suf c. cursor_at (n + length w) suf c \<Longrightarrow> \<exists>c'. F c = Some c' \<and> cursor_at n (w @ suf) c') \<Longrightarrow> writes w F"
  by (simp add: writes_def)

lemma writes_comp:
  assumes "writes w1 F" "writes w2 G"
  shows "writes (w2 @ w1) (\<lambda>c. F c \<bind> G)"
proof (rule writesI)
  fix n suf c assume "cursor_at (n + length (w2 @ w1)) suf c"
  then have "cursor_at ((n + length w2) + length w1) suf c" by (simp add: algebra_simps)
  then obtain c1 where "F c = Some c1" "cursor_at (n + length w2) (w1 @ suf) c1"
    using assms(1) unfolding writes_def by blast
  moreover from this obtain c2 where "G c1 = Some c2" "cursor_at n (w2 @ w1 @ suf) c2"
    using assms(2) unfolding writes_def by blast
  ultimately show "\<exists>c'. (F c \<bind> G) = Some c' \<and> cursor_at n ((w2 @ w1) @ suf) c'" by simp
qed

lemma writes_all:
  assumes "writes w F"
  shows "F (replicate (length w) 0, length w) = Some (w, 0)"
proof -
  obtain c where "F (replicate (length w) 0, length w) = Some c" "cursor_at 0 (w @ []) c"
    using assms [unfolded writes_def, rule_format, of 0 "[]" "(replicate (length w) 0, length w)"] cursor_start by auto
  then show ?thesis by (simp add: cursor_at_def)
qed

lemma put_byte_writes: "writes [b] (put_byte b)"
  using put_byte_at by (auto simp: writes_def)

lemma put_bytes_writes: "writes b (put_bytes b)"
  using put_bytes_at by (auto simp: writes_def)

lemma encodeVarintRaft_writes: "writes (varint_bytes v) (encodeVarintRaft v)"
  using encodeVarintRaft_at by (auto simp: writes_def length_varint_bytes)

lemma put_varint_writes: "writes (varint_wire tag v) (put_varint tag v)"
proof -
  have "put_varint tag v = (\<lambda>c. encodeVarintRaft v c \<bind> put_byte tag)" by (rule ext) (simp add: put_varint_def)
  then show ?thesis
    using writes_comp [OF encodeVarintRaft_writes [of v] put_byte_writes [of tag]] by (simp add: varint_wire_def)
qed

lemma put_context_writes: "writes (context_wire tag ctx) (put_context tag ctx)"
proof (cases ctx)
  case None
  then show ?thesis by (simp add: writes_def context_wire_def put_context_def)
next
  case (Some b)
  let ?l = "of_nat (length b)"
  have "put_context tag ctx = (\<lambda>c. put_bytes b c \<bind> (\<lambda>c. encodeVarintRaft ?l c \<bind> put_byte tag))"
    by (rule ext) (simp add: put_context_def Some)
  then show ?thesis
    using writes_comp [OF put_bytes_writes [of b] writes_comp [OF encodeVarintRaft_writes [of ?l] put_byte_writes [of tag]]]
    by (simp add: Some context_wire_def bytes_wire_def)
qed

lemma put_bool_writes: "writes (varint_wire tag (of_bool b)) (put_bool tag b)"
proof -
  have "put_bool tag b = (\<lambda>c. put_byte (if b then 1 else 0) c \<bind> put_byte tag)" by (rule ext) (simp add: put_bool_def)
  moreover have "varint_bytes (of_bool b) = [if b then 1 else 0]" by (simp add: varint_bytes_last)
  ultimately show ?thesis
    using writes_comp [OF put_byte_writes [of "if b then 1 else 0"] put_byte_writes [of tag]]
    by (simp add: varint_wire_def)
qed

lemma put_each_writes:
  assumes "\<And>x. writes (w x) (put x)"
  shows "writes (concat (map w xs)) (put_each put xs)"
proof (induction xs)
  case Nil
  then show ?case by (simp add: writes_def)
next
  case (Cons x xs)
  have "put_each put (x # xs) = (\<lambda>c. put_each put xs c \<bind> put x)" by (rule ext) simp
  then show ?case using writes_comp [OF Cons.IH assms [of x]] by simp
qed

text \<open>A whole message, written at the end of a buffer.\<close>

definition fills :: "bytes \<Rightarrow> (bytes \<Rightarrow> (bytes \<times> nat) option) \<Rightarrow> bool" where
  "fills w to_sized \<longleftrightarrow>
     (\<forall>dAtA. length w \<le> length dAtA \<longrightarrow>
        (\<exists>pre. length pre = length dAtA - length w \<and> to_sized dAtA = Some (pre @ w, length w)))"

lemma sized_buffer_fills:
  assumes "writes w F"
  shows "fills w (sized_buffer F)"
  unfolding fills_def
proof (intro allI impI)
  fix dAtA :: bytes assume l: "length w \<le> length dAtA"
  then have "cursor_at (length dAtA - length w + length w) [] (dAtA, length dAtA)" by (simp add: cursor_at_def)
  then obtain c where "F (dAtA, length dAtA) = Some c" "cursor_at (length dAtA - length w) (w @ []) c"
    using assms unfolding writes_def by blast
  then show "\<exists>pre. length pre = length dAtA - length w \<and> sized_buffer F dAtA = Some (pre @ w, length w)"
    by (auto simp: cursor_at_def sized_buffer_def)
qed

lemma put_nested_writes:
  assumes "fills w F"
  shows "writes (bytes_wire tag w) (put_nested F tag)"
proof (rule writesI)
  fix n suf c assume "cursor_at (n + length (bytes_wire tag w)) suf c"
  then obtain pre where pre: "length pre = n + (1 + sovRaft (of_nat (length w)) + length w)"
      "c = (pre @ suf, length pre)" by (auto simp: cursor_at_def add.commute [of "length w"])
  obtain pre' where pre': "length pre' = length pre - length w" "F pre = Some (pre' @ w, length w)"
    using assms pre(1) unfolding fills_def by (metis le_add2 add.assoc)
  have l: "length pre' = Suc n + sovRaft (of_nat (length w))" using pre(1) pre'(1) by simp
  have "cursor_at (length pre') (w @ suf) (pre' @ w @ suf, length pre - length w)"
    using pre'(1) by (simp add: cursor_at_def)
  from encodeVarintRaft_at [OF this l] obtain c1 where
    c1: "encodeVarintRaft (of_nat (length w)) (pre' @ w @ suf, length pre - length w) = Some c1"
      "cursor_at (Suc n) (varint_bytes (of_nat (length w)) @ w @ suf) c1" by blast
  from put_byte_at [OF c1(2)] obtain c2 where
    c2: "put_byte tag c1 = Some c2" "cursor_at n (tag # varint_bytes (of_nat (length w)) @ w @ suf) c2" by blast
  have "put_nested F tag c = Some c2"
    using pre(2) pre'(2) c1(1) c2(1) by (simp add: put_nested_def)
  then show "\<exists>c'. put_nested F tag c = Some c' \<and> cursor_at n (bytes_wire tag w @ suf) c'"
    using c2(2) by (simp add: bytes_wire_def)
qed

text \<open>
  The allocated buffer is filled exactly: nothing is left free and the writer never runs over. In a
  buffer of the caller, what follows the message is kept.
\<close>

lemma marshal_fills: "fills w F \<Longrightarrow> marshal (length w) F = Some w"
  unfolding fills_def marshal_def by (force dest!: spec [of _ "replicate (length w) 0"])

lemma marshal_to_fills:
  assumes "fills w F" "length w \<le> length dAtA"
  shows "marshal_to (length w) F dAtA = Some (w @ drop (length w) dAtA, length w)"
proof -
  have "F (take (length w) dAtA) = Some (w, length w)"
    using assms(1) [unfolded fills_def, rule_format, of "take (length w) dAtA"] assms(2) by auto
  then show ?thesis using assms(2) by (simp add: marshal_to_def)
qed

section \<open>Reading from the left\<close>

lemma bytes_at [simp]:
  "(pre @ b # post) ! length pre = b" "length pre < length (pre @ b # post)"
  by simp_all

text \<open>Bits of bytes.\<close>

lemma mask7: "(0x7F :: 'a::len word) = mask 7"
  by (simp add: mask_eq_exp_minus_1)

lemma bit_0x80: "bit (0x80 :: 'a::len word) n \<longleftrightarrow> n = 7 \<and> n < LENGTH('a)"
proof -
  have "(0x80 :: 'a word) = 2 ^ 7" by simp
  then show ?thesis by (simp only: bit_exp_iff possible_bit_word) auto
qed

lemma bit_128: "bit (128 :: int) n \<longleftrightarrow> n = 7" "bit (128 :: nat) n \<longleftrightarrow> n = 7"
proof -
  have "(128 :: int) = 2 ^ 7" "(128 :: nat) = 2 ^ 7" by simp_all
  then show "bit (128 :: int) n \<longleftrightarrow> n = 7" "bit (128 :: nat) n \<longleftrightarrow> n = 7" by (simp_all only: bit_exp_iff) auto
qed

lemma byte_lt_iff: "(b :: byte) < 0x80 \<longleftrightarrow> \<not> bit b 7"
proof -
  have "unat b < 256" using unsigned_less [of b] by simp
  moreover have "bit b 7 \<longleftrightarrow> bit (unat b) 7" by (simp add: bit_unsigned_iff)
  then have "bit b 7 \<longleftrightarrow> odd (unat b div 128)" by (simp add: bit_iff_odd)
  moreover have "(b < 0x80) = (unat b < 128)" by (simp add: word_less_nat_alt)
  moreover have "odd (n div 128) = (\<not> n < 128)" if "n < 256" for n :: nat
  proof -
    have "n div 128 = 0 \<or> n div 128 = 1" using that by linarith
    then show ?thesis by (auto simp: div_eq_0_iff)
  qed
  ultimately show ?thesis by simp
qed

lemma bits_below_128: "v < 128 \<Longrightarrow> bit (v :: u64) n \<Longrightarrow> n < 7"
proof -
  assume "v < 128" and b: "bit v n"
  then have "unat v < 2 ^ 7" by (simp add: word_less_nat_alt)
  then have "take_bit 7 (unat v) = unat v" by (simp only: take_bit_nat_eq_self)
  moreover have "bit (unat v) n" using b by (simp add: bit_unsigned_iff)
  ultimately show "n < 7" by (metis bit_take_bit_iff)
qed

lemma more_byte: "\<not> (ucast (v AND 0x7F OR 0x80 :: u64) :: byte) < 0x80"
  unfolding byte_lt_iff mask7 by (simp add: bit_simps bit_0x80)

lemma more_bits:
  "(ucast ((ucast (v AND 0x7F OR 0x80 :: u64) :: byte) AND 0x7F) :: 'a::len word) = ucast (v AND 0x7F)"
  unfolding mask7
  by (rule bit_word_eqI)
     (auto simp: bit_unsigned_iff bit_and_iff bit_or_iff bit_mask_iff bit_0x80 bit_128 dest: bit_imp_le_length)

lemma last_byte: "v < 128 \<Longrightarrow> (ucast (v :: u64) :: byte) < 0x80"
  unfolding byte_lt_iff using bits_below_128 by (auto simp: bit_simps)

lemma last_bits: "v < 128 \<Longrightarrow> (ucast ((ucast (v :: u64) :: byte) AND 0x7F) :: 'a::len word) = ucast v"
  unfolding mask7 using bits_below_128 by (intro bit_word_eqI) (fastforce simp: bit_simps)

lemma low_high_bits:
  "push_bit s (ucast (v AND 0x7F :: u64)) OR push_bit (s + 7) (ucast (drop_bit 7 v)) =
     (push_bit s (ucast v) :: 'a::len word)"
  unfolding mask7
proof (rule bit_word_eqI)
  fix n assume "n < LENGTH('a)"
  show "bit (push_bit s (ucast (v AND mask 7)) OR push_bit (s + 7) (ucast (drop_bit 7 v)) :: 'a word) n =
    bit (push_bit s (ucast v) :: 'a word) n"
  proof (cases "s + 7 \<le> n")
    case True
    then have "7 + (n - (s + 7)) = n - s" by simp
    then show ?thesis using True \<open>n < LENGTH('a)\<close> by (auto simp: bit_simps)
  next
    case False
    then show ?thesis using \<open>n < LENGTH('a)\<close> by (auto simp: bit_simps)
  qed
qed

text \<open>A varint read into a word of any width: the low bits of the value.\<close>

lemma varint_loop_bytes:
  fixes acc :: "'a::len word"
  assumes "shift + 7 * sovRaft v < 71" "i = length pre"
  shows "varint_loop (pre @ varint_bytes v @ post) shift i acc =
    Inr (acc OR push_bit shift (ucast v), i + sovRaft v)"
  using assms
proof (induction v arbitrary: pre shift i acc rule: varint_bytes.induct)
  case (1 v)
  have sh: "\<not> shift \<ge> 64" using 1(2) sovRaft_pos [of v] by linarith
  show ?case
  proof (cases "128 \<le> v")
    case True
    let ?b = "ucast (v AND 0x7F OR 0x80) :: byte"
    note v = varint_bytes_more [OF True]
    have "varint_loop ((pre @ [?b]) @ varint_bytes (drop_bit 7 v) @ post) (shift + 7) (i + 1) acc' =
      Inr (acc' OR push_bit (shift + 7) (ucast (drop_bit 7 v)), i + 1 + sovRaft (drop_bit 7 v))" for acc' :: "'a word"
      using 1(2,3) True by (intro 1(1)) (simp_all add: sovRaft_step)
    from this [of "acc OR push_bit shift (ucast (v AND 0x7F))"]
    show ?thesis
      using sh 1(3) True more_byte [of v] low_high_bits [of shift v, where ?'a = 'a]
      by (simp add: varint_loop.simps [of _ shift] v sovRaft_step Let_def more_bits or.assoc)
  next
    case False
    have v: "varint_bytes v = [ucast v]" using False varint_bytes_last by (simp add: not_le)
    show ?thesis
      using sh 1(3) False sovRaft_small [of v] last_byte [of v] last_bits [of v, where ?'a = 'a]
      by (simp add: varint_loop.simps [of _ shift] v Let_def not_le)
  qed
qed

lemma varint_read:
  assumes "i = length pre"
  shows "varint (pre @ varint_bytes v @ post) i = Inr (ucast v :: 'a::len word, i + sovRaft v)"
  using varint_loop_bytes [of 0 v i pre post "0 :: 'a word"] assms sovRaft_le [of v] by (simp add: varint_def)

lemma byte_there_back: "(ucast (ucast (b :: byte) :: u64) :: byte) = b"
  by (rule bit_word_eqI) (auto simp: bit_simps)

lemma tag_read:
  assumes "tag < 0x80" "i = length pre"
  shows "varint (pre @ tag # post) i = Inr (ucast tag :: u64, i + 1)"
proof -
  have l: "unat tag < 128" using assms(1) by (simp add: word_less_nat_alt)
  have "unat (ucast tag :: u64) = take_bit 64 (unat tag)" by (simp add: unsigned_ucast_eq)
  also have "\<dots> = unat tag" using l by (simp add: take_bit_nat_eq_self)
  finally have t: "(ucast tag :: u64) < 128" using l by (simp add: word_less_nat_alt)
  then have "varint_bytes (ucast tag) = [ucast (ucast tag :: u64)]" by (rule varint_bytes_last)
  then show ?thesis
    using varint_read [OF assms(2), of "ucast tag" post, where ?'a = 64] sovRaft_small [OF t] byte_there_back [of tag]
    by simp
qed

text \<open>Field number and wire type of a tag.\<close>

definition tag_of :: "int \<Rightarrow> nat \<Rightarrow> byte \<Rightarrow> bool" where
  "tag_of k w tag \<longleftrightarrow> tag < 0x80 \<and> 0 < k \<and> w \<noteq> 4 \<and>
     sint (ucast (drop_bit 3 (ucast tag :: u64)) :: 32 word) = k \<and> unat ((ucast tag :: u64) AND 7) = w"

lemma unmarshal_field_tag:
  assumes "tag_of k w tag" "i = length pre" "f k w (pre @ tag # post) (i + 1) m = Some (Inr (m', n))"
  shows "unmarshal_field kp f (pre @ tag # post) i m = Inr (m', i + 1 + n)"
  using assms(1) tag_read [of tag i pre post] assms(2,3)
  by (simp add: unmarshal_field_def tag_of_def Let_def del: One_nat_def)

text \<open>One round of the loop of a decoder on a buffer whose rest starts with a field.\<close>

lemma loop_varint:
  fixes put :: "'a::len word \<Rightarrow> 'm \<Rightarrow> 'm"
  assumes "tag_of k 0 tag" "\<And>d i m. f k 0 d i m = Some (varint_field put 0 d i m)" "i = length pre"
  shows "unmarshal_loop kp f (pre @ varint_wire tag v @ post) i m =
    unmarshal_loop kp f (pre @ varint_wire tag v @ post) (i + length (varint_wire tag v)) (put (ucast v) m)"
proof -
  have "varint ((pre @ [tag]) @ varint_bytes v @ post) (i + 1) = Inr (ucast v :: 'a word, i + 1 + sovRaft v)"
    using assms(3) by (intro varint_read) simp
  then have "f k 0 (pre @ tag # varint_bytes v @ post) (i + 1) m = Some (Inr (put (ucast v) m, sovRaft v))"
    by (simp add: assms(2) varint_field_def)
  with unmarshal_field_tag [of k 0 tag i pre f "varint_bytes v @ post" m "put (ucast v) m" "sovRaft v"] assms(1,3)
  have "unmarshal_field kp f (pre @ varint_wire tag v @ post) i m = Inr (put (ucast v) m, i + (1 + sovRaft v))"
    by (simp add: varint_wire_def)
  then show ?thesis
    using assms(3) by (subst unmarshal_loop.simps) (simp add: length_varint_bytes)
qed

lemma delimited_read:
  assumes "length (pre @ varint_bytes (of_nat (length b)) @ b @ post) < 2 ^ 63" "i = length pre"
  shows "delimited (pre @ varint_bytes (of_nat (length b)) @ b @ post) i =
    Inr (i + sovRaft (of_nat (length b)), i + sovRaft (of_nat (length b)) + length b)"
proof -
  have l: "length b < 2 ^ 63" using assms(1) by simp
  have u: "unat (of_nat (length b) :: u64) = length b" using l by simp
  have s: "\<not> sint (of_nat (length b) :: u64) < 0"
    using l u sint_small_u64 [of "of_nat (length b)"] by (simp add: word_less_nat_alt)
  show ?thesis
    using varint_read [OF assms(2), of "of_nat (length b)" "b @ post", where ?'a = 64] assms u s
    by (simp add: delimited_def Let_def length_varint_bytes)
qed

lemma loop_bytes:
  assumes "tag_of k 2 tag" "\<And>d i m. f k 2 d i m = Some (bytes_field put 2 d i m)" "i = length pre"
    "length (pre @ bytes_wire tag b @ post) < 2 ^ 63" "put b m = Inr m'"
  shows "unmarshal_loop kp f (pre @ bytes_wire tag b @ post) i m =
    unmarshal_loop kp f (pre @ bytes_wire tag b @ post) (i + length (bytes_wire tag b)) m'"
proof -
  let ?l = "of_nat (length b) :: u64"
  define d where "d = pre @ tag # varint_bytes ?l @ b @ post"
  have d: "d = (pre @ [tag]) @ varint_bytes ?l @ b @ post" by (simp add: d_def)
  have "delimited d (i + 1) = Inr (i + 1 + sovRaft ?l, i + 1 + sovRaft ?l + length b)"
    unfolding d using assms(3,4) by (intro delimited_read) (simp_all add: bytes_wire_def)
  moreover have "take (length b) (drop (i + 1 + sovRaft ?l) d) = b"
    unfolding d using assms(3) by (simp add: length_varint_bytes)
  ultimately have "f k 2 d (i + 1) m = Some (Inr (m', sovRaft ?l + length b))"
    using assms(5) by (simp add: assms(2) bytes_field_def)
  with unmarshal_field_tag [of k 2 tag i pre f "varint_bytes ?l @ b @ post" m m' "sovRaft ?l + length b"] assms(1,3)
  have "unmarshal_field kp f (pre @ bytes_wire tag b @ post) i m = Inr (m', i + (1 + length b + sovRaft ?l))"
    by (simp add: bytes_wire_def d_def)
  then show ?thesis
    using assms(3) by (subst unmarshal_loop.simps) (simp add: length_varint_bytes)
qed

lemma loop_end: "unmarshal_loop kp f d (length d) m = Inr m"
  by (simp add: unmarshal_loop.simps)

text \<open>A decoder that reads the bytes \<open>w\<close> off the front of the rest, with the effect \<open>M\<close>.\<close>

definition reads :: "(bytes \<Rightarrow> 'm \<Rightarrow> 'm) \<Rightarrow> 'm dispatch \<Rightarrow> bytes \<Rightarrow> ('m \<Rightarrow> 'm) \<Rightarrow> bool" where
  "reads kp f w M \<longleftrightarrow>
     (\<forall>pre post m. length (pre @ w @ post) < 2 ^ 63 \<longrightarrow>
        unmarshal_loop kp f (pre @ w @ post) (length pre) m =
        unmarshal_loop kp f (pre @ w @ post) (length (pre @ w)) (M m))"

lemma reads_comp:
  assumes "reads kp f w1 M1" "reads kp f w2 M2"
  shows "reads kp f (w1 @ w2) (\<lambda>m. M2 (M1 m))"
  unfolding reads_def
proof (intro allI impI)
  fix pre post m assume "length (pre @ (w1 @ w2) @ post) < 2 ^ 63"
  then show "unmarshal_loop kp f (pre @ (w1 @ w2) @ post) (length pre) m =
      unmarshal_loop kp f (pre @ (w1 @ w2) @ post) (length (pre @ w1 @ w2)) (M2 (M1 m))"
    using assms(1) [unfolded reads_def, rule_format, of pre "w2 @ post" m]
      assms(2) [unfolded reads_def, rule_format, of "pre @ w1" post "M1 m"] by simp
qed

lemma reads_nil: "reads kp f [] (\<lambda>m. m)"
  by (simp add: reads_def)

lemma reads_all: "reads kp f w M \<Longrightarrow> length w < 2 ^ 63 \<Longrightarrow> unmarshal_loop kp f w 0 m = Inr (M m)"
  unfolding reads_def using loop_end [of kp f w] by (metis append.left_neutral append.right_neutral list.size(3))

lemma reads_varint:
  fixes put :: "'a::len word \<Rightarrow> 'm \<Rightarrow> 'm"
  assumes "tag_of k 0 tag" "\<And>d i m. f k 0 d i m = Some (varint_field put 0 d i m)"
  shows "reads kp f (varint_wire tag v) (put (ucast v))"
  using loop_varint [of k tag f put, OF assms refl] by (simp add: reads_def)

lemma reads_bytes:
  assumes "tag_of k 2 tag" "\<And>d i m. f k 2 d i m = Some (bytes_field put 2 d i m)"
    "\<And>m. length b < 2 ^ 63 \<Longrightarrow> put b m = Inr (M m)"
  shows "reads kp f (bytes_wire tag b) M"
  unfolding reads_def
proof (intro allI impI)
  fix pre post m assume l: "length (pre @ bytes_wire tag b @ post) < 2 ^ 63"
  then have "put b m = Inr (M m)" by (intro assms(3)) simp
  then show "unmarshal_loop kp f (pre @ bytes_wire tag b @ post) (length pre) m =
      unmarshal_loop kp f (pre @ bytes_wire tag b @ post) (length (pre @ bytes_wire tag b)) (M m)"
    using loop_bytes [of k tag f put, OF assms(1,2) refl l] by simp
qed

lemma reads_context:
  assumes "tag_of k 2 tag" "\<And>d i m. f k 2 d i m = Some (bytes_field (\<lambda>b m. Inr (put b m)) 2 d i m)"
  shows "reads kp f (context_wire tag ctx) (\<lambda>m. case ctx of None \<Rightarrow> m | Some b \<Rightarrow> put b m)"
  using reads_bytes [of k tag f "\<lambda>b m. Inr (put b m)", OF assms] reads_nil by (auto simp: context_wire_def split: option.split)

lemma reads_cong: "reads kp f w M \<Longrightarrow> (\<And>x. M x = M' x) \<Longrightarrow> reads kp f w M'"
  by (simp add: reads_def)

lemma reads_bool:
  assumes "tag_of k 0 tag" "\<And>d i m. f k 0 d i m = Some (bool_field put 0 d i m)"
  shows "reads kp f (varint_wire tag (of_bool b)) (put b)"
  using reads_varint [of k tag f "\<lambda>w :: u64. put (w \<noteq> 0)" kp "of_bool b"] assms by (simp add: bool_field_def)

text \<open>Repeated fields append to the list read so far.\<close>

lemma reads_repeated:
  assumes "\<And>x. x \<in> set xs \<Longrightarrow> reads kp f (w x) (\<lambda>m. put (get m @ [x]) m)"
    "\<And>v m. get (put v m) = v" "\<And>u v m. put v (put u m) = put v m" "\<And>m. put (get m) m = m"
  shows "reads kp f (concat (map w xs)) (\<lambda>m. put (get m @ xs) m)"
  using assms(1)
proof (induction xs)
  case Nil
  then show ?case using reads_nil by (simp add: assms(4))
next
  case (Cons x xs)
  have "reads kp f (w x @ concat (map w xs)) (\<lambda>m. put (get (put (get m @ [x]) m) @ xs) (put (get m @ [x]) m))"
    using Cons by (intro reads_comp [where ?M2.0 = "\<lambda>m. put (get m @ xs) m"]) simp_all
  then show ?case by (simp add: assms(2,3))
qed

lemma reads_id:
  assumes "tag_of k 0 tag" "\<And>d i m. f k 0 d i m = Some (ids_field get put 0 d i m)"
  shows "reads kp f (varint_wire tag v) (\<lambda>m. put (get m @ [v]) m)"
proof -
  have "ids_field get put 0 = varint_field (\<lambda>w m. put (get m @ [w]) m) 0"
    by (rule ext)+ (simp add: ids_field_def varint_field_def)
  then show ?thesis
    using reads_varint [of k tag f "\<lambda>w :: u64. \<lambda>m. put (get m @ [w]) m" kp v] assms by simp
qed

text \<open>A field the dispatch does not know is skipped, whatever it holds.\<close>

lemma skip_varint:
  assumes "tag_of k 0 tag" "length (varint_wire tag v @ post) < 2 ^ 63"
  shows "skipRaft (varint_wire tag v @ post) = Inr (length (varint_wire tag v))"
proof -
  let ?d = "tag # varint_bytes v @ post"
  have t: "varint ?d 0 = Inr (ucast tag :: u64, 1)"
    using tag_read [of tag 0 "[]"] assms(1) by (simp add: tag_of_def)
  have "varint ?d 1 = Inr (v, 1 + sovRaft v)"
    using varint_read [of 1 "[tag]" v post, where ?'a = 64] by simp
  then have "skip_value ?d (unat ((ucast tag :: u64) AND 7)) 1 0 = Inr (1 + sovRaft v, 0)"
    using assms(1) by (simp add: skip_value_def tag_of_def)
  moreover have "1 + sovRaft v < 2 ^ 63" using assms(2) by simp
  ultimately show ?thesis
    using t by (simp add: skipRaft_def skip_loop.simps varint_wire_def length_varint_bytes)
qed

lemma skip_bytes:
  assumes "tag_of k 2 tag" "length (bytes_wire tag b @ post) < 2 ^ 63"
  shows "skipRaft (bytes_wire tag b @ post) = Inr (length (bytes_wire tag b))"
proof -
  let ?l = "of_nat (length b) :: u64"
  let ?d = "tag # varint_bytes ?l @ b @ post"
  have t: "varint ?d 0 = Inr (ucast tag :: u64, 1)"
    using tag_read [of tag 0 "[]"] assms(1) by (simp add: tag_of_def)
  have l: "length b < 2 ^ 63" using assms(2) by simp
  have u: "unat ?l = length b" using l by simp
  have s: "\<not> sint ?l < 0" using l u sint_small_u64 [of ?l] by (simp add: word_less_nat_alt)
  have "varint ?d 1 = Inr (?l, 1 + sovRaft ?l)"
    using varint_read [of 1 "[tag]" ?l "b @ post", where ?'a = 64] by simp
  then have "skip_value ?d (unat ((ucast tag :: u64) AND 7)) 1 0 = Inr (1 + sovRaft ?l + length b, 0)"
    using assms(1) s u by (simp add: skip_value_def tag_of_def)
  moreover have "1 + sovRaft ?l + length b < 2 ^ 63" using assms(2) by simp
  ultimately show ?thesis
    using t by (simp add: skipRaft_def skip_loop.simps bytes_wire_def length_varint_bytes)
qed

lemma reads_unknown:
  assumes "tag_of k n tag" "\<And>d i m. f k n d i m = None" "w = tag # w'"
    "\<And>post. length (w @ post) < 2 ^ 63 \<Longrightarrow> skipRaft (w @ post) = Inr (length w)"
  shows "reads kp f w (kp w)"
  unfolding reads_def
proof (intro allI impI)
  fix pre post m assume l: "length (pre @ w @ post) < 2 ^ 63"
  have "varint (pre @ w @ post) (length pre) = Inr (ucast tag :: u64, length pre + 1)"
    using tag_read [of tag "length pre" pre "w' @ post"] assms(1,3) by (simp add: tag_of_def)
  then have "unmarshal_field kp f (pre @ w @ post) (length pre) m = Inr (kp w m, length pre + length w)"
    using assms(1,2) assms(4) [of post] l by (simp add: unmarshal_field_def tag_of_def Let_def)
  then show "unmarshal_loop kp f (pre @ w @ post) (length pre) m = unmarshal_loop kp f (pre @ w @ post) (length (pre @ w)) (kp w m)"
    by (subst unmarshal_loop.simps) (simp add: assms(3))
qed

lemma reads_unknown_varint:
  "tag_of k 0 tag \<Longrightarrow> (\<And>d i m. f k 0 d i m = None) \<Longrightarrow> reads kp f (varint_wire tag v) (kp (varint_wire tag v))"
  by (rule reads_unknown) (auto simp: varint_wire_def intro: skip_varint [unfolded varint_wire_def, simplified])

lemma reads_unknown_bytes:
  "tag_of k 2 tag \<Longrightarrow> (\<And>d i m. f k 2 d i m = None) \<Longrightarrow> reads kp f (bytes_wire tag b) (kp (bytes_wire tag b))"
  by (rule reads_unknown) (auto simp: bytes_wire_def intro: skip_bytes [unfolded bytes_wire_def, simplified])

text \<open>The packed form of a list of integers.\<close>

lemma packed_loop_read:
  assumes "i = length pre"
  shows "packed_loop (pre @ concat (map varint_bytes vs) @ post) i (i + length (concat (map varint_bytes vs))) us =
    Inr (us @ vs, i + length (concat (map varint_bytes vs)))"
  using assms
proof (induction vs arbitrary: pre i us)
  case Nil
  then show ?case by (simp add: packed_loop.simps)
next
  case (Cons v vs)
  let ?d = "pre @ varint_bytes v @ concat (map varint_bytes vs) @ post"
  have "varint ?d i = Inr (v, i + sovRaft v)" using varint_read [OF Cons.prems, of v, where ?'a = 64] by simp
  moreover have "packed_loop ((pre @ varint_bytes v) @ concat (map varint_bytes vs) @ post) (i + sovRaft v)
      (i + sovRaft v + length (concat (map varint_bytes vs))) (us @ [v]) =
      Inr ((us @ [v]) @ vs, i + sovRaft v + length (concat (map varint_bytes vs)))"
    using Cons.prems by (intro Cons.IH) (simp add: length_varint_bytes)
  ultimately show ?case by (subst packed_loop.simps) (simp add: length_varint_bytes add.assoc)
qed

lemma reads_packed:
  assumes "tag_of k 2 tag" "\<And>d i m. f k 2 d i m = Some (ids_field get put 2 d i m)"
  shows "reads kp f (bytes_wire tag (concat (map varint_bytes vs))) (\<lambda>m. put (get m @ vs) m)"
  unfolding reads_def
proof (intro allI impI)
  fix pre post m
  let ?b = "concat (map varint_bytes vs)"
  let ?l = "of_nat (length ?b) :: u64"
  assume l: "length (pre @ bytes_wire tag ?b @ post) < 2 ^ 63"
  define d where "d = pre @ bytes_wire tag ?b @ post"
  define j where "j = length pre + 1 + sovRaft ?l"
  have "delimited d (length pre + 1) = Inr (j, j + length ?b)"
    using delimited_read [of "pre @ [tag]" ?b post "length pre + 1"] l by (simp add: d_def j_def bytes_wire_def)
  moreover have "packed_loop d j (j + length ?b) (get m) = Inr (get m @ vs, j + length ?b)"
    using packed_loop_read [of j "pre @ tag # varint_bytes ?l" vs post "get m"]
    by (simp add: d_def j_def bytes_wire_def length_varint_bytes)
  ultimately have "f k 2 d (length pre + 1) m = Some (Inr (put (get m @ vs) m, sovRaft ?l + length ?b))"
    by (simp add: assms(2) ids_field_def j_def)
  with unmarshal_field_tag [of k 2 tag "length pre" pre f "varint_bytes ?l @ ?b @ post" m] assms(1)
  have "unmarshal_field kp f d (length pre) m = Inr (put (get m @ vs) m, length (pre @ bytes_wire tag ?b))"
    by (simp add: d_def bytes_wire_def length_varint_bytes)
  then show "unmarshal_loop kp f (pre @ bytes_wire tag ?b @ post) (length pre) m =
      unmarshal_loop kp f (pre @ bytes_wire tag ?b @ post) (length (pre @ bytes_wire tag ?b)) (put (get m @ vs) m)"
    unfolding d_def by (subst unmarshal_loop.simps) (simp add: bytes_wire_def)
qed

section \<open>Codecs\<close>

text \<open>
  What a generated message type offers: its size, its writer and the dispatch of its decoder. \<open>wire\<close>
  is its encoding; \<open>merge m x\<close> is what decoding the encoding of \<open>m\<close> into \<open>x\<close> gives: scalars are replaced,
  repeated fields appended, nested messages merged.
\<close>

locale codec =
  fixes wire :: "'m \<Rightarrow> bytes" and Size :: "'m \<Rightarrow> nat" and to_sized :: "'m \<Rightarrow> bytes \<Rightarrow> (bytes \<times> nat) option"
    and keep :: "bytes \<Rightarrow> 'm \<Rightarrow> 'm" and field :: "'m dispatch" and merge :: "'m \<Rightarrow> 'm \<Rightarrow> 'm" and zero :: 'm and ok :: "'m \<Rightarrow> bool"
  assumes wire_length: "length (wire m) = Size m"
    and wire_written: "fills (wire m) (to_sized m)"
    and wire_read: "ok m \<Longrightarrow> reads keep field (wire m) (merge m)"
    and merge_zero: "ok m \<Longrightarrow> merge m zero = m"
begin

lemma marshal_wire: "marshal (Size m) (to_sized m) = Some (wire m)"
  using marshal_fills [OF wire_written] by (simp add: wire_length)

lemma marshal_to_wire:
  "Size m \<le> length dAtA \<Longrightarrow> marshal_to (Size m) (to_sized m) dAtA = Some (wire m @ drop (Size m) dAtA, Size m)"
  using marshal_to_fills [OF wire_written] by (simp add: wire_length)

lemma nested_length: "length (bytes_wire tag (wire m)) = nested_Size (Size m)"
  by (simp add: nested_Size_def wire_length)

lemma nested_written: "writes (bytes_wire tag (wire m)) (put_nested (to_sized m) tag)"
  by (rule put_nested_writes [OF wire_written])

lemma unmarshal_wire: "ok m \<Longrightarrow> Size m < 2 ^ 63 \<Longrightarrow> unmarshal_loop keep field (wire m) 0 x = Inr (merge m x)"
  using reads_all [OF wire_read] by (simp add: wire_length)

lemma nested_read:
  assumes "tag_of k 2 tag" "ok m"
    "\<And>d i x. f k 2 d i x = Some (bytes_field (decode_into (\<lambda>b. unmarshal_loop keep field b 0) get put) 2 d i x)"
  shows "reads kp f (bytes_wire tag (wire m)) (\<lambda>x. put (merge m (get x)) x)"
  using assms(2) unmarshal_wire
  by (intro reads_bytes [of k tag f "decode_into (\<lambda>b. unmarshal_loop keep field b 0) get put", OF assms(1)])
     (simp_all add: assms(3) decode_into_def wire_length)

theorem round_trip:
  "ok m \<Longrightarrow> Size m < 2 ^ 63 \<Longrightarrow>
   (case marshal (Size m) (to_sized m) of None \<Rightarrow> None | Some bs \<Rightarrow> Some (unmarshal_loop keep field bs 0 zero)) = Some (Inr m)"
  by (simp add: marshal_wire unmarshal_wire merge_zero)

theorem marshal_inj:
  assumes "marshal (Size m) (to_sized m) = marshal (Size m') (to_sized m')" "ok m" "ok m'" "Size m < 2 ^ 63"
  shows "m = m'"
proof -
  have "wire m = wire m'" using assms(1) by (simp add: marshal_wire)
  then have "Size m' < 2 ^ 63" using assms(4) by (metis wire_length)
  then show ?thesis
    using unmarshal_wire [of m zero] unmarshal_wire [of m' zero] assms(2-4) \<open>wire m = wire m'\<close> by (simp add: merge_zero)
qed

end

end
