(* ===== verification/Codec_Messages.thy ===== *)
theory Codec_Messages
  imports Codec_Spec
begin

unbundle bit_operations_syntax

text \<open>
  The nine message types of \<^verbatim>\<open>raftpb/raft.pb.go\<close> as codecs: for each its encoding, what decoding it
  into a message gives, and the interpretation of the locale on the generated size, writer and
  decoder. The properties at the end are the round trips.
\<close>

section \<open>Tags and enumerations\<close>

lemma tags [simp]:
  "tag_of 1 0 0x8" "tag_of 2 0 0x10" "tag_of 3 0 0x18" "tag_of 4 0 0x20" "tag_of 5 0 0x28" "tag_of 6 0 0x30"
  "tag_of 8 0 0x40" "tag_of 10 0 0x50" "tag_of 11 0 0x58" "tag_of 1 2 0xA" "tag_of 2 2 0x12" "tag_of 3 2 0x1A"
  "tag_of 4 2 0x22" "tag_of 7 2 0x3A" "tag_of 9 2 0x4A" "tag_of 12 2 0x62"
  by (simp_all add: tag_of_def; code_simp)+

text \<open>An enumeration value is one the decoder produces: not a named value under its number.\<close>

definition type_ok :: "ConfChangeType \<Rightarrow> bool" where
  "type_ok t \<longleftrightarrow> ConfChangeType_of (ConfChangeType_value t) = t"

definition transition_ok :: "ConfChangeTransition \<Rightarrow> bool" where
  "transition_ok t \<longleftrightarrow> ConfChangeTransition_of (ConfChangeTransition_value t) = t"

definition entry_type_ok :: "EntryType \<Rightarrow> bool" where
  "entry_type_ok t \<longleftrightarrow> EntryType_of (EntryType_value t) = t"

definition message_type_ok :: "MessageType \<Rightarrow> bool" where
  "message_type_ok t \<longleftrightarrow> MessageType_of (MessageType_value t) = t"

declare ConfChangeType_of.simps [simp del] ConfChangeTransition_of.simps [simp del]
  EntryType_of.simps [simp del] MessageType_of.simps [simp del]

lemma sign_there_back: "(ucast (scast (w :: 32 word) :: u64) :: 32 word) = w"
  by (rule bit_word_eqI) (auto simp: bit_simps)

lemma enum_there_back [simp]:
  "type_ok t \<Longrightarrow> ConfChangeType_of (ucast (type_u64 t)) = t"
  "transition_ok u \<Longrightarrow> ConfChangeTransition_of (ucast (transition_u64 u)) = u"
  "entry_type_ok v \<Longrightarrow> EntryType_of (ucast (entry_type_u64 v)) = v"
  "message_type_ok w \<Longrightarrow> MessageType_of (ucast (message_type_u64 w)) = w"
  by (simp_all add: type_ok_def type_u64_def transition_ok_def transition_u64_def entry_type_ok_def
      entry_type_u64_def message_type_ok_def message_type_u64_def sign_there_back)

text \<open>A field that may be nil replaces what is there only if it is present.\<close>

definition later :: "gobytes \<Rightarrow> gobytes \<Rightarrow> gobytes" where
  "later new old = (case new of None \<Rightarrow> old | Some b \<Rightarrow> Some b)"

lemma later_simps [simp]: "later None x = x" "later (Some b) x = Some b" "later x None = x"
  by (simp_all add: later_def split: option.split)

lemma reads_optional:
  assumes "tag_of k 2 tag" "\<And>d i m. f k 2 d i m = Some (bytes_field (\<lambda>b m. Inr (put (Some b) m)) 2 d i m)"
    "\<And>m. put (get m) m = m"
  shows "reads kp f (context_wire tag ctx) (\<lambda>m. put (later ctx (get m)) m)"
  using reads_context [of k tag f "\<lambda>b. put (Some b)" kp ctx, OF assms(1,2)]
  by (rule reads_cong) (simp add: later_def assms(3) split: option.split)

lemma wire_sums:
  "length (concat (map (varint_wire tag) vs)) = ids_Size vs"
  by (simp add: length_concat ids_Size_def comp_def)

section \<open>Entries and hard states\<close>

definition Entry_wire :: "Entry \<Rightarrow> bytes" where
  "Entry_wire m = varint_wire 0x8 (entry_type_u64 (e_Type m)) @ varint_wire 0x10 (e_Term m) @
     varint_wire 0x18 (e_Index m) @ context_wire 0x22 (e_Data m)"

definition Entry_merge :: "Entry \<Rightarrow> Entry \<Rightarrow> Entry" where
  "Entry_merge m x = x\<lparr>e_Type := e_Type m, e_Term := e_Term m, e_Index := e_Index m,
     e_Data := later (e_Data m) (e_Data x)\<rparr>"

definition Entry_ok :: "Entry \<Rightarrow> bool" where
  "Entry_ok m \<longleftrightarrow> entry_type_ok (e_Type m)"

lemma Entry_reads:
  assumes "Entry_ok m"
  shows "reads drop_unknown Entry_field (Entry_wire m) (Entry_merge m)"
proof -
  let ?f = Entry_field
  have 1: "reads drop_unknown ?f (varint_wire 0x8 v) (\<lambda>m. m\<lparr>e_Type := EntryType_of (ucast v)\<rparr>)" for v
    by (rule reads_varint [where k = 1]) (simp_all add: Entry_field_def)
  have 2: "reads drop_unknown ?f (varint_wire 0x10 v) (\<lambda>m. m\<lparr>e_Term := ucast v\<rparr>)" for v
    by (rule reads_varint [where k = 2]) (simp_all add: Entry_field_def)
  have 3: "reads drop_unknown ?f (varint_wire 0x18 v) (\<lambda>m. m\<lparr>e_Index := ucast v\<rparr>)" for v
    by (rule reads_varint [where k = 3]) (simp_all add: Entry_field_def)
  have 4: "reads drop_unknown ?f (context_wire 0x22 c) (\<lambda>m. m\<lparr>e_Data := later c (e_Data m)\<rparr>)" for c
    by (rule reads_optional [where k = 4 and put = "\<lambda>b m. m\<lparr>e_Data := b\<rparr>"]) (simp_all add: Entry_field_def)
  show ?thesis
    unfolding Entry_wire_def
    by (rule reads_cong, (rule reads_comp 1 2 3 4)+) (use assms in \<open>simp add: Entry_merge_def Entry_ok_def\<close>)
qed

interpretation entry:
  codec Entry_wire Entry_buffer_Size Entry_MarshalToSizedBuffer drop_unknown Entry_field Entry_merge zero_Entry Entry_ok
proof unfold_locales
  fix m
  show "fills (Entry_wire m) (Entry_MarshalToSizedBuffer m)"
    unfolding Entry_wire_def Entry_MarshalToSizedBuffer_def append.assoc [symmetric]
    by (intro sized_buffer_fills writes_comp put_varint_writes put_context_writes)
  show "length (Entry_wire m) = Entry_buffer_Size m"
    by (simp add: Entry_wire_def Entry_buffer_Size_def)
  show "Entry_ok m \<Longrightarrow> Entry_merge m zero_Entry = m"
    by (simp add: Entry_merge_def Entry_ok_def zero_Entry_def)
qed (rule Entry_reads)

definition HardState_wire :: "HardState \<Rightarrow> bytes" where
  "HardState_wire m = varint_wire 0x8 (hs_Term m) @ varint_wire 0x10 (hs_Vote m) @
     varint_wire 0x18 (hs_Commit m)"

definition HardState_merge :: "HardState \<Rightarrow> HardState \<Rightarrow> HardState" where
  "HardState_merge m x = x\<lparr>hs_Term := hs_Term m, hs_Vote := hs_Vote m, hs_Commit := hs_Commit m\<rparr>"

definition HardState_ok :: "HardState \<Rightarrow> bool" where
  "HardState_ok m \<longleftrightarrow> True"

lemma HardState_reads:
  assumes "HardState_ok m"
  shows "reads drop_unknown HardState_field (HardState_wire m) (HardState_merge m)"
proof -
  let ?f = HardState_field
  have 1: "reads drop_unknown ?f (varint_wire 0x8 v) (\<lambda>m. m\<lparr>hs_Term := ucast v\<rparr>)" for v
    by (rule reads_varint [where k = 1]) (simp_all add: HardState_field_def)
  have 2: "reads drop_unknown ?f (varint_wire 0x10 v) (\<lambda>m. m\<lparr>hs_Vote := ucast v\<rparr>)" for v
    by (rule reads_varint [where k = 2]) (simp_all add: HardState_field_def)
  have 3: "reads drop_unknown ?f (varint_wire 0x18 v) (\<lambda>m. m\<lparr>hs_Commit := ucast v\<rparr>)" for v
    by (rule reads_varint [where k = 3]) (simp_all add: HardState_field_def)
  show ?thesis
    unfolding HardState_wire_def
    by (rule reads_cong, (rule reads_comp 1 2 3)+) (use assms in \<open>simp add: HardState_merge_def HardState_ok_def\<close>)
qed

interpretation hard_state:
  codec HardState_wire HardState_Size HardState_MarshalToSizedBuffer drop_unknown HardState_field HardState_merge zero_HardState HardState_ok
proof unfold_locales
  fix m
  show "fills (HardState_wire m) (HardState_MarshalToSizedBuffer m)"
    unfolding HardState_wire_def HardState_MarshalToSizedBuffer_def append.assoc [symmetric]
    by (intro sized_buffer_fills writes_comp put_varint_writes)
  show "length (HardState_wire m) = HardState_Size m"
    by (simp add: HardState_wire_def HardState_Size_def)
  show "HardState_ok m \<Longrightarrow> HardState_merge m zero_HardState = m"
    by (simp add: HardState_merge_def HardState_ok_def zero_HardState_def)
qed (rule HardState_reads)

section \<open>Configurations and snapshots\<close>

definition ConfState_wire :: "ConfState \<Rightarrow> bytes" where
  "ConfState_wire m = concat (map (varint_wire 0x8) (cs_Voters m)) @
     concat (map (varint_wire 0x10) (cs_Learners m)) @
     concat (map (varint_wire 0x18) (cs_VotersOutgoing m)) @
     concat (map (varint_wire 0x20) (cs_LearnersNext m)) @
     varint_wire 0x28 (of_bool (cs_AutoLeave m))"

definition ConfState_merge :: "ConfState \<Rightarrow> ConfState \<Rightarrow> ConfState" where
  "ConfState_merge m x = x\<lparr>cs_Voters := cs_Voters x @ cs_Voters m, cs_Learners := cs_Learners x @ cs_Learners m,
     cs_VotersOutgoing := cs_VotersOutgoing x @ cs_VotersOutgoing m,
     cs_LearnersNext := cs_LearnersNext x @ cs_LearnersNext m, cs_AutoLeave := cs_AutoLeave m\<rparr>"

definition ConfState_ok :: "ConfState \<Rightarrow> bool" where
  "ConfState_ok m \<longleftrightarrow> True"

lemma ConfState_reads:
  assumes "ConfState_ok m"
  shows "reads drop_unknown ConfState_field (ConfState_wire m) (ConfState_merge m)"
proof -
  let ?f = ConfState_field
  have 1: "reads drop_unknown ?f (concat (map (varint_wire 0x8) vs)) (\<lambda>m. m\<lparr>cs_Voters := cs_Voters m @ vs\<rparr>)" for vs
    by (rule reads_repeated [where put = "\<lambda>vs m. m\<lparr>cs_Voters := vs\<rparr>"], rule reads_id [where k = 1])
       (simp_all add: ConfState_field_def)
  have 2: "reads drop_unknown ?f (concat (map (varint_wire 0x10) vs)) (\<lambda>m. m\<lparr>cs_Learners := cs_Learners m @ vs\<rparr>)" for vs
    by (rule reads_repeated [where put = "\<lambda>vs m. m\<lparr>cs_Learners := vs\<rparr>"], rule reads_id [where k = 2])
       (simp_all add: ConfState_field_def)
  have 3: "reads drop_unknown ?f (concat (map (varint_wire 0x18) vs)) (\<lambda>m. m\<lparr>cs_VotersOutgoing := cs_VotersOutgoing m @ vs\<rparr>)" for vs
    by (rule reads_repeated [where put = "\<lambda>vs m. m\<lparr>cs_VotersOutgoing := vs\<rparr>"], rule reads_id [where k = 3])
       (simp_all add: ConfState_field_def)
  have 4: "reads drop_unknown ?f (concat (map (varint_wire 0x20) vs)) (\<lambda>m. m\<lparr>cs_LearnersNext := cs_LearnersNext m @ vs\<rparr>)" for vs
    by (rule reads_repeated [where put = "\<lambda>vs m. m\<lparr>cs_LearnersNext := vs\<rparr>"], rule reads_id [where k = 4])
       (simp_all add: ConfState_field_def)
  have 5: "reads drop_unknown ?f (varint_wire 0x28 (of_bool b)) (\<lambda>m. m\<lparr>cs_AutoLeave := b\<rparr>)" for b
    by (rule reads_bool [where k = 5]) (simp_all add: ConfState_field_def)
  show ?thesis
    unfolding ConfState_wire_def
    by (rule reads_cong, (rule reads_comp 1 2 3 4 5)+) (use assms in \<open>simp add: ConfState_merge_def ConfState_ok_def\<close>)
qed

interpretation conf_state:
  codec ConfState_wire ConfState_Size ConfState_MarshalToSizedBuffer drop_unknown ConfState_field ConfState_merge zero_ConfState ConfState_ok
proof unfold_locales
  fix m
  show "fills (ConfState_wire m) (ConfState_MarshalToSizedBuffer m)"
    unfolding ConfState_wire_def ConfState_MarshalToSizedBuffer_def append.assoc [symmetric]
    by (intro sized_buffer_fills writes_comp put_varint_writes put_bool_writes put_each_writes)
  show "length (ConfState_wire m) = ConfState_Size m"
    by (simp add: ConfState_wire_def ConfState_Size_def wire_sums sovRaft_small)
  show "ConfState_ok m \<Longrightarrow> ConfState_merge m zero_ConfState = m"
    by (simp add: ConfState_merge_def ConfState_ok_def zero_ConfState_def)
qed (rule ConfState_reads)

definition zero_SnapshotMetadata :: SnapshotMetadata where
  "zero_SnapshotMetadata = \<lparr>sm_ConfState = zero_ConfState, sm_Index = 0, sm_Term = 0\<rparr>"

definition SnapshotMetadata_wire :: "SnapshotMetadata \<Rightarrow> bytes" where
  "SnapshotMetadata_wire m = bytes_wire 0xA (ConfState_wire (sm_ConfState m)) @ varint_wire 0x10 (sm_Index m) @
     varint_wire 0x18 (sm_Term m)"

definition SnapshotMetadata_merge :: "SnapshotMetadata \<Rightarrow> SnapshotMetadata \<Rightarrow> SnapshotMetadata" where
  "SnapshotMetadata_merge m x = x\<lparr>sm_ConfState := ConfState_merge (sm_ConfState m) (sm_ConfState x),
     sm_Index := sm_Index m, sm_Term := sm_Term m\<rparr>"

definition SnapshotMetadata_ok :: "SnapshotMetadata \<Rightarrow> bool" where
  "SnapshotMetadata_ok m \<longleftrightarrow> ConfState_ok (sm_ConfState m)"

lemma SnapshotMetadata_reads:
  assumes "SnapshotMetadata_ok m"
  shows "reads drop_unknown SnapshotMetadata_field (SnapshotMetadata_wire m) (SnapshotMetadata_merge m)"
proof -
  let ?f = SnapshotMetadata_field
  have 1: "reads drop_unknown ?f (bytes_wire 0xA (ConfState_wire (sm_ConfState m))) (\<lambda>x. x\<lparr>sm_ConfState := ConfState_merge (sm_ConfState m) (sm_ConfState x)\<rparr>)"
    by (rule conf_state.nested_read [where k = 1])
       (use assms in \<open>simp_all add: SnapshotMetadata_field_def SnapshotMetadata_ok_def ConfState_Unmarshal_def [abs_def]\<close>)
  have 2: "reads drop_unknown ?f (varint_wire 0x10 v) (\<lambda>m. m\<lparr>sm_Index := ucast v\<rparr>)" for v
    by (rule reads_varint [where k = 2]) (simp_all add: SnapshotMetadata_field_def)
  have 3: "reads drop_unknown ?f (varint_wire 0x18 v) (\<lambda>m. m\<lparr>sm_Term := ucast v\<rparr>)" for v
    by (rule reads_varint [where k = 3]) (simp_all add: SnapshotMetadata_field_def)
  show ?thesis
    unfolding SnapshotMetadata_wire_def
    by (rule reads_cong, (rule reads_comp 1 2 3)+) (use assms in \<open>simp add: SnapshotMetadata_merge_def SnapshotMetadata_ok_def\<close>)
qed

interpretation snapshot_metadata:
  codec SnapshotMetadata_wire SnapshotMetadata_Size SnapshotMetadata_MarshalToSizedBuffer drop_unknown SnapshotMetadata_field SnapshotMetadata_merge zero_SnapshotMetadata SnapshotMetadata_ok
proof unfold_locales
  fix m
  show "fills (SnapshotMetadata_wire m) (SnapshotMetadata_MarshalToSizedBuffer m)"
    unfolding SnapshotMetadata_wire_def SnapshotMetadata_MarshalToSizedBuffer_def append.assoc [symmetric]
    by (intro sized_buffer_fills writes_comp put_varint_writes conf_state.nested_written)
  show "length (SnapshotMetadata_wire m) = SnapshotMetadata_Size m"
    by (simp add: SnapshotMetadata_wire_def SnapshotMetadata_Size_def conf_state.wire_length nested_Size_def)
  show "SnapshotMetadata_ok m \<Longrightarrow> SnapshotMetadata_merge m zero_SnapshotMetadata = m"
    by (simp add: SnapshotMetadata_merge_def SnapshotMetadata_ok_def zero_SnapshotMetadata_def conf_state.merge_zero)
qed (rule SnapshotMetadata_reads)

lemma zero_Snapshot_unfold: "zero_Snapshot = \<lparr>s_Data = None, s_Metadata = zero_SnapshotMetadata\<rparr>"
  by (simp add: zero_Snapshot_def zero_SnapshotMetadata_def)

definition Snapshot_wire :: "Snapshot \<Rightarrow> bytes" where
  "Snapshot_wire m = context_wire 0xA (s_Data m) @ bytes_wire 0x12 (SnapshotMetadata_wire (s_Metadata m))"

definition Snapshot_merge :: "Snapshot \<Rightarrow> Snapshot \<Rightarrow> Snapshot" where
  "Snapshot_merge m x = x\<lparr>s_Data := later (s_Data m) (s_Data x),
     s_Metadata := SnapshotMetadata_merge (s_Metadata m) (s_Metadata x)\<rparr>"

definition Snapshot_ok :: "Snapshot \<Rightarrow> bool" where
  "Snapshot_ok m \<longleftrightarrow> SnapshotMetadata_ok (s_Metadata m)"

lemma Snapshot_reads:
  assumes "Snapshot_ok m"
  shows "reads drop_unknown Snapshot_field (Snapshot_wire m) (Snapshot_merge m)"
proof -
  let ?f = Snapshot_field
  have 1: "reads drop_unknown ?f (context_wire 0xA c) (\<lambda>m. m\<lparr>s_Data := later c (s_Data m)\<rparr>)" for c
    by (rule reads_optional [where k = 1 and put = "\<lambda>b m. m\<lparr>s_Data := b\<rparr>"]) (simp_all add: Snapshot_field_def)
  have 2: "reads drop_unknown ?f (bytes_wire 0x12 (SnapshotMetadata_wire (s_Metadata m))) (\<lambda>x. x\<lparr>s_Metadata := SnapshotMetadata_merge (s_Metadata m) (s_Metadata x)\<rparr>)"
    by (rule snapshot_metadata.nested_read [where k = 2])
       (use assms in \<open>simp_all add: Snapshot_field_def Snapshot_ok_def SnapshotMetadata_Unmarshal_def [abs_def]\<close>)
  show ?thesis
    unfolding Snapshot_wire_def
    by (rule reads_cong, (rule reads_comp 1 2)+) (use assms in \<open>simp add: Snapshot_merge_def Snapshot_ok_def\<close>)
qed

interpretation snapshot:
  codec Snapshot_wire Snapshot_Size Snapshot_MarshalToSizedBuffer drop_unknown Snapshot_field Snapshot_merge zero_Snapshot Snapshot_ok
proof unfold_locales
  fix m
  show "fills (Snapshot_wire m) (Snapshot_MarshalToSizedBuffer m)"
    unfolding Snapshot_wire_def Snapshot_MarshalToSizedBuffer_def append.assoc [symmetric]
    by (intro sized_buffer_fills writes_comp put_context_writes snapshot_metadata.nested_written)
  show "length (Snapshot_wire m) = Snapshot_Size m"
    by (simp add: Snapshot_wire_def Snapshot_Size_def snapshot_metadata.wire_length nested_Size_def)
  show "Snapshot_ok m \<Longrightarrow> Snapshot_merge m zero_Snapshot = m"
    by (simp add: Snapshot_merge_def Snapshot_ok_def zero_Snapshot_unfold snapshot_metadata.merge_zero)
qed (rule Snapshot_reads)

section \<open>Messages\<close>

definition zero_Message :: Message where
  "zero_Message = mk_Message MsgHup"

definition Message_wire :: "Message \<Rightarrow> bytes" where
  "Message_wire m = varint_wire 0x8 (message_type_u64 (m_Type m)) @ varint_wire 0x10 (m_To m) @
     varint_wire 0x18 (m_From m) @ varint_wire 0x20 (m_Term m) @
     varint_wire 0x28 (m_LogTerm m) @ varint_wire 0x30 (m_Index m) @
     concat (map (\<lambda>e. bytes_wire 0x3A (Entry_wire e)) (m_Entries m)) @
     varint_wire 0x40 (m_Commit m) @ bytes_wire 0x4A (Snapshot_wire (m_Snapshot m)) @
     varint_wire 0x50 (of_bool (m_Reject m)) @ varint_wire 0x58 (m_RejectHint m) @
     context_wire 0x62 (m_Context m)"

definition Message_merge :: "Message \<Rightarrow> Message \<Rightarrow> Message" where
  "Message_merge m x = x\<lparr>m_Type := m_Type m, m_To := m_To m, m_From := m_From m, m_Term := m_Term m,
     m_LogTerm := m_LogTerm m, m_Index := m_Index m, m_Entries := m_Entries x @ m_Entries m,
     m_Commit := m_Commit m, m_Snapshot := Snapshot_merge (m_Snapshot m) (m_Snapshot x),
     m_Reject := m_Reject m, m_RejectHint := m_RejectHint m,
     m_Context := later (m_Context m) (m_Context x)\<rparr>"

definition Message_ok :: "Message \<Rightarrow> bool" where
  "Message_ok m \<longleftrightarrow> message_type_ok (m_Type m) \<and> (\<forall>e\<in>set (m_Entries m). Entry_ok e) \<and> Snapshot_ok (m_Snapshot m)"

lemma Message_reads:
  assumes "Message_ok m"
  shows "reads drop_unknown Message_field (Message_wire m) (Message_merge m)"
proof -
  let ?f = Message_field
  have 1: "reads drop_unknown ?f (varint_wire 0x8 v) (\<lambda>m. m\<lparr>m_Type := MessageType_of (ucast v)\<rparr>)" for v
    by (rule reads_varint [where k = 1]) (simp_all add: Message_field_def)
  have 2: "reads drop_unknown ?f (varint_wire 0x10 v) (\<lambda>m. m\<lparr>m_To := ucast v\<rparr>)" for v
    by (rule reads_varint [where k = 2]) (simp_all add: Message_field_def)
  have 3: "reads drop_unknown ?f (varint_wire 0x18 v) (\<lambda>m. m\<lparr>m_From := ucast v\<rparr>)" for v
    by (rule reads_varint [where k = 3]) (simp_all add: Message_field_def)
  have 4: "reads drop_unknown ?f (varint_wire 0x20 v) (\<lambda>m. m\<lparr>m_Term := ucast v\<rparr>)" for v
    by (rule reads_varint [where k = 4]) (simp_all add: Message_field_def)
  have 5: "reads drop_unknown ?f (varint_wire 0x28 v) (\<lambda>m. m\<lparr>m_LogTerm := ucast v\<rparr>)" for v
    by (rule reads_varint [where k = 5]) (simp_all add: Message_field_def)
  have 6: "reads drop_unknown ?f (varint_wire 0x30 v) (\<lambda>m. m\<lparr>m_Index := ucast v\<rparr>)" for v
    by (rule reads_varint [where k = 6]) (simp_all add: Message_field_def)
  have 7: "reads drop_unknown ?f (concat (map (\<lambda>e. bytes_wire 0x3A (Entry_wire e)) (m_Entries m)))
      (\<lambda>x. x\<lparr>m_Entries := m_Entries x @ m_Entries m\<rparr>)"
  proof (rule reads_repeated [where put = "\<lambda>es m. m\<lparr>m_Entries := es\<rparr>"])
    fix e assume "e \<in> set (m_Entries m)"
    then have ok: "Entry_ok e" using assms by (simp add: Message_ok_def)
    have "reads drop_unknown ?f (bytes_wire 0x3A (Entry_wire e)) (\<lambda>x. x\<lparr>m_Entries := m_Entries x @ [Entry_merge e zero_Entry]\<rparr>)"
      by (rule entry.nested_read [where k = 7 and put = "\<lambda>e x. x\<lparr>m_Entries := m_Entries x @ [e]\<rparr>"])
         (simp_all add: Message_field_def Entry_Unmarshal_def [abs_def] ok)
    then show "reads drop_unknown ?f (bytes_wire 0x3A (Entry_wire e)) (\<lambda>x. x\<lparr>m_Entries := m_Entries x @ [e]\<rparr>)"
      by (simp add: entry.merge_zero ok)
  qed simp_all
  have 8: "reads drop_unknown ?f (varint_wire 0x40 v) (\<lambda>m. m\<lparr>m_Commit := ucast v\<rparr>)" for v
    by (rule reads_varint [where k = 8]) (simp_all add: Message_field_def)
  have 9: "reads drop_unknown ?f (bytes_wire 0x4A (Snapshot_wire (m_Snapshot m))) (\<lambda>x. x\<lparr>m_Snapshot := Snapshot_merge (m_Snapshot m) (m_Snapshot x)\<rparr>)"
    by (rule snapshot.nested_read [where k = 9])
       (use assms in \<open>simp_all add: Message_field_def Message_ok_def Snapshot_Unmarshal_def [abs_def]\<close>)
  have 10: "reads drop_unknown ?f (varint_wire 0x50 (of_bool b)) (\<lambda>m. m\<lparr>m_Reject := b\<rparr>)" for b
    by (rule reads_bool [where k = 10]) (simp_all add: Message_field_def)
  have 11: "reads drop_unknown ?f (varint_wire 0x58 v) (\<lambda>m. m\<lparr>m_RejectHint := ucast v\<rparr>)" for v
    by (rule reads_varint [where k = 11]) (simp_all add: Message_field_def)
  have 12: "reads drop_unknown ?f (context_wire 0x62 c) (\<lambda>m. m\<lparr>m_Context := later c (m_Context m)\<rparr>)" for c
    by (rule reads_optional [where k = 12 and put = "\<lambda>b m. m\<lparr>m_Context := b\<rparr>"]) (simp_all add: Message_field_def)
  show ?thesis
    unfolding Message_wire_def
    by (rule reads_cong, (rule reads_comp 1 2 3 4 5 6 7 8 9 10 11 12)+) (use assms in \<open>simp add: Message_merge_def Message_ok_def\<close>)
qed

interpretation message:
  codec Message_wire Message_Size Message_MarshalToSizedBuffer drop_unknown Message_field Message_merge zero_Message Message_ok
proof unfold_locales
  fix m
  show "fills (Message_wire m) (Message_MarshalToSizedBuffer m)"
    unfolding Message_wire_def Message_MarshalToSizedBuffer_def append.assoc [symmetric]
    by (intro sized_buffer_fills writes_comp put_varint_writes put_bool_writes put_context_writes put_each_writes entry.nested_written snapshot.nested_written)
  show "length (Message_wire m) = Message_Size m"
    by (simp add: Message_wire_def Message_Size_def entry.wire_length snapshot.wire_length length_concat comp_def nested_Size_def sovRaft_small)
  show "Message_ok m \<Longrightarrow> Message_merge m zero_Message = m"
    by (simp add: Message_merge_def Message_ok_def mk_Message_def zero_Message_def snapshot.merge_zero)
qed (rule Message_reads)

section \<open>Configuration changes\<close>

definition ConfChange_wire :: "ConfChange \<Rightarrow> bytes" where
  "ConfChange_wire m = varint_wire 0x8 (cc_ID m) @ varint_wire 0x10 (type_u64 (cc_Type m)) @
     varint_wire 0x18 (cc_NodeID m) @ context_wire 0x22 (cc_Context m)"

definition ConfChange_merge :: "ConfChange \<Rightarrow> ConfChange \<Rightarrow> ConfChange" where
  "ConfChange_merge m x = x\<lparr>cc_ID := cc_ID m, cc_Type := cc_Type m, cc_NodeID := cc_NodeID m,
     cc_Context := later (cc_Context m) (cc_Context x)\<rparr>"

definition ConfChange_ok :: "ConfChange \<Rightarrow> bool" where
  "ConfChange_ok m \<longleftrightarrow> type_ok (cc_Type m)"

lemma ConfChange_reads:
  assumes "ConfChange_ok m"
  shows "reads drop_unknown ConfChange_field (ConfChange_wire m) (ConfChange_merge m)"
proof -
  let ?f = ConfChange_field
  have 1: "reads drop_unknown ?f (varint_wire 0x8 v) (\<lambda>m. m\<lparr>cc_ID := ucast v\<rparr>)" for v
    by (rule reads_varint [where k = 1]) (simp_all add: ConfChange_field_def)
  have 2: "reads drop_unknown ?f (varint_wire 0x10 v) (\<lambda>m. m\<lparr>cc_Type := ConfChangeType_of (ucast v)\<rparr>)" for v
    by (rule reads_varint [where k = 2]) (simp_all add: ConfChange_field_def)
  have 3: "reads drop_unknown ?f (varint_wire 0x18 v) (\<lambda>m. m\<lparr>cc_NodeID := ucast v\<rparr>)" for v
    by (rule reads_varint [where k = 3]) (simp_all add: ConfChange_field_def)
  have 4: "reads drop_unknown ?f (context_wire 0x22 c) (\<lambda>m. m\<lparr>cc_Context := later c (cc_Context m)\<rparr>)" for c
    by (rule reads_optional [where k = 4 and put = "\<lambda>b m. m\<lparr>cc_Context := b\<rparr>"]) (simp_all add: ConfChange_field_def)
  show ?thesis
    unfolding ConfChange_wire_def
    by (rule reads_cong, (rule reads_comp 1 2 3 4)+) (use assms in \<open>simp add: ConfChange_merge_def ConfChange_ok_def\<close>)
qed

interpretation conf_change:
  codec ConfChange_wire ConfChange_Size ConfChange_MarshalToSizedBuffer drop_unknown ConfChange_field ConfChange_merge zero_ConfChange ConfChange_ok
proof unfold_locales
  fix m
  show "fills (ConfChange_wire m) (ConfChange_MarshalToSizedBuffer m)"
    unfolding ConfChange_wire_def ConfChange_MarshalToSizedBuffer_def append.assoc [symmetric]
    by (intro sized_buffer_fills writes_comp put_varint_writes put_context_writes)
  show "length (ConfChange_wire m) = ConfChange_Size m"
    by (simp add: ConfChange_wire_def ConfChange_Size_def)
  show "ConfChange_ok m \<Longrightarrow> ConfChange_merge m zero_ConfChange = m"
    by (simp add: ConfChange_merge_def ConfChange_ok_def zero_ConfChange_def)
qed (rule ConfChange_reads)

definition ConfChangeSingle_wire :: "ConfChangeSingle \<Rightarrow> bytes" where
  "ConfChangeSingle_wire m = varint_wire 0x8 (type_u64 (ccs_Type m)) @ varint_wire 0x10 (ccs_NodeID m)"

definition ConfChangeSingle_merge :: "ConfChangeSingle \<Rightarrow> ConfChangeSingle \<Rightarrow> ConfChangeSingle" where
  "ConfChangeSingle_merge m x = x\<lparr>ccs_Type := ccs_Type m, ccs_NodeID := ccs_NodeID m\<rparr>"

definition ConfChangeSingle_ok :: "ConfChangeSingle \<Rightarrow> bool" where
  "ConfChangeSingle_ok m \<longleftrightarrow> type_ok (ccs_Type m)"

lemma ConfChangeSingle_reads:
  assumes "ConfChangeSingle_ok m"
  shows "reads drop_unknown ConfChangeSingle_field (ConfChangeSingle_wire m) (ConfChangeSingle_merge m)"
proof -
  let ?f = ConfChangeSingle_field
  have 1: "reads drop_unknown ?f (varint_wire 0x8 v) (\<lambda>m. m\<lparr>ccs_Type := ConfChangeType_of (ucast v)\<rparr>)" for v
    by (rule reads_varint [where k = 1]) (simp_all add: ConfChangeSingle_field_def)
  have 2: "reads drop_unknown ?f (varint_wire 0x10 v) (\<lambda>m. m\<lparr>ccs_NodeID := ucast v\<rparr>)" for v
    by (rule reads_varint [where k = 2]) (simp_all add: ConfChangeSingle_field_def)
  show ?thesis
    unfolding ConfChangeSingle_wire_def
    by (rule reads_cong, (rule reads_comp 1 2)+) (use assms in \<open>simp add: ConfChangeSingle_merge_def ConfChangeSingle_ok_def\<close>)
qed

interpretation conf_change_single:
  codec ConfChangeSingle_wire ConfChangeSingle_Size ConfChangeSingle_MarshalToSizedBuffer drop_unknown ConfChangeSingle_field ConfChangeSingle_merge zero_ConfChangeSingle ConfChangeSingle_ok
proof unfold_locales
  fix m
  show "fills (ConfChangeSingle_wire m) (ConfChangeSingle_MarshalToSizedBuffer m)"
    unfolding ConfChangeSingle_wire_def ConfChangeSingle_MarshalToSizedBuffer_def append.assoc [symmetric]
    by (intro sized_buffer_fills writes_comp put_varint_writes)
  show "length (ConfChangeSingle_wire m) = ConfChangeSingle_Size m"
    by (simp add: ConfChangeSingle_wire_def ConfChangeSingle_Size_def)
  show "ConfChangeSingle_ok m \<Longrightarrow> ConfChangeSingle_merge m zero_ConfChangeSingle = m"
    by (simp add: ConfChangeSingle_merge_def ConfChangeSingle_ok_def zero_ConfChangeSingle_def)
qed (rule ConfChangeSingle_reads)

definition ConfChangeV2_wire :: "ConfChangeV2 \<Rightarrow> bytes" where
  "ConfChangeV2_wire m = varint_wire 0x8 (transition_u64 (v2_Transition m)) @
     concat (map (\<lambda>e. bytes_wire 0x12 (ConfChangeSingle_wire e)) (v2_Changes m)) @
     context_wire 0x1A (v2_Context m)"

definition ConfChangeV2_merge :: "ConfChangeV2 \<Rightarrow> ConfChangeV2 \<Rightarrow> ConfChangeV2" where
  "ConfChangeV2_merge m x = x\<lparr>v2_Transition := v2_Transition m, v2_Changes := v2_Changes x @ v2_Changes m,
     v2_Context := later (v2_Context m) (v2_Context x)\<rparr>"

definition ConfChangeV2_ok :: "ConfChangeV2 \<Rightarrow> bool" where
  "ConfChangeV2_ok m \<longleftrightarrow> transition_ok (v2_Transition m) \<and> (\<forall>c\<in>set (v2_Changes m). ConfChangeSingle_ok c)"

lemma ConfChangeV2_reads:
  assumes "ConfChangeV2_ok m"
  shows "reads drop_unknown ConfChangeV2_field (ConfChangeV2_wire m) (ConfChangeV2_merge m)"
proof -
  let ?f = ConfChangeV2_field
  have 1: "reads drop_unknown ?f (varint_wire 0x8 v) (\<lambda>m. m\<lparr>v2_Transition := ConfChangeTransition_of (ucast v)\<rparr>)" for v
    by (rule reads_varint [where k = 1]) (simp_all add: ConfChangeV2_field_def)
  have 2: "reads drop_unknown ?f (concat (map (\<lambda>e. bytes_wire 0x12 (ConfChangeSingle_wire e)) (v2_Changes m)))
      (\<lambda>x. x\<lparr>v2_Changes := v2_Changes x @ v2_Changes m\<rparr>)"
  proof (rule reads_repeated [where put = "\<lambda>es m. m\<lparr>v2_Changes := es\<rparr>"])
    fix e assume "e \<in> set (v2_Changes m)"
    then have ok: "ConfChangeSingle_ok e" using assms by (simp add: ConfChangeV2_ok_def)
    have "reads drop_unknown ?f (bytes_wire 0x12 (ConfChangeSingle_wire e)) (\<lambda>x. x\<lparr>v2_Changes := v2_Changes x @ [ConfChangeSingle_merge e zero_ConfChangeSingle]\<rparr>)"
      by (rule conf_change_single.nested_read [where k = 2 and put = "\<lambda>e x. x\<lparr>v2_Changes := v2_Changes x @ [e]\<rparr>"])
         (simp_all add: ConfChangeV2_field_def ConfChangeSingle_Unmarshal_def [abs_def] ok)
    then show "reads drop_unknown ?f (bytes_wire 0x12 (ConfChangeSingle_wire e)) (\<lambda>x. x\<lparr>v2_Changes := v2_Changes x @ [e]\<rparr>)"
      by (simp add: conf_change_single.merge_zero ok)
  qed simp_all
  have 3: "reads drop_unknown ?f (context_wire 0x1A c) (\<lambda>m. m\<lparr>v2_Context := later c (v2_Context m)\<rparr>)" for c
    by (rule reads_optional [where k = 3 and put = "\<lambda>b m. m\<lparr>v2_Context := b\<rparr>"]) (simp_all add: ConfChangeV2_field_def)
  show ?thesis
    unfolding ConfChangeV2_wire_def
    by (rule reads_cong, (rule reads_comp 1 2 3)+) (use assms in \<open>simp add: ConfChangeV2_merge_def ConfChangeV2_ok_def\<close>)
qed

interpretation conf_change_v2:
  codec ConfChangeV2_wire ConfChangeV2_Size ConfChangeV2_MarshalToSizedBuffer drop_unknown ConfChangeV2_field ConfChangeV2_merge zero_ConfChangeV2 ConfChangeV2_ok
proof unfold_locales
  fix m
  show "fills (ConfChangeV2_wire m) (ConfChangeV2_MarshalToSizedBuffer m)"
    unfolding ConfChangeV2_wire_def ConfChangeV2_MarshalToSizedBuffer_def append.assoc [symmetric]
    by (intro sized_buffer_fills writes_comp put_varint_writes put_context_writes put_each_writes conf_change_single.nested_written)
  show "length (ConfChangeV2_wire m) = ConfChangeV2_Size m"
    by (simp add: ConfChangeV2_wire_def ConfChangeV2_Size_def conf_change_single.wire_length length_concat comp_def nested_Size_def)
  show "ConfChangeV2_ok m \<Longrightarrow> ConfChangeV2_merge m zero_ConfChangeV2 = m"
    by (simp add: ConfChangeV2_merge_def ConfChangeV2_ok_def zero_ConfChangeV2_def)
qed (rule ConfChangeV2_reads)

section \<open>Properties\<close>

lemma round_trips:
  "Message_ok m \<Longrightarrow> Message_Size m < 2 ^ 63 \<Longrightarrow>
     \<exists>bs. Message_Marshal m = Some bs \<and> length bs = Message_Size m \<and> Message_Unmarshal bs zero_Message = Inr m"
  "ConfChange_ok cc \<Longrightarrow> ConfChange_Size cc < 2 ^ 63 \<Longrightarrow>
     \<exists>bs. ConfChange_Marshal cc = Some bs \<and> ConfChange_Unmarshal bs zero_ConfChange = Inr cc"
  "ConfChangeV2_ok v2 \<Longrightarrow> ConfChangeV2_Size v2 < 2 ^ 63 \<Longrightarrow>
     \<exists>bs. ConfChangeV2_Marshal v2 = Some bs \<and> ConfChangeV2_Unmarshal bs zero_ConfChangeV2 = Inr v2"
  unfolding Message_Marshal_def Message_Unmarshal_def ConfChange_Marshal_def ConfChange_Unmarshal_def
    ConfChangeV2_Marshal_def ConfChangeV2_Unmarshal_def
  using message.marshal_wire message.unmarshal_wire message.merge_zero message.wire_length
    conf_change.marshal_wire conf_change.unmarshal_wire conf_change.merge_zero
    conf_change_v2.marshal_wire conf_change_v2.unmarshal_wire conf_change_v2.merge_zero by auto

text \<open>
  (C26) A message written to the wire is read back as it was: its encoding exists (the writer fills the
  buffer it allocates exactly, without panic), has the size computed in advance, and decodes to the
  message, with its entries and its snapshot.
\<close>

theorem message_round_trip:
  assumes "Message_ok m" "Message_Size m < 2 ^ 63"
  shows "\<exists>bs. Message_Marshal m = Some bs \<and> length bs = Message_Size m \<and> Message_Unmarshal bs zero_Message = Inr m"
  using assms by (rule round_trips)

definition sample_message :: Message where
  "sample_message = (mk_Message MsgApp)\<lparr>m_To := 2, m_From := 1, m_Term := 300, m_Index := 7,
     m_Entries := [\<lparr>e_Term = 300, e_Index = 8, e_Type = EntryConfChangeV2, e_Data = Some [1, 2]\<rparr>,
       \<lparr>e_Term = 300, e_Index = 9, e_Type = EntryNormal, e_Data = None\<rparr>],
     m_Snapshot := \<lparr>s_Data = Some [], s_Metadata = \<lparr>sm_ConfState = zero_ConfState\<lparr>cs_Voters := [1, 2, 3]\<rparr>,
       sm_Index = 5, sm_Term = 299\<rparr>\<rparr>, m_Reject := True, m_Context := Some [255]\<rparr>"

lemma sample_message_ok: "Message_ok sample_message" "Message_Size sample_message \<le> 200"
  by code_simp+

theorem message_round_trip_witness:
  "\<exists>bs. Message_Marshal sample_message = Some bs \<and> length bs = Message_Size sample_message \<and>
     Message_Unmarshal bs zero_Message = Inr sample_message"
  using message_round_trip [OF sample_message_ok(1)] sample_message_ok(2) by simp

text \<open>
  The hard state an application writes to disk is read back as it was, whatever its values.
\<close>

theorem hard_state_round_trip:
  "\<exists>bs. HardState_Marshal hs = Some bs \<and> length bs \<le> 33 \<and> HardState_Unmarshal bs zero_HardState = Inr hs"
proof -
  have "HardState_Size hs \<le> 33"
    using sovRaft_le [of "hs_Term hs"] sovRaft_le [of "hs_Vote hs"] sovRaft_le [of "hs_Commit hs"]
    by (simp add: HardState_Size_def)
  moreover have "HardState_ok hs" by (simp add: HardState_ok_def)
  ultimately show ?thesis
    using hard_state.marshal_wire [of hs] hard_state.unmarshal_wire [of hs zero_HardState] hard_state.merge_zero [of hs]
      hard_state.wire_length [of hs]
    by (simp add: HardState_Marshal_def HardState_Unmarshal_def)
qed

text \<open>
  A decoder of this version reads messages of a later one: a delimited field with a number it does
  not know, after the fields it knows, is skipped and the message is the same.
\<close>

theorem message_unknown_field_skipped:
  assumes "Message_ok m" "tag_of k 2 tag" "12 < k" "Message_Size m + length (bytes_wire tag b) < 2 ^ 63"
  shows "\<exists>bs. Message_Marshal m = Some bs \<and> Message_Unmarshal (bs @ bytes_wire tag b) zero_Message = Inr m"
proof -
  have "reads drop_unknown Message_field (bytes_wire tag b) (drop_unknown (bytes_wire tag b))"
    using assms(2,3) by (intro reads_unknown_bytes [of k]) (simp_all add: Message_field_def)
  from reads_comp [OF message.wire_read [OF assms(1)] this]
  have r: "reads drop_unknown Message_field (Message_wire m @ bytes_wire tag b) (Message_merge m)"
    by (rule reads_cong) (simp add: drop_unknown_def)
  have "length (Message_wire m @ bytes_wire tag b) < 2 ^ 63" using assms(4) message.wire_length [of m] by simp
  then have "Message_Unmarshal (Message_wire m @ bytes_wire tag b) zero_Message = Inr m"
    using reads_all [OF r] message.merge_zero [OF assms(1)] by (simp add: Message_Unmarshal_def)
  then show ?thesis using message.marshal_wire [of m] by (simp add: Message_Marshal_def)
qed

theorem message_unknown_field_skipped_witness:
  "\<exists>bs. Message_Marshal sample_message = Some bs \<and>
     Message_Unmarshal (bs @ bytes_wire 0x6A [1, 2, 3]) zero_Message = Inr sample_message"
proof -
  have "tag_of 13 2 0x6A" by (simp add: tag_of_def; code_simp)
  moreover have "length (bytes_wire 0x6A [1, 2, 3]) = 5" by (simp add: sovRaft_small)
  ultimately show ?thesis
    using message_unknown_field_skipped [OF sample_message_ok(1), of 13 "0x6A" "[1, 2, 3]"] sample_message_ok(2) by simp
qed

text \<open>
  A list of voters is read from either of its two encodings, one field per voter or all of them
  packed into one field, with the same result.
\<close>

theorem packed_voters_equivalent:
  assumes "ids_Size vs + 11 < 2 ^ 63"
  shows "ConfState_Unmarshal (bytes_wire 0xA (concat (map varint_bytes vs))) x =
    ConfState_Unmarshal (concat (map (varint_wire 0x8) vs)) x"
proof -
  let ?put = "\<lambda>vs m. m\<lparr>cs_Voters := vs\<rparr>"
  have p: "reads drop_unknown ConfState_field (bytes_wire 0xA (concat (map varint_bytes vs))) (\<lambda>m. ?put (cs_Voters m @ vs) m)"
    by (rule reads_packed [where k = 1]) (simp_all add: ConfState_field_def)
  have s: "reads drop_unknown ConfState_field (concat (map (varint_wire 0x8) vs)) (\<lambda>m. ?put (cs_Voters m @ vs) m)"
    by (rule reads_repeated [where put = ?put], rule reads_id [where k = 1]) (simp_all add: ConfState_field_def)
  have "length (concat (map varint_bytes vs)) \<le> ids_Size vs"
    unfolding ids_Size_def length_concat map_map by (intro sum_list_mono) (simp add: length_varint_bytes)
  then have "length (bytes_wire 0xA (concat (map varint_bytes vs))) < 2 ^ 63"
    using assms sovRaft_le [of "of_nat (length (concat (map varint_bytes vs)))"] by simp
  then show ?thesis
    using reads_all [OF p] reads_all [OF s] assms wire_sums [of "0x8" vs] by (simp add: ConfState_Unmarshal_def)
qed

theorem packed_voters_equivalent_witness:
  "ConfState_Unmarshal (bytes_wire 0xA (concat (map varint_bytes [1, 300, 5]))) zero_ConfState =
   ConfState_Unmarshal (concat (map (varint_wire 0x8) [1, 300, 5])) zero_ConfState"
proof -
  have "ids_Size [1, 300, 5] \<le> 100" by code_simp
  then show ?thesis by (intro packed_voters_equivalent) simp
qed

text \<open>
  (C28) Writing into a buffer of the caller touches exactly the first bytes, as many as the size says,
  with the encoding; a buffer that is too short panics.
\<close>

theorem message_marshal_to_bounds:
  "Message_MarshalTo m dAtA =
     (if Message_Size m \<le> length dAtA
      then map_option (\<lambda>bs. (bs @ drop (length bs) dAtA, length bs)) (Message_Marshal m)
      else None)"
  using message.marshal_to_wire [of m dAtA] message.marshal_wire [of m] message.wire_length [of m]
  by (simp add: Message_MarshalTo_def Message_Marshal_def marshal_to_def go_slice_def)

end
