(* ===== verification/Raft_Log_Spec.thy ===== *)
theory Raft_Log_Spec
  imports Raft_Log
begin

text \<open>
  What the log of \<open>Raft_Log\<close> means and what its operations do to it. \<open>rl_abs l b bt es\<close> says that
  \<open>l\<close> represents the log whose base entry has index \<open>b\<close> and term \<open>bt\<close> and whose entries are the
  consecutive list \<open>es\<close>, put together from the storage and the unstable part. The operations are
  characterised on this view; words only appear at the interface. Indexes stay below \<open>2 ^ 63\<close>, so
  that no index arithmetic wraps.
\<close>

definition log_term :: "nat \<Rightarrow> u64 \<Rightarrow> Entry list \<Rightarrow> nat \<Rightarrow> u64" where
  "log_term b bt es i = (if i = b then bt else e_Term (es ! (i - Suc b)))"

abbreviation uoff :: "raftLog \<Rightarrow> nat" where
  "uoff l \<equiv> unat (u_offset (rl_unstable l))"

abbreviation uents :: "raftLog \<Rightarrow> Entry list" where
  "uents l \<equiv> u_entries (rl_unstable l)"

definition rl_abs :: "raftLog \<Rightarrow> nat \<Rightarrow> u64 \<Rightarrow> Entry list \<Rightarrow> bool" where
  "rl_abs l b bt es \<longleftrightarrow>
     consec (Suc b) es \<and> b + length es < 2 ^ 63 \<and>
     (case u_snapshot (rl_unstable l) of
        None \<Rightarrow>
          (\<exists>ses. stores (rl_storage l) b bt ses \<and> b < uoff l \<and> uoff l \<le> Suc (b + length ses) \<and>
             (uents l = [] \<longrightarrow> uoff l = Suc (b + length ses)) \<and>
             es = take (uoff l - Suc b) ses @ uents l)
      | Some s \<Rightarrow> b = unat (snap_index s) \<and> bt = snap_term s \<and> uoff l = Suc b \<and> es = uents l)"

text \<open>The invariant of a log, with its two pointers.\<close>

definition rl_ok :: "raftLog \<Rightarrow> nat \<Rightarrow> u64 \<Rightarrow> Entry list \<Rightarrow> bool" where
  "rl_ok l b bt es \<longleftrightarrow>
     rl_abs l b bt es \<and> b \<le> unat (rl_committed l) \<and> unat (rl_committed l) \<le> b + length es \<and>
     rl_applied l \<le> rl_committed l"

lemma must_ok_simps [simp]: "must_ok (Some (Inr x)) = Some x" "must_ok (Some (Inl e)) = None" "must_ok None = None"
  by (simp_all add: must_ok_def)

section \<open>Reading\<close>

lemma rl_abs_split:
  assumes "rl_abs l b bt es"
  shows "b < uoff l" "uoff l \<le> Suc (b + length es)" "uents l = drop (uoff l - Suc b) es"
    "uoff l + length (uents l) = Suc (b + length es)" "consec (Suc b) es" "b + length es < 2 ^ 63"
    "u_offset (rl_unstable l) = of_nat (uoff l)"
  using assms by (auto simp: rl_abs_def split: option.splits)

lemma rl_firstIndex_abs:
  assumes "rl_abs l b bt es"
  shows "rl_firstIndex l = Some (of_nat (Suc b))"
  using assms
  by (auto simp: rl_abs_def rl_firstIndex_def u_maybeFirstIndex_def storesD split: option.splits)

lemma rl_lastIndex_abs:
  assumes "rl_abs l b bt es"
  shows "rl_lastIndex l = Some (of_nat (b + length es))"
proof (cases "uents l = []")
  case True
  then show ?thesis
    using assms
    by (auto simp: rl_abs_def rl_lastIndex_def u_maybeLastIndex_def storesD split: option.splits)
next
  case False
  have "uoff l + length (uents l) = Suc (b + length es)" by (rule rl_abs_split [OF assms])
  then have "of_nat (uoff l) + of_nat (length (uents l)) - (1::u64) = of_nat (b + length es)"
    by (metis add_diff_cancel_right' of_nat_Suc of_nat_add add.commute)
  then show ?thesis
    using False by (simp add: rl_lastIndex_def u_maybeLastIndex_def)
qed

lemma u_maybeTerm_abs:
  assumes a: "rl_abs l b bt es" and i: "uoff l \<le> unat i" "unat i \<le> b + length es"
  shows "u_maybeTerm (rl_unstable l) i = Some (Some (log_term b bt es (unat i)))"
proof -
  note s = rl_abs_split [OF a]
  have ne: "uents l \<noteq> []" using s i by auto
  have "u_maybeLastIndex (rl_unstable l) = Some (of_nat (b + length es))"
    using rl_lastIndex_abs [OF a] ne by (simp add: rl_lastIndex_def u_maybeLastIndex_def)
  moreover have "\<not> i > of_nat (b + length es)"
    using i s(6) by (simp add: u64_nat del: of_nat_add)
  moreover have d: "unat (i - u_offset (rl_unstable l)) = unat i - uoff l"
    using i by (simp add: unat_diff_u64 u64_nat)
  moreover have "uents l ! (unat i - uoff l) = es ! (unat i - Suc b)"
    using s(1,2) i by (subst s(3)) (simp add: nth_drop)
  moreover have "unat i - uoff l < length (uents l)" using s(4) i by linarith
  ultimately show ?thesis
    using i s(1) by (simp add: u_maybeTerm_def log_term_def u64_nat del: of_nat_add)
qed

lemma rl_term_abs:
  assumes a: "rl_abs l b bt es"
  shows "rl_term l i =
     Some (Inr (if b \<le> unat i \<and> unat i \<le> b + length es then log_term b bt es (unat i) else 0))"
proof -
  note s = rl_abs_split [OF a]
  have d: "i < of_nat (Suc b) - 1 \<longleftrightarrow> unat i < b"
    using s(6) by (simp add: u64_nat)
  have u: "i > of_nat (b + length es) \<longleftrightarrow> unat i > b + length es"
    using s(6) by (simp add: u64_nat del: of_nat_add)
  show ?thesis
  proof (cases "b \<le> unat i \<and> unat i \<le> b + length es")
    case False
    then show ?thesis
      using rl_firstIndex_abs [OF a] rl_lastIndex_abs [OF a] d u
      by (auto simp: rl_term_def Let_def simp del: of_nat_Suc of_nat_add)
  next
    case True
    have "rl_term l i = do {
        ut \<leftarrow> u_maybeTerm (rl_unstable l) i;
        case ut of Some t \<Rightarrow> Some (Inr t)
        | None \<Rightarrow> do { r \<leftarrow> st_Term (rl_storage l) i;
            case r of Inr t \<Rightarrow> Some (Inr t)
            | Inl e \<Rightarrow> (if e = ErrCompacted \<or> e = ErrUnavailable then Some (Inl e) else None) } }"
      using rl_firstIndex_abs [OF a] rl_lastIndex_abs [OF a] d u True
      by (simp add: rl_term_def Let_def del: of_nat_Suc of_nat_add)
    also have "\<dots> = Some (Inr (log_term b bt es (unat i)))"
    proof (cases "uoff l \<le> unat i")
      case hi: True
      then show ?thesis using u_maybeTerm_abs [OF a hi] True by simp
    next
      case lo: False
      show ?thesis
      proof (cases "u_snapshot (rl_unstable l)")
        case None
        then obtain ses where ses: "stores (rl_storage l) b bt ses" "uoff l \<le> Suc (b + length ses)"
            "es = take (uoff l - Suc b) ses @ uents l"
          using a by (auto simp: rl_abs_def)
        have "st_Term (rl_storage l) i = Some (Inr (log_term b bt es (unat i)))"
          using stores_Term [OF ses(1), of i] lo ses(2) True
          by (subst ses(3)) (auto simp: log_term_def nth_append)
        then show ?thesis using None lo by (simp add: u_maybeTerm_def u64_nat)
      next
        case (Some sn)
        then show ?thesis
          using a lo True by (auto simp: rl_abs_def u_maybeTerm_def u64_nat log_term_def)
      qed
    qed
    finally show ?thesis using True by simp
  qed
qed

lemma rl_matchTerm_abs:
  assumes "rl_abs l b bt es"
  shows "rl_matchTerm l i t =
     Some ((if b \<le> unat i \<and> unat i \<le> b + length es then log_term b bt es (unat i) else 0) = t)"
  by (simp add: rl_matchTerm_def rl_term_abs [OF assms])

lemma rl_lastTerm_abs:
  assumes "rl_abs l b bt es"
  shows "rl_lastTerm l = Some (log_term b bt es (b + length es))"
proof -
  have "unat (of_nat (b + length es) :: u64) = b + length es"
    using rl_abs_split(6) [OF assms] by (intro unat_of_nat_u64) simp
  then show ?thesis
    by (simp add: rl_lastTerm_def rl_lastIndex_abs [OF assms] rl_term_abs [OF assms] del: of_nat_add)
qed

text \<open>Limiting part of a batch first does not change what the limit keeps.\<close>

lemma limitSize_loop_append:
  "limitSize_loop sz k (xs @ ys) mx =
     (if limitSize_loop sz k xs mx < k + length xs then limitSize_loop sz k xs mx
      else limitSize_loop (sz + total_Size xs) (k + length xs) ys mx)"
proof (induction sz k xs mx rule: limitSize_loop.induct)
  case (2 sz k e es mx)
  then show ?case
    using limitSize_loop_bounds [of "k + 1" "sz + Entry_Size e" es mx]
    by (auto simp: Let_def total_Size_def add.assoc)
qed (simp add: total_Size_def)

lemma limitSize_append:
  "limitSize (xs @ ys) mx =
     (if length (limitSize xs mx) < length xs then limitSize xs mx else limitSize (limitSize xs mx @ ys) mx)"
proof (cases xs)
  case (Cons x xs')
  let ?k = "limitSize_loop (Entry_Size x) 1 xs' mx"
  have b: "1 \<le> ?k" "?k \<le> 1 + length xs'" using limitSize_loop_bounds [of 1] by simp_all
  have l: "limitSize xs mx = take ?k xs" using Cons by (simp add: limitSize_def)
  show ?thesis
  proof (cases "?k < length xs")
    case True
    then show ?thesis using Cons b limitSize_loop_append [of "Entry_Size x" 1 xs' ys mx]
      by (simp add: limitSize_def take_Cons')
  next
    case False
    then show ?thesis using l b by simp
  qed
qed simp

lemma limitSize_whole: "\<not> length (limitSize xs mx) < length xs \<Longrightarrow> limitSize xs mx = xs"
  using limitSize_prefix [of xs mx] by auto

lemma u_slice_abs:
  assumes a: "rl_abs l b bt es" and lo: "uoff l \<le> unat lo" and lh: "unat lo \<le> unat hi"
    and hi: "unat hi \<le> Suc (b + length es)"
  shows "u_slice (rl_unstable l) lo hi = Some (take (unat hi - unat lo) (drop (unat lo - Suc b) es))"
proof -
  note s = rl_abs_split [OF a]
  have d: "unat (lo - u_offset (rl_unstable l)) = unat lo - uoff l"
      "unat (hi - u_offset (rl_unstable l)) = unat hi - uoff l"
    using lo lh by (simp_all add: unat_diff_u64 u64_nat)
  have "u_offset (rl_unstable l) + of_nat (length (uents l)) = of_nat (Suc (b + length es))"
    using s(4,7) by (metis of_nat_add)
  then have "\<not> hi > u_offset (rl_unstable l) + of_nat (length (uents l))"
    using hi s(6) by (simp add: u64_nat del: of_nat_Suc of_nat_add)
  then have "u_mustCheckOutOfBounds (rl_unstable l) lo hi = Some ()"
    using lo lh by (simp add: u_mustCheckOutOfBounds_def u64_nat)
  moreover have "go_slice (uents l) (unat lo - uoff l) (unat hi - uoff l) =
      Some (take (unat hi - uoff l - (unat lo - uoff l)) (drop (unat lo - uoff l) (uents l)))"
    using s(4) lo lh hi by (intro go_slice_in) linarith+
  moreover have "drop (unat lo - uoff l) (uents l) = drop (unat lo - Suc b) es"
    using s(1,2) lo by (subst s(3)) (simp add: drop_drop)
  ultimately show ?thesis using d lo lh by (simp add: u_slice_def)
qed

lemma rl_mustCheckOutOfBounds_abs:
  assumes a: "rl_abs l b bt es" and "b < unat lo" "unat lo \<le> unat hi" "unat hi \<le> Suc (b + length es)"
  shows "rl_mustCheckOutOfBounds l lo hi = Some None"
proof -
  note s = rl_abs_split [OF a]
  have "of_nat (Suc b) + (of_nat (b + length es) + 1 - of_nat (Suc b)) = (of_nat (Suc (b + length es)) :: u64)"
    by simp
  then show ?thesis
    using rl_firstIndex_abs [OF a] rl_lastIndex_abs [OF a] s(6) assms(2-4)
    by (simp add: rl_mustCheckOutOfBounds_def Let_def u64_nat del: of_nat_Suc of_nat_add)
qed

text \<open>Reading a range returns exactly the entries of the view, cut at the size limit.\<close>

lemma rl_slice_abs:
  assumes a: "rl_abs l b bt es" and lo: "b < unat lo" and lh: "unat lo \<le> unat hi"
    and hi: "unat hi \<le> Suc (b + length es)"
  shows "rl_slice l lo hi mx =
     Some (Inr (limitSize (take (unat hi - unat lo) (drop (unat lo - Suc b) es)) mx))"
proof (cases "lo = hi")
  case True
  then show ?thesis using rl_mustCheckOutOfBounds_abs [OF assms] by (simp add: rl_slice_def)
next
  case False
  note s = rl_abs_split [OF a]
  let ?off = "u_offset (rl_unstable l)"
  let ?want = "\<lambda>h. take (h - unat lo) (drop (unat lo - Suc b) es)"
  have lh': "unat lo < unat hi" using False lh by (simp add: u64_nat le_neq_implies_less)
  define rest where "rest = (\<lambda>ents. if hi > ?off
      then do { us \<leftarrow> u_slice (rl_unstable l) (u64_max lo ?off) hi;
                Some (Inr (limitSize (if length ents > 0 then ents @ us else us) mx)) }
      else Some (Inr (limitSize ents mx) :: StorageErr + Entry list))"
  have eq: "rl_slice l lo hi mx = (if lo < ?off
      then do { stored \<leftarrow> st_Entries (rl_storage l) lo (u64_min hi ?off) mx;
                case stored of
                  Inl e \<Rightarrow> (if e = ErrCompacted then Some (Inl e) else None)
                | Inr se \<Rightarrow> if of_nat (length se) < u64_min hi ?off - lo then Some (Inr se) else rest se }
      else rest [])"
    using rl_mustCheckOutOfBounds_abs [OF assms] False
    unfolding rl_slice_def Let_def rest_def by (simp del: u64_min_eq u64_max_eq)
  show ?thesis
  proof (cases "lo < ?off")
    case False
    then have "uoff l \<le> unat lo" "hi > ?off" "max lo ?off = lo"
      using lh' by (simp_all add: u64_nat max_def)
    then show ?thesis
      using False u_slice_abs [OF a _ lh hi] by (simp add: eq rest_def)
  next
    case True
    have lo': "unat lo < uoff l" using True by (simp add: u64_nat)
    have "u_snapshot (rl_unstable l) = None"
      using a lo lo' by (auto simp: rl_abs_def split: option.splits)
    then obtain ses where ses: "stores (rl_storage l) b bt ses" "uoff l \<le> Suc (b + length ses)"
        "es = take (uoff l - Suc b) ses @ uents l"
      using a by (auto simp: rl_abs_def)
    define m where "m = min (unat hi) (uoff l)"
    have um: "unat (u64_min hi ?off) = m" by (auto simp: m_def min_def u64_nat)
    have ml: "unat lo < m" "m \<le> Suc (b + length ses)" using lh' lo' ses(2) by (simp_all add: m_def)
    let ?se = "limitSize (?want m) mx"
    have w: "take (m - unat lo) (drop (unat lo - Suc b) ses) = ?want m"
      using s(1,2) lo ml ses(2) by (subst ses(3)) (simp add: m_def min_def drop_take)
    have "st_Entries (rl_storage l) lo (u64_min hi ?off) mx = Some (Inr ?se)"
      using stores_Entries [OF ses(1) lo, of "u64_min hi ?off" mx] um ml w by (simp add: u64_nat)
    then have eq2: "rl_slice l lo hi mx =
        (if of_nat (length ?se) < u64_min hi ?off - lo then Some (Inr ?se) else rest ?se)"
      using eq True by simp
    have wl: "length (?want m) = m - unat lo" using ml s(2) lo hi by (auto simp: m_def)
    have "length ?se \<le> m - unat lo" using limitSize_prefix [of "?want m" mx] wl by (auto simp: min_def)
    moreover have "m - unat lo < 2 ^ 64" using s(2,6) by (simp add: m_def)
    ultimately have cmp: "of_nat (length ?se) < u64_min hi ?off - lo \<longleftrightarrow> length ?se < length (?want m)"
      unfolding wl using um ml by (simp add: u64_nat unat_diff_u64 del: u64_min_eq length_take)
    have sp: "?want (unat hi) = ?want m @ take (unat hi - m) (drop (m - Suc b) es)"
    proof -
      have "unat hi - unat lo = (m - unat lo) + (unat hi - m)" "m - unat lo + (unat lo - Suc b) = m - Suc b"
        using ml lo by (simp_all add: m_def)
      then show ?thesis by (simp add: take_add)
    qed
    note lim = limitSize_append [of "?want m" "take (unat hi - m) (drop (m - Suc b) es)" mx]
    show ?thesis
    proof (cases "length ?se < length (?want m)")
      case True
      then show ?thesis by (simp only: eq2 cmp if_True sp lim)
    next
      case False
      then have "rl_slice l lo hi mx = rest ?se" by (simp only: eq2 cmp if_False)
      moreover have "rest ?se = Some (Inr (limitSize (?want (unat hi)) mx))"
      proof (cases "hi > ?off")
        case True
        then have "max lo ?off = ?off" "m = uoff l" using lo' by (simp_all add: m_def u64_nat max_def)
        moreover have "?se \<noteq> []" using ml wl by (metis length_greater_0_conv limitSize_nonempty zero_less_diff)
        ultimately show ?thesis
          using True u_slice_abs [OF a, of ?off hi] hi False lim
          by (simp add: rest_def sp u64_nat less_imp_le del: length_take)
      next
        case hi': False
        then have "m = unat hi" by (simp add: m_def u64_nat)
        then show ?thesis
          using hi' limitSize_whole [OF False] by (simp add: rest_def)
      qed
      ultimately show ?thesis by simp
    qed
  qed
qed

section \<open>Appending\<close>

lemma consec_replace:
  assumes "consec (Suc b) es" "consec k new" "b < k" "k \<le> Suc (b + length es)"
  shows "consec (Suc b) (take (k - Suc b) es @ new)"
  using assms by (simp add: consec_append consec_take)

lemma u_truncateAndAppend_abs:
  assumes a: "rl_abs l b bt es" and new: "new \<noteq> []" "consec k new" "k + length new \<le> 2 ^ 63"
    and k: "b < k" "k \<le> Suc (b + length es)"
  shows "\<exists>u. u_truncateAndAppend new (rl_unstable l) = Some u \<and>
     rl_abs (l\<lparr>rl_unstable := u\<rparr>) b bt (take (k - Suc b) es @ new)"
proof -
  note s = rl_abs_split [OF a]
  have c: "consec (Suc b) (take (k - Suc b) es @ new)"
    by (rule consec_replace [OF s(5) new(2) k])
  have len: "b + length (take (k - Suc b) es @ new) < 2 ^ 63" using k new by auto
  have k0: "unat (e_Index (new ! 0)) = k" by (rule consec_hd [OF new(2,1)])
  have g: "go_index new 0 = Some (new ! 0)" using new(1) by simp
  let ?off = "u_offset (rl_unstable l)"
  have "?off + of_nat (length (uents l)) = of_nat (Suc (b + length es))"
    using s(4,7) by (metis of_nat_add)
  then have at_end: "e_Index (new ! 0) = ?off + of_nat (length (uents l)) \<longleftrightarrow> k = Suc (b + length es)"
    using k0 s(6) unat_of_nat_u64 [of "Suc (b + length es)"] by (auto simp: word_unat_eq_iff simp del: of_nat_Suc of_nat_add)
  consider (app) "k = Suc (b + length es)" | (repl) "k \<noteq> Suc (b + length es)" "k \<le> uoff l"
    | (cut) "k \<noteq> Suc (b + length es)" "uoff l < k" by linarith
  then show ?thesis
  proof cases
    case app
    then have "u_truncateAndAppend new (rl_unstable l) = Some ((rl_unstable l)\<lparr>u_entries := uents l @ new\<rparr>)"
      using at_end g by (simp add: u_truncateAndAppend_def)
    moreover have "rl_abs (l\<lparr>rl_unstable := (rl_unstable l)\<lparr>u_entries := uents l @ new\<rparr>\<rparr>) b bt (es @ new)"
      using a c len new(1) app by (auto simp: rl_abs_def split: option.splits)
    ultimately show ?thesis using app by simp
  next
    case repl
    let ?u = "(rl_unstable l)\<lparr>u_offset := e_Index (new ! 0), u_entries := new\<rparr>"
    have "u_truncateAndAppend new (rl_unstable l) = Some ?u"
      using at_end g repl k0 by (simp add: u_truncateAndAppend_def u64_nat)
    moreover have "rl_abs (l\<lparr>rl_unstable := ?u\<rparr>) b bt (take (k - Suc b) es @ new)"
    proof (cases "u_snapshot (rl_unstable l)")
      case None
      then obtain ses where ses: "stores (rl_storage l) b bt ses" "uoff l \<le> Suc (b + length ses)"
          "es = take (uoff l - Suc b) ses @ uents l"
        using a by (auto simp: rl_abs_def)
      have "take (k - Suc b) es = take (k - Suc b) ses"
        using ses(2) repl(2) k(1) by (subst ses(3)) (simp add: min_def)
      then show ?thesis using None ses c len k k0 new(1) repl(2) by (auto simp: rl_abs_def)
    next
      case (Some sn)
      then have "k = Suc b" using a repl(2) k(1) by (auto simp: rl_abs_def)
      then show ?thesis using Some a c len k0 by (auto simp: rl_abs_def)
    qed
    ultimately show ?thesis by blast
  next
    case cut
    let ?kept = "take (k - uoff l) (uents l)"
    have "u_slice (rl_unstable l) ?off (e_Index (new ! 0)) = Some ?kept"
      using u_slice_abs [OF a, of ?off "e_Index (new ! 0)"] k0 cut k(2) s(3) by simp
    then have "u_truncateAndAppend new (rl_unstable l) = Some ((rl_unstable l)\<lparr>u_entries := ?kept @ new\<rparr>)"
      using at_end g cut k0 by (simp add: u_truncateAndAppend_def u64_nat)
    moreover have "take (k - Suc b) es = take (uoff l - Suc b) es @ ?kept"
    proof -
      have "k - Suc b = (uoff l - Suc b) + (k - uoff l)" using cut s(1) by simp
      then show ?thesis by (simp add: take_add flip: s(3))
    qed
    moreover have "take (uoff l - Suc b) es = take (uoff l - Suc b) ses" if
      "es = take (uoff l - Suc b) ses @ uents l" "uoff l \<le> Suc (b + length ses)" for ses
      using that by (metis append_eq_conv_conj length_take min.absorb2 diff_le_mono diff_Suc_Suc diff_add_inverse)
    ultimately show ?thesis
      using a c len new(1) s(1) by (auto simp: rl_abs_def split: option.splits)
  qed
qed

lemma rl_abs_pointers [simp]:
  "rl_abs (l\<lparr>rl_committed := c\<rparr>) b bt es = rl_abs l b bt es"
  "rl_abs (l\<lparr>rl_applied := c\<rparr>) b bt es = rl_abs l b bt es"
  by (simp_all add: rl_abs_def split: option.splits)

text \<open>The fields an operation on the entries leaves alone.\<close>

definition same_pointers :: "raftLog \<Rightarrow> raftLog \<Rightarrow> bool" where
  "same_pointers l l' \<longleftrightarrow> rl_committed l' = rl_committed l \<and> rl_applied l' = rl_applied l \<and>
     rl_storage l' = rl_storage l \<and> rl_maxNextEntsSize l' = rl_maxNextEntsSize l"

lemma rl_append_abs:
  assumes ok: "rl_ok l b bt es" and new: "new \<noteq> []" "consec k new" "k + length new \<le> 2 ^ 63"
    and k: "unat (rl_committed l) < k" "k \<le> Suc (b + length es)"
  shows "\<exists>l'. rl_append new l = Some (l', of_nat (k + length new - 1)) \<and>
     rl_ok l' b bt (take (k - Suc b) es @ new) \<and> same_pointers l l'"
proof -
  have a: "rl_abs l b bt es" and c: "b \<le> unat (rl_committed l)" "rl_applied l \<le> rl_committed l"
    using ok by (simp_all add: rl_ok_def)
  have bk: "b < k" using c k by simp
  obtain u where u: "u_truncateAndAppend new (rl_unstable l) = Some u"
      "rl_abs (l\<lparr>rl_unstable := u\<rparr>) b bt (take (k - Suc b) es @ new)"
    using u_truncateAndAppend_abs [OF a new bk k(2)] by blast
  have k0: "unat (e_Index (new ! 0)) = k" by (rule consec_hd [OF new(2,1)])
  have "unat (e_Index (new ! 0) - 1) = k - 1"
    using k0 bk by (subst unat_diff_u64) (simp_all add: u64_nat)
  then have "\<not> e_Index (new ! 0) - 1 < rl_committed l" using k by (simp add: u64_nat)
  moreover have len: "b + length (take (k - Suc b) es @ new) = k + length new - 1"
    using bk k(2) by simp
  ultimately have "rl_append new l = Some (l\<lparr>rl_unstable := u\<rparr>, of_nat (k + length new - 1))"
    using new(1) u rl_lastIndex_abs [OF u(2)] by (simp add: rl_append_def Let_def del: of_nat_add length_append)
  moreover have "rl_ok (l\<lparr>rl_unstable := u\<rparr>) b bt (take (k - Suc b) es @ new)"
    using u(2) c k new(1) len by (auto simp: rl_ok_def)
  ultimately show ?thesis by (auto simp: same_pointers_def)
qed

lemma rl_commitTo_abs:
  assumes ok: "rl_ok l b bt es" and c: "unat c \<le> b + length es"
  shows "rl_commitTo c l = Some (l\<lparr>rl_committed := max (rl_committed l) c\<rparr>)"
    "rl_ok (l\<lparr>rl_committed := max (rl_committed l) c\<rparr>) b bt es"
proof -
  have a: "rl_abs l b bt es" using ok by (simp add: rl_ok_def)
  have "\<not> of_nat (b + length es) < c"
    using c rl_abs_split(6) [OF a] by (simp add: u64_nat del: of_nat_add)
  then show "rl_commitTo c l = Some (l\<lparr>rl_committed := max (rl_committed l) c\<rparr>)"
    by (simp add: rl_commitTo_def rl_lastIndex_abs [OF a] max_def del: of_nat_add)
  show "rl_ok (l\<lparr>rl_committed := max (rl_committed l) c\<rparr>) b bt es"
    using ok c by (auto simp: rl_ok_def max_def word_le_nat_alt)
qed

text \<open>The length of the common prefix of two lists of entries, by terms.\<close>

fun common :: "Entry list \<Rightarrow> Entry list \<Rightarrow> nat" where
  "common (e # es) (f # fs) = (if e_Term e = e_Term f then Suc (common es fs) else 0)"
| "common _ _ = 0"

lemma common_le: "common es fs \<le> length es" "common es fs \<le> length fs"
  by (induction es fs rule: common.induct) auto

lemma common_terms: "map e_Term (take (common es fs) es) = map e_Term (take (common es fs) fs)"
  by (induction es fs rule: common.induct) auto

lemma rl_findConflict_abs:
  assumes a: "rl_abs l b bt es" and "consec k ents" "b < k" "k + length ents \<le> 2 ^ 63"
    "\<forall>e \<in> set ents. e_Term e \<noteq> 0"
  shows "rl_findConflict l ents =
     Some (let n = common (drop (k - Suc b) es) ents in if n = length ents then 0 else of_nat (k + n))"
  using assms(2-)
proof (induction ents arbitrary: k)
  case (Cons e ents)
  have ki: "unat (e_Index e) = k" using Cons.prems by simp
  then have ei: "e_Index e = of_nat k" by (rule u64_eq_of_nat)
  have m: "rl_matchTerm l (e_Index e) (e_Term e) =
      Some (k \<le> b + length es \<and> e_Term (es ! (k - Suc b)) = e_Term e)"
    using ki Cons.prems(2,4) by (simp add: rl_matchTerm_abs [OF a] log_term_def)
  show ?case
  proof (cases "k \<le> b + length es \<and> e_Term (es ! (k - Suc b)) = e_Term e")
    case True
    then have "k - Suc b < length es" using Cons.prems(2) by linarith
    then have d: "drop (k - Suc b) es = es ! (k - Suc b) # drop (Suc k - Suc b) es"
      using Cons.prems(2) Cons_nth_drop_Suc [of "k - Suc b" es] by (simp add: Suc_diff_Suc)
    have "rl_findConflict l ents = Some (let n = common (drop (Suc k - Suc b) es) ents
        in if n = length ents then 0 else of_nat (Suc k + n))"
      using Cons.prems by (intro Cons.IH) auto
    then show ?thesis using m True by (simp add: d Let_def)
  next
    case False
    have "common (drop (k - Suc b) es) (e # ents) = 0"
      using False Cons.prems(2) by (cases "drop (k - Suc b) es") (auto simp: nth_via_drop)
    then show ?thesis
      using m False ei
      by (simp add: rl_lastIndex_abs [OF a] rl_term_abs [OF a] zeroTermOnErrCompacted_def Let_def
          del: of_nat_add)
  qed
qed simp

text \<open>What \<^verbatim>\<open>maybeAppend\<close> leaves in the log: nothing changes if the entries are there already,
  otherwise everything from the first disagreement on is replaced.\<close>

definition merged :: "nat \<Rightarrow> Entry list \<Rightarrow> nat \<Rightarrow> Entry list \<Rightarrow> Entry list" where
  "merged b es i ents =
     (let n = common (drop (i - b) es) ents in
      if n = length ents then es else take (i - b + n) es @ drop n ents)"

lemma rl_maybeAppend_no_match:
  assumes "rl_abs l b bt es" "b \<le> unat index" "unat index \<le> b + length es"
    "log_term b bt es (unat index) \<noteq> logTerm"
  shows "rl_maybeAppend index logTerm c ents l = Some (l, 0, False)"
  using assms by (simp add: rl_maybeAppend_def rl_matchTerm_abs)

lemma rl_maybeAppend_abs:
  assumes ok: "rl_ok l b bt es"
    and ents: "consec (Suc (unat index)) ents" "Suc (unat index) + length ents \<le> 2 ^ 63"
      "\<forall>e \<in> set ents. e_Term e \<noteq> 0"
    and i: "rl_committed l \<le> index" "unat index \<le> b + length es" "log_term b bt es (unat index) = logTerm"
  defines "lastn \<equiv> index + of_nat (length ents)"
  shows "\<exists>l'. rl_maybeAppend index logTerm c ents l = Some (l', lastn, True) \<and>
     rl_ok l' b bt (merged b es (unat index) ents) \<and>
     rl_committed l' = max (rl_committed l) (min c lastn) \<and> rl_applied l' = rl_applied l \<and>
     rl_storage l' = rl_storage l \<and> rl_maxNextEntsSize l' = rl_maxNextEntsSize l"
proof -
  have a: "rl_abs l b bt es" and bc: "b \<le> unat (rl_committed l)" using ok by (simp_all add: rl_ok_def)
  have ci: "unat (rl_committed l) \<le> unat index" using i(1) by (simp add: u64_nat)
  let ?ix = "unat index"
  define n where "n = common (drop (?ix - b) es) ents"
  have n: "n \<le> length ents" "n \<le> length es - (?ix - b)"
    using common_le [of "drop (?ix - b) es" ents] by (simp_all add: n_def)
  have m: "rl_matchTerm l index logTerm = Some True"
    using i bc ci by (simp add: rl_matchTerm_abs [OF a])
  have fc: "rl_findConflict l ents = Some (if n = length ents then 0 else of_nat (Suc ?ix + n))"
    using rl_findConflict_abs [OF a ents(1)] ents bc ci by (simp add: n_def Let_def)
  have lst: "unat lastn = ?ix + length ents"
    unfolding lastn_def using ents(2) by (subst unat_add_u64) simp_all
  have mn: "unat (min c lastn) \<le> ?ix + length ents" using lst by (simp add: min_def u64_nat)
  show ?thesis
  proof (cases "n = length ents")
    case True
    have "unat (min c lastn) \<le> b + length es" using mn True n i(2) bc ci by linarith
    note com = rl_commitTo_abs [OF ok this]
    have "rl_maybeAppend index logTerm c ents l =
        Some (l\<lparr>rl_committed := max (rl_committed l) (min c lastn)\<rparr>, lastn, True)"
      using m fc True com(1) by (simp add: rl_maybeAppend_def Let_def lastn_def)
    moreover have "merged b es ?ix ents = es" using True by (simp add: merged_def n_def Let_def)
    ultimately show ?thesis using com(2) by simp
  next
    case False
    let ?k = "Suc ?ix + n"
    have lt: "n < length ents" using False n by simp
    have uk: "unat (of_nat ?k :: u64) = ?k" using ents(2) n by (intro unat_of_nat_u64) simp
    have c1: "(of_nat ?k :: u64) \<noteq> 0" "\<not> of_nat ?k \<le> rl_committed l"
      using uk ci by (metis Suc_neq_Zero add_Suc unat_0, simp add: u64_nat del: of_nat_Suc of_nat_add)
    have d: "(of_nat ?k :: u64) - (index + 1) = of_nat n" by simp
    then have sl: "go_slice ents (unat ((of_nat ?k :: u64) - (index + 1))) (length ents) = Some (drop n ents)"
      unfolding d using lt ents(2) by simp
    have "consec ?k (drop n ents)" using consec_drop [OF ents(1)] .
    moreover have "?k \<le> Suc (b + length es)" using n i(2) bc ci by linarith
    ultimately obtain l1 where l1: "rl_append (drop n ents) l = Some (l1, of_nat (?k + length (drop n ents) - 1))"
        "rl_ok l1 b bt (take (?k - Suc b) es @ drop n ents)" "same_pointers l l1"
      using rl_append_abs [OF ok, of "drop n ents" ?k] lt ents(2) ci by auto
    have tk: "?k - Suc b = ?ix - b + n" using bc ci by simp
    have mg: "merged b es ?ix ents = take (?k - Suc b) es @ drop n ents"
      using False unfolding tk by (simp add: merged_def n_def Let_def)
    have "unat (min c lastn) \<le> b + length (take (?k - Suc b) es @ drop n ents)"
    proof -
      have "length (take (?k - Suc b) es) = ?ix - b + n" using n i(2) bc ci tk by simp
      then show ?thesis using mn n bc ci by simp
    qed
    note com = rl_commitTo_abs [OF l1(2) this]
    have "rl_maybeAppend index logTerm c ents l =
        Some (l1\<lparr>rl_committed := max (rl_committed l1) (min c lastn)\<rparr>, lastn, True)"
      using m fc False c1 sl l1(1) com(1)
      by (simp add: rl_maybeAppend_def Let_def lastn_def del: of_nat_Suc of_nat_add)
    then show ?thesis using com(2) l1(3) unfolding mg by (simp add: same_pointers_def)
  qed
qed

section \<open>Comparing, committing, applying\<close>

lemma rl_isUpToDate_abs:
  assumes "rl_abs l b bt es"
  shows "rl_isUpToDate l lasti trm = Some (log_term b bt es (b + length es) < trm \<or>
     log_term b bt es (b + length es) = trm \<and> b + length es \<le> unat lasti)"
proof -
  have "of_nat (b + length es) \<le> lasti \<longleftrightarrow> b + length es \<le> unat lasti"
    using rl_abs_split(6) [OF assms] by (simp add: u64_nat del: of_nat_add)
  then show ?thesis
    by (auto simp: rl_isUpToDate_def rl_lastTerm_abs [OF assms] rl_lastIndex_abs [OF assms] simp del: of_nat_add)
qed

lemma rl_maybeCommit_abs:
  assumes ok: "rl_ok l b bt es"
  shows "trm \<noteq> 0 \<Longrightarrow> rl_maybeCommit i trm l =
     (if rl_committed l < i \<and> unat i \<le> b + length es \<and> log_term b bt es (unat i) = trm
      then Some (l\<lparr>rl_committed := i\<rparr>, True) else Some (l, False))"
proof -
  assume t: "trm \<noteq> 0"
  have a: "rl_abs l b bt es" and bc: "b \<le> unat (rl_committed l)" using ok by (simp_all add: rl_ok_def)
  have z: "(do { r \<leftarrow> rl_term l i; zeroTermOnErrCompacted r }) =
      Some (if b \<le> unat i \<and> unat i \<le> b + length es then log_term b bt es (unat i) else 0)"
    by (simp add: rl_term_abs [OF a] zeroTermOnErrCompacted_def)
  show ?thesis
  proof (cases "rl_committed l < i \<and> unat i \<le> b + length es \<and> log_term b bt es (unat i) = trm")
    case True
    then have "rl_commitTo i l = Some (l\<lparr>rl_committed := i\<rparr>)"
      using rl_commitTo_abs(1) [OF ok, of i] by (simp add: max_absorb2 less_imp_le)
    then show ?thesis
      using True bc by (simp add: rl_maybeCommit_def rl_term_abs [OF a] zeroTermOnErrCompacted_def u64_nat)
  next
    case False
    then show ?thesis
      using t by (auto simp: rl_maybeCommit_def rl_term_abs [OF a] zeroTermOnErrCompacted_def)
  qed
qed

text \<open>The entries handed to the application: after what is applied and the base, up to the commit index.\<close>

lemma next_bounds:
  assumes ok: "rl_ok l b bt es"
  defines "p \<equiv> max (unat (rl_applied l)) b"
  shows "unat (max (rl_applied l + 1) (of_nat (Suc b))) = Suc p"
    "unat (rl_committed l + 1) = Suc (unat (rl_committed l))" "p \<le> unat (rl_committed l)"
proof -
  have b: "b \<le> unat (rl_committed l)" "unat (rl_applied l) \<le> unat (rl_committed l)"
      "unat (rl_committed l) < 2 ^ 63"
    using ok rl_abs_split(6) [of l b bt es] by (auto simp: rl_ok_def u64_nat)
  have s: "unat (rl_applied l + 1) = Suc (unat (rl_applied l))" using b by (intro unat_Suc_u64) simp
  show "unat (rl_committed l + 1) = Suc (unat (rl_committed l))" using b by (intro unat_Suc_u64) simp
  show "unat (max (rl_applied l + 1) (of_nat (Suc b))) = Suc p"
    using s b unat_of_nat_u64 [of "Suc b"] by (auto simp: p_def max_def u64_nat simp del: of_nat_Suc)
  show "p \<le> unat (rl_committed l)" using b by (simp add: p_def)
qed

lemma rl_nextEnts_abs:
  assumes ok: "rl_ok l b bt es"
  defines "p \<equiv> max (unat (rl_applied l)) b"
  shows "rl_nextEnts l = Some (limitSize (take (unat (rl_committed l) - p) (drop (p - b) es)) (rl_maxNextEntsSize l))"
    "rl_hasNextEnts l = Some (p < unat (rl_committed l))"
proof -
  have a: "rl_abs l b bt es" and cl: "unat (rl_committed l) \<le> b + length es"
    using ok by (simp_all add: rl_ok_def)
  note nb = next_bounds [OF ok, folded p_def]
  have gt: "rl_committed l + 1 > max (rl_applied l + 1) (of_nat (Suc b)) \<longleftrightarrow> p < unat (rl_committed l)"
    using nb by (simp add: u64_nat del: of_nat_Suc)
  then show "rl_hasNextEnts l = Some (p < unat (rl_committed l))"
    by (simp add: rl_hasNextEnts_def rl_firstIndex_abs [OF a] Let_def del: of_nat_Suc)
  show "rl_nextEnts l = Some (limitSize (take (unat (rl_committed l) - p) (drop (p - b) es)) (rl_maxNextEntsSize l))"
  proof (cases "p < unat (rl_committed l)")
    case True
    then have "rl_slice l (max (rl_applied l + 1) (of_nat (Suc b))) (rl_committed l + 1) (rl_maxNextEntsSize l) =
        Some (Inr (limitSize (take (unat (rl_committed l) - p) (drop (p - b) es)) (rl_maxNextEntsSize l)))"
      using rl_slice_abs [OF a, of "max (rl_applied l + 1) (of_nat (Suc b))" "rl_committed l + 1"] nb cl
      by (simp add: p_def del: of_nat_Suc)
    then show ?thesis
      using gt True by (simp add: rl_nextEnts_def rl_firstIndex_abs [OF a] Let_def del: of_nat_Suc)
  next
    case False
    then show ?thesis
      using gt by (simp add: rl_nextEnts_def rl_firstIndex_abs [OF a] Let_def del: of_nat_Suc max_less_iff_conj)
  qed
qed

lemma rl_appliedTo_ok:
  assumes "rl_ok l b bt es" "rl_appliedTo i l = Some l'"
  shows "rl_ok l' b bt es" "rl_applied l \<le> rl_applied l'" "rl_committed l' = rl_committed l"
  using assms by (auto simp: rl_appliedTo_def rl_ok_def not_less split: if_splits)

lemma rl_restore_abs:
  assumes "unat (snap_index s) < 2 ^ 63" "rl_applied l \<le> snap_index s"
  shows "rl_ok (rl_restore s l) (unat (snap_index s)) (snap_term s) []"
  using assms by (simp add: rl_ok_def rl_abs_def rl_restore_def u_restore_def unat_Suc_u64)

lemma newLogWithSize_abs:
  assumes st: "stores st b bt es"
  shows "\<exists>l. newLogWithSize st mx = Some l \<and> rl_ok l b bt es \<and> rl_committed l = of_nat b \<and> rl_applied l = of_nat b \<and>
     rl_storage l = st \<and> rl_unstable l = \<lparr>u_snapshot = None, u_entries = [], u_offset = of_nat (Suc (b + length es))\<rparr>"
proof -
  note s = storesD [OF st]
  have "unat (of_nat (Suc (b + length es)) :: u64) = Suc (b + length es)" "unat (of_nat b :: u64) = b"
    using s(4) by (simp_all del: of_nat_Suc of_nat_add)
  then show ?thesis
    using s st by (auto simp: newLogWithSize_def rl_ok_def rl_abs_def add.commute intro!: exI [of _ es])
qed

section \<open>Finding a conflict by term\<close>

text \<open>The largest index not above \<open>i\<close> with a term of at most \<open>trm\<close>, or the index before the base.\<close>

definition conflict_index :: "nat \<Rightarrow> u64 \<Rightarrow> Entry list \<Rightarrow> nat \<Rightarrow> u64 \<Rightarrow> u64 \<Rightarrow> bool" where
  "conflict_index b bt es i trm r \<longleftrightarrow>
     (b \<le> unat r \<and> unat r \<le> i \<and> log_term b bt es (unat r) \<le> trm \<and>
      (\<forall>j. unat r < j \<and> j \<le> i \<longrightarrow> trm < log_term b bt es j)) \<or>
     (r = of_nat b - 1 \<and> (\<forall>j. b \<le> j \<and> j \<le> i \<longrightarrow> trm < log_term b bt es j))"

lemma term_before_base:
  assumes "rl_abs l b bt es"
  shows "rl_term l (of_nat b - 1) = Some (Inr 0)"
proof -
  have b: "b + length es < 2 ^ 63" using rl_abs_split(6) [OF assms] .
  have "\<not> (b \<le> unat (of_nat b - 1 :: u64) \<and> unat (of_nat b - 1 :: u64) \<le> b + length es)"
  proof (cases b)
    case 0
    then show ?thesis using b by (simp add: unsigned_minus_1_eq_mask mask_eq_exp_minus_1)
  next
    case (Suc n)
    then show ?thesis using b unat_of_nat_u64 [of n] by simp
  qed
  then show ?thesis by (simp only: rl_term_abs [OF assms] if_False)
qed

lemma findConflictByTerm_loop_abs:
  assumes a: "rl_abs l b bt es"
  shows "b \<le> unat i \<Longrightarrow> unat i \<le> b + length es \<Longrightarrow>
     \<exists>r. findConflictByTerm_loop l trm i = Some r \<and> conflict_index b bt es (unat i) trm r"
proof (induction "unat i - b" arbitrary: i)
  case 0
  then have i: "unat i = b" "i = of_nat b" by (auto intro: u64_eq_of_nat)
  show ?case
  proof (cases "bt \<le> trm")
    case True
    then show ?thesis using 0 i
      by (subst findConflictByTerm_loop.simps) (auto simp: rl_term_abs [OF a] conflict_index_def log_term_def)
  next
    case False
    then have "findConflictByTerm_loop l trm i = findConflictByTerm_loop l trm (i - 1)"
      using 0 i by (subst findConflictByTerm_loop.simps) (simp add: rl_term_abs [OF a] log_term_def)
    also have "\<dots> = Some (of_nat b - 1)"
      using i(2) by (subst findConflictByTerm_loop.simps) (simp add: term_before_base [OF a])
    finally show ?thesis using False i by (auto simp: conflict_index_def log_term_def)
  qed
next
  case (Suc d)
  show ?case
  proof (cases "log_term b bt es (unat i) \<le> trm")
    case True
    then show ?thesis using Suc.prems
      by (subst findConflictByTerm_loop.simps) (auto simp: rl_term_abs [OF a] conflict_index_def)
  next
    case False
    have u: "unat (i - 1) = unat i - 1" using Suc.hyps(2) by (subst unat_diff_u64) (auto simp: u64_nat)
    have "findConflictByTerm_loop l trm i = findConflictByTerm_loop l trm (i - 1)"
      using False Suc.prems by (subst findConflictByTerm_loop.simps) (simp add: rl_term_abs [OF a])
    moreover obtain r where "findConflictByTerm_loop l trm (i - 1) = Some r"
        "conflict_index b bt es (unat i - 1) trm r"
    proof -
      have "d = unat (i - 1) - b" "b \<le> unat (i - 1)" "unat (i - 1) \<le> b + length es"
        using Suc.hyps(2) Suc.prems u by linarith+
      then show thesis using Suc.hyps(1) [of "i - 1"] that u by auto
    qed
    moreover have "conflict_index b bt es (unat i) trm r" if "conflict_index b bt es (unat i - 1) trm r"
    proof -
      have "j = unat i \<or> j \<le> unat i - 1" if "j \<le> unat i" for j using that by linarith
      then show ?thesis using that False by (auto simp: conflict_index_def not_le) 
    qed
    ultimately show ?thesis by auto
  qed
qed

section \<open>Persisting the unstable part\<close>

lemma stores_unique:
  assumes "stores st b bt es" "stores st b' bt' es'"
  shows "b' = b" "bt' = bt" "es' = es"
proof -
  note s = storesD [OF assms(1)] and s' = storesD [OF assms(2)]
  have "unat (of_nat (Suc b) :: u64) = unat (of_nat (Suc b') :: u64)" using s(1) s'(1) by simp
  then show b: "b' = b" using s(4) s'(4) by (simp del: of_nat_Suc)
  have "unat (of_nat (b + length es) :: u64) = unat (of_nat (b' + length es') :: u64)" using s(2) s'(2) by simp
  then have len: "length es' = length es" using s(4) s'(4) b by (simp del: of_nat_add)
  have ub: "unat (of_nat b :: u64) = b" using s(4) by (intro unat_of_nat_u64) simp
  show "bt' = bt"
    using stores_Term [OF assms(1), of "of_nat b"] stores_Term [OF assms(2), of "of_nat b"] ub b by simp
  show "es' = es"
  proof (cases "es = []")
    case False
    let ?lo = "of_nat (Suc b) :: u64" and ?hi = "of_nat (Suc (b + length es)) :: u64"
    have u: "unat ?lo = Suc b" "unat ?hi = Suc (b + length es)"
      using s(4) by (simp_all del: of_nat_Suc of_nat_add)
    have "st_Entries st ?lo ?hi MaxUint64 = Some (Inr es)"
      using stores_Entries [OF assms(1), of ?lo ?hi MaxUint64] u False by (simp add: u64_nat del: of_nat_Suc of_nat_add)
    moreover have "st_Entries st ?lo ?hi MaxUint64 = Some (Inr es')"
      using stores_Entries [OF assms(2), of ?lo ?hi MaxUint64] u False b len
      by (simp add: u64_nat del: of_nat_Suc of_nat_add)
    ultimately show ?thesis by simp
  qed (use len in simp)
qed

text \<open>
  Marking persisted entries as stable: with the whole log in the storage, the unstable part up to
  \<open>i\<close> can be dropped, and the log is the same.
\<close>

lemma u_stableTo_abs:
  assumes a: "rl_abs l b bt es" and i: "uoff l \<le> unat i" "unat i \<le> b + length es"
  defines "u \<equiv> (rl_unstable l)\<lparr>u_entries := drop (unat i - b) es, u_offset := i + 1\<rparr>"
  shows "u_stableTo i (log_term b bt es (unat i)) (rl_unstable l) = Some u" "unat (u_offset u) = Suc (unat i)"
proof -
  note s = rl_abs_split [OF a]
  show ui: "unat (u_offset u) = Suc (unat i)" using i s(6) by (simp add: u_def unat_Suc_u64)
  have "unat (i + 1 - u_offset (rl_unstable l)) = Suc (unat i) - uoff l"
    using ui i by (subst unat_diff_u64) (simp_all add: u_def u64_nat)
  moreover have "go_slice (uents l) (Suc (unat i) - uoff l) (length (uents l)) = Some (drop (Suc (unat i) - uoff l) (uents l))"
    using s(4) i by (subst go_slice_in) auto
  moreover have "drop (Suc (unat i) - uoff l) (uents l) = drop (unat i - b) es"
    using s(1) i by (subst s(3)) simp
  ultimately show "u_stableTo i (log_term b bt es (unat i)) (rl_unstable l) = Some u"
    using u_maybeTerm_abs [OF a i] i by (simp add: u_stableTo_def u_def u64_nat)
qed

lemma rl_stableTo_abs:
  assumes a: "rl_abs l b bt es" and i: "uoff l \<le> unat i" "unat i \<le> b + length es"
    and st: "stores (rl_storage l) b bt es" and sn: "u_snapshot (rl_unstable l) = None"
  shows "\<exists>l'. rl_stableTo i (log_term b bt es (unat i)) l = Some l' \<and> rl_abs l' b bt es \<and>
     uents l' = drop (unat i - b) es \<and> same_pointers l l'"
proof -
  note s = rl_abs_split [OF a]
  note u = u_stableTo_abs [OF a i]
  have "rl_abs (l\<lparr>rl_unstable := (rl_unstable l)\<lparr>u_entries := drop (unat i - b) es, u_offset := i + 1\<rparr>\<rparr>) b bt es"
    using u(2) s(1,5,6) i st sn by (auto simp: rl_abs_def intro!: exI [of _ es])
  then show ?thesis using u(1) by (simp add: rl_stableTo_def same_pointers_def)
qed

text \<open>With a snapshot pending, the entries and then the snapshot are marked as stable.\<close>

lemma rl_stableSnapTo_abs:
  assumes a: "rl_abs l b bt es" and st: "stores (rl_storage l) b bt es"
    and sn: "u_snapshot (rl_unstable l) = Some s"
  shows "es = [] \<Longrightarrow> rl_abs (rl_stableSnapTo (snap_index s) l) b bt es"
    and "es \<noteq> [] \<Longrightarrow> unat i = b + length es \<Longrightarrow>
      \<exists>l'. rl_stableTo i (log_term b bt es (unat i)) l = Some l' \<and>
        rl_abs (rl_stableSnapTo (snap_index s) l') b bt es"
proof -
  note sp = rl_abs_split [OF a]
  show "rl_abs (rl_stableSnapTo (snap_index s) l) b bt es" if "es = []"
    using a st sn that by (auto simp: rl_abs_def rl_stableSnapTo_def u_stableSnapTo_def intro!: exI [of _ es])
  assume ne: "es \<noteq> []" and ui: "unat i = b + length es"
  have up: "uoff l \<le> unat i"
    using a sn ne ui by (auto simp: rl_abs_def Suc_le_eq)
  note u = u_stableTo_abs [OF a up]
  let ?u = "(rl_unstable l)\<lparr>u_entries := drop (unat i - b) es, u_offset := i + 1\<rparr>"
  have "rl_abs (rl_stableSnapTo (snap_index s) (l\<lparr>rl_unstable := ?u\<rparr>)) b bt es"
    using u(2) sp(5,6) ui st sn by (auto simp: rl_abs_def rl_stableSnapTo_def u_stableSnapTo_def intro!: exI [of _ es])
  then show "\<exists>l'. rl_stableTo i (log_term b bt es (unat i)) l = Some l' \<and>
      rl_abs (rl_stableSnapTo (snap_index s) l') b bt es"
    using u(1) ui by (simp add: rl_stableTo_def)
qed

text \<open>
  The cycle an application runs for the entries of a \<^verbatim>\<open>Ready\<close>: append the unstable entries to the
  storage, then report them as stable. The log is unchanged and nothing is unstable any more.
\<close>

context log_store
begin

lemma rl_abs_storage:
  assumes "rl_abs l b bt es" "u_snapshot (rl_unstable l) = None" "rl_storage l = as_storage s" "invar s"
  shows "b = base s" "bt = base_term s" "b < uoff l" "uoff l \<le> Suc (b + length (contents s))"
    "es = take (uoff l - Suc b) (contents s) @ uents l"
proof -
  obtain ses where ses: "stores (as_storage s) b bt ses" "b < uoff l" "uoff l \<le> Suc (b + length ses)"
      "es = take (uoff l - Suc b) ses @ uents l"
    using assms by (auto simp: rl_abs_def)
  note un = stores_unique [OF provides [OF assms(4)] ses(1)]
  show "b = base s" "bt = base_term s" "b < uoff l" "uoff l \<le> Suc (b + length (contents s))"
    "es = take (uoff l - Suc b) (contents s) @ uents l"
    using ses un by simp_all
qed

lemma persist_entries:
  assumes a: "rl_abs l b bt es" and sn: "u_snapshot (rl_unstable l) = None"
    and st: "rl_storage l = as_storage s" and inv: "invar s" and ne: "uents l \<noteq> []"
  shows "\<exists>s' l'. append (uents l) s = Some s' \<and> invar s' \<and>
     rl_stableTo (of_nat (b + length es)) (log_term b bt es (b + length es)) (l\<lparr>rl_storage := as_storage s'\<rparr>) = Some l' \<and>
     rl_abs l' b bt es \<and> uents l' = []"
proof -
  note r = rl_abs_storage [OF a sn st inv] and sp = rl_abs_split [OF a]
  have ub: "unat (of_nat (b + length es) :: u64) = b + length es" using sp(6) by (intro unat_of_nat_u64) simp
  have "consec (uoff l) (uents l)"
    using consec_drop [OF sp(5), of "uoff l - Suc b"] sp(1) by (subst sp(3)) simp
  then obtain s' where s': "append (uents l) s = Some s'" "invar s'" "base s' = base s"
      "base_term s' = base_term s" "contents s' = take (uoff l - Suc (base s)) (contents s) @ uents l"
    using append_ok [OF inv ne, of "uoff l"] sp(4,6) r(1,3,4) by auto
  have c: "contents s' = es" unfolding s'(5) using r(1,5) by simp
  let ?l = "l\<lparr>rl_storage := as_storage s'\<rparr>"
  have st': "stores (rl_storage ?l) b bt es" using provides [OF s'(2)] c s'(3,4) r(1,2) by simp
  have "es = take (uoff l - Suc b) es @ uents l" using sp(3) by (metis append_take_drop_id)
  then have a': "rl_abs ?l b bt es"
    using sp(1,2,5,6) sn ne st' by (auto simp: rl_abs_def intro!: exI [of _ es])
  have up: "uoff ?l \<le> b + length es" using sp(4) ne by (cases "uents l") auto
  obtain l' where "rl_stableTo (of_nat (b + length es)) (log_term b bt es (b + length es)) ?l = Some l'"
      "rl_abs l' b bt es" "uents l' = []"
    using rl_stableTo_abs [OF a' _ _ st', of "of_nat (b + length es)"] sn ub up by (auto simp del: of_nat_add)
  then show ?thesis using s'(1,2) by blast
qed

end

section \<open>Properties\<close>

lemma merged_prefix:
  assumes "i - b \<le> length es"
  shows "take (i - b) (merged b es i ents) = take (i - b) es"
  using assms common_le [of "drop (i - b) es" ents] by (simp add: merged_def Let_def)

lemma common_agree: "k < common es fs \<Longrightarrow> e_Term (es ! k) = e_Term (fs ! k)"
  by (induction es fs arbitrary: k rule: common.induct) (auto simp: nth_Cons split: if_splits nat.split)

lemma common_stops: "common es fs < length es \<Longrightarrow> common es fs < length fs \<Longrightarrow> e_Term (es ! common es fs) \<noteq> e_Term (fs ! common es fs)"
  by (induction es fs rule: common.induct) (auto split: if_splits)


text \<open>A log over the empty in-memory storage, the subject of the examples.\<close>

definition empty_log :: raftLog where
  "empty_log = \<lparr>rl_storage = MemoryStorage_Storage NewMemoryStorage,
     rl_unstable = \<lparr>u_snapshot = None, u_entries = [], u_offset = 1\<rparr>,
     rl_committed = 0, rl_applied = 0, rl_maxNextEntsSize = noLimit\<rparr>"

lemma empty_log_new: "newLog (MemoryStorage_Storage NewMemoryStorage) = Some empty_log"
  by (simp add: newLog_def newLogWithSize_def MemoryStorage_Storage_def ms_firstIndex_def ms_lastIndex_def
      NewMemoryStorage_def zero_Entry_def empty_log_def)

lemma empty_log_ok: "rl_ok empty_log 0 0 []"
proof -
  have "stores (MemoryStorage_Storage NewMemoryStorage) 0 0 []"
    using MemoryStorage_stores [OF NewMemoryStorage_inv]
    by (simp add: NewMemoryStorage_def ms_off_def ms_base_term_def zero_Entry_def)
  then show ?thesis
    using newLogWithSize_abs [of "MemoryStorage_Storage NewMemoryStorage" 0 0 "[]" noLimit] empty_log_new
    by (simp add: newLog_def)
qed

text \<open>Two entries are appended to the empty log, and a leader of a later term replaces the second.\<close>

definition old_entries :: "Entry list" where
  "old_entries = [zero_Entry\<lparr>e_Index := 1, e_Term := 1\<rparr>, zero_Entry\<lparr>e_Index := 2, e_Term := 1, e_Data := Some [7]\<rparr>,
     zero_Entry\<lparr>e_Index := 3, e_Term := 1\<rparr>]"

definition new_entries :: "Entry list" where
  "new_entries = [zero_Entry\<lparr>e_Index := 1, e_Term := 1\<rparr>, zero_Entry\<lparr>e_Index := 2, e_Term := 2, e_Data := Some [8]\<rparr>]"

definition old_log :: raftLog where
  "old_log = empty_log\<lparr>rl_unstable := \<lparr>u_snapshot = None, u_entries = old_entries, u_offset = 1\<rparr>\<rparr>"

lemma old_log_ok: "rl_ok old_log 0 0 old_entries"
  using empty_log_ok by (auto simp: rl_ok_def rl_abs_def empty_log_def old_log_def old_entries_def)


text \<open>
  (C32) Reading a range of the log returns exactly its entries in that range, cut by the size limit,
  wherever they are kept: in the storage, in the unstable part, or in both.
\<close>

theorem log_slice_spec:
  assumes "rl_abs l b bt es" "b < unat lo" "unat lo \<le> unat hi" "unat hi \<le> Suc (b + length es)"
  shows "rl_slice l lo hi mx =
     Some (Inr (limitSize (take (unat hi - unat lo) (drop (unat lo - Suc b) es)) mx))"
  by (rule rl_slice_abs [OF assms])

text \<open>A log whose first entry is in the storage and whose other two are unstable.\<close>

definition half_storage :: MemoryStorage where
  "half_storage = NewMemoryStorage\<lparr>ms_ents := [zero_Entry, old_entries ! 0]\<rparr>"

definition half_log :: raftLog where
  "half_log = empty_log\<lparr>rl_storage := MemoryStorage_Storage half_storage,
     rl_unstable := \<lparr>u_snapshot = None, u_entries = drop 1 old_entries, u_offset = 2\<rparr>\<rparr>"

lemma half_log_abs: "rl_abs half_log 0 0 old_entries"
proof -
  have "MemoryStorage_inv half_storage"
    by (simp add: MemoryStorage_inv_def half_storage_def NewMemoryStorage_def ms_off_def zero_Entry_def old_entries_def)
  from MemoryStorage_stores [OF this] have "stores (MemoryStorage_Storage half_storage) 0 0 [old_entries ! 0]"
    by (simp add: half_storage_def NewMemoryStorage_def ms_off_def ms_base_term_def zero_Entry_def)
  then show ?thesis by (auto simp: rl_abs_def half_log_def old_entries_def)
qed

theorem log_slice_spec_witness:
  "rl_slice half_log 1 4 noLimit = Some (Inr old_entries) \<and> rl_slice half_log 1 4 16 = Some (Inr (take 2 old_entries))"
proof -
  have "limitSize old_entries noLimit = old_entries" "limitSize old_entries 16 = take 2 old_entries" by code_simp+
  moreover have "take 3 old_entries = old_entries" by (simp add: old_entries_def)
  ultimately show ?thesis
    using log_slice_spec [OF half_log_abs, of 1 4] by (simp add: old_entries_def)
qed

text \<open>
  A leader only commits by counting in its own term: the commit index moves to \<open>i\<close> exactly if \<open>i\<close>
  is above it, the log has an entry there, and that entry's term is the given one; the invariant of
  the log is kept, and it never panics.
\<close>

theorem maybe_commit_spec:
  assumes "rl_ok l b bt es" "trm \<noteq> 0"
  shows "\<exists>l'. rl_maybeCommit i trm l =
       Some (l', rl_committed l < i \<and> unat i \<le> b + length es \<and> log_term b bt es (unat i) = trm) \<and>
     rl_ok l' b bt es \<and>
     rl_committed l' = (if rl_committed l < i \<and> unat i \<le> b + length es \<and> log_term b bt es (unat i) = trm
                        then i else rl_committed l)"
  using rl_maybeCommit_abs [OF assms, of i] rl_commitTo_abs(2) [OF assms(1), of i] assms(1)
  by (auto simp: max_absorb2 less_imp_le)

theorem maybe_commit_spec_witness:
  "\<exists>l'. rl_maybeCommit 3 1 empty_log = Some (l', False) \<and> rl_committed l' = 0"
  using maybe_commit_spec [OF empty_log_ok, of 1 3] by (auto simp: empty_log_def)

text \<open>
  The entries handed to the application are those after the applied index (and after the base)
  up to the commit index, in order, cut by the size limit; the quick check agrees with it.
\<close>

theorem next_entries_spec:
  assumes "rl_ok l b bt es"
  shows "rl_nextEnts l = Some (limitSize
       (take (unat (rl_committed l) - max (unat (rl_applied l)) b) (drop (max (unat (rl_applied l)) b - b) es))
       (rl_maxNextEntsSize l)) \<and>
     rl_hasNextEnts l = Some (rl_nextEnts l \<noteq> Some [])"
proof -
  let ?p = "max (unat (rl_applied l)) b"
  have "unat (rl_committed l) \<le> b + length es" "?p \<le> unat (rl_committed l)"
    using assms next_bounds(3) [OF assms] by (simp_all add: rl_ok_def)
  then have "take (unat (rl_committed l) - ?p) (drop (?p - b) es) = [] \<longleftrightarrow> \<not> ?p < unat (rl_committed l)"
    by auto
  then show ?thesis by (simp add: rl_nextEnts_abs [OF assms])
qed

theorem next_entries_spec_witness: "rl_nextEnts empty_log = Some [] \<and> rl_hasNextEnts empty_log = Some False"
  using next_entries_spec [OF empty_log_ok] by simp

text \<open>
  (C34) The search for a conflict by term always returns: the largest index not above the given one
  whose term is at most the given term, or, if the log has no such index, the one before its base
  (wrapping below zero), not the first index of the log as its comment says.
\<close>

theorem find_conflict_by_term_returns:
  assumes "rl_abs l b bt es" "b \<le> unat index" "unat index \<le> b + length es"
  shows "\<exists>r. rl_findConflictByTerm l index trm = Some r \<and>
     ((b \<le> unat r \<and> r \<le> index \<and> log_term b bt es (unat r) \<le> trm \<and>
       (\<forall>j. unat r < j \<and> j \<le> unat index \<longrightarrow> trm < log_term b bt es j)) \<or>
      (r = of_nat b - 1 \<and> (\<forall>j. b \<le> j \<and> j \<le> unat index \<longrightarrow> trm < log_term b bt es j)))"
proof -
  have "\<not> index > of_nat (b + length es)"
    using assms(3) rl_abs_split(6) [OF assms(1)] by (simp add: u64_nat del: of_nat_add)
  then show ?thesis
    using findConflictByTerm_loop_abs [OF assms, of trm]
    by (simp add: rl_findConflictByTerm_def rl_lastIndex_abs [OF assms(1)] conflict_index_def word_le_nat_alt
        del: of_nat_add)
qed

theorem find_conflict_by_term_returns_witness: "\<exists>r. rl_findConflictByTerm empty_log 0 4 = Some r \<and> r \<le> 0"
  using find_conflict_by_term_returns [of empty_log 0 0 "[]" 0 4] empty_log_ok
  by (auto simp: rl_ok_def log_term_def)

text \<open>
  (C33) Persisting: appending the unstable entries to the in-memory storage and reporting the last
  one as stable leaves the log as it was, with nothing unstable.
\<close>

theorem persist_keeps_log:
  assumes "rl_abs l b bt es" "u_snapshot (rl_unstable l) = None"
    "rl_storage l = MemoryStorage_Storage ms" "MemoryStorage_inv ms" "rl_unstableEntries l \<noteq> []"
  shows "\<exists>ms' l'. ms_Append (rl_unstableEntries l) ms = Some ms' \<and> MemoryStorage_inv ms' \<and>
     rl_stableTo (of_nat (b + length es)) (log_term b bt es (b + length es))
       (l\<lparr>rl_storage := MemoryStorage_Storage ms'\<rparr>) = Some l' \<and>
     rl_abs l' b bt es \<and> rl_unstableEntries l' = []"
proof -
  have u: "rl_unstableEntries x = uents x" for x by (simp add: rl_unstableEntries_def)
  show ?thesis using memory.persist_entries [OF assms(1-4)] assms(5) unfolding u by blast
qed

theorem persist_keeps_log_witness:
  "\<exists>ms' l'. ms_Append [zero_Entry\<lparr>e_Index := 1, e_Term := 2\<rparr>] NewMemoryStorage = Some ms' \<and>
     rl_abs l' 0 0 [zero_Entry\<lparr>e_Index := 1, e_Term := 2\<rparr>] \<and> rl_unstableEntries l' = []"
proof -
  let ?e = "[zero_Entry\<lparr>e_Index := 1, e_Term := 2\<rparr>]"
  let ?l = "empty_log\<lparr>rl_unstable := \<lparr>u_snapshot = None, u_entries = ?e, u_offset = 1\<rparr>\<rparr>"
  have "rl_abs ?l 0 0 ?e"
    using empty_log_ok by (auto simp: rl_ok_def rl_abs_def empty_log_def)
  from persist_keeps_log [OF this, of NewMemoryStorage] show ?thesis
    using NewMemoryStorage_inv by (auto simp: empty_log_def rl_unstableEntries_def)
qed

end
