(* ===== verification/Raft_Log_Inv.thy ===== *)
theory Raft_Log_Inv
  imports Raft_Safety Raft_Log_Spec
begin

text \<open>
  What handling a message does to the log of a node, over the abstract log of \<open>Raft_Log_Spec\<close>. Most
  operations at most move the commit index; a leader, and a candidate that wins, append at the end;
  only a follower that is sent entries or a snapshot replaces a part of its log, and never a part that
  is committed.
\<close>

section \<open>Operations that keep the entries\<close>

definition kept :: "raftLog \<Rightarrow> raftLog \<Rightarrow> bool" where
  "kept l l' \<longleftrightarrow> rl_committed l \<le> rl_committed l' \<and> (\<forall>b bt es. rl_ok l b bt es \<longrightarrow> rl_ok l' b bt es)"

definition keeps_log :: "raft \<Rightarrow> raft \<Rightarrow> bool" where
  "keeps_log r r' \<longleftrightarrow> kept (r_raftLog r) (r_raftLog r')"

lemma kept_refl [simp]: "kept l l"
  by (simp add: kept_def)

lemma kept_trans: "kept l l1 \<Longrightarrow> kept l1 l2 \<Longrightarrow> kept l l2"
  unfolding kept_def by (meson order_trans)

lemma rl_commitTo_kept:
  assumes "rl_commitTo c l = Some l'"
  shows "kept l l'"
proof -
  have "rl_ok l' b bt es" if ok: "rl_ok l b bt es" for b bt es
  proof -
    have a: "rl_abs l b bt es" using ok by (simp add: rl_ok_def)
    have "unat c \<le> b + length es" if "rl_committed l < c"
      using assms that rl_abs_split(6) [OF a] unat_of_nat_u64 [of "b + length es"]
      by (simp add: rl_commitTo_def rl_lastIndex_abs [OF a] u64_nat split: if_splits del: of_nat_add)
    then show ?thesis
      using assms ok by (auto simp: rl_commitTo_def rl_ok_def panic_simps u64_nat split: if_splits)
  qed
  then show ?thesis using rl_commitTo_pointers [OF assms] by (simp add: kept_def)
qed

lemma send_log: "send m r = Some r' \<Longrightarrow> r_raftLog r' = r_raftLog r"
  by (auto simp: send_def Let_def split: if_splits)

interpretation keeps: frame keeps_log
proof
  fix x y r r' :: raft assume "core x = core r" "core y = core r'"
  then show "keeps_log x y = keeps_log r r'" by (simp add: core_def keeps_log_def)
next
  fix m and r r' :: raft assume "send m r = Some r'"
  then show "keeps_log r r'" by (simp add: keeps_log_def send_log)
qed (auto simp: keeps_log_def rl_commitTo_kept intro: kept_trans)

section \<open>Operations that append\<close>

definition grown :: "nat \<Rightarrow> raftLog \<Rightarrow> raftLog \<Rightarrow> bool" where
  "grown k l l' \<longleftrightarrow>
     rl_committed l \<le> rl_committed l' \<and>
     (\<forall>b bt es. rl_ok l b bt es \<longrightarrow> b + length es + k < 2 ^ 63 \<longrightarrow>
        (\<exists>new. length new \<le> k \<and> rl_ok l' b bt (es @ new)))"

lemma kept_grown: "kept l l' \<Longrightarrow> grown k l l'"
  unfolding kept_def grown_def by (metis append_Nil2 le0 list.size(3))

lemma kept_grown_trans: "kept l l1 \<Longrightarrow> grown k l1 l2 \<Longrightarrow> grown k l l2"
  unfolding kept_def grown_def by (meson order_trans)

lemma grown_kept_trans: "grown k l l1 \<Longrightarrow> kept l1 l2 \<Longrightarrow> grown k l l2"
  unfolding kept_def grown_def by (meson order_trans)

lemma grown_mono: "grown k l l' \<Longrightarrow> k \<le> n \<Longrightarrow> grown n l l'"
  unfolding grown_def by (meson add_le_mono le_less_trans order_refl order_trans)

text \<open>The entries a leader appends are numbered from the end of its log.\<close>

lemma stamp_entries_consec:
  assumes "unat li + length es < 2 ^ 63"
  shows "consec (Suc (unat li)) (stamp_entries trm li es)"
proof -
  have "unat (li + 1 + of_nat i) = Suc (unat li) + i" if "i < length es" for i
  proof -
    have "li + 1 + of_nat i = of_nat (Suc (unat li) + i)" by simp
    moreover have "unat (of_nat (Suc (unat li) + i) :: u64) = Suc (unat li) + i"
      using that assms by (intro unat_of_nat_u64) simp
    ultimately show ?thesis by metis
  qed
  then show ?thesis by (simp add: consec_nth stamp_entries_def nth_enumerate_eq)
qed

lemma length_stamp_entries [simp]: "length (stamp_entries trm li es) = length es"
  by (simp add: stamp_entries_def)

lemma rl_append_grown:
  assumes "rl_append (stamp_entries trm li new) l = Some (l', i)" "rl_lastIndex l = Some li" "new \<noteq> []"
  shows "grown (length new) l l'"
  unfolding grown_def
proof (intro conjI allI impI)
  show "rl_committed l \<le> rl_committed l'" using rl_append_pointers [OF assms(1)] by simp
  fix b bt es assume ok: "rl_ok l b bt es" and room: "b + length es + length new < 2 ^ 63"
  have a: "rl_abs l b bt es" and c: "unat (rl_committed l) \<le> b + length es" using ok by (simp_all add: rl_ok_def)
  have li: "unat li = b + length es"
    using assms(2) rl_lastIndex_abs [OF a] room unat_of_nat_u64 [of "b + length es"] by (simp del: of_nat_add)
  let ?new = "stamp_entries trm li new"
  have ne: "?new \<noteq> []" using assms(3) by (metis length_0_conv length_stamp_entries)
  have "rl_ok l' b bt (take (Suc (b + length es) - Suc b) es @ ?new)"
    using rl_append_abs [OF ok ne, of "Suc (b + length es)"] stamp_entries_consec [of li new trm] assms(1) li room c
    by auto
  then show "\<exists>n. length n \<le> length new \<and> rl_ok l' b bt (es @ n)"
    by (intro exI [of _ ?new]) simp
qed

lemma appendEntry_grown:
  assumes "appendEntry es r = Some (r', ok)" "es \<noteq> []"
  shows "grown (length es) (r_raftLog r) (r_raftLog r')"
proof -
  obtain li where li: "rl_lastIndex (r_raftLog r) = Some li"
    using assms by (auto simp: appendEntry_def panic_simps)
  obtain r1 fits where i: "increaseUncommittedSize (stamp_entries (r_Term r) li es) r = (r1, fits)" by fastforce
  have r1: "r_raftLog r1 = r_raftLog r" using increaseUncommittedSize_quiet [OF i] by simp
  show ?thesis
  proof (cases fits)
    case False
    then show ?thesis using assms li i r1 by (simp add: appendEntry_def kept_grown)
  next
    case True
    then obtain l n pr c where l: "rl_append (stamp_entries (r_Term r) li es) (r_raftLog r1) = Some (l, n)"
        and m: "maybeCommit (set_pr (r_id r1) (fst (MaybeUpdate n pr)) (r1\<lparr>r_raftLog := l\<rparr>)) = Some (r', c)"
      using assms li i by (fastforce simp: appendEntry_def panic_simps Let_def)
    have "grown (length es) (r_raftLog r) l" using rl_append_grown [OF l] li r1 assms(2) by simp
    moreover have "kept l (r_raftLog r')" using keeps.maybeCommit_frame [OF m] by (simp add: keeps_log_def)
    ultimately show ?thesis by (rule grown_kept_trans)
  qed
qed

section \<open>Elections\<close>

lemma become_log:
  "becomeFollower trm lead r = Some r' \<Longrightarrow> r_raftLog r' = r_raftLog r"
  "becomeCandidate r = Some r' \<Longrightarrow> r_raftLog r' = r_raftLog r"
  "becomePreCandidate r = Some r' \<Longrightarrow> r_raftLog r' = r_raftLog r"
  by (auto simp: becomeFollower_def becomeCandidate_def becomePreCandidate_def panic_simps reset_to_def
      split: if_splits dest!: reset_facts)

lemma becomeLeader_grown:
  assumes "becomeLeader r = Some r'"
  shows "grown 1 (r_raftLog r) (r_raftLog r')"
proof -
  obtain r1 pr li r3 where r1: "reset (r_Term r) (r\<lparr>r_step := stepLeader_fn\<rparr>) = Some r1"
    and a: "appendEntry [zero_Entry] ((set_pr (r_id r1) (BecomeReplicate pr)
        (r1\<lparr>r_tick := tickHeartbeat_fn, r_lead := r_id r1, r_state := StateLeader\<rparr>))\<lparr>r_pendingConfIndex := li\<rparr>) =
        Some (r3, True)"
    and r': "r' = reduceUncommittedSize [zero_Entry] r3"
    using assms by (auto simp: becomeLeader_def panic_simps ret_simps Let_def split: if_splits)
  have "r_raftLog r1 = r_raftLog r" using reset_facts [OF r1] by (simp add: reset_to_def)
  moreover have "r_raftLog r' = r_raftLog r3" by (simp add: r' reduceUncommittedSize_def Let_def)
  ultimately show ?thesis using appendEntry_grown [OF a] by simp
qed

lemma visit_list_request_log:
  "visit_list (request_vote t ty trm) vs r = Some r' \<Longrightarrow> r_raftLog r' = r_raftLog r"
proof (induction vs arbitrary: r)
  case (Cons v vs)
  then obtain r1 where r1: "request_vote t ty trm v r = Some r1" "visit_list (request_vote t ty trm) vs r1 = Some r'"
    by (auto simp: panic_simps)
  have "r_raftLog r1 = r_raftLog r" using r1(1) by (auto simp: request_vote_def panic_simps split: if_splits dest: send_log)
  then show ?case using Cons.IH [OF r1(2)] by simp
qed simp

lemma campaign_election_grown:
  assumes "campaign t r = Some r'" "t \<noteq> campaignPreElection"
  shows "grown 1 (r_raftLog r) (r_raftLog r')"
proof -
  obtain r1 where r1: "becomeCandidate r = Some r1"
    using assms by (auto simp: campaign.simps [of t r] panic_simps)
  obtain r2 g rj res where p: "poll (r_id r1) True r1 = (r2, g, rj, res)" by (cases "poll (r_id r1) True r1") auto
  have r2: "r_raftLog r2 = r_raftLog r" using poll_facts [OF p] become_log(2) [OF r1] by simp
  show ?thesis
  proof (cases "res = VoteWon")
    case True
    then have "becomeLeader r2 = Some r'" using assms r1 p by (simp add: campaign.simps [of t r])
    then show ?thesis using becomeLeader_grown r2 by metis
  next
    case False
    then have "visit_list (request_vote t MsgVote (r_Term r1)) (sort (range_ids (joint_IDs (voters r2)))) r2 = Some r'"
      using assms r1 p by (simp add: campaign.simps [of t r])
    then show ?thesis using visit_list_request_log r2 by (metis kept_grown kept_refl)
  qed
qed

lemma campaign_grown:
  assumes "campaign t r = Some r'"
  shows "grown 1 (r_raftLog r) (r_raftLog r')"
proof (cases "t = campaignPreElection")
  case pre: True
  obtain r1 where r1: "becomePreCandidate r = Some r1"
    using assms pre by (auto simp: campaign.simps [of campaignPreElection r] panic_simps)
  obtain r2 g rj res where p: "poll (r_id r1) True r1 = (r2, g, rj, res)" by (cases "poll (r_id r1) True r1") auto
  have r2: "r_raftLog r2 = r_raftLog r" using poll_facts [OF p] become_log(3) [OF r1] by simp
  show ?thesis
  proof (cases "res = VoteWon")
    case True
    then have "campaign campaignElection r2 = Some r'"
      using assms pre r1 p by (simp add: campaign.simps [of campaignPreElection r])
    then show ?thesis using campaign_election_grown [of campaignElection r2 r'] r2 by simp
  next
    case False
    then have "visit_list (request_vote t MsgPreVote (r_Term r1 + 1)) (sort (range_ids (joint_IDs (voters r2)))) r2 = Some r'"
      using assms pre r1 p by (simp add: campaign.simps [of campaignPreElection r])
    then show ?thesis using visit_list_request_log r2 by (metis kept_grown kept_refl)
  qed
qed (rule campaign_election_grown [OF assms])

lemma hup_grown: "hup t r = Some r' \<Longrightarrow> grown 1 (r_raftLog r) (r_raftLog r')"
  by (auto simp: hup_def panic_simps ret_simps kept_grown dest: campaign_grown)

section \<open>The handlers\<close>

lemma check_proposals_length: "check_proposals i es r = Some (r', es') \<Longrightarrow> length es' = length es"
proof (induction es arbitrary: i r es')
  case (Cons e es)
  then show ?case by (fastforce simp: panic_simps ret_simps)
qed simp

lemma stepLeader_CheckQuorum_log:
  assumes "stepLeader_CheckQuorum r = Some r'"
  shows "r_raftLog r' = r_raftLog r"
proof -
  define r1 where "r1 = (case r_pr (r_id r) r of None \<Rightarrow> r
      | Some pr \<Rightarrow> set_pr (r_id r) (pr\<lparr>pr_RecentActive := True\<rparr>) r)"
  let ?f = "\<lambda>v r. if v \<noteq> r_id r
      then do { pr \<leftarrow> r_pr v r; Some (set_pr v (pr\<lparr>pr_RecentActive := False\<rparr>) r) } else Some r"
  obtain r2 where r2: "(if \<not> QuorumActive (r_prs r1) then becomeFollower (r_Term r1) None_id r1 else Some r1) = Some r2"
      and v: "visit ?f r2 = Some r'"
    using assms unfolding stepLeader_CheckQuorum_def Let_def r1_def [symmetric] by (auto simp: panic_simps)
  have "progress_only r2 r'" by (rule visit_progress_only [OF _ v]) (auto simp: panic_simps split: if_splits)
  then have "r_raftLog r' = r_raftLog r2" by (auto simp: progress_only_def)
  moreover have "r_raftLog r2 = r_raftLog r1" using r2 by (auto split: if_splits dest: become_log)
  moreover have "r_raftLog r1 = r_raftLog r" by (simp add: r1_def split: option.split)
  ultimately show ?thesis by simp
qed

lemma stepLeader_grown:
  assumes "stepLeader m r = Some (r', e)"
  shows "grown (length (m_Entries m)) (r_raftLog r) (r_raftLog r')"
proof -
  consider "m_Type m = MsgProp" | "m_Type m = MsgCheckQuorum" | "m_Type m \<notin> {MsgProp, MsgCheckQuorum}" by blast
  then show ?thesis
  proof cases
    case 1
    then have "stepLeader_Prop m r = Some (r', e)" using assms by (simp add: stepLeader_def)
    then consider "r' = r" | r1 es r2 ok where "check_proposals 0 (m_Entries m) r = Some (r1, es)" "m_Entries m \<noteq> []"
        "appendEntry es r1 = Some (r2, ok)" "keeps_log r2 r'"
      by (auto simp: stepLeader_Prop_def panic_simps ret_simps dest!: keeps.bcastAppend_frame)
    then show ?thesis
    proof cases
      case 1
      then show ?thesis by (simp add: kept_grown)
    next
      case 2
      have "r_raftLog r1 = r_raftLog r" "length es = length (m_Entries m)"
        using check_proposals_quiet [OF 2(1)] check_proposals_length [OF 2(1)] by simp_all
      moreover have "grown (length es) (r_raftLog r1) (r_raftLog r2)"
        using appendEntry_grown [OF 2(3)] 2(2) calculation(2) by fastforce
      ultimately show ?thesis using 2(4) grown_kept_trans unfolding keeps_log_def by metis
    qed
  next
    case 2
    then have "stepLeader_CheckQuorum r = Some r'" using assms by (auto simp: stepLeader_def no_err_def)
    then show ?thesis using stepLeader_CheckQuorum_log by (simp add: kept_grown)
  next
    case 3
    then have "keeps_log r r'"
      using assms by (cases "m_Type m") (auto simp: stepLeader_def no_err_def ret_simps intro: quiet_intros)
    then show ?thesis by (simp add: keeps_log_def kept_grown)
  qed
qed

text \<open>Handling entries or a snapshot, as a follower.\<close>

definition takes_log :: "Message \<Rightarrow> raft \<Rightarrow> raft \<Rightarrow> bool" where
  "takes_log m r r' \<longleftrightarrow>
     (\<exists>r1. r_raftLog r1 = r_raftLog r \<and> r_state r1 = StateFollower \<and>
        (m_Type m = MsgApp \<and> handleAppendEntries m r1 = Some r' \<or> m_Type m = MsgSnap \<and> handleSnapshot m r1 = Some r'))"

abbreviation room :: "Message \<Rightarrow> nat" where
  "room m \<equiv> max 1 (length (m_Entries m))"

lemma stepFollower_log:
  assumes "stepFollower m r = Some (r', e)" "r_state r = StateFollower"
  shows "grown 1 (r_raftLog r) (r_raftLog r') \<or> takes_log m r r'"
proof -
  let ?r = "r\<lparr>r_electionElapsed := 0, r_lead := m_From m\<rparr>"
  consider "m_Type m = MsgApp" "handleAppendEntries m ?r = Some r'" | "m_Type m = MsgSnap" "handleSnapshot m ?r = Some r'"
    | "keeps_log ?r r'" | "hup campaignTransfer r = Some r'" | "r_raftLog r' = r_raftLog r"
    using assms(1)
    by (cases "m_Type m")
       (auto simp: stepFollower_def no_err_def ret_simps split: list.splits dest!: keeps.handleHeartbeat_frame dest: send_log)
  then show ?thesis
  proof cases
    case 1
    then show ?thesis using assms(2) unfolding takes_log_def by (intro disjI2 exI [of _ ?r]) simp
  next
    case 2
    then show ?thesis using assms(2) unfolding takes_log_def by (intro disjI2 exI [of _ ?r]) simp
  next
    case 4
    then show ?thesis using hup_grown by blast
  qed (simp_all add: keeps_log_def kept_grown)
qed

lemma stepCandidate_vote_grown:
  assumes "stepCandidate_vote m r = Some r'"
  shows "grown 1 (r_raftLog r) (r_raftLog r')"
proof -
  obtain r1 g rj res where p: "poll (m_From m) (\<not> m_Reject m) r = (r1, g, rj, res)"
    by (cases "poll (m_From m) (\<not> m_Reject m) r") auto
  have r1: "r_raftLog r1 = r_raftLog r" using poll_facts [OF p] by simp
  show ?thesis
  proof (cases res)
    case VoteWon
    then consider "campaign campaignElection r1 = Some r'" | r2 where "becomeLeader r1 = Some r2" "bcastAppend r2 = Some r'"
      using assms p by (auto simp: stepCandidate_vote_def panic_simps split: if_splits)
    then show ?thesis
    proof cases
      case 1
      then show ?thesis using campaign_grown r1 by metis
    next
      case 2
      then show ?thesis
        using becomeLeader_grown [OF 2(1)] keeps.bcastAppend_frame [OF 2(2)] grown_kept_trans r1
        unfolding keeps_log_def by metis
    qed
  next
    case VoteLost
    then have "becomeFollower (r_Term r1) None_id r1 = Some r'" using assms p by (simp add: stepCandidate_vote_def)
    then show ?thesis using become_log(1) r1 by (metis kept_grown kept_refl)
  next
    case VotePending
    then show ?thesis using assms p r1 by (simp add: stepCandidate_vote_def kept_grown)
  qed
qed

lemma becomeFollower_state: "becomeFollower trm lead r = Some r' \<Longrightarrow> r_state r' = StateFollower"
  by (auto simp: becomeFollower_def panic_simps)

lemma stepCandidate_log:
  assumes "stepCandidate m r = Some (r', e)"
  shows "grown 1 (r_raftLog r) (r_raftLog r') \<or> takes_log m r r'"
proof -
  consider "r' = r" | "stepCandidate_vote m r = Some r'"
    | r1 where "becomeFollower (m_Term m) (m_From m) r = Some r1" "m_Type m = MsgApp" "handleAppendEntries m r1 = Some r'"
    | r1 where "becomeFollower (m_Term m) (m_From m) r = Some r1" "m_Type m = MsgSnap" "handleSnapshot m r1 = Some r'"
    | r1 where "becomeFollower (m_Term m) (m_From m) r = Some r1" "keeps_log r1 r'"
    using assms
    by (auto simp: stepCandidate_def no_err_def panic_simps ret_simps Let_def split: if_splits
        dest!: keeps.handleHeartbeat_frame)
  then show ?thesis
  proof cases
    case 2
    then show ?thesis by (blast intro: stepCandidate_vote_grown)
  next
    case (3 r1)
    then show ?thesis using become_log(1) becomeFollower_state unfolding takes_log_def by blast
  next
    case (4 r1)
    then show ?thesis using become_log(1) becomeFollower_state unfolding takes_log_def by blast
  next
    case (5 r1)
    then show ?thesis using become_log(1) [OF 5(1)] by (simp add: keeps_log_def kept_grown)
  qed (simp add: kept_grown)
qed

lemma Step_term_log: "Step_term m r = Some (r1, c) \<Longrightarrow> r_raftLog r1 = r_raftLog r"
  by (auto simp: Step_term_def Step_higher_term_def Step_lower_term_def panic_simps ret_simps Let_def split: if_splits
      dest: become_log send_log)

lemma Step_vote_log: "Step_vote m r = Some r' \<Longrightarrow> r_raftLog r' = r_raftLog r"
  by (auto simp: Step_vote_def panic_simps split: if_splits dest: send_log)

text \<open>Every message either makes the log grow at its end or is taken by a follower.\<close>

lemma Step_log:
  assumes "Step m r = Some (r', e)" "role_ok r"
  shows "grown (room m) (r_raftLog r) (r_raftLog r') \<or> takes_log m r r'"
proof -
  obtain r1 c where s1: "Step_term m r = Some (r1, c)"
      and s2: "r' = r1 \<or> (\<exists>t. hup t r1 = Some r') \<or> Step_vote m r1 = Some r' \<or> run_step m r1 = Some (r', e)"
    using assms(1) by (auto simp: Step_def no_err_def panic_simps ret_simps split: if_splits)
  have l: "r_raftLog r1 = r_raftLog r" using Step_term_log [OF s1] .
  have r1: "role_ok r1" using Step_term_facts [OF s1] assms(2) by (simp add: evolves_def)
  have same: "takes_log m r r'" if "takes_log m r1 r'" using that l by (simp add: takes_log_def)
  have g1: ?thesis if "grown 1 (r_raftLog r1) (r_raftLog r')" using grown_mono [OF that, of "room m"] l by simp
  from s2 consider "r' = r1" | t where "hup t r1 = Some r'" | "Step_vote m r1 = Some r'" | "run_step m r1 = Some (r', e)"
    by blast
  then show ?thesis
  proof cases
    case 1
    then show ?thesis using l by (simp add: kept_grown)
  next
    case 2
    then show ?thesis by (intro g1 hup_grown)
  next
    case 3
    then show ?thesis using Step_vote_log l by (metis kept_grown kept_refl)
  next
    case 4
    show ?thesis
    proof (cases "r_state r1")
      case StateFollower
      then have "stepFollower m r1 = Some (r', e)" using 4 r1 by (simp add: run_step_def role_ok_def)
      then show ?thesis using stepFollower_log [OF _ StateFollower] same g1 by blast
    next
      case StateLeader
      then have "stepLeader m r1 = Some (r', e)" using 4 r1 by (simp add: run_step_def role_ok_def)
      then show ?thesis using grown_mono [OF stepLeader_grown, of m r1 r' e "room m"] l by simp
    qed (use 4 r1 stepCandidate_log [of m r1 r' e] same g1 in \<open>auto simp: run_step_def role_ok_def\<close>)
  qed
qed

section \<open>A follower keeps what is committed\<close>

lemma takes_log_follower:
  assumes "takes_log m r r'"
  shows "r_state r' = StateFollower"
proof -
  obtain r1 where f: "r_state r1 = StateFollower"
      and "handleAppendEntries m r1 = Some r' \<or> handleSnapshot m r1 = Some r'"
    using assms by (auto simp: takes_log_def)
  then consider "handleAppendEntries m r1 = Some r'" | "handleSnapshot m r1 = Some r'" by blast
  then show ?thesis
  proof cases
    case 1
    then show ?thesis using handleAppendEntries_quiet f by (auto simp: quiet_def role_def)
  next
    case 2
    then obtain r2 ok x where "restore (m_Snapshot m) r1 = Some (r2, ok)" "send x r2 = Some r'"
      by (auto simp: handleSnapshot_def panic_simps ret_simps)
    then show ?thesis
      using restore_evolves [of "m_Snapshot m" r1 r2 ok] f by (auto simp: send_def Let_def split: if_splits)
  qed
qed

text \<open>
  Entries a leader sends follow each other and carry a term; the entry before them has a term unless
  it is the start of the log.
\<close>

definition log_msg_ok :: "Message \<Rightarrow> bool" where
  "log_msg_ok m \<longleftrightarrow>
     (m_Type m = MsgApp \<longrightarrow>
        consec (Suc (unat (m_Index m))) (m_Entries m) \<and> Suc (unat (m_Index m)) + length (m_Entries m) \<le> 2 ^ 63 \<and>
        (\<forall>e\<in>set (m_Entries m). e_Term e \<noteq> 0) \<and> (m_LogTerm m = 0 \<longrightarrow> m_Index m = 0)) \<and>
     (m_Type m = MsgSnap \<longrightarrow> unat (snap_index (m_Snapshot m)) < 2 ^ 63)"

text \<open>
  The log after a step, if it was \<open>es\<close> after a base \<open>b\<close> before: well formed, and with the same entries up
  to the old commit index, or starting after it (from a snapshot).
\<close>

definition committed_kept :: "raftLog \<Rightarrow> nat \<Rightarrow> u64 \<Rightarrow> Entry list \<Rightarrow> raftLog \<Rightarrow> bool" where
  "committed_kept l b bt es l' \<longleftrightarrow>
     (\<exists>b' bt' es'. rl_ok l' b' bt' es' \<and> rl_committed l \<le> rl_committed l' \<and>
        (b' = b \<and> bt' = bt \<and> take (unat (rl_committed l) - b) es' = take (unat (rl_committed l) - b) es \<or>
         unat (rl_committed l) < b'))"

lemma committed_keptI:
  "rl_ok l' b bt es' \<Longrightarrow> rl_committed l \<le> rl_committed l' \<Longrightarrow>
     take (unat (rl_committed l) - b) es' = take (unat (rl_committed l) - b) es \<Longrightarrow> committed_kept l b bt es l'"
  by (auto simp: committed_kept_def)

lemma kept_committed_kept: "kept l l' \<Longrightarrow> rl_ok l b bt es \<Longrightarrow> committed_kept l b bt es l'"
  by (auto simp: kept_def intro: committed_keptI)

lemma grown_committed_kept:
  assumes "grown k l l'" "rl_ok l b bt es" "b + length es + k < 2 ^ 63"
  shows "committed_kept l b bt es l'"
proof -
  obtain new where "rl_ok l' b bt (es @ new)" "rl_committed l \<le> rl_committed l'" using assms unfolding grown_def by blast
  moreover have "unat (rl_committed l) - b \<le> length es" using assms(2) by (auto simp: rl_ok_def)
  ultimately show ?thesis by (intro committed_keptI [of _ b bt "es @ new"]) simp_all
qed

lemma take_shorter: "take n xs = take n ys \<Longrightarrow> k \<le> n \<Longrightarrow> take k xs = take k ys"
  by (metis min.absorb1 take_take)

lemma rl_maybeAppend_committed_kept:
  assumes "rl_maybeAppend (m_Index m) (m_LogTerm m) c (m_Entries m) l = Some (l', n, ok)"
    "rl_committed l \<le> m_Index m" "log_msg_ok m" "m_Type m = MsgApp" "rl_ok l b bt es"
  shows "committed_kept l b bt es l'"
proof -
  let ?i = "unat (m_Index m)"
  have a: "rl_abs l b bt es" and bc: "b \<le> unat (rl_committed l)" using assms(5) by (simp_all add: rl_ok_def)
  have ci: "unat (rl_committed l) \<le> ?i" using assms(2) by (simp add: u64_nat)
  have m: "consec (Suc ?i) (m_Entries m)" "Suc ?i + length (m_Entries m) \<le> 2 ^ 63"
      "\<forall>e\<in>set (m_Entries m). e_Term e \<noteq> 0" "m_LogTerm m = 0 \<Longrightarrow> m_Index m = 0"
    using assms(3,4) by (simp_all add: log_msg_ok_def)
  show ?thesis
  proof (cases "?i \<le> b + length es \<and> log_term b bt es ?i = m_LogTerm m")
    case True
    then have l': "rl_ok l' b bt (merged b es ?i (m_Entries m))" "rl_committed l \<le> rl_committed l'"
      using rl_maybeAppend_abs [OF assms(5) m(1-3) assms(2), of "m_LogTerm m" c] assms(1) by auto
    have "take (?i - b) (merged b es ?i (m_Entries m)) = take (?i - b) es"
      using True by (intro merged_prefix) linarith
    then have "take (unat (rl_committed l) - b) (merged b es ?i (m_Entries m)) = take (unat (rl_committed l) - b) es"
      by (rule take_shorter) (use ci in simp)
    with l' show ?thesis by (rule committed_keptI)
  next
    case False
    have "rl_matchTerm l (m_Index m) (m_LogTerm m) = Some False"
      using False m(4) bc ci by (auto simp: rl_matchTerm_abs [OF a])
    then have "l' = l" using assms(1) by (simp add: rl_maybeAppend_def)
    then show ?thesis using assms(5) by (auto intro: committed_keptI)
  qed
qed

lemma handleAppendEntries_committed_kept:
  assumes "handleAppendEntries m r = Some r'" "log_msg_ok m" "m_Type m = MsgApp" "rl_ok (r_raftLog r) b bt es"
  shows "committed_kept (r_raftLog r) b bt es (r_raftLog r')"
proof (cases "m_Index m < rl_committed (r_raftLog r)")
  case True
  then have "r_raftLog r' = r_raftLog r" using assms(1) by (auto simp: handleAppendEntries_def dest: send_log)
  then show ?thesis using assms(4) by (auto intro: committed_keptI)
next
  case False
  then obtain l n ok where "rl_maybeAppend (m_Index m) (m_LogTerm m) (m_Commit m) (m_Entries m) (r_raftLog r) = Some (l, n, ok)"
      "r_raftLog r' = l"
    using assms(1) by (auto simp: handleAppendEntries_def panic_simps ret_simps Let_def dest!: send_log)
  then show ?thesis using rl_maybeAppend_committed_kept assms(2-4) False by (metis not_less)
qed

lemma handleSnapshot_committed_kept:
  assumes "handleSnapshot m r = Some r'" "log_msg_ok m" "m_Type m = MsgSnap" "r_state r = StateFollower"
    "rl_ok (r_raftLog r) b bt es"
  shows "committed_kept (r_raftLog r) b bt es (r_raftLog r')"
proof -
  let ?s = "m_Snapshot m"
  let ?r = "r\<lparr>r_raftLog := rl_restore ?s (r_raftLog r), r_prs := MakeProgressTracker (pt_MaxInflight (r_prs r))\<rparr>"
  obtain r1 ok x where "restore ?s r = Some (r1, ok)" and x: "send x r1 = Some r'"
    using assms(1) by (auto simp: handleSnapshot_def panic_simps ret_simps)
  then consider "r1 = r"
    | l where "rl_commitTo (snap_index ?s) (r_raftLog r) = Some l" "r_raftLog r1 = l"
    | r2 where "rl_committed (r_raftLog r) < snap_index ?s" "restore_config (sm_ConfState (s_Metadata ?s)) ?r = Some r2"
        "r_raftLog r1 = r_raftLog r2"
    using assms(4) by (auto simp: restore_def panic_simps ret_simps Let_def not_le)
  then have "committed_kept (r_raftLog r) b bt es (r_raftLog r1)"
  proof cases
    case 1
    then show ?thesis using assms(5) by (auto intro: committed_keptI)
  next
    case 2
    then show ?thesis using rl_commitTo_kept [OF 2(1)] assms(5) kept_committed_kept by simp
  next
    case 3
    have "r_raftLog r1 = rl_restore ?s (r_raftLog r)" using restore_config_idle [OF 3(2)] assms(4) 3(3) by auto
    moreover have "rl_ok (rl_restore ?s (r_raftLog r)) (unat (snap_index ?s)) (snap_term ?s) []"
      using assms(2,3,5) 3(1) by (intro rl_restore_abs) (auto simp: log_msg_ok_def rl_ok_def)
    moreover have "rl_committed (rl_restore ?s (r_raftLog r)) = snap_index ?s" by (simp add: rl_restore_def)
    ultimately show ?thesis using 3(1) unfolding committed_kept_def by (metis less_imp_le word_less_nat_alt)
  qed
  then show ?thesis using send_log [OF x] by simp
qed

lemma Step_committed_kept:
  assumes "Step m r = Some (r', e)" "role_ok r" "log_msg_ok m" "rl_ok (r_raftLog r) b bt es"
    "b + length es + room m < 2 ^ 63"
  shows "committed_kept (r_raftLog r) b bt es (r_raftLog r')"
  using Step_log [OF assms(1,2)]
proof
  assume "grown (room m) (r_raftLog r) (r_raftLog r')"
  then show ?thesis using assms(4,5) by (rule grown_committed_kept)
next
  assume "takes_log m r r'"
  then show ?thesis
    using handleAppendEntries_committed_kept handleSnapshot_committed_kept assms(3,4) unfolding takes_log_def by metis
qed

end
