(* ===== verification/Node_Props.thy ===== *)
theory Node_Props
  imports Cluster_Run Codec_Messages Raft_Log_Inv
begin

text \<open>
  Properties of a single node, over \<^verbatim>\<open>raft.Step\<close>, \<^verbatim>\<open>tick\<close> and the \<^verbatim>\<open>RawNode\<close> calls: what handling a message
  keeps, when a vote is granted, how configuration changes are proposed, and when a \<^verbatim>\<open>Ready\<close> is due.
\<close>

section \<open>Proposing configuration changes\<close>

definition is_conf_entry :: "Entry \<Rightarrow> bool" where
  "is_conf_entry e \<longleftrightarrow> e_Type e = EntryConfChange \<or> e_Type e = EntryConfChangeV2"

lemma entry_conf_change_iff: "entry_conf_change e = Some None \<longleftrightarrow> \<not> is_conf_entry e"
  by (auto simp: entry_conf_change_def is_conf_entry_def split: sum.split)

lemma zero_not_conf [simp]: "\<not> is_conf_entry zero_Entry"
  by (simp add: is_conf_entry_def zero_Entry_def)

text \<open>While a change is pending, every proposed one is replaced by an empty entry.\<close>

lemma check_proposals_pending:
  "check_proposals i es r = Some (r', es') \<Longrightarrow> rl_applied (r_raftLog r) < r_pendingConfIndex r \<Longrightarrow>
     r' = r \<and> filter is_conf_entry es' = []"
proof (induction es arbitrary: i es')
  case (Cons e es)
  obtain cc where cc: "entry_conf_change e = Some cc" using Cons.prems(1) by (auto simp: panic_simps)
  obtain x xs where xs: "es' = x # xs" "check_proposals (Suc i) es r = Some (r', xs)"
      "x = (if cc = None then e else zero_Entry)"
    using Cons.prems cc by (auto simp: panic_simps ret_simps conf_change_refused_def split: if_splits)
  then show ?case
    using Cons.IH [OF xs(2) Cons.prems(2)] cc entry_conf_change_iff [of e] by simp
qed simp

lemma check_proposals_one:
  assumes "rl_lastIndex (r_raftLog r) = Some li" "rl_applied (r_raftLog r) \<le> li"
  shows "check_proposals i es r = Some (r', es') \<Longrightarrow> unat li + i + length es < 2 ^ 64 \<Longrightarrow>
    length (filter is_conf_entry es') \<le> 1"
proof (induction es arbitrary: i es')
  case (Cons e es)
  let ?r = "r\<lparr>r_pendingConfIndex := li + of_nat i + 1\<rparr>"
  have n: "unat (li + of_nat i + 1) = unat li + i + 1"
  proof -
    have "unat (of_nat (unat li + i + 1) :: u64) = unat li + i + 1"
      using Cons.prems(2) by (simp add: unsigned_of_nat take_bit_nat_eq_self del: of_nat_add of_nat_Suc)
    then show ?thesis by (simp add: add.commute)
  qed
  obtain cc where cc: "entry_conf_change e = Some cc" using Cons.prems(1) by (auto simp: panic_simps)
  consider (same) x xs where "es' = x # xs" "check_proposals (Suc i) es r = Some (r', xs)" "\<not> is_conf_entry x"
    | (taken) xs where "es' = e # xs" "check_proposals (Suc i) es ?r = Some (r', xs)"
    using Cons.prems(1) cc assms(1) entry_conf_change_iff [of e]
    by (auto simp: panic_simps ret_simps split: if_splits option.splits)
  then show ?case
  proof cases
    case same
    then show ?thesis using Cons.IH [OF same(2)] Cons.prems(2) by simp
  next
    case taken
    have "rl_applied (r_raftLog ?r) < r_pendingConfIndex ?r"
      using assms(2) n by (simp add: word_less_nat_alt word_le_nat_alt)
    then show ?thesis using check_proposals_pending [OF taken(2)] taken(1) by simp
  qed
qed simp

text \<open>
  (C9) At most one configuration change is accepted at a time: of the entries of a proposal that a
  leader appends, at most one is a configuration change, and none while an earlier change is not yet
  applied. The others are appended as empty entries.
\<close>

theorem one_conf_change_pending:
  assumes "check_proposals 0 es r = Some (r', es')" "rl_lastIndex (r_raftLog r) = Some li"
    "rl_applied (r_raftLog r) \<le> li" "unat li + length es < 2 ^ 64"
  shows "length (filter is_conf_entry es') \<le> (if rl_applied (r_raftLog r) < r_pendingConfIndex r then 0 else 1)"
  using assms check_proposals_pending [OF assms(1)] check_proposals_one [OF assms(2,3) assms(1)] by simp

definition run_proposal :: "Entry list" where
  "run_proposal = [zero_Entry\<lparr>e_Type := EntryConfChangeV2\<rparr>, zero_Entry\<lparr>e_Type := EntryConfChange, e_Data := Some [16, 1]\<rparr>]"

definition run_checked :: "(raft \<times> Entry list) option" where
  "run_checked = run_start 1 \<bind> (\<lambda>rn. check_proposals 0 run_proposal
     ((rn_raft rn)\<lparr>r_prs := (r_prs (rn_raft rn))\<lparr>pt_Config := (pt_Config (r_prs (rn_raft rn)))\<lparr>cfg_Voters := (Some {1, 2}, Some {1})\<rparr>\<rparr>\<rparr>))"

lemma run_checked_ok:
  "map_option (\<lambda>rn. (rl_lastIndex (r_raftLog (rn_raft rn)), rl_applied (r_raftLog (rn_raft rn)),
     r_pendingConfIndex (rn_raft rn))) (run_start 1) = Some (Some 0, 0, 0)"
  "map_option (\<lambda>(r, es). map is_conf_entry es) run_checked = Some [True, False]"
  by code_simp+

theorem one_conf_change_pending_witness:
  "\<exists>r es. run_checked = Some (r, es) \<and> length (filter is_conf_entry es) = 1"
proof -
  obtain rn where rn: "run_start 1 = Some rn" "rl_lastIndex (r_raftLog (rn_raft rn)) = Some 0"
      "rl_applied (r_raftLog (rn_raft rn)) = 0" "r_pendingConfIndex (rn_raft rn) = 0"
    using run_checked_ok(1) by auto
  obtain r es where res: "run_checked = Some (r, es)" "map is_conf_entry es = [True, False]"
    using run_checked_ok(2) by auto
  have "length (filter is_conf_entry es) \<le> 1"
    using one_conf_change_pending [OF res(1) [unfolded run_checked_def rn(1) bind.bind_lunit], of 0] rn
    by (simp add: run_proposal_def)
  moreover have "filter is_conf_entry es \<noteq> []" using res(2) by (auto simp: filter_empty_conv)
  ultimately have "length (filter is_conf_entry es) = 1" by (simp add: le_Suc_eq)
  then show ?thesis using res(1) by blast
qed

definition conf_change_ok :: "ConfChangeI \<Rightarrow> bool" where
  "conf_change_ok cc =
     (case cc of
        CCv1 c \<Rightarrow> ConfChange_ok c \<and> ConfChange_Size c < 2 ^ 63
      | CCv2 c \<Rightarrow> ConfChangeV2_ok c \<and> ConfChangeV2_Size c < 2 ^ 63)"

text \<open>
  A configuration change proposed through \<^verbatim>\<open>ProposeConfChange\<close> reaches the leader as it was: the
  proposal carries one entry, which decodes to the change, in the version it was proposed in.
\<close>

theorem proposed_change_decoded:
  assumes "conf_change_ok cc"
  shows "\<exists>m e. confChangeToMsg cc = Some m \<and> m_Entries m = [e] \<and> entry_conf_change e = Some (Some cc)"
proof (cases cc)
  case (CCv1 c)
  then obtain bs where "ConfChange_Marshal c = Some bs" "ConfChange_Unmarshal bs zero_ConfChange = Inr c"
    using assms round_trips(2) [of c] by (auto simp: conf_change_ok_def)
  then show ?thesis
    by (simp add: CCv1 confChangeToMsg_def MarshalConfChange_def entry_conf_change_def zero_Entry_def mk_Message_def)
next
  case (CCv2 c)
  then obtain bs where "ConfChangeV2_Marshal c = Some bs" "ConfChangeV2_Unmarshal bs zero_ConfChangeV2 = Inr c"
    using assms round_trips(3) [of c] by (auto simp: conf_change_ok_def)
  then show ?thesis
    by (simp add: CCv2 confChangeToMsg_def MarshalConfChange_def entry_conf_change_def zero_Entry_def mk_Message_def)
qed

theorem proposed_change_decoded_witness:
  "\<exists>m e. confChangeToMsg (CCv1 (zero_ConfChange\<lparr>cc_NodeID := 7\<rparr>)) = Some m \<and> m_Entries m = [e] \<and>
     entry_conf_change e = Some (Some (CCv1 (zero_ConfChange\<lparr>cc_NodeID := 7\<rparr>)))"
proof -
  have "ConfChange_Size (zero_ConfChange\<lparr>cc_NodeID := 7\<rparr>) \<le> 100" "ConfChange_ok (zero_ConfChange\<lparr>cc_NodeID := 7\<rparr>)"
    by code_simp+
  then show ?thesis by (intro proposed_change_decoded) (simp add: conf_change_ok_def)
qed

section \<open>Votes\<close>

text \<open>
  (C5) A node asked for its vote in its own term answers without panic, and grants the vote exactly if
  it has not voted for another, knows no leader unless it voted for the asker before, and the log of
  the asker is at least as up to date as its own (later last term, or the same and not shorter). A
  granted vote is recorded.
\<close>

theorem vote_grant_spec:
  assumes "rl_abs (r_raftLog r) b bt es" "m_Type m = MsgVote" "m_Term m = r_Term r" "r_Term r \<noteq> 0"
  defines "grant \<equiv>
    (r_Vote r = m_From m \<or> r_Vote r = None_id \<and> r_lead r = None_id) \<and>
    (log_term b bt es (b + length es) < m_LogTerm m \<or>
     log_term b bt es (b + length es) = m_LogTerm m \<and> b + length es \<le> unat (m_Index m))"
  shows "Step m r = Some (r\<lparr>
      r_msgs := r_msgs r @ [(mk_Message MsgVoteResp)\<lparr>m_To := m_From m, m_From := r_id r, m_Term := r_Term r, m_Reject := \<not> grant\<rparr>],
      r_electionElapsed := (if grant then 0 else r_electionElapsed r),
      r_Vote := (if grant then m_From m else r_Vote r)\<rparr>, None)"
proof -
  have t: "Step_term m r = Some (r, True)" using assms(3) by (simp add: Step_term_def)
  have l: "log_last r = Some ()"
    by (simp add: log_last_def rl_lastTerm_abs [OF assms(1)] rl_lastIndex_abs [OF assms(1)])
  have "(if canVote m r then rl_isUpToDate (r_raftLog r) (m_Index m) (m_LogTerm m) else Some False) = Some grant"
    using assms(2) by (auto simp: canVote_def grant_def rl_isUpToDate_abs [OF assms(1)])
  then show ?thesis
    using t l assms(2-4)
    by (simp add: Step_def Step_vote_def no_err_def voteRespMsgType_def send_def is_vote_msg_def mk_Message_def)
qed

theorem vote_grant_spec_witness:
  "\<exists>r r'. Step ((mk_Message MsgVote)\<lparr>m_From := 5, m_Term := 3, m_Index := 1, m_LogTerm := 2\<rparr>) r = Some (r', None) \<and>
     r_Vote r = None_id \<and> r_Vote r' = 5"
proof -
  obtain rn where "run_start 1 = Some rn" using run_start_within(1) by (auto simp: node_within_def split: option.splits)
  let ?r = "(rn_raft rn)\<lparr>r_raftLog := empty_log, r_Term := 3, r_Vote := None_id, r_lead := None_id\<rparr>"
  have "rl_abs (r_raftLog ?r) 0 0 []" using empty_log_ok by (simp add: rl_ok_def)
  from vote_grant_spec [OF this, of "(mk_Message MsgVote)\<lparr>m_From := 5, m_Term := 3, m_Index := 1, m_LogTerm := 2\<rparr>"]
  obtain r' where "Step ((mk_Message MsgVote)\<lparr>m_From := 5, m_Term := 3, m_Index := 1, m_LogTerm := 2\<rparr>) ?r = Some (r', None)"
      "r_Vote r' = 5" by (simp add: log_term_def)
  moreover have "r_Vote ?r = None_id" by simp
  ultimately show ?thesis by blast
qed

section \<open>Ready\<close>

text \<open>
  (C10) \<^verbatim>\<open>HasReady\<close> is the cheap form of \<^verbatim>\<open>Ready\<close>: it says exactly whether the \<^verbatim>\<open>Ready\<close> that would be
  built contains an update, and building it does not panic.
\<close>

theorem has_ready_iff_updates:
  assumes "rl_ok (r_raftLog (rn_raft rn)) b bt es"
  shows "\<exists>rd. rn_readyWithoutAccept rn = Some rd \<and> rn_HasReady rn = Some (containsUpdates rd)"
proof -
  let ?l = "r_raftLog (rn_raft rn)"
  note n = rl_nextEnts_abs [OF assms]
  have "unat (rl_committed ?l) \<le> b + length es" using assms by (simp add: rl_ok_def)
  then show ?thesis
    using n
    by (auto simp: rn_readyWithoutAccept_def newReady_def rn_HasReady_def containsUpdates_def Let_def
        rl_hasPendingSnapshot_def IsEmptyHardState_def isHardStateEqual_def IsEmptySnap_def zero_Snapshot_def
        split: option.splits)
qed

theorem has_ready_iff_updates_witness:
  "\<exists>rn rd. rn_readyWithoutAccept rn = Some rd \<and> rn_HasReady rn = Some (containsUpdates rd)"
proof -
  obtain rn where "run_start 1 = Some rn" using run_start_within(1) by (auto simp: node_within_def split: option.splits)
  let ?rn = "rn\<lparr>rn_raft := (rn_raft rn)\<lparr>r_raftLog := empty_log\<rparr>\<rparr>"
  have "rl_ok (r_raftLog (rn_raft ?rn)) 0 0 []" using empty_log_ok by simp
  from has_ready_iff_updates [OF this] show ?thesis by blast
qed

section \<open>What handling a message keeps\<close>

lemma run_hup:
  "map_option (role_ok \<circ> rn_raft) (run_start 1) = Some True"
  "map_option (\<lambda>rn. map_option (\<lambda>(r, e). (r_Term r, r_Vote r)) (Step (mk_Message MsgHup) (rn_raft rn))) (run_start 1) =
     Some (Some (1, 1))"
  by code_simp+

lemma hup_ok: "m_Term (mk_Message MsgHup) < MaxUint64" "well_termed (mk_Message MsgHup)"
  by (simp_all add: well_termed_local word_gt_0)

lemma run_hup_node:
  obtains rn r e where "run_start 1 = Some rn" "role_ok (rn_raft rn)" "r_Term (rn_raft rn) < MaxUint64"
    "Step (mk_Message MsgHup) (rn_raft rn) = Some (r, e)" "r_Term r = 1" "r_Vote r = 1"
proof -
  obtain rn where rn: "run_start 1 = Some rn" "role_ok (rn_raft rn)" using run_hup(1) by auto
  moreover have "r_Term (rn_raft rn) < MaxUint64" using run_start_within(1) rn(1) by (simp add: node_within_def)
  moreover obtain r e where "Step (mk_Message MsgHup) (rn_raft rn) = Some (r, e)" "r_Term r = 1" "r_Vote r = 1"
    using run_hup(2) rn(1) by (auto split: prod.splits)
  ultimately show thesis using that by blast
qed

text \<open>
  (C6) Handling a message never lowers the term, never changes a vote already cast in the term, never
  lowers the commit index and does not touch the applied index, for a node in a consistent role and
  a message whose term is set where the protocol sets it.
\<close>

theorem step_keeps_promises:
  assumes "Step m r = Some (r', e)" "role_ok r" "r_Term r < MaxUint64" "m_Term m < MaxUint64" "well_termed m"
  shows "r_Term r \<le> r_Term r' \<and> (r_Term r' = r_Term r \<and> r_Vote r \<noteq> None_id \<longrightarrow> r_Vote r' = r_Vote r) \<and>
    rl_committed (r_raftLog r) \<le> rl_committed (r_raftLog r') \<and> rl_applied (r_raftLog r') = rl_applied (r_raftLog r)"
  using Step_safe [OF assms] by (auto simp: safe_step_def vote_kept_def pointers_kept_def)

theorem step_keeps_promises_witness:
  "\<exists>r r' e. Step (mk_Message MsgHup) r = Some (r', e) \<and> r_Term r \<le> r_Term r' \<and> r_Vote r' = 1"
proof -
  obtain rn r e where r: "run_start 1 = Some rn" "role_ok (rn_raft rn)" "r_Term (rn_raft rn) < MaxUint64"
      "Step (mk_Message MsgHup) (rn_raft rn) = Some (r, e)" "r_Term r = 1" "r_Vote r = 1" by (rule run_hup_node)
  have "r_Term (rn_raft rn) \<le> r_Term r" using step_keeps_promises [OF r(4,2,3) hup_ok] by (rule conjunct1)
  then show ?thesis using r(4,6) by (intro exI conjI)
qed

text \<open>
  (C7) The role of a node stays well formed: after handling a message or a tick, its step and tick
  functions are those of its state, a leader and a candidate have voted for themselves, a leader
  follows itself and a candidate nobody, and the randomized election timeout lies in
  \<open>[electionTimeout, 2 * electionTimeout)\<close>.
\<close>

theorem step_and_tick_keep_role:
  assumes "role_ok r" "r_Term r < MaxUint64" "m_Term m < MaxUint64" "well_termed m"
    "Step m r = Some (r', e) \<or> tick r = Some r'"
  shows "role_ok r'"
  using assms Step_safe [of m r r' e] tick_evolves [of r r'] by (auto simp: safe_step_def evolves_def)

theorem step_and_tick_keep_role_witness:
  "\<exists>r r' e. role_ok r \<and> Step (mk_Message MsgHup) r = Some (r', e) \<and> role_ok r' \<and> r_Term r' = 1"
proof -
  obtain rn r e where r: "run_start 1 = Some rn" "role_ok (rn_raft rn)" "r_Term (rn_raft rn) < MaxUint64"
      "Step (mk_Message MsgHup) (rn_raft rn) = Some (r, e)" "r_Term r = 1" "r_Vote r = 1" by (rule run_hup_node)
  have "role_ok r" using step_and_tick_keep_role [OF r(2,3) hup_ok disjI1 [OF r(4)]] .
  with r(2,4,5) show ?thesis by (intro exI conjI)
qed

section \<open>The log\<close>

text \<open>
  (C3) Leader Append-Only. A node that leads after handling a message has only appended to its log:
  nothing it had before is changed or removed.
\<close>

theorem leader_append_only:
  assumes "Step m r = Some (r', e)" "role_ok r" "r_state r' = StateLeader"
    "rl_ok (r_raftLog r) b bt es" "b + length es + max 1 (length (m_Entries m)) < 2 ^ 63"
  shows "\<exists>new. rl_ok (r_raftLog r') b bt (es @ new)"
proof -
  have "grown (room m) (r_raftLog r) (r_raftLog r')"
    using Step_log [OF assms(1,2)] takes_log_follower [of m r r'] assms(3) by auto
  then show ?thesis using assms(4,5) unfolding grown_def by blast
qed

text \<open>The first member of the run as a candidate with an empty log, given the second vote it needs.\<close>

definition run_candidate :: "raft option" where
  "run_candidate = map_option (\<lambda>rn. let r = rn_raft rn in r\<lparr>r_raftLog := empty_log, r_state := StateCandidate,
     r_step := stepCandidate_fn, r_Term := 1, r_Vote := 1, r_prs := RecordVote 1 True (r_prs r)\<rparr>) (run_start 1)"

definition run_grant_msg :: Message where
  "run_grant_msg = (mk_Message MsgVoteResp)\<lparr>m_From := 2, m_To := 1, m_Term := 1\<rparr>"

lemma run_candidate_ok:
  "map_option role_ok run_candidate = Some True"
  "map_option (\<lambda>r. map_option (r_state \<circ> fst) (Step run_grant_msg r)) run_candidate = Some (Some StateLeader)"
  by code_simp+

lemma run_candidate_node:
  obtains r r' e where "role_ok r" "rl_ok (r_raftLog r) 0 0 []" "Step run_grant_msg r = Some (r', e)"
    "r_state r' = StateLeader"
proof -
  obtain r where r: "run_candidate = Some r" "role_ok r" using run_candidate_ok(1) by auto
  moreover have "r_raftLog r = empty_log" using r(1) by (auto simp: run_candidate_def Let_def)
  moreover obtain r' e where "Step run_grant_msg r = Some (r', e)" "r_state r' = StateLeader"
    using run_candidate_ok(2) unfolding r(1) by (cases "Step run_grant_msg r") auto
  ultimately show thesis using that empty_log_ok by auto
qed

theorem leader_append_only_witness:
  "\<exists>r r' e new. Step run_grant_msg r = Some (r', e) \<and> r_state r' = StateLeader \<and>
     rl_ok (r_raftLog r) 0 0 [] \<and> rl_ok (r_raftLog r') 0 0 new"
proof -
  obtain r r' e where r: "role_ok r" "rl_ok (r_raftLog r) 0 0 []" "Step run_grant_msg r = Some (r', e)"
    "r_state r' = StateLeader" by (rule run_candidate_node)
  have "0 + length ([] :: Entry list) + max 1 (length (m_Entries run_grant_msg)) < 2 ^ 63"
    by (simp add: run_grant_msg_def mk_Message_def)
  from leader_append_only [OF r(3,1,4,2) this] show ?thesis using r(2-4) by auto
qed

text \<open>
  (C2) What a node has committed stays. After handling any message the log is well formed again, the
  commit index has not fallen, and the entries up to the old commit index are the same, unless the
  log now starts after that index, from a snapshot. This holds for messages whose entries follow each
  other and carry terms.
\<close>

theorem committed_entries_stay:
  assumes "Step m r = Some (r', e)" "role_ok r" "log_msg_ok m" "rl_ok (r_raftLog r) b bt es"
    "b + length es + max 1 (length (m_Entries m)) < 2 ^ 63"
  shows "\<exists>b' bt' es'. rl_ok (r_raftLog r') b' bt' es' \<and> rl_committed (r_raftLog r) \<le> rl_committed (r_raftLog r') \<and>
    (b' = b \<and> bt' = bt \<and>
       take (unat (rl_committed (r_raftLog r)) - b) es' = take (unat (rl_committed (r_raftLog r)) - b) es \<or>
     unat (rl_committed (r_raftLog r)) < b')"
  using Step_committed_kept [OF assms] by (simp add: committed_kept_def)

theorem committed_entries_stay_witness:
  "\<exists>r r' e b bt es. Step run_grant_msg r = Some (r', e) \<and> rl_ok (r_raftLog r') b bt es"
proof -
  obtain r r' e where r: "role_ok r" "rl_ok (r_raftLog r) 0 0 []" "Step run_grant_msg r = Some (r', e)"
    "r_state r' = StateLeader" by (rule run_candidate_node)
  have "log_msg_ok run_grant_msg" "0 + length ([] :: Entry list) + max 1 (length (m_Entries run_grant_msg)) < 2 ^ 63"
    by (simp_all add: run_grant_msg_def mk_Message_def log_msg_ok_def)
  from committed_entries_stay [OF r(3,1) this(1) r(2) this(2)] r(3) show ?thesis by blast
qed

end
