(* ===== verification/Elections.thy ===== *)
theory Elections
  imports Node_Props
begin

text \<open>
  How an election ends: what a candidate does with an answer to its request, on every outcome of the
  count and without a panic. A winner leads in its term, appends an empty entry of that term and sends
  it to every other member.
\<close>

section \<open>Starting over\<close>

text \<open>The progress of a member that is probed at the end of the log.\<close>

definition probing :: "u64 \<Rightarrow> Progress \<Rightarrow> bool" where
  "probing li pr \<longleftrightarrow> pr_State pr = StateProbe \<and> \<not> pr_ProbeSent pr \<and> pr_Next pr = li + 1"

definition all_probing :: "u64 \<Rightarrow> u64 set \<Rightarrow> raft \<Rightarrow> bool" where
  "all_probing li vs r \<longleftrightarrow> (\<forall>v \<in> vs. \<exists>pr. r_pr v r = Some pr \<and> probing li pr)"

abbreviation peers :: "raft \<Rightarrow> u64 set" where
  "peers r \<equiv> Mapping.keys (pt_Progress (r_prs r))"

lemma r_pr_in: "v \<in> peers r \<Longrightarrow> \<exists>pr. r_pr v r = Some pr"
  by (auto simp: r_pr_def keys_dom_lookup)

lemma peers_set_pr [simp]: "v \<in> peers r \<Longrightarrow> peers (set_pr v pr r) = peers r"
  by (auto simp: set_pr_def)

lemma reset_progress_total:
  assumes "rl_lastIndex (r_raftLog r) = Some li" "v \<in> peers r"
  shows "\<exists>pr. reset_progress v r = Some (set_pr v pr r) \<and> probing li pr"
  using assms r_pr_in [OF assms(2)] by (auto simp: reset_progress_def probing_def)

lemma visit_reset_total:
  assumes "rl_lastIndex (r_raftLog r) = Some li" "set vs \<subseteq> peers r" "all_probing li ws r"
  shows "\<exists>r'. visit_list reset_progress vs r = Some r' \<and> progress_only r r' \<and> peers r' = peers r \<and> all_probing li (set vs \<union> ws) r'"
  using assms
proof (induction vs arbitrary: r ws)
  case (Cons v vs)
  obtain pr where pr: "reset_progress v r = Some (set_pr v pr r)" "probing li pr"
    using reset_progress_total Cons.prems(1,2) by fastforce
  have "all_probing li (insert v ws) (set_pr v pr r)"
    using Cons.prems(3) pr(2) by (auto simp: all_probing_def r_pr_set_pr)
  then obtain r' where "visit_list reset_progress vs (set_pr v pr r) = Some r'" "progress_only (set_pr v pr r) r'"
      "peers r' = peers (set_pr v pr r)" "all_probing li (set vs \<union> insert v ws) r'"
    using Cons.IH [of "set_pr v pr r" "insert v ws"] Cons.prems(1,2) by auto
  then show ?case using pr(1) Cons.prems(2) progress_only_trans [OF progress_only_set_pr] by auto
qed (auto intro: progress_only_refl)

lemma reset_total:
  assumes "rl_lastIndex (r_raftLog r) = Some li" "timeouts_ok r"
  shows "\<exists>r'. reset trm r = Some r' \<and> reset_to trm r r' \<and> peers r' = peers r \<and> all_probing li (peers r) r' \<and>
     r_uncommittedSize r' = 0 \<and> r_maxMsgSize r' = r_maxMsgSize r"
proof -
  define r0 where "r0 = (if r_Term r \<noteq> trm then r\<lparr>r_Term := trm, r_Vote := None_id\<rparr> else r)"
  have t: "0 < r_electionTimeout r0" using assms(2) by (simp add: r0_def timeouts_ok_def)
  obtain r1 where r1: "resetRandomizedElectionTimeout (r0\<lparr>r_lead := None_id, r_electionElapsed := 0, r_heartbeatElapsed := 0\<rparr>) = Some r1"
      "r_raftLog r1 = r_raftLog r" "r_prs r1 = r_prs r" "r_maxMsgSize r1 = r_maxMsgSize r"
    using t by (simp add: resetRandomizedElectionTimeout_def r0_def)
  let ?r2 = "(abortLeaderTransfer r1)\<lparr>r_prs := ResetVotes (r_prs (abortLeaderTransfer r1))\<rparr>"
  have f: "r_raftLog ?r2 = r_raftLog r" "peers ?r2 = peers r" "r_maxMsgSize ?r2 = r_maxMsgSize r"
    using r1(2-4) by (simp_all add: abortLeaderTransfer_def)
  obtain r3 where r3: "visit reset_progress ?r2 = Some r3" "progress_only ?r2 r3" "peers r3 = peers r" "all_probing li (peers r) r3"
    using visit_reset_total [of ?r2 li "Visit_ids (pt_Progress (r_prs ?r2))" "{}"] assms(1)
    unfolding f(1) visit_def set_Visit_ids f(2) by (auto simp: all_probing_def)
  let ?r' = "r3\<lparr>r_pendingConfIndex := 0, r_uncommittedSize := 0, r_readOnly := newReadOnly (ro_option (r_readOnly r3))\<rparr>"
  have "reset trm r = Some ?r'"
    unfolding reset_def Let_def r0_def [symmetric] r1(1) bind.bind_lunit r3(1) ..
  moreover have "all_probing li (peers r) ?r'" using r3(4) by (simp add: all_probing_def r_pr_def)
  moreover have "r_maxMsgSize ?r' = r_maxMsgSize r" using r3(2) f(3) by (auto simp: progress_only_def)
  ultimately show ?thesis using reset_facts r3(3) by (intro exI [of _ ?r']) simp
qed

section \<open>Becoming the leader\<close>

text \<open>The empty entry of a new leader.\<close>

definition first_entry :: "u64 \<Rightarrow> u64 \<Rightarrow> Entry" where
  "first_entry trm i = zero_Entry\<lparr>e_Term := trm, e_Index := i\<rparr>"

lemma stamp_first [simp]: "stamp_entries trm li [zero_Entry] = [first_entry trm (li + 1)]"
  by (simp add: stamp_entries_def first_entry_def)

lemma payload_first [simp]: "payload_sum [first_entry trm i] = 0" "payload_sum [zero_Entry] = 0"
  by (simp_all add: payload_sum_def PayloadSize_def first_entry_def zero_Entry_def)

lemma increase_first:
  assumes "r_uncommittedSize r = 0"
  shows "increaseUncommittedSize [first_entry trm i] r = (r, True)"
  using assms by (simp add: increaseUncommittedSize_def)

lemma maybe_commit_total:
  assumes "rl_ok l b bt es" "trm \<noteq> 0"
  shows "\<exists>l' d. rl_maybeCommit i trm l = Some (l', d) \<and> rl_ok l' b bt es"
  using maybe_commit_spec [OF assms, of i] by blast

lemma append_first_total:
  assumes ok: "rl_ok (r_raftLog r) b bt es" and room: "b + length es + 1 < 2 ^ 63"
    and r: "r_uncommittedSize r = 0" "r_id r \<in> peers r" "r_Term r \<noteq> 0"
  shows "\<exists>l pr. appendEntry [zero_Entry] r = Some ((set_pr (r_id r) pr r)\<lparr>r_raftLog := l\<rparr>, True) \<and>
     rl_ok l b bt (es @ [first_entry (r_Term r) (of_nat (b + length es) + 1)])"
proof -
  let ?li = "of_nat (b + length es) :: u64" and ?k = "Suc (b + length es)"
  let ?e = "first_entry (r_Term r) (?li + 1)"
  have a: "rl_abs (r_raftLog r) b bt es" and c: "unat (rl_committed (r_raftLog r)) < ?k" using ok by (simp_all add: rl_ok_def)
  have u: "unat ?li = b + length es" using room by (intro unat_of_nat_u64) simp
  have n: "consec ?k [?e]" using stamp_entries_consec [of ?li "[zero_Entry]" "r_Term r"] room unfolding u by simp
  obtain l where l: "rl_append [?e] (r_raftLog r) = Some (l, of_nat (?k + length [?e] - 1))" "rl_ok l b bt (es @ [?e])"
    using rl_append_abs [OF ok _ n _ c] room by auto
  obtain pr where pr: "r_pr (r_id r) r = Some pr" using r_pr_in [OF r(2)] by blast
  define p where "p = fst (MaybeUpdate (of_nat (?k + length [?e] - 1)) pr)"
  define c where "c = pt_Committed (r_prs (set_pr (r_id r) p (r\<lparr>r_raftLog := l\<rparr>)))"
  obtain l' d where l': "rl_maybeCommit c (r_Term r) l = Some (l', d)" "rl_ok l' b bt (es @ [?e])"
    using maybe_commit_total [OF l(2) r(3), of c] by blast
  have "maybeCommit (set_pr (r_id r) p (r\<lparr>r_raftLog := l\<rparr>)) = Some ((set_pr (r_id r) p r)\<lparr>r_raftLog := l'\<rparr>, d)"
    using l'(1) by (simp add: maybeCommit_def c_def [symmetric]) (simp add: set_pr_def)
  then have "appendEntry [zero_Entry] r = Some ((set_pr (r_id r) p r)\<lparr>r_raftLog := l'\<rparr>, True)"
    using rl_lastIndex_abs [OF a] l(1) pr
    by (simp add: appendEntry_def increase_first [OF r(1)] r_pr_def p_def Let_def del: of_nat_add)
  then show ?thesis using l'(2) by blast
qed

lemma all_probing_set_pr: "all_probing li vs r \<Longrightarrow> w \<notin> vs \<Longrightarrow> all_probing li vs (set_pr w pr r)"
  by (auto simp: all_probing_def r_pr_set_pr)

lemma all_probing_cong: "r_prs r' = r_prs r \<Longrightarrow> all_probing li vs r' = all_probing li vs r"
  by (simp add: all_probing_def r_pr_def)

lemma becomeLeader_total:
  assumes ok: "rl_ok (r_raftLog r) b bt es" and room: "b + length es + 1 < 2 ^ 63"
    and r: "r_state r \<noteq> StateFollower" "timeouts_ok r" "r_Term r \<noteq> 0" "r_id r \<in> peers r"
  shows "\<exists>r'. becomeLeader r = Some r' \<and> r_state r' = StateLeader \<and> r_lead r' = r_id r \<and> r_id r' = r_id r \<and> r_Term r' = r_Term r \<and>
     r_Vote r' = r_Vote r \<and> r_msgs r' = r_msgs r \<and> rl_ok (r_raftLog r') b bt (es @ [first_entry (r_Term r) (of_nat (b + length es) + 1)]) \<and>
     peers r' = peers r \<and> all_probing (of_nat (b + length es)) (peers r - {r_id r}) r'"
proof -
  let ?li = "of_nat (b + length es) :: u64"
  have li: "rl_lastIndex (r_raftLog r) = Some ?li"
    using ok unfolding rl_ok_def by (blast intro: rl_lastIndex_abs)
  obtain r1 where r1: "reset (r_Term r) (r\<lparr>r_step := stepLeader_fn\<rparr>) = Some r1" "reset_to (r_Term r) (r\<lparr>r_step := stepLeader_fn\<rparr>) r1"
      "peers r1 = peers r" "all_probing ?li (peers r) r1" "r_uncommittedSize r1 = 0"
    using reset_total [of "r\<lparr>r_step := stepLeader_fn\<rparr>" ?li "r_Term r"] li r(2) by (auto simp: timeouts_ok_def)
  let ?r2 = "r1\<lparr>r_tick := tickHeartbeat_fn, r_lead := r_id r1, r_state := StateLeader\<rparr>"
  obtain pr where pr: "r_pr (r_id r1) ?r2 = Some pr"
    using r_pr_in [of "r_id r1" ?r2] r1(2,3) r(4) by (auto simp: reset_to_def)
  define r3 where "r3 = (set_pr (r_id r1) (BecomeReplicate pr) ?r2)\<lparr>r_pendingConfIndex := ?li\<rparr>"
  have f: "r_raftLog r3 = r_raftLog r" "r_id r3 = r_id r" "r_id r1 = r_id r" "r_Term r3 = r_Term r" "r_Vote r3 = r_Vote r" "r_lead r3 = r_id r"
      "r_state r3 = StateLeader" "r_msgs r3 = r_msgs r" "r_uncommittedSize r3 = 0" "peers r3 = peers r"
    using r1(2,3,5) r(4) by (simp_all add: r3_def reset_to_def) (auto simp: set_pr_def)
  have p: "all_probing ?li (peers r - {r_id r}) r3"
    using r1(4) f(3) unfolding all_probing_def r3_def by (auto simp: r_pr_def set_pr_def Mapping.lookup_update')
  obtain l q where l: "appendEntry [zero_Entry] r3 = Some ((set_pr (r_id r3) q r3)\<lparr>r_raftLog := l\<rparr>, True)"
      "rl_ok l b bt (es @ [first_entry (r_Term r) (?li + 1)])"
    using append_first_total [of r3 b bt es] ok room f r(3,4) by auto
  let ?r4 = "(set_pr (r_id r3) q r3)\<lparr>r_raftLog := l\<rparr>"
  have "reduceUncommittedSize [zero_Entry] ?r4 = ?r4" using f(9) by (simp add: reduceUncommittedSize_def set_pr_def)
  then have "becomeLeader r = Some ?r4"
    using r(1) r1(1) pr li f(1) l(1) by (simp add: becomeLeader_def Let_def r3_def)
  moreover have "peers ?r4 = peers r" "all_probing ?li (peers r - {r_id r}) ?r4"
    using f r(4) p by (simp_all add: all_probing_def r_pr_def set_pr_def) (auto simp: Mapping.lookup_update')
  ultimately show ?thesis using l(2) f by (intro exI [of _ ?r4]) (simp add: set_pr_def)
qed

section \<open>Telling the members\<close>

text \<open>The message that carries the entry \<open>e\<close> after the last index \<open>li\<close> of term \<open>lt\<close>.\<close>

definition first_append :: "u64 \<Rightarrow> u64 \<Rightarrow> Entry \<Rightarrow> raft \<Rightarrow> u64 \<Rightarrow> Message" where
  "first_append li lt e r v = (mk_Message MsgApp)\<lparr>m_To := v, m_From := r_id r, m_Term := r_Term r, m_Index := li, m_LogTerm := lt,
     m_Entries := [e], m_Commit := rl_committed (r_raftLog r)\<rparr>"

lemma sendAppend_probing:
  assumes a: "rl_abs (r_raftLog r) b bt (es @ [e])" and pr: "r_pr v r = Some pr" "probing (of_nat (b + length es)) pr"
  shows "sendAppend v r = Some ((set_pr v (pr\<lparr>pr_ProbeSent := True\<rparr>) r)\<lparr>r_msgs := r_msgs r @
     [first_append (of_nat (b + length es)) (log_term b bt es (b + length es)) e r v]\<rparr>)"
proof -
  let ?li = "of_nat (b + length es) :: u64"
  have room: "Suc (b + length es) < 2 ^ 63" using rl_abs_split(6) [OF a] by simp
  have u: "unat ?li = b + length es" "unat (?li + 1) = Suc (b + length es)" "unat (?li + 1 + 1) = Suc (Suc (b + length es))"
    using room unat_of_nat_u64 [of "b + length es"] unat_of_nat_u64 [of "Suc (b + length es)"] unat_of_nat_u64 [of "Suc (Suc (b + length es))"]
    by (simp_all add: add.commute)
  have t: "rl_term (r_raftLog r) ?li = Some (Inr (log_term b bt es (b + length es)))"
    unfolding rl_term_abs [OF a] u(1) by (auto simp: log_term_def nth_append)
  have s: "rl_slice (r_raftLog r) (?li + 1) (?li + 1 + 1) mx = Some (Inr [e])" for mx
    using rl_slice_abs [OF a, of "?li + 1" "?li + 1 + 1" mx] unfolding u by (simp add: limitSize_def)
  have n: "rl_entries (r_raftLog r) (?li + 1) mx = Some (Inr [e])" for mx
    using rl_lastIndex_abs [OF a] s by (simp add: rl_entries_def add.commute add.left_commute)
  show ?thesis
    using pr t n unfolding probing_def
    by (simp add: sendAppend_def maybeSendAppend_def IsPaused_def track_sent_def send_def is_vote_msg_def mk_Message_def first_append_def
        del: of_nat_add)
qed

lemma bcast_list_total:
  assumes "rl_abs (r_raftLog r) b bt (es @ [e])" "distinct vs" "all_probing (of_nat (b + length es)) (set vs - {r_id r}) r"
  shows "\<exists>ps. visit_list (\<lambda>v r'. if v = r_id r' then Some r' else sendAppend v r') vs r = Some (r\<lparr>r_prs := ps, r_msgs := r_msgs r @
     map (first_append (of_nat (b + length es)) (log_term b bt es (b + length es)) e r) (filter (\<lambda>v. v \<noteq> r_id r) vs)\<rparr>)"
  using assms
proof (induction vs arbitrary: r)
  case Nil
  show ?case by (rule exI [of _ "r_prs r"]) simp
next
  case (Cons v vs)
  let ?li = "of_nat (b + length es) :: u64"
  let ?msg = "first_append ?li (log_term b bt es (b + length es)) e"
  show ?case
  proof (cases "v = r_id r")
    case True
    then have "set (v # vs) - {r_id r} = set vs - {r_id r}" by auto
    then show ?thesis using Cons.IH [OF Cons.prems(1)] Cons.prems(2,3) True by simp
  next
    case False
    then obtain pr where pr: "r_pr v r = Some pr" "probing ?li pr" using Cons.prems(3) by (auto simp: all_probing_def)
    define r1 where "r1 = (set_pr v (pr\<lparr>pr_ProbeSent := True\<rparr>) r)\<lparr>r_msgs := r_msgs r @ [?msg r v]\<rparr>"
    have s: "sendAppend v r = Some r1" unfolding r1_def by (rule sendAppend_probing [OF Cons.prems(1) pr])
    have "all_probing ?li (set vs - {r_id r}) r1"
      using Cons.prems(2,3) by (auto simp: r1_def all_probing_def r_pr_def set_pr_def Mapping.lookup_update')
    moreover have r1: "r_raftLog r1 = r_raftLog r" "r_id r1 = r_id r" by (simp_all add: r1_def)
    ultimately obtain ps where "visit_list (\<lambda>v r'. if v = r_id r' then Some r' else sendAppend v r') vs r1 =
        Some (r1\<lparr>r_prs := ps, r_msgs := r_msgs r1 @ map (?msg r1) (filter (\<lambda>v. v \<noteq> r_id r1) vs)\<rparr>)"
      using Cons.IH [of r1] Cons.prems(1,2) by auto
    moreover have "?msg r1 = ?msg r" by (rule ext) (simp add: first_append_def r1_def)
    ultimately show ?thesis
      using s False by (intro exI [of _ ps]) (simp add: r1, simp add: r1_def set_pr_def)
  qed
qed

lemma bcastAppend_total:
  assumes "rl_abs (r_raftLog r) b bt (es @ [e])" "all_probing (of_nat (b + length es)) (peers r - {r_id r}) r"
  shows "\<exists>ps. bcastAppend r = Some (r\<lparr>r_prs := ps, r_msgs := r_msgs r @
     map (first_append (of_nat (b + length es)) (log_term b bt es (b + length es)) e r)
       (filter (\<lambda>v. v \<noteq> r_id r) (range_ids (peers r)))\<rparr>)"
  using bcast_list_total [OF assms(1), of "Visit_ids (pt_Progress (r_prs r))"] assms(2)
  unfolding bcastAppend_def visit_def Visit_ids_sorted by simp

section \<open>The answer to a vote\<close>

lemma becomeFollower_total:
  assumes "rl_lastIndex (r_raftLog r) = Some li" "timeouts_ok r"
  shows "\<exists>r'. becomeFollower trm lead r = Some r' \<and> r_state r' = StateFollower \<and> r_lead r' = lead \<and> r_Term r' = trm \<and>
     r_Vote r' = (if r_Term r = trm then r_Vote r else None_id) \<and> r_raftLog r' = r_raftLog r \<and> r_msgs r' = r_msgs r"
  using reset_total [of "r\<lparr>r_step := stepFollower_fn\<rparr>" li trm] assms
  by (auto simp: becomeFollower_def reset_to_def timeouts_ok_def)

lemma lead_total:
  assumes ok: "rl_ok (r_raftLog r) b bt es" and room: "b + length es + 1 < 2 ^ 63"
    and r: "r_state r = StateCandidate" "timeouts_ok r" "r_Term r \<noteq> 0" "r_id r \<in> peers r"
  shows "\<exists>r'. (becomeLeader r \<bind> bcastAppend) = Some r' \<and> r_state r' = StateLeader \<and> r_lead r' = r_id r \<and> r_Term r' = r_Term r \<and>
     r_Vote r' = r_Vote r \<and> rl_ok (r_raftLog r') b bt (es @ [first_entry (r_Term r) (of_nat (b + length es) + 1)]) \<and>
     r_msgs r' = r_msgs r @ map (\<lambda>v. (mk_Message MsgApp)\<lparr>m_To := v, m_From := r_id r, m_Term := r_Term r,
        m_Index := of_nat (b + length es), m_LogTerm := log_term b bt es (b + length es),
        m_Entries := [first_entry (r_Term r) (of_nat (b + length es) + 1)], m_Commit := rl_committed (r_raftLog r')\<rparr>)
       (filter (\<lambda>v. v \<noteq> r_id r) (range_ids (peers r)))"
proof -
  let ?li = "of_nat (b + length es) :: u64"
  let ?e = "first_entry (r_Term r) (?li + 1)"
  obtain r1 where r1: "becomeLeader r = Some r1" "r_state r1 = StateLeader" "r_lead r1 = r_id r" "r_id r1 = r_id r" "r_Term r1 = r_Term r"
     "r_Vote r1 = r_Vote r" "r_msgs r1 = r_msgs r" "rl_ok (r_raftLog r1) b bt (es @ [?e])"
     "peers r1 = peers r" "all_probing ?li (peers r - {r_id r}) r1"
    using becomeLeader_total [OF ok room _ r(2-4)] r(1) by auto
  have "rl_abs (r_raftLog r1) b bt (es @ [?e])" using r1(8) by (simp add: rl_ok_def)
  from bcastAppend_total [OF this] r1(4,9,10) obtain ps where
    "bcastAppend r1 = Some (r1\<lparr>r_prs := ps, r_msgs := r_msgs r1 @ map (first_append ?li (log_term b bt es (b + length es)) ?e r1)
       (filter (\<lambda>v. v \<noteq> r_id r) (range_ids (peers r)))\<rparr>)" by auto
  then show ?thesis using r1(1-8) by (simp add: first_append_def del: of_nat_add)
qed

text \<open>
  (C4) An election is decided by its count. A candidate that gets an answer to its request, in its term,
  records it if it is the first of that member, and then does exactly what the count says, without a
  panic. If the votes now hold a majority of every part of the configuration, it leads: its log grows by
  one empty entry of its term, and every other member is sent that entry, with the end of the log before
  it and the commit index. If a majority has become impossible, it follows nobody and keeps log and
  messages. Otherwise it waits, and nothing but the record of votes has changed. Term and vote stay.
\<close>

theorem vote_response_decides:
  assumes "role_ok r" "r_state r = StateCandidate" "m_Type m = MsgVoteResp" "m_Term m = r_Term r"
    "r_id r \<in> Mapping.keys (pt_Progress (r_prs r))" "rl_ok (r_raftLog r) b bt es" "b + length es + 1 < 2 ^ 63"
  defines "counted \<equiv> (\<lambda>v. case Mapping.lookup (pt_Votes (r_prs r)) v of
      Some x \<Rightarrow> Some x | None \<Rightarrow> if v = m_From m then Some (\<not> m_Reject m) else None)"
    and "e \<equiv> zero_Entry\<lparr>e_Term := r_Term r, e_Index := of_nat (b + length es) + 1\<rparr>"
  shows "\<exists>r'. Step m r = Some (r', None) \<and> r_Term r' = r_Term r \<and> r_Vote r' = r_Vote r \<and>
    (case joint_VoteResult (cfg_Voters (pt_Config (r_prs r))) counted of
       VoteWon \<Rightarrow> r_state r' = StateLeader \<and> r_lead r' = r_id r \<and> rl_ok (r_raftLog r') b bt (es @ [e]) \<and>
         r_msgs r' = r_msgs r @ map (\<lambda>v. (mk_Message MsgApp)\<lparr>m_To := v, m_From := r_id r, m_Term := r_Term r,
             m_Index := of_nat (b + length es), m_LogTerm := log_term b bt es (b + length es), m_Entries := [e],
             m_Commit := rl_committed (r_raftLog r')\<rparr>)
           (filter (\<lambda>v. v \<noteq> r_id r) (range_ids (Mapping.keys (pt_Progress (r_prs r)))))
     | VoteLost \<Rightarrow> r_state r' = StateFollower \<and> r_lead r' = None_id \<and> r_raftLog r' = r_raftLog r \<and> r_msgs r' = r_msgs r
     | VotePending \<Rightarrow> r' = r\<lparr>r_prs := RecordVote (m_From m) (\<not> m_Reject m) (r_prs r)\<rparr>)"
proof -
  let ?r = "r\<lparr>r_prs := RecordVote (m_From m) (\<not> m_Reject m) (r_prs r)\<rparr>"
  let ?res = "joint_VoteResult (cfg_Voters (pt_Config (r_prs r))) counted"
  have v: "Mapping.lookup (pt_Votes (r_prs ?r)) = counted" by (rule ext) (simp add: lookup_RecordVote counted_def)
  have rc: "r_step r = stepCandidate_fn" "r_Term r \<noteq> 0" "timeouts_ok r" using assms(1,2) by (simp_all add: role_ok_def)
  have li: "rl_lastIndex (r_raftLog ?r) = Some (of_nat (b + length es))"
    using assms(6) unfolding rl_ok_def by (auto intro: rl_lastIndex_abs simp del: of_nat_add)
  have to: "timeouts_ok ?r" using rc(3) by (simp add: timeouts_ok_def)
  obtain g j where p: "poll (m_From m) (\<not> m_Reject m) r = (?r, g, j, ?res)"
    using v by (auto simp: poll_def TallyVotes_eq Let_def)
  have s: "Step m r = no_err (stepCandidate_vote m r)"
    using assms(2-4) rc by (simp add: Step_def Step_term_def run_step_def stepCandidate_def)
  show ?thesis
  proof (cases ?res)
    case VoteWon
    then have "stepCandidate_vote m r = becomeLeader ?r \<bind> bcastAppend"
      using p assms(2) by (simp add: stepCandidate_vote_def)
    then show ?thesis
      using lead_total [of ?r b bt es] assms(2,5-7) rc(2) to VoteWon s by (auto simp: no_err_def first_entry_def e_def)
  next
    case VoteLost
    then have "stepCandidate_vote m r = becomeFollower (r_Term r) None_id ?r"
      using p by (simp add: stepCandidate_vote_def)
    then show ?thesis
      using becomeFollower_total [OF li to, of "r_Term r" None_id] VoteLost s by (auto simp: no_err_def)
  next
    case VotePending
    then have "stepCandidate_vote m r = Some ?r" using p by (simp add: stepCandidate_vote_def)
    then show ?thesis using VotePending s by (simp add: no_err_def)
  qed
qed

text \<open>The first member of the run, with an empty log and its own vote, gets the vote of the second.\<close>

lemma run_candidate_facts:
  "map_option (\<lambda>r. (r_state r, r_Term r, r_id r, length (r_msgs r))) run_candidate = Some (StateCandidate, 1, 1, 0)"
  "map_option (\<lambda>r. range_ids (Mapping.keys (pt_Progress (r_prs r)))) run_candidate = Some [1, 2, 3]"
  "map_option (\<lambda>r. joint_VoteResult (cfg_Voters (pt_Config (r_prs r))) (\<lambda>v. case Mapping.lookup (pt_Votes (r_prs r)) v of
      Some x \<Rightarrow> Some x | None \<Rightarrow> if v = 2 then Some True else None)) run_candidate = Some VoteWon"
  by code_simp+

theorem vote_response_decides_witness:
  "\<exists>r r'. run_candidate = Some r \<and> Step run_grant_msg r = Some (r', None) \<and> r_state r' = StateLeader \<and> r_Term r' = 1 \<and>
     rl_ok (r_raftLog r') 0 0 [zero_Entry\<lparr>e_Term := 1, e_Index := 1\<rparr>] \<and> map m_To (r_msgs r') = [2, 3]"
proof -
  obtain r where c: "run_candidate = Some r" "role_ok r" using run_candidate_ok(1) by auto
  moreover have "r_state r = StateCandidate" "r_Term r = 1" "r_id r = 1" "r_msgs r = []"
    using run_candidate_facts(1) unfolding c(1) by simp_all
  ultimately have r: "run_candidate = Some r" "role_ok r" "r_state r = StateCandidate" "r_Term r = 1" "r_id r = 1" "r_msgs r = []" .
  have k: "range_ids (Mapping.keys (pt_Progress (r_prs r))) = [1, 2, 3]" using run_candidate_facts(2) unfolding r(1) by simp
  then have "set (Visit_ids (pt_Progress (r_prs r))) = {1, 2, 3}" unfolding Visit_ids_sorted by simp
  then have id: "r_id r \<in> Mapping.keys (pt_Progress (r_prs r))" unfolding set_Visit_ids r(5) by simp
  have l: "rl_ok (r_raftLog r) 0 0 []" using r(1) empty_log_ok by (auto simp: run_candidate_def Let_def)
  have w: "joint_VoteResult (cfg_Voters (pt_Config (r_prs r))) (\<lambda>v. case Mapping.lookup (pt_Votes (r_prs r)) v of
      Some x \<Rightarrow> Some x | None \<Rightarrow> if v = m_From run_grant_msg then Some (\<not> m_Reject run_grant_msg) else None) = VoteWon"
  proof -
    have m: "m_From run_grant_msg = 2" "(\<not> m_Reject run_grant_msg) = True" by (simp_all add: run_grant_msg_def mk_Message_def)
    show ?thesis using run_candidate_facts(3) unfolding r(1) m by simp
  qed
  have g: "m_Type run_grant_msg = MsgVoteResp" "m_Term run_grant_msg = r_Term r"
    by (simp_all add: run_grant_msg_def mk_Message_def r(4))
  have "0 + length ([] :: Entry list) + 1 < 2 ^ 63" by simp
  from vote_response_decides [OF r(2,3) g id l this, unfolded w VoteResult.case] obtain r' where
    "Step run_grant_msg r = Some (r', None)" "r_Term r' = r_Term r" "r_state r' = StateLeader"
    "rl_ok (r_raftLog r') 0 0 ([] @ [zero_Entry\<lparr>e_Term := r_Term r, e_Index := of_nat (0 + length ([] :: Entry list)) + 1\<rparr>])"
    "map m_To (r_msgs r') = map m_To (r_msgs r) @ filter (\<lambda>v. v \<noteq> r_id r) (range_ids (Mapping.keys (pt_Progress (r_prs r))))"
    by (auto simp: o_def)
  then show ?thesis using r(1,4-6) k by (intro exI [of _ r] exI [of _ r']) simp
qed

end
