(* ===== verification/Node_Loop.thy ===== *)
theory Node_Loop
  imports Cluster_Run
begin

text \<open>
  The driver of \<^verbatim>\<open>node.go\<close>: a goroutine that owns the \<^verbatim>\<open>RawNode\<close> and serves channels. The variables of
  \<^verbatim>\<open>run\<close> and the buffered channel of ticks are the state; a channel variable that is nil or not is a
  flag. One iteration prepares the channels and then takes one event the environment offers; an
  unbuffered send or receive is a rendezvous, so it happens with the event. A goroutine that panics
  has no next state.
\<close>

section \<open>The node\<close>

definition zero_Ready :: Ready where
  "zero_Ready = \<lparr>rd_SoftState = None, rd_HardState = zero_HardState, rd_ReadStates = [], rd_Entries = [],
     rd_Snapshot = zero_Snapshot, rd_CommittedEntries = [], rd_Messages = [], rd_MustSync = False\<rparr>"

record node =
  nd_rn :: RawNode
  nd_propc :: bool
  nd_readyc :: bool
  nd_advancec :: bool
  nd_rd :: Ready
  nd_lead :: u64
  nd_tickc :: nat
  nd_done :: bool

definition newNode :: "RawNode \<Rightarrow> node" where
  "newNode rn = \<lparr>nd_rn = rn, nd_propc = False, nd_readyc = False, nd_advancec = False, nd_rd = zero_Ready,
     nd_lead = None_id, nd_tickc = 0, nd_done = False\<rparr>"

text \<open>An error of \<^verbatim>\<open>Bootstrap\<close> is only logged.\<close>

definition StartNode ::
  "(ConfChangeV2 \<Rightarrow> ConfChangeV2 \<Rightarrow> bool) \<Rightarrow> RaftConfig \<Rightarrow> (nat \<Rightarrow> nat) \<Rightarrow> Peer list \<Rightarrow> node option" where
  "StartNode proto_Equal c rnd peers =
     (if length peers = 0 then None
      else do {
        rn \<leftarrow> NewRawNode c rnd;
        (rn, _) \<leftarrow> rn_Bootstrap proto_Equal peers rn;
        Some (newNode rn)
      })"

definition RestartNode :: "RaftConfig \<Rightarrow> (nat \<Rightarrow> nat) \<Rightarrow> node option" where
  "RestartNode c rnd = map_option newNode (NewRawNode c rnd)"

section \<open>One iteration of run\<close>

text \<open>
  Arming the channels. While a \<^verbatim>\<open>Ready\<close> waits for \<^verbatim>\<open>Advance\<close> none is offered; otherwise the one offered is
  recomputed if there is something to report, and kept if there is not.
\<close>

definition arm_ready :: "node \<Rightarrow> node option" where
  "arm_ready n =
     (if nd_advancec n then Some (n\<lparr>nd_readyc := False\<rparr>)
      else do {
        b \<leftarrow> rn_HasReady (nd_rn n);
        if b
        then do { rd \<leftarrow> rn_readyWithoutAccept (nd_rn n); Some (n\<lparr>nd_rd := rd, nd_readyc := True\<rparr>) }
        else Some n
      })"

definition track_leader :: "node \<Rightarrow> node" where
  "track_leader n =
     (let r = rn_raft (nd_rn n) in
      if nd_lead n \<noteq> r_lead r then n\<lparr>nd_propc := hasLeader r, nd_lead := r_lead r\<rparr> else n)"

definition arm :: "node \<Rightarrow> node option" where
  "arm n = map_option track_leader (arm_ready n)"

datatype loop_event =
    PropEv Message | RecvEv Message | ConfEv ConfChangeV2 | TickEv | ReadyEv | AdvanceEv | StatusEv | StopEv

datatype loop_answer =
    NoAnswer | PropDone "RaftErr option" | ConfDone ConfState | ReadySent Ready | StatusDone Status

text \<open>A nil channel is never ready; a receive from the buffered channel needs a tick in it.\<close>

fun enabled :: "loop_event \<Rightarrow> node \<Rightarrow> bool" where
  "enabled (PropEv m) n = nd_propc n"
| "enabled TickEv n = (0 < nd_tickc n)"
| "enabled ReadyEv n = nd_readyc n"
| "enabled AdvanceEv n = nd_advancec n"
| "enabled _ n = True"

definition serve_prop :: "Message \<Rightarrow> node \<Rightarrow> (node \<times> loop_answer) option" where
  "serve_prop m n =
     (let rn = nd_rn n; r = rn_raft rn in
      do {
        (r, err) \<leftarrow> Step (m\<lparr>m_From := r_id r\<rparr>) r;
        Some (n\<lparr>nd_rn := rn\<lparr>rn_raft := r\<rparr>\<rparr>, PropDone err)
      })"

definition serve_recv :: "Message \<Rightarrow> node \<Rightarrow> (node \<times> loop_answer) option" where
  "serve_recv m n =
     (let rn = nd_rn n; r = rn_raft rn in
      if r_pr (m_From m) r \<noteq> None \<or> \<not> IsResponseMsg (m_Type m)
      then do { (r, _) \<leftarrow> Step m r; Some (n\<lparr>nd_rn := rn\<lparr>rn_raft := r\<rparr>\<rparr>, NoAnswer) }
      else Some (n, NoAnswer))"

text \<open>A node that a change removes stops taking proposals, unless it is still a voter by the result.\<close>

definition serve_conf ::
  "(ConfChangeV2 \<Rightarrow> ConfChangeV2 \<Rightarrow> bool) \<Rightarrow> ConfChangeV2 \<Rightarrow> node \<Rightarrow> (node \<times> loop_answer) option" where
  "serve_conf proto_Equal cc n =
     (let rn = nd_rn n; r = rn_raft rn; okBefore = r_pr (r_id r) r \<noteq> None in
      do {
        (r, cs) \<leftarrow> applyConfChange proto_Equal cc r;
        let okAfter = r_pr (r_id r) r \<noteq> None;
            found = r_id r \<in> set (cs_Voters cs @ cs_VotersOutgoing cs);
            n = n\<lparr>nd_rn := rn\<lparr>rn_raft := r\<rparr>\<rparr>;
            n = (if okBefore \<and> \<not> okAfter \<and> \<not> found then n\<lparr>nd_propc := False\<rparr> else n)
        in Some (n, ConfDone cs)
      })"

definition serve_ready :: "node \<Rightarrow> (node \<times> loop_answer) option" where
  "serve_ready n =
     Some (n\<lparr>nd_rn := rn_acceptReady (nd_rd n) (nd_rn n), nd_advancec := True\<rparr>, ReadySent (nd_rd n))"

definition serve_advance :: "node \<Rightarrow> (node \<times> loop_answer) option" where
  "serve_advance n =
     do {
       rn \<leftarrow> rn_Advance (nd_rd n) (nd_rn n);
       Some (n\<lparr>nd_rn := rn, nd_rd := zero_Ready, nd_advancec := False\<rparr>, NoAnswer)
     }"

fun serve ::
  "(ConfChangeV2 \<Rightarrow> ConfChangeV2 \<Rightarrow> bool) \<Rightarrow> loop_event \<Rightarrow> node \<Rightarrow> (node \<times> loop_answer) option" where
  "serve proto_Equal (PropEv m) n = serve_prop m n"
| "serve proto_Equal (RecvEv m) n = serve_recv m n"
| "serve proto_Equal (ConfEv cc) n = serve_conf proto_Equal cc n"
| "serve proto_Equal TickEv n =
     do { rn \<leftarrow> rn_Tick (nd_rn n); Some (n\<lparr>nd_rn := rn, nd_tickc := nd_tickc n - 1\<rparr>, NoAnswer) }"
| "serve proto_Equal ReadyEv n = serve_ready n"
| "serve proto_Equal AdvanceEv n = serve_advance n"
| "serve proto_Equal StatusEv n = Some (n, StatusDone (getStatus (rn_raft (nd_rn n))))"
| "serve proto_Equal StopEv n = Some (n\<lparr>nd_done := True\<rparr>, NoAnswer)"

inductive loop_step ::
  "(ConfChangeV2 \<Rightarrow> ConfChangeV2 \<Rightarrow> bool) \<Rightarrow> node \<Rightarrow> loop_event \<Rightarrow> loop_answer \<Rightarrow> node \<Rightarrow> bool"
  for proto_Equal where
  Iterate: "\<lbrakk>\<not> nd_done n; arm n = Some n1; enabled ev n1; serve proto_Equal ev n1 = Some (n2, ans)\<rbrakk>
    \<Longrightarrow> loop_step proto_Equal n ev ans n2"

inductive_cases loop_stepE: "loop_step proto_Equal n ev ans n'"

text \<open>The same iteration as a function, to run the loop on a list of events.\<close>

definition iterate ::
  "(ConfChangeV2 \<Rightarrow> ConfChangeV2 \<Rightarrow> bool) \<Rightarrow> loop_event \<Rightarrow> node \<Rightarrow> (node \<times> loop_answer) option" where
  "iterate proto_Equal ev n =
     (if nd_done n then None
      else do { n \<leftarrow> arm n; if enabled ev n then serve proto_Equal ev n else None })"

lemma loop_step_iterate: "loop_step proto_Equal n ev ans n' \<longleftrightarrow> iterate proto_Equal ev n = Some (n', ans)"
  by (auto simp: iterate_def panic_simps intro: loop_step.intros elim!: loop_stepE split: if_splits)

text \<open>A tick from outside goes into the buffer if there is room; after the end of the loop nobody reads it.\<close>

definition node_Tick :: "node \<Rightarrow> node" where
  "node_Tick n = (if nd_tickc n < 128 then n\<lparr>nd_tickc := nd_tickc n + 1\<rparr> else n)"

text \<open>
  What the loop has done since it started, newest last. The writes of the user to its storage are no
  steps of the loop: they change none of its variables, and \<open>Cluster\<close> has them.
\<close>

inductive executes ::
  "(ConfChangeV2 \<Rightarrow> ConfChangeV2 \<Rightarrow> bool) \<Rightarrow> RawNode \<Rightarrow> (loop_event \<times> loop_answer) list \<Rightarrow> node \<Rightarrow> bool"
  for proto_Equal rn where
  Start: "executes proto_Equal rn [] (newNode rn)"
| Clock: "executes proto_Equal rn tr n \<Longrightarrow> executes proto_Equal rn tr (node_Tick n)"
| Loop: "executes proto_Equal rn tr n \<Longrightarrow> loop_step proto_Equal n ev ans n' \<Longrightarrow>
    executes proto_Equal rn (tr @ [(ev, ans)]) n'"

section \<open>The methods\<close>

text \<open>
  A method hands its message to the loop on one of two channels, or gives up when its context ends or
  the node is stopped; a method that waits for the result has a second such choice.
\<close>

datatype CallErr = CtxErr | ErrStopped | StepFailed RaftErr

datatype outcome = Sent | CtxEnded | NodeDone
datatype result = Answered "RaftErr option" | CtxEndedWaiting | NodeDoneWaiting

definition step_event :: "Message \<Rightarrow> loop_event" where
  "step_event m = (if m_Type m \<noteq> MsgProp then RecvEv m else PropEv m)"

definition stepWithWaitOption :: "Message \<Rightarrow> bool \<Rightarrow> outcome \<Rightarrow> result \<Rightarrow> CallErr option" where
  "stepWithWaitOption m wait out res =
     (case out of
        CtxEnded \<Rightarrow> Some CtxErr
      | NodeDone \<Rightarrow> Some ErrStopped
      | Sent \<Rightarrow>
          if m_Type m \<noteq> MsgProp \<or> \<not> wait then None
          else (case res of
                  Answered err \<Rightarrow> map_option StepFailed err
                | CtxEndedWaiting \<Rightarrow> Some CtxErr
                | NodeDoneWaiting \<Rightarrow> Some ErrStopped))"

definition node_Campaign :: loop_event where
  "node_Campaign = step_event (mk_Message MsgHup)"

definition node_Propose :: "gobytes \<Rightarrow> loop_event" where
  "node_Propose data = step_event ((mk_Message MsgProp)\<lparr>m_Entries := [zero_Entry\<lparr>e_Data := data\<rparr>]\<rparr>)"

text \<open>A local message from the network is dropped without an error.\<close>

definition node_Step :: "Message \<Rightarrow> loop_event option" where
  "node_Step m = (if IsLocalMsg (m_Type m) then None else Some (step_event m))"

definition node_ProposeConfChange :: "ConfChangeI \<Rightarrow> loop_event option" where
  "node_ProposeConfChange cc = do { m \<leftarrow> confChangeToMsg cc; node_Step m }"

definition node_ApplyConfChange :: "ConfChangeI \<Rightarrow> loop_event" where
  "node_ApplyConfChange cc = ConfEv (AsV2 cc)"

definition node_ReportUnreachable :: "u64 \<Rightarrow> loop_event" where
  "node_ReportUnreachable v = RecvEv ((mk_Message MsgUnreachable)\<lparr>m_From := v\<rparr>)"

definition node_ReportSnapshot :: "u64 \<Rightarrow> SnapshotStatus \<Rightarrow> loop_event" where
  "node_ReportSnapshot v status =
     RecvEv ((mk_Message MsgSnapStatus)\<lparr>m_From := v, m_Reject := (status = SnapshotFailure)\<rparr>)"

definition node_TransferLeadership :: "u64 \<Rightarrow> u64 \<Rightarrow> loop_event" where
  "node_TransferLeadership lead transferee =
     RecvEv ((mk_Message MsgTransferLeader)\<lparr>m_From := transferee, m_To := lead\<rparr>)"

definition node_ReadIndex :: "gobytes \<Rightarrow> loop_event" where
  "node_ReadIndex rctx = step_event ((mk_Message MsgReadIndex)\<lparr>m_Entries := [zero_Entry\<lparr>e_Data := rctx\<rparr>]\<rparr>)"

section \<open>The contract of Ready and Advance\<close>

text \<open>The \<^verbatim>\<open>Ready\<close> that was delivered and not yet acknowledged by \<^verbatim>\<open>Advance\<close>.\<close>

fun outstanding_from :: "Ready option \<Rightarrow> (loop_event \<times> loop_answer) list \<Rightarrow> Ready option" where
  "outstanding_from rd [] = rd"
| "outstanding_from rd ((AdvanceEv, _) # tr) = outstanding_from None tr"
| "outstanding_from rd ((_, ReadySent rd') # tr) = outstanding_from (Some rd') tr"
| "outstanding_from rd (_ # tr) = outstanding_from rd tr"

definition outstanding :: "(loop_event \<times> loop_answer) list \<Rightarrow> Ready option" where
  "outstanding = outstanding_from None"

lemma outstanding_append: "outstanding_from rd (tr @ tr') = outstanding_from (outstanding_from rd tr) tr'"
  by (induction rd tr rule: outstanding_from.induct) simp_all

lemma outstanding_Nil [simp]: "outstanding [] = None"
  by (simp add: outstanding_def)

lemma outstanding_snoc: "outstanding (tr @ [x]) = outstanding_from (outstanding tr) [x]"
  by (simp add: outstanding_def outstanding_append)

text \<open>What one iteration does to the variables of the loop.\<close>

lemma track_leader_fields [simp]:
  "nd_rn (track_leader n) = nd_rn n" "nd_advancec (track_leader n) = nd_advancec n" "nd_rd (track_leader n) = nd_rd n"
  "nd_readyc (track_leader n) = nd_readyc n" "nd_tickc (track_leader n) = nd_tickc n"
  "nd_lead (track_leader n) = r_lead (rn_raft (nd_rn n))"
  by (simp_all add: track_leader_def Let_def)

lemma track_leader_propc:
  "(nd_propc n \<Longrightarrow> nd_lead n \<noteq> None_id) \<Longrightarrow> nd_propc (track_leader n) \<Longrightarrow> nd_lead (track_leader n) \<noteq> None_id"
  by (simp add: track_leader_def hasLeader_def Let_def split: if_splits)

lemma arm_ready_cases:
  assumes "arm_ready n = Some n'"
  obtains (Wait) "nd_advancec n" "n' = n\<lparr>nd_readyc := False\<rparr>"
    | (Fresh) rd where "\<not> nd_advancec n" "rn_HasReady (nd_rn n) = Some True" "rn_readyWithoutAccept (nd_rn n) = Some rd"
        "n' = n\<lparr>nd_rd := rd, nd_readyc := True\<rparr>"
    | (Same) "\<not> nd_advancec n" "rn_HasReady (nd_rn n) = Some False" "n' = n"
  using assms unfolding arm_ready_def by (auto simp: panic_simps split: if_splits)

lemma arm_facts:
  assumes "arm n = Some n'"
  shows "nd_rn n' = nd_rn n" "nd_advancec n' = nd_advancec n" "nd_lead n' = r_lead (rn_raft (nd_rn n))"
    "nd_tickc n' = nd_tickc n" "nd_advancec n \<Longrightarrow> nd_rd n' = nd_rd n" "nd_advancec n \<Longrightarrow> \<not> nd_readyc n'"
    "(nd_propc n \<Longrightarrow> nd_lead n \<noteq> None_id) \<Longrightarrow> nd_propc n' \<Longrightarrow> nd_lead n' \<noteq> None_id"
    "\<not> nd_advancec n \<Longrightarrow> rn_HasReady (nd_rn n) = Some True \<Longrightarrow> rn_readyWithoutAccept (nd_rn n) = Some (nd_rd n')"
proof -
  obtain n1 where n1: "arm_ready n = Some n1" "n' = track_leader n1" using assms by (auto simp: arm_def)
  from n1(1) show "nd_rn n' = nd_rn n" "nd_advancec n' = nd_advancec n" "nd_lead n' = r_lead (rn_raft (nd_rn n))"
    "nd_tickc n' = nd_tickc n" "nd_advancec n \<Longrightarrow> nd_rd n' = nd_rd n" "nd_advancec n \<Longrightarrow> \<not> nd_readyc n'"
    "\<not> nd_advancec n \<Longrightarrow> rn_HasReady (nd_rn n) = Some True \<Longrightarrow> rn_readyWithoutAccept (nd_rn n) = Some (nd_rd n')"
    unfolding n1(2) by (cases rule: arm_ready_cases; simp)+
  assume p: "nd_propc n \<Longrightarrow> nd_lead n \<noteq> None_id"
  from n1(1) have "nd_propc n1 \<Longrightarrow> nd_lead n1 \<noteq> None_id" by (cases rule: arm_ready_cases) (use p in auto)
  then show "nd_propc n' \<Longrightarrow> nd_lead n' \<noteq> None_id" unfolding n1(2) by (rule track_leader_propc)
qed

text \<open>Most events only move the \<^verbatim>\<open>RawNode\<close>; what they answer is not a \<^verbatim>\<open>Ready\<close>.\<close>

lemma serve_shape:
  assumes "serve pe ev n = Some (n', ans)"
  obtains (Moves) rn b k where "ev \<notin> {ReadyEv, AdvanceEv}" "\<And>rd. ans \<noteq> ReadySent rd"
      "n' = n\<lparr>nd_rn := rn, nd_propc := nd_propc n \<and> b, nd_tickc := k, nd_done := nd_done n'\<rparr>" "k \<le> nd_tickc n"
    | (Ready) "ev = ReadyEv" "ans = ReadySent (nd_rd n)" "n' = n\<lparr>nd_rn := nd_rn n', nd_advancec := True\<rparr>"
    | (Advance) "ev = AdvanceEv" "ans = NoAnswer" "n' = n\<lparr>nd_rn := nd_rn n', nd_rd := zero_Ready, nd_advancec := False\<rparr>"
proof (cases ev)
  case (PropEv m)
  then show ?thesis using assms Moves [where b = True and k = "nd_tickc n"] by (auto simp: serve_prop_def Let_def panic_simps ret_simps)
next
  case (RecvEv m)
  then show ?thesis
    using assms Moves [where b = True and k = "nd_tickc n"] Moves [where rn = "nd_rn n" and b = True and k = "nd_tickc n"]
    by (auto simp: serve_recv_def Let_def panic_simps ret_simps split: if_splits)
next
  case (ConfEv cc)
  then obtain r cs where r: "applyConfChange pe cc (rn_raft (nd_rn n)) = Some (r, cs)"
    using assms by (cases "applyConfChange pe cc (rn_raft (nd_rn n))") (auto simp: serve_conf_def Let_def)
  define b where "b \<longleftrightarrow> \<not> (r_pr (r_id (rn_raft (nd_rn n))) (rn_raft (nd_rn n)) \<noteq> None \<and> r_pr (r_id r) r = None \<and>
    r_id r \<notin> set (cs_Voters cs @ cs_VotersOutgoing cs))"
  have "n' = n\<lparr>nd_rn := (nd_rn n)\<lparr>rn_raft := r\<rparr>, nd_propc := nd_propc n \<and> b\<rparr>" "ans = ConfDone cs"
    using assms ConfEv r by (auto simp: serve_conf_def Let_def b_def)
  then show ?thesis using ConfEv Moves [where rn = "(nd_rn n)\<lparr>rn_raft := r\<rparr>" and b = b and k = "nd_tickc n"] by simp
next
  case TickEv
  then show ?thesis using assms Moves [where b = True and k = "nd_tickc n - 1"] by (auto simp: panic_simps)
next
  case ReadyEv
  then show ?thesis using assms Ready by (auto simp: serve_ready_def)
next
  case AdvanceEv
  then show ?thesis using assms Advance by (auto simp: serve_advance_def panic_simps)
next
  case StatusEv
  then show ?thesis using assms Moves [where rn = "nd_rn n" and b = True and k = "nd_tickc n"] by auto
next
  case StopEv
  then show ?thesis using assms Moves [where rn = "nd_rn n" and b = True and k = "nd_tickc n"] by auto
qed

lemma outstanding_other: "ev \<notin> {ReadyEv, AdvanceEv} \<Longrightarrow> (\<And>x. ans \<noteq> ReadySent x) \<Longrightarrow> outstanding_from rd [(ev, ans)] = rd"
  by (cases ev; cases ans) auto

definition loop_inv :: "(loop_event \<times> loop_answer) list \<Rightarrow> node \<Rightarrow> bool" where
  "loop_inv tr n \<longleftrightarrow>
     nd_advancec n = (outstanding tr \<noteq> None) \<and> (\<forall>rd. outstanding tr = Some rd \<longrightarrow> nd_rd n = rd) \<and>
     (nd_propc n \<longrightarrow> nd_lead n \<noteq> None_id) \<and> nd_tickc n \<le> 128"

lemma serve_inv:
  assumes "serve pe ev n = Some (n', ans)" "loop_inv tr n"
  shows "loop_inv (tr @ [(ev, ans)]) n'"
  using assms(1)
proof (cases rule: serve_shape)
  case (Moves rn b k)
  then show ?thesis
    using assms(2) outstanding_other [OF Moves(1,2), of "outstanding tr"]
    by (cases n') (auto simp: loop_inv_def outstanding_snoc)
next
  case Ready
  then show ?thesis using assms(2) by (cases n') (auto simp: loop_inv_def outstanding_snoc)
next
  case Advance
  then show ?thesis using assms(2) by (cases n') (auto simp: loop_inv_def outstanding_snoc)
qed

lemma arm_inv: "arm n = Some n' \<Longrightarrow> loop_inv tr n \<Longrightarrow> loop_inv tr n'"
  using arm_facts [of n n'] unfolding loop_inv_def by auto

lemma executes_inv: "executes pe rn tr n \<Longrightarrow> loop_inv tr n"
proof (induction rule: executes.induct)
  case (Loop tr n ev ans n')
  then show ?case by (auto elim!: loop_stepE intro: serve_inv arm_inv)
qed (simp_all add: loop_inv_def newNode_def node_Tick_def)

section \<open>Properties\<close>

text \<open>
  (C8) The loop keeps the contract of \<^verbatim>\<open>Ready\<close> with its user and with the \<^verbatim>\<open>RawNode\<close>: a \<^verbatim>\<open>Ready\<close> is delivered
  only when the one before was acknowledged, \<^verbatim>\<open>Advance\<close> is passed on exactly with the \<^verbatim>\<open>Ready\<close> delivered
  last, and if there is something to report the delivered \<^verbatim>\<open>Ready\<close> is the current one.
\<close>

theorem ready_advance_contract:
  assumes "executes pe rn tr n" "loop_step pe n ev ans n'"
  shows "(ev = ReadyEv \<longrightarrow> outstanding tr = None \<and>
       (rn_HasReady (nd_rn n) = Some True \<longrightarrow> (\<exists>rd. ans = ReadySent rd \<and> rn_Ready (nd_rn n) = Some (nd_rn n', rd)))) \<and>
     (ev = AdvanceEv \<longrightarrow> (\<exists>rd. outstanding tr = Some rd \<and> rn_Advance rd (nd_rn n) = Some (nd_rn n')))"
proof -
  have inv: "loop_inv tr n" by (rule executes_inv [OF assms(1)])
  from assms(2) obtain n1 where n1: "arm n = Some n1" "enabled ev n1" "serve pe ev n1 = Some (n', ans)"
    by (auto elim: loop_stepE)
  note a = arm_facts [OF n1(1)]
  show ?thesis
  proof (intro conjI impI)
    assume ev: "ev = ReadyEv"
    have na: "\<not> nd_advancec n" using n1(2) a(6) ev by auto
    then show "outstanding tr = None" using inv by (simp add: loop_inv_def)
    assume "rn_HasReady (nd_rn n) = Some True"
    then have "rn_readyWithoutAccept (nd_rn n) = Some (nd_rd n1)" using a(8) na by blast
    then show "\<exists>rd. ans = ReadySent rd \<and> rn_Ready (nd_rn n) = Some (nd_rn n', rd)"
      using n1(3) ev a(1) by (auto simp: serve_ready_def rn_Ready_def)
  next
    assume ev: "ev = AdvanceEv"
    then have "nd_advancec n" using n1(2) a(2) by simp
    then obtain rd where "outstanding tr = Some rd" "nd_rd n1 = rd" using inv a(5) by (auto simp: loop_inv_def)
    then show "\<exists>rd. outstanding tr = Some rd \<and> rn_Advance rd (nd_rn n) = Some (nd_rn n')"
      using n1(3) ev a(1) by (auto simp: serve_advance_def panic_simps)
  qed
qed

text \<open>A campaign of the first member of the run, its \<^verbatim>\<open>Ready\<close> and the acknowledgement.\<close>

fun iterate_all :: "loop_event list \<Rightarrow> node \<Rightarrow> (node \<times> (loop_event \<times> loop_answer) list) option" where
  "iterate_all [] n = Some (n, [])"
| "iterate_all (ev # evs) n =
     do {
       (n, ans) \<leftarrow> iterate (\<lambda>_ _. False) ev n;
       (n, tr) \<leftarrow> iterate_all evs n;
       Some (n, (ev, ans) # tr)
     }"

lemma iterate_all_executes:
  "executes (\<lambda>_ _. False) rn tr0 n \<Longrightarrow> iterate_all evs n = Some (n', tr) \<Longrightarrow> executes (\<lambda>_ _. False) rn (tr0 @ tr) n'"
proof (induction evs arbitrary: n tr0 tr)
  case (Cons ev evs)
  then obtain n1 ans tr1 where i: "iterate (\<lambda>_ _. False) ev n = Some (n1, ans)" "iterate_all evs n1 = Some (n', tr1)"
      "tr = (ev, ans) # tr1" by (auto simp: panic_simps ret_simps)
  have "executes (\<lambda>_ _. False) rn (tr0 @ [(ev, ans)]) n1"
    using Cons.prems(1) i(1) by (auto intro: executes.Loop simp: loop_step_iterate)
  from Cons.IH [OF this i(2)] show ?case using i(3) by simp
qed simp

definition run_loop :: "loop_event list \<Rightarrow> (node \<times> (loop_event \<times> loop_answer) list) option" where
  "run_loop evs = run_start 1 \<bind> (\<lambda>rn. iterate_all evs (newNode rn))"

lemma run_loop_executes:
  "run_loop evs = Some (n, tr) \<Longrightarrow> \<exists>rn. run_start 1 = Some rn \<and> executes (\<lambda>_ _. False) rn tr n"
  using iterate_all_executes [OF executes.Start] by (auto simp: run_loop_def panic_simps)

lemma run_loop_ready:
  "map_option (\<lambda>(n, tr). length tr) (run_loop [node_Campaign, ReadyEv]) = Some 2"
  "map_option (\<lambda>(n, tr). iterate (\<lambda>_ _. False) AdvanceEv n \<noteq> None) (run_loop [node_Campaign, ReadyEv]) = Some True"
  by code_simp+

theorem ready_advance_contract_witness:
  "\<exists>rn tr n ans n' rd. executes (\<lambda>_ _. False) rn tr n \<and> loop_step (\<lambda>_ _. False) n AdvanceEv ans n' \<and>
     outstanding tr = Some rd \<and> rn_Advance rd (nd_rn n) = Some (nd_rn n')"
proof -
  obtain n tr where r: "run_loop [node_Campaign, ReadyEv] = Some (n, tr)" "iterate (\<lambda>_ _. False) AdvanceEv n \<noteq> None"
    using run_loop_ready by auto
  then obtain n' ans where s: "loop_step (\<lambda>_ _. False) n AdvanceEv ans n'" by (auto simp: loop_step_iterate)
  obtain rn where e: "executes (\<lambda>_ _. False) rn tr n" using run_loop_executes [OF r(1)] by blast
  from ready_advance_contract [OF e s] e s show ?thesis by blast
qed

text \<open>
  A proposal is taken from its channel only while the node knows a leader; until then the caller
  blocks. The buffer never holds more than 128 ticks.
\<close>

theorem proposals_wait_for_leader:
  assumes "executes pe rn tr n" "loop_step pe n (PropEv m) ans n'"
  shows "hasLeader (rn_raft (nd_rn n)) \<and> nd_tickc n \<le> 128"
proof -
  have inv: "loop_inv tr n" by (rule executes_inv [OF assms(1)])
  from assms(2) obtain n1 where "arm n = Some n1" "nd_propc n1" by (auto elim: loop_stepE)
  then show ?thesis using arm_facts(3,7) inv by (auto simp: loop_inv_def hasLeader_def)
qed

text \<open>A vote for the first member, and a proposal to the leader it became.\<close>

definition run_events :: "loop_event list" where
  "run_events = [node_Campaign, RecvEv ((mk_Message MsgVoteResp)\<lparr>m_From := 2, m_To := 1, m_Term := 1\<rparr>)]"

lemma run_loop_propose:
  "map_option (\<lambda>(n, tr). iterate (\<lambda>_ _. False) (node_Propose (Some [7])) n \<noteq> None) (run_loop run_events) = Some True"
  by code_simp

theorem proposals_wait_for_leader_witness:
  "\<exists>rn tr n m ans n'. executes (\<lambda>_ _. False) rn tr n \<and> loop_step (\<lambda>_ _. False) n (PropEv m) ans n' \<and>
     hasLeader (rn_raft (nd_rn n))"
proof -
  obtain n tr where r: "run_loop run_events = Some (n, tr)" "iterate (\<lambda>_ _. False) (node_Propose (Some [7])) n \<noteq> None"
    using run_loop_propose by auto
  define m where "m = (mk_Message MsgProp)\<lparr>m_Entries := [zero_Entry\<lparr>e_Data := Some [7]\<rparr>]\<rparr>"
  have "node_Propose (Some [7]) = PropEv m" by (simp add: node_Propose_def step_event_def m_def)
  then obtain n' ans where s: "loop_step (\<lambda>_ _. False) n (PropEv m) ans n'" using r(2) by (auto simp: loop_step_iterate)
  obtain rn where e: "executes (\<lambda>_ _. False) rn tr n" using run_loop_executes [OF r(1)] by blast
  from proposals_wait_for_leader [OF e s] e s show ?thesis by blast
qed

end
