(* ===== verification/Conf_Strings.thy ===== *)
theory Conf_Strings
  imports Raft_Pb
begin

text \<open>
  The string form of configuration changes (\<^verbatim>\<open>raftpb/confchange.go\<close>), used to drive and describe changes
  by hand, with what it needs of Go's \<^verbatim>\<open>strings\<close>, \<^verbatim>\<open>strconv\<close> and \<^verbatim>\<open>fmt\<close>: trimming, splitting, and the
  decimal form of unsigned integers. Strings are lists of ASCII characters.
\<close>

section \<open>Trimming and splitting\<close>

definition asciiSpace :: "char \<Rightarrow> bool" where
  "asciiSpace c \<longleftrightarrow> of_char c \<in> {9, 10, 11, 12, 13, 32 :: nat}"

definition TrimSpace :: "string \<Rightarrow> string" where
  "TrimSpace s = rev (dropWhile asciiSpace (rev (dropWhile asciiSpace s)))"

text \<open>\<^verbatim>\<open>strings.Split\<close> at every occurrence of a character: always at least one part.\<close>

fun Split :: "char \<Rightarrow> string \<Rightarrow> string list" where
  "Split sep [] = [[]]"
| "Split sep (c # s) =
     (if c = sep then [] # Split sep s else (c # hd (Split sep s)) # tl (Split sep s))"

section \<open>Decimal numbers\<close>

datatype NumErr = ErrSyntax | ErrRange

text \<open>
  \<^verbatim>\<open>strconv.ParseUint\<close> for base 10 and 64 bits. A letter is a digit of some base and then too large for
  this one, so every character but the ten digits is a syntax error.
\<close>

definition digit_value :: "char \<Rightarrow> u64 option" where
  "digit_value c = (if 48 \<le> (of_char c :: nat) \<and> (of_char c :: nat) \<le> 57 then Some (of_nat (of_char c - 48)) else None)"

fun ParseUint_loop :: "u64 \<Rightarrow> string \<Rightarrow> NumErr + u64" where
  "ParseUint_loop n [] = Inr n"
| "ParseUint_loop n (c # s) =
     (case digit_value c of
        None \<Rightarrow> Inl ErrSyntax
      | Some d \<Rightarrow>
          if n \<ge> MaxUint64 div 10 + 1 then Inl ErrRange
          else
            let n = n * 10; n1 = n + d in
            if n1 < n then Inl ErrRange else ParseUint_loop n1 s)"

definition ParseUint :: "string \<Rightarrow> NumErr + u64" where
  "ParseUint s = (if s = [] then Inl ErrSyntax else ParseUint_loop 0 s)"

text \<open>The verb \<^verbatim>\<open>%d\<close> of \<^verbatim>\<open>fmt\<close>, the digits from the last to the first.\<close>

definition digit_char :: "nat \<Rightarrow> char" where
  "digit_char d = char_of (48 + d)"

fun fmt_digits :: "nat \<Rightarrow> string" where
  "fmt_digits u = (if u \<ge> 10 then fmt_digits (u div 10) @ [digit_char (u - u div 10 * 10)] else [digit_char u])"

declare fmt_digits.simps [simp del]

definition fmt_uint :: "u64 \<Rightarrow> string" where
  "fmt_uint u = fmt_digits (unat u)"

section \<open>Configuration changes as strings\<close>

datatype ConfStringErr = UnknownToken string | UnknownInput string | BadNumber NumErr

fun parse_token :: "string \<Rightarrow> ConfStringErr + ConfChangeSingle" where
  "parse_token tok =
     (if length tok < 2 then Inl (UnknownToken tok)
      else
        (let c = hd tok;
             typ = (if c = CHR ''v'' then Some ConfChangeAddNode
                    else if c = CHR ''l'' then Some ConfChangeAddLearnerNode
                    else if c = CHR ''r'' then Some ConfChangeRemoveNode
                    else if c = CHR ''u'' then Some ConfChangeUpdateNode
                    else None)
         in (case typ of
               None \<Rightarrow> Inl (UnknownInput tok)
             | Some typ \<Rightarrow>
                 (case ParseUint (tl tok) of
                    Inl err \<Rightarrow> Inl (BadNumber err)
                  | Inr v \<Rightarrow> Inr \<lparr>ccs_Type = typ, ccs_NodeID = v\<rparr>))))"

fun parse_tokens :: "string list \<Rightarrow> ConfStringErr + ConfChangeSingle list" where
  "parse_tokens [] = Inr []"
| "parse_tokens (tok # toks) =
     (case parse_token tok of
        Inl err \<Rightarrow> Inl err
      | Inr cc \<Rightarrow> (case parse_tokens toks of Inl err \<Rightarrow> Inl err | Inr ccs \<Rightarrow> Inr (cc # ccs)))"

definition ConfChangesFromString :: "string \<Rightarrow> ConfStringErr + ConfChangeSingle list" where
  "ConfChangesFromString s =
     (let toks = Split CHR '' '' (TrimSpace s);
          toks = (if hd toks = [] then [] else toks)
      in parse_tokens toks)"

fun type_letter :: "ConfChangeType \<Rightarrow> string" where
  "type_letter ConfChangeAddNode = ''v''"
| "type_letter ConfChangeAddLearnerNode = ''l''"
| "type_letter ConfChangeRemoveNode = ''r''"
| "type_letter ConfChangeUpdateNode = ''u''"
| "type_letter (ConfChangeTypeOther w) = ''unknown''"

definition change_string :: "ConfChangeSingle \<Rightarrow> string" where
  "change_string cc = type_letter (ccs_Type cc) @ fmt_uint (ccs_NodeID cc)"

fun ConfChangesToString :: "ConfChangeSingle list \<Rightarrow> string" where
  "ConfChangesToString [] = []"
| "ConfChangesToString [cc] = change_string cc"
| "ConfChangesToString (cc # ccs) = change_string cc @ CHR '' '' # ConfChangesToString ccs"

section \<open>Reading back a printed number\<close>

lemma digit_char_value [simp]: "d < 10 \<Longrightarrow> digit_value (digit_char d) = Some (of_nat d)"
  by (simp add: digit_value_def digit_char_def)

lemma digit_char_not_space [simp]: "d < 10 \<Longrightarrow> \<not> asciiSpace (digit_char d)"
  by (auto simp: asciiSpace_def digit_char_def)

lemma fmt_digits_chars: "c \<in> set (fmt_digits n) \<Longrightarrow> \<not> asciiSpace c"
proof (induction n rule: fmt_digits.induct)
  case (1 n)
  then show ?case
    by (cases "10 \<le> n") (auto simp: fmt_digits.simps [of n] minus_div_mult_eq_mod)
qed

lemma fmt_digits_nonempty [simp]: "fmt_digits n \<noteq> []"
  by (simp add: fmt_digits.simps [of n])

lemma ParseUint_loop_append:
  "ParseUint_loop n (s @ t) = (case ParseUint_loop n s of Inl err \<Rightarrow> Inl err | Inr m \<Rightarrow> ParseUint_loop m t)"
  by (induction n s rule: ParseUint_loop.induct) (auto simp: Let_def split: option.split)

lemma cutoff: "(MaxUint64 div 10 + 1 :: u64) = 1844674407370955162"
  by code_simp

text \<open>One digit more does not overflow as long as the number fits.\<close>

lemma digit_step:
  assumes "10 * k + d < 2 ^ 64" "d < 10"
  shows "ParseUint_loop (of_nat k) [digit_char d] = Inr (of_nat (10 * k + d))"
proof -
  have k: "k \<le> 1844674407370955161" using assms by simp
  have u: "unat (of_nat k :: u64) = k" using k by (simp add: unsigned_of_nat take_bit_nat_eq_self)
  have "(of_nat k :: u64) * 10 = of_nat (k * 10)" "(of_nat k :: u64) * 10 + of_nat d = of_nat (10 * k + d)"
    by (simp_all add: algebra_simps)
  moreover have "unat (of_nat (k * 10) :: u64) = k * 10" "unat (of_nat (10 * k + d) :: u64) = 10 * k + d"
    using assms by (simp_all add: unsigned_of_nat take_bit_nat_eq_self del: of_nat_add of_nat_mult)
  moreover have "\<not> (of_nat k :: u64) \<ge> MaxUint64 div 10 + 1"
    unfolding cutoff using k u by (simp add: word_le_nat_alt)
  ultimately show ?thesis
    using assms(2) by (simp add: Let_def word_less_nat_alt del: of_nat_add of_nat_mult)
qed

lemma ParseUint_fmt_digits: "n < 2 ^ 64 \<Longrightarrow> ParseUint_loop 0 (fmt_digits n) = Inr (of_nat n)"
proof (induction n rule: fmt_digits.induct)
  case (1 n)
  show ?case
  proof (cases "10 \<le> n")
    case True
    have "ParseUint_loop 0 (fmt_digits (n div 10)) = Inr (of_nat (n div 10))" using 1 True by simp
    moreover have "ParseUint_loop (of_nat (n div 10)) [digit_char (n mod 10)] = Inr (of_nat (10 * (n div 10) + n mod 10))"
      using 1(2) by (intro digit_step) simp_all
    ultimately show ?thesis
      using True by (simp add: fmt_digits.simps [of n] ParseUint_loop_append minus_div_mult_eq_mod del: ParseUint_loop.simps)
  next
    case False
    then show ?thesis using digit_step [of 0 n] by (simp add: fmt_digits.simps [of n] del: ParseUint_loop.simps)
  qed
qed

lemma ParseUint_fmt_uint [simp]: "ParseUint (fmt_uint v) = Inr v"
  using ParseUint_fmt_digits [of "unat v"] unsigned_less [of v] by (simp add: ParseUint_def fmt_uint_def)

section \<open>Reading back printed changes\<close>

lemma Split_plain: "sep \<notin> set s \<Longrightarrow> Split sep s = [s]"
  by (induction s) auto

lemma Split_append: "sep \<notin> set s \<Longrightarrow> Split sep (s @ sep # t) = s # Split sep t"
  by (induction s) auto

lemma TrimSpace_id:
  assumes "s \<noteq> [] \<Longrightarrow> \<not> asciiSpace (hd s) \<and> \<not> asciiSpace (last s)"
  shows "TrimSpace s = s"
proof (cases "s = []")
  case False
  have "dropWhile asciiSpace s = s" using assms False by (cases s) simp_all
  moreover have "dropWhile asciiSpace (rev s) = rev s"
    using assms False by (cases "rev s") (auto simp: last_rev hd_rev)
  ultimately show ?thesis by (simp add: TrimSpace_def)
qed (simp add: TrimSpace_def)

fun known_type :: "ConfChangeType \<Rightarrow> bool" where
  "known_type (ConfChangeTypeOther w) = False"
| "known_type t = True"

lemma type_letter_chars: "c \<in> set (type_letter t) \<Longrightarrow> \<not> asciiSpace c"
  by (cases t) (auto simp: asciiSpace_def)

lemma change_string_chars: "c \<in> set (change_string cc) \<Longrightarrow> \<not> asciiSpace c"
  by (auto simp: change_string_def fmt_uint_def dest: type_letter_chars fmt_digits_chars)

lemma change_string_nonempty [simp]: "change_string cc \<noteq> []"
  by (simp add: change_string_def fmt_uint_def)

lemma change_string_ends: "\<not> asciiSpace (hd (change_string cc))" "\<not> asciiSpace (last (change_string cc))"
  by (simp_all add: change_string_chars [where cc = cc])

lemma space_char: "asciiSpace CHR '' ''"
  by (simp add: asciiSpace_def)

lemma ConfChangesToString_ends:
  "ccs \<noteq> [] \<Longrightarrow> ConfChangesToString ccs \<noteq> [] \<and>
     \<not> asciiSpace (hd (ConfChangesToString ccs)) \<and> \<not> asciiSpace (last (ConfChangesToString ccs))"
  by (induction ccs rule: ConfChangesToString.induct)
     (auto simp: hd_append change_string_ends split: list.split)

lemma Split_ConfChangesToString:
  "ccs \<noteq> [] \<Longrightarrow> Split CHR '' '' (ConfChangesToString ccs) = map change_string ccs"
proof (induction ccs rule: ConfChangesToString.induct)
  case (2 cc)
  then show ?case using change_string_chars space_char by (auto intro!: Split_plain)
next
  case (3 cc cc' ccs)
  have "CHR '' '' \<notin> set (change_string cc)" using change_string_chars space_char by blast
  then show ?case using 3 by (simp add: Split_append)
qed simp

lemma parse_change_string: "known_type (ccs_Type cc) \<Longrightarrow> parse_token (change_string cc) = Inr cc"
proof -
  have "fmt_uint (ccs_NodeID cc) \<noteq> []" by (simp add: fmt_uint_def)
  then show "known_type (ccs_Type cc) \<Longrightarrow> ?thesis"
    by (cases cc; cases "ccs_Type cc") (auto simp: change_string_def Let_def Suc_le_eq)
qed

lemma parse_tokens_known: "parse_tokens toks = Inr ccs \<Longrightarrow> cc \<in> set ccs \<Longrightarrow> known_type (ccs_Type cc)"
proof (induction toks arbitrary: ccs)
  case (Cons tok toks)
  have "known_type (ccs_Type cc)" if "parse_token tok = Inr cc"
    using that by (auto simp: Let_def split: if_splits sum.splits)
  then show ?case using Cons by (auto split: sum.splits)
qed simp

lemma parse_tokens_map:
  "(\<And>cc. cc \<in> set ccs \<Longrightarrow> known_type (ccs_Type cc)) \<Longrightarrow> parse_tokens (map change_string ccs) = Inr ccs"
  by (induction ccs) (simp_all add: parse_change_string del: parse_token.simps)

text \<open>
  (C37) Printing a list of changes and reading it back gives the list exactly if every change has one of
  the four types: a change of any other type prints as \<^verbatim>\<open>unknown\<close>, which reads as an update with a bad
  number, although the comment calls the two functions inverse.
\<close>

theorem conf_strings_inverse_iff:
  "ConfChangesFromString (ConfChangesToString ccs) = Inr ccs \<longleftrightarrow> (\<forall>cc\<in>set ccs. known_type (ccs_Type cc))"
proof (cases "ccs = []")
  case False
  have "TrimSpace (ConfChangesToString ccs) = ConfChangesToString ccs"
    using ConfChangesToString_ends [OF False] by (intro TrimSpace_id) blast
  then have "ConfChangesFromString (ConfChangesToString ccs) = parse_tokens (map change_string ccs)"
    using Split_ConfChangesToString [OF False] False by (simp add: ConfChangesFromString_def hd_map)
  then show ?thesis using parse_tokens_map parse_tokens_known by auto
qed (simp add: ConfChangesFromString_def TrimSpace_def)

theorem conf_strings_inverse_iff_witness:
  "ConfChangesFromString (ConfChangesToString
       [\<lparr>ccs_Type = ConfChangeAddNode, ccs_NodeID = 12\<rparr>, \<lparr>ccs_Type = ConfChangeRemoveNode, ccs_NodeID = 0\<rparr>]) =
     Inr [\<lparr>ccs_Type = ConfChangeAddNode, ccs_NodeID = 12\<rparr>, \<lparr>ccs_Type = ConfChangeRemoveNode, ccs_NodeID = 0\<rparr>] \<and>
   ConfChangesFromString (ConfChangesToString [\<lparr>ccs_Type = ConfChangeTypeOther 9, ccs_NodeID = 12\<rparr>]) \<noteq>
     Inr [\<lparr>ccs_Type = ConfChangeTypeOther 9, ccs_NodeID = 12\<rparr>]"
  by (simp add: conf_strings_inverse_iff del: ConfChangesToString.simps)

end
