(* ===== verification/Mvcc_Revision.thy ===== *)
theory Mvcc_Revision
  imports Raft_Prelude "HOL-Library.List_Lexorder"
begin

unbundle bit_operations_syntax

text \<open>
  \<^verbatim>\<open>server/storage/mvcc/revision.go\<close>: the revisions of the key-value store and their form as keys of the
  backend, with the tombstone mark of \<^verbatim>\<open>kvstore.go\<close>. An \<^verbatim>\<open>int64\<close> is an integer; it becomes a word where the
  code converts it. Byte strings are ordered as \<^verbatim>\<open>bytes.Compare\<close> orders them, by the library's
  lexicographic order on lists.
\<close>

section \<open>Revisions\<close>

datatype revision = Revision (main: int) (sub: int)

text \<open>The zero value \<^verbatim>\<open>revision{}\<close>.\<close>

definition zero_revision :: revision where
  "zero_revision = Revision 0 0"

definition GreaterThan :: "revision \<Rightarrow> revision \<Rightarrow> bool" where
  "GreaterThan a b =
     (if main a > main b then True
      else if main a < main b then False
      else sub a > sub b)"

instantiation revision :: linorder
begin

definition less_revision :: "revision \<Rightarrow> revision \<Rightarrow> bool" where
  "a < b \<longleftrightarrow> main a < main b \<or> main a = main b \<and> sub a < sub b"

definition less_eq_revision :: "revision \<Rightarrow> revision \<Rightarrow> bool" where
  "a \<le> b \<longleftrightarrow> main a < main b \<or> main a = main b \<and> sub a \<le> sub b"

instance
  by standard (auto simp: less_revision_def less_eq_revision_def revision.expand)

end

lemma GreaterThan_iff [simp]: "GreaterThan a b \<longleftrightarrow> b < a"
  by (auto simp: GreaterThan_def less_revision_def)

lemma main_mono: "a \<le> b \<Longrightarrow> main a \<le> main b"
  by (auto simp: less_eq_revision_def)

lemma less_Revision_sub0: "r < Revision m 0 \<longleftrightarrow> main r < m \<or> main r = m \<and> sub r < 0"
  by (simp add: less_revision_def)

section \<open>Revisions as bytes\<close>

text \<open>\<^verbatim>\<open>binary.BigEndian\<close>, reading and writing at an offset; both panic on a slice that is too short.\<close>

definition be_bytes :: "u64 \<Rightarrow> bytes" where
  "be_bytes v = map (\<lambda>i. ucast (drop_bit (8 * (7 - i)) v)) [0..<8]"

definition PutUint64 :: "bytes \<Rightarrow> nat \<Rightarrow> u64 \<Rightarrow> bytes option" where
  "PutUint64 b off v = (if off + 8 \<le> length b then Some (take off b @ be_bytes v @ drop (off + 8) b) else None)"

definition Uint64 :: "bytes \<Rightarrow> u64 option" where
  "Uint64 b = (if 8 \<le> length b then Some (foldl (\<lambda>v c. push_bit 8 v OR ucast c) 0 (take 8 b)) else None)"

definition revBytesLen :: nat where
  "revBytesLen = 8 + 1 + 8"

definition newRevBytes :: bytes where
  "newRevBytes = replicate revBytesLen 0"

definition revToBytes :: "revision \<Rightarrow> bytes \<Rightarrow> bytes option" where
  "revToBytes r b =
     do {
       b \<leftarrow> PutUint64 b 0 (word_of_int (main r));
       b \<leftarrow> go_update b 8 0x5F;
       PutUint64 b 9 (word_of_int (sub r))
     }"

definition bytesToRev :: "bytes \<Rightarrow> revision option" where
  "bytesToRev b =
     do {
       hi \<leftarrow> go_slice b 0 8;
       m \<leftarrow> Uint64 hi;
       lo \<leftarrow> go_slice b 9 (length b);
       s \<leftarrow> Uint64 lo;
       Some (Revision (sint m) (sint s))
     }"

definition markedRevBytesLen :: nat where
  "markedRevBytesLen = revBytesLen + 1"

definition appendMarkTombstone :: "bytes \<Rightarrow> bytes option" where
  "appendMarkTombstone b = (if length b \<noteq> revBytesLen then None else Some (b @ [0x74]))"

definition isTombstone :: "bytes \<Rightarrow> bool" where
  "isTombstone b \<longleftrightarrow> length b = markedRevBytesLen \<and> b ! (markedRevBytesLen - 1) = 0x74"

section \<open>Big-endian numbers\<close>

definition be_val :: "bytes \<Rightarrow> nat" where
  "be_val b = foldl (\<lambda>v c. v * 256 + unat c) 0 b"

lemma be_val_Nil [simp]: "be_val [] = 0"
  by (simp add: be_val_def)

lemma be_val_snoc [simp]: "be_val (b @ [c]) = be_val b * 256 + unat c"
  by (simp add: be_val_def)

lemma be_val_Cons: "be_val (c # b) = unat c * 256 ^ length b + be_val b"
  by (induction b rule: rev_induct) (simp_all flip: append_Cons add: be_val_def algebra_simps)

lemma unat_byte: "unat (c :: byte) < 256"
  using unsigned_less [of c, where ?'a = nat] by simp

lemma be_val_less: "be_val b < 256 ^ length b"
proof (induction b rule: rev_induct)
  case (snoc c b)
  then have "be_val b + 1 \<le> 256 ^ length b" by simp
  then have "(be_val b + 1) * 256 \<le> 256 ^ length b * 256" by (rule mult_le_mono1)
  then show ?case using unat_byte [of c] by simp
qed simp

text \<open>Strings of the same length compare as the numbers they stand for.\<close>

lemma less_iff_be_val: "length b = length c \<Longrightarrow> b < c \<longleftrightarrow> be_val b < be_val c"
proof (induction b c rule: list_induct2)
  case (Cons x b y c)
  have "unat x * 256 ^ length b + be_val b < unat y * 256 ^ length b + be_val c" if "unat x < unat y"
  proof -
    have "(unat x + 1) * 256 ^ length b \<le> unat y * 256 ^ length b" using that by (intro mult_le_mono1) simp
    then show ?thesis using be_val_less [of b] by simp
  qed
  moreover have "unat y * 256 ^ length b + be_val c < unat x * 256 ^ length b + be_val b" if "unat y < unat x"
  proof -
    have "(unat y + 1) * 256 ^ length b \<le> unat x * 256 ^ length b" using that by (intro mult_le_mono1) simp
    then show ?thesis using be_val_less [of c] Cons(1) by simp
  qed
  ultimately show ?case
    using Cons by (cases x y rule: linorder_cases) (auto simp: be_val_Cons word_less_nat_alt)
qed simp

lemma be_val_digits:
  "be_val (map (\<lambda>i. ucast (drop_bit (8 * (k - Suc i)) v)) [0..<k]) = unat (v :: u64) mod 256 ^ k"
proof (induction k arbitrary: v)
  case (Suc k)
  have m: "map (\<lambda>i. ucast (drop_bit (8 * (Suc k - Suc i)) v) :: byte) [0..<k] =
      map (\<lambda>i. ucast (drop_bit (8 * (k - Suc i)) (drop_bit 8 v))) [0..<k]"
  proof (rule map_cong [OF refl])
    fix i assume "i \<in> set [0..<k]"
    then have "8 * (Suc k - Suc i) = 8 * (k - Suc i) + 8" by auto
    then show "ucast (drop_bit (8 * (Suc k - Suc i)) v) = (ucast (drop_bit (8 * (k - Suc i)) (drop_bit 8 v)) :: byte)"
      by (simp add: drop_bit_drop_bit)
  qed
  have "be_val (map (\<lambda>i. ucast (drop_bit (8 * (Suc k - Suc i)) v) :: byte) [0..<Suc k]) =
      be_val (map (\<lambda>i. ucast (drop_bit (8 * (Suc k - Suc i)) v)) [0..<k] @ [ucast v :: byte])" by simp
  also have "\<dots> = (unat (drop_bit 8 v) mod 256 ^ k) * 256 + unat (ucast v :: byte)"
    unfolding m be_val_snoc Suc ..
  also have "unat (ucast v :: byte) = unat v mod 256" by (simp add: unsigned_ucast_eq take_bit_eq_mod)
  also have "unat (drop_bit 8 v) = unat v div 256" by (simp only: unsigned_drop_bit_eq) (simp add: drop_bit_eq_div take_bit_nat_eq_self unat_lt_u64 [simplified])
  also have "unat v div 256 mod 256 ^ k * 256 + unat v mod 256 = unat v mod 256 ^ Suc k"
    by (simp add: mod_mult2_eq mult.commute)
  finally show ?case .
qed simp

lemma be_bytes_length [simp]: "length (be_bytes v) = 8"
  by (simp add: be_bytes_def)

lemma be_val_be_bytes [simp]: "be_val (be_bytes v) = unat v"
  using be_val_digits [of 8 v] unat_lt_u64 [of v] by (simp add: be_bytes_def)

lemma be_bytes_less_iff: "be_bytes v < be_bytes w \<longleftrightarrow> v < w"
  by (simp add: less_iff_be_val word_less_nat_alt)

lemma be_bytes_eq_iff: "be_bytes v = be_bytes w \<longleftrightarrow> v = w"
  by (metis be_val_be_bytes word_unat_eq_iff)

lemma push_or_byte: "push_bit 8 v OR ucast (c :: byte) = (v :: u64) * 256 + of_nat (unat c)"
proof -
  have "push_bit 8 v + ucast c = push_bit 8 v OR ucast c"
    by (rule disjunctive_add) (auto simp: bit_simps dest: bit_imp_le_length)
  then show ?thesis by (simp add: push_bit_eq_mult)
qed

lemma foldl_push_or: "foldl (\<lambda>v c. push_bit 8 v OR ucast c) 0 b = (of_nat (be_val b) :: u64)"
  by (induction b rule: rev_induct) (simp_all add: push_or_byte)

lemma Uint64_be_bytes [simp]: "Uint64 (be_bytes v) = Some v"
  by (simp add: Uint64_def foldl_push_or)

section \<open>Keys of the backend\<close>

text \<open>The key under which a change is stored, marked if it is a deletion.\<close>

definition rev_key :: "revision \<Rightarrow> bool \<Rightarrow> bytes" where
  "rev_key r t = be_bytes (word_of_int (main r)) @ 0x5F # be_bytes (word_of_int (sub r)) @ (if t then [0x74] else [])"

lemma revToBytes_new: "length b = revBytesLen \<Longrightarrow> revToBytes r b = Some (rev_key r False)"
  by (simp add: revToBytes_def PutUint64_def revBytesLen_def rev_key_def list_update_append nth_append
      flip: Cons_nth_drop_Suc)

lemma appendMarkTombstone_key: "appendMarkTombstone (rev_key r False) = Some (rev_key r True)"
  by (simp add: appendMarkTombstone_def rev_key_def revBytesLen_def)

lemma isTombstone_key [simp]: "isTombstone (rev_key r t) = t"
  by (simp add: isTombstone_def rev_key_def markedRevBytesLen_def revBytesLen_def nth_append)

text \<open>The range of an \<^verbatim>\<open>int64\<close>, and the revisions that a store hands out.\<close>

definition int64_ok :: "int \<Rightarrow> bool" where
  "int64_ok i \<longleftrightarrow> - (2 ^ 63) \<le> i \<and> i < 2 ^ 63"

definition rev_ok :: "revision \<Rightarrow> bool" where
  "rev_ok r \<longleftrightarrow> 0 \<le> main r \<and> main r < 2 ^ 63 \<and> 0 \<le> sub r \<and> sub r < 2 ^ 63"

lemma sint_word_of_int64: "int64_ok i \<Longrightarrow> sint (word_of_int i :: u64) = i"
  by (simp add: int64_ok_def sint_sbintrunc' signed_take_bit_int_eq_self)

lemma word_of_int_less: "0 \<le> i \<Longrightarrow> i < 2 ^ 63 \<Longrightarrow> 0 \<le> j \<Longrightarrow> j < 2 ^ 63 \<Longrightarrow>
    (word_of_int i :: u64) < word_of_int j \<longleftrightarrow> i < j"
  by (simp add: word_less_def uint_word_of_int take_bit_int_eq_self)

lemma word_of_int_eq: "0 \<le> i \<Longrightarrow> i < 2 ^ 63 \<Longrightarrow> 0 \<le> j \<Longrightarrow> j < 2 ^ 63 \<Longrightarrow>
    (word_of_int i :: u64) = word_of_int j \<longleftrightarrow> i = j"
  by (simp add: word_eq_iff_unsigned [where ?'a = int] uint_word_of_int take_bit_int_eq_self)

lemma append_less_iff: "length b = length c \<Longrightarrow> b @ x < c @ y \<longleftrightarrow> b < c \<or> b = c \<and> x < (y :: bytes)"
  by (induction b c rule: list_induct2) auto

lemma bytesToRev_key:
  "int64_ok (main r) \<Longrightarrow> int64_ok (sub r) \<Longrightarrow> bytesToRev (rev_key r t) = Some r"
  by (simp add: bytesToRev_def rev_key_def Uint64_def foldl_push_or sint_word_of_int64)

text \<open>The key as the code builds it.\<close>

definition stored_key :: "revision \<Rightarrow> bool \<Rightarrow> bytes option" where
  "stored_key r t = do { b \<leftarrow> revToBytes r newRevBytes; if t then appendMarkTombstone b else Some b }"

lemma stored_key_eq [simp]: "stored_key r t = Some (rev_key r t)"
  by (simp add: stored_key_def newRevBytes_def revToBytes_new appendMarkTombstone_key)

lemma rev_ok_int64: "rev_ok r \<Longrightarrow> int64_ok (main r) \<and> int64_ok (sub r)"
  by (simp add: rev_ok_def int64_ok_def)

lemma rev_key_less_iff:
  assumes "rev_ok r" "rev_ok r'" "r \<noteq> r'"
  shows "rev_key r t < rev_key r' t' \<longleftrightarrow> r < r'"
  using assms
  by (cases r; cases r')
     (auto simp: rev_ok_def rev_key_def append_less_iff be_bytes_less_iff be_bytes_eq_iff
        word_of_int_less word_of_int_eq less_revision_def)

text \<open>
  (C29) A revision survives its form as a key of the backend, with and without the mark of a deletion, and
  the keys are ordered as the revisions: the order in which the backend lists them is the order of
  the changes.
\<close>

theorem revision_keys_ordered:
  assumes "rev_ok r" "rev_ok r'"
  shows "\<exists>k k'. stored_key r t = Some k \<and> stored_key r' t' = Some k' \<and> bytesToRev k = Some r \<and> isTombstone k = t \<and>
    (r \<noteq> r' \<longrightarrow> (k < k' \<longleftrightarrow> r < r'))"
  using assms by (simp add: bytesToRev_key rev_ok_int64 rev_key_less_iff)

theorem revision_keys_ordered_witness:
  "\<exists>k k'. stored_key (Revision 3 1) True = Some k \<and> stored_key (Revision 3 2) False = Some k' \<and>
     bytesToRev k = Some (Revision 3 1) \<and> isTombstone k \<and> k < k'"
  using revision_keys_ordered [of "Revision 3 1" "Revision 3 2" True False] by (simp add: rev_ok_def less_revision_def)

end
