(* ===== verification/Key_Index.thy ===== *)
theory Key_Index
  imports Mvcc_Revision
begin

text \<open>
  \<^verbatim>\<open>server/storage/mvcc/key_index.go\<close>: the revisions of one key. They are grouped into generations; a
  generation starts with the creation of the key and ends with its deletion, so that every
  generation but the last ends in a tombstone. A panic of the logger or of the runtime is \<open>None\<close>; the
  counter of a generation is an unbounded integer. The metric \<^verbatim>\<open>keysGauge\<close> is left out.

  The second half specifies the operations on the history of the key, the list of its changes: a key
  index represents a history, a lookup finds the last change not after the given revision, and a
  compaction forgets what no later lookup can find.
\<close>

section \<open>Generations\<close>

record generation =
  g_ver :: int
  g_created :: revision
  g_revs :: "revision list"

definition zero_generation :: generation where
  "zero_generation = \<lparr>g_ver = 0, g_created = zero_revision, g_revs = []\<rparr>"

definition g_isEmpty :: "generation \<Rightarrow> bool" where
  "g_isEmpty g \<longleftrightarrow> length (g_revs g) = 0"

text \<open>
  \<^verbatim>\<open>walk\<close> visits the revisions from the last to the first until the callback answers false. The callback
  may change state, which is passed along.
\<close>

fun walk_from :: "(revision \<Rightarrow> 's \<Rightarrow> bool \<times> 's) \<Rightarrow> revision list \<Rightarrow> nat \<Rightarrow> 's \<Rightarrow> int \<times> 's" where
  "walk_from f revs 0 s = (- 1, s)"
| "walk_from f revs (Suc n) s =
     (let (ok, s) = f (revs ! n) s in if \<not> ok then (int n, s) else walk_from f revs n s)"

definition walk :: "(revision \<Rightarrow> 's \<Rightarrow> bool \<times> 's) \<Rightarrow> generation \<Rightarrow> 's \<Rightarrow> int \<times> 's" where
  "walk f g s = walk_from f (g_revs g) (length (g_revs g)) s"

definition generation_equal :: "generation \<Rightarrow> generation \<Rightarrow> bool" where
  "generation_equal a b \<longleftrightarrow> g_ver a = g_ver b \<and> length (g_revs a) = length (g_revs b) \<and>
     list_all2 (=) (g_revs a) (g_revs b)"

section \<open>The index of a key\<close>

record keyIndex =
  ki_key :: bytes
  ki_modified :: revision
  ki_generations :: "generation list"

definition new_keyIndex :: "bytes \<Rightarrow> keyIndex" where
  "new_keyIndex key = \<lparr>ki_key = key, ki_modified = zero_revision, ki_generations = []\<rparr>"

datatype IndexErr = ErrRevisionNotFound

definition ki_isEmpty :: "keyIndex \<Rightarrow> bool" where
  "ki_isEmpty ki \<longleftrightarrow> length (ki_generations ki) = 1 \<and> g_isEmpty (hd (ki_generations ki))"

definition ki_put :: "int \<Rightarrow> int \<Rightarrow> keyIndex \<Rightarrow> keyIndex option" where
  "ki_put mn sb ki =
     (let r = Revision mn sb; gs = ki_generations ki in
      if \<not> GreaterThan r (ki_modified ki) then None
      else
        let gs = (if length gs = 0 then gs @ [zero_generation] else gs);
            g = gs ! (length gs - 1);
            g = (if length (g_revs g) = 0 then g\<lparr>g_created := r\<rparr> else g);
            g = g\<lparr>g_revs := g_revs g @ [r], g_ver := g_ver g + 1\<rparr>
        in Some (ki\<lparr>ki_generations := gs[length gs - 1 := g], ki_modified := r\<rparr>))"

definition ki_restore :: "revision \<Rightarrow> revision \<Rightarrow> int \<Rightarrow> keyIndex \<Rightarrow> keyIndex option" where
  "ki_restore created modified ver ki =
     (if length (ki_generations ki) \<noteq> 0 then None
      else Some (ki\<lparr>ki_modified := modified,
        ki_generations := ki_generations ki @ [\<lparr>g_ver = ver, g_created = created, g_revs = [modified]\<rparr>]\<rparr>))"

definition ki_tombstone :: "int \<Rightarrow> int \<Rightarrow> keyIndex \<Rightarrow> (IndexErr + keyIndex) option" where
  "ki_tombstone mn sb ki =
     (if ki_isEmpty ki then None
      else if length (ki_generations ki) = 0 then None
      else if g_isEmpty (last (ki_generations ki)) then Some (Inl ErrRevisionNotFound)
      else do {
        ki \<leftarrow> ki_put mn sb ki;
        Some (Inr (ki\<lparr>ki_generations := ki_generations ki @ [zero_generation]\<rparr>))
      })"

text \<open>The loop counts down; the argument is one more than \<^verbatim>\<open>cg\<close>.\<close>

fun findGeneration_loop :: "int \<Rightarrow> generation list \<Rightarrow> nat \<Rightarrow> generation option" where
  "findGeneration_loop at gs 0 = None"
| "findGeneration_loop at gs (Suc cg) =
     (let g = gs ! cg in
      if length (g_revs g) = 0 then findGeneration_loop at gs cg
      else if cg \<noteq> length gs - 1 \<and> main (last (g_revs g)) \<le> at then None
      else if main (hd (g_revs g)) \<le> at then Some g
      else findGeneration_loop at gs cg)"

definition findGeneration :: "int \<Rightarrow> keyIndex \<Rightarrow> generation option" where
  "findGeneration at ki = findGeneration_loop at (ki_generations ki) (length (ki_generations ki))"

text \<open>The result of a lookup: the revision of the last modification, that of the creation, the version.\<close>

type_synonym key_version = "revision \<times> revision \<times> int"

definition ki_get :: "int \<Rightarrow> keyIndex \<Rightarrow> (IndexErr + key_version) option" where
  "ki_get at ki =
     (if ki_isEmpty ki then None
      else
        case findGeneration at ki of
          None \<Rightarrow> Some (Inl ErrRevisionNotFound)
        | Some g \<Rightarrow>
            if g_isEmpty g then Some (Inl ErrRevisionNotFound)
            else
              let n = fst (walk (\<lambda>r s. (main r > at, s)) g ()) in
              if n \<noteq> - 1
              then do {
                r \<leftarrow> go_index (g_revs g) (nat n);
                Some (Inr (r, g_created g, g_ver g - (int (length (g_revs g)) - n - 1)))
              }
              else Some (Inl ErrRevisionNotFound))"

text \<open>
  \<^verbatim>\<open>since\<close> lists the changes from a revision on, one per main revision: the last of those that share it.
\<close>

fun since_start :: "revision \<Rightarrow> generation list \<Rightarrow> nat \<Rightarrow> nat" where
  "since_start snc gs 0 = 0"
| "since_start snc gs (Suc gi) =
     (let g = gs ! Suc gi in
      if g_isEmpty g then since_start snc gs gi
      else if GreaterThan snc (g_created g) then Suc gi
      else since_start snc gs gi)"

fun since_collect :: "revision \<Rightarrow> revision list \<Rightarrow> revision list \<Rightarrow> int \<Rightarrow> revision list option" where
  "since_collect snc [] revs lst = Some revs"
| "since_collect snc (r # rs) revs lst =
     (if GreaterThan snc r then since_collect snc rs revs lst
      else if main r = lst
      then (if revs = [] then None else since_collect snc rs (revs[length revs - 1 := r]) lst)
      else since_collect snc rs (revs @ [r]) (main r))"

definition ki_since :: "int \<Rightarrow> keyIndex \<Rightarrow> revision list option" where
  "ki_since rv ki =
     (let snc = Revision rv 0; gs = ki_generations ki in
      if ki_isEmpty ki then None
      else if length gs = 0 then None
      else since_collect snc (concat (map g_revs (drop (since_start snc gs (length gs - 1)) gs))) [] 0)"

section \<open>Compaction\<close>

text \<open>
  The set \<^verbatim>\<open>available\<close> collects the revisions to keep. \<^verbatim>\<open>doCompact\<close> finds the first generation that is not
  deleted at the given revision, and in it the last revision not after it.
\<close>

function doCompact_loop :: "int \<Rightarrow> generation list \<Rightarrow> nat \<Rightarrow> nat option" where
  "doCompact_loop at gs genIdx =
     (if genIdx < length gs - 1
      then if length (g_revs (gs ! genIdx)) = 0 then None
           else if main (last (g_revs (gs ! genIdx))) > at then Some genIdx
           else doCompact_loop at gs (genIdx + 1)
      else Some genIdx)"
  by pat_completeness auto
termination by (relation "measure (\<lambda>(_, gs, i). length gs - i)") auto

declare doCompact_loop.simps [simp del]

definition doCompact ::
  "int \<Rightarrow> revision set \<Rightarrow> keyIndex \<Rightarrow> (nat \<times> int \<times> revision set) option" where
  "doCompact at available ki =
     (let f = (\<lambda>r av. if main r \<le> at then (False, insert r av) else (True, av)) in
      if length (ki_generations ki) = 0 then None
      else do {
        genIdx \<leftarrow> doCompact_loop at (ki_generations ki) 0;
        let (revIndex, available) = walk f (ki_generations ki ! genIdx) available
        in Some (genIdx, revIndex, available)
      })"

definition ki_compact :: "int \<Rightarrow> revision set \<Rightarrow> keyIndex \<Rightarrow> (keyIndex \<times> revision set) option" where
  "ki_compact at available ki =
     (if ki_isEmpty ki then None
      else do {
        (genIdx, revIndex, available) \<leftarrow> doCompact at available ki;
        let gs = ki_generations ki;
            g = gs ! genIdx;
            g' = (if revIndex \<noteq> - 1 then g\<lparr>g_revs := drop (nat revIndex) (g_revs g)\<rparr> else g);
            (gs, genIdx, available) =
              (if \<not> g_isEmpty g
               then if length (g_revs g') = 1 \<and> genIdx \<noteq> length gs - 1
                    then (gs[genIdx := g'], genIdx + 1, available - {hd (g_revs g')})
                    else (gs[genIdx := g'], genIdx, available)
               else (gs, genIdx, available))
        in Some (ki\<lparr>ki_generations := drop genIdx gs\<rparr>, available)
      })"

definition ki_keep :: "int \<Rightarrow> revision set \<Rightarrow> keyIndex \<Rightarrow> revision set option" where
  "ki_keep at available ki =
     (if ki_isEmpty ki then Some available
      else do {
        (genIdx, revIndex, available) \<leftarrow> doCompact at available ki;
        let g = ki_generations ki ! genIdx
        in if \<not> g_isEmpty g
           then if revIndex = int (length (g_revs g)) - 1 \<and> genIdx \<noteq> length (ki_generations ki) - 1
                then do { r \<leftarrow> go_index (g_revs g) (nat revIndex); Some (available - {r}) }
                else Some available
           else Some available
      })"

definition ki_Less :: "keyIndex \<Rightarrow> keyIndex \<Rightarrow> bool" where
  "ki_Less a b \<longleftrightarrow> ki_key a < ki_key b"

definition ki_equal :: "keyIndex \<Rightarrow> keyIndex \<Rightarrow> bool" where
  "ki_equal a b \<longleftrightarrow> ki_key a = ki_key b \<and> ki_modified a = ki_modified b \<and>
     length (ki_generations a) = length (ki_generations b) \<and>
     list_all2 generation_equal (ki_generations a) (ki_generations b)"

section \<open>The history of a key\<close>

text \<open>
  A change of the key: its revision, whether it deletes, and, for the lookup, the revision that created
  the generation and the number of the version in it.
\<close>

datatype kv_event = Event (ev_rev: revision) (ev_tomb: bool) (ev_created: revision) (ev_ver: int)

definition gen_event :: "bool \<Rightarrow> generation \<Rightarrow> nat \<Rightarrow> kv_event" where
  "gen_event closed g i = Event (g_revs g ! i) (closed \<and> i = length (g_revs g) - 1) (g_created g)
     (g_ver g - (int (length (g_revs g)) - int i - 1))"

definition gen_events :: "bool \<Rightarrow> generation \<Rightarrow> kv_event list" where
  "gen_events closed g = map (gen_event closed g) [0..<length (g_revs g)]"

definition events_of :: "generation list \<Rightarrow> kv_event list" where
  "events_of gs = concat (map (gen_events True) (butlast gs)) @ (if gs = [] then [] else gen_events False (last gs))"

definition events :: "keyIndex \<Rightarrow> kv_event list" where
  "events ki = events_of (ki_generations ki)"

text \<open>What the operations do to a history.\<close>

abbreviation upto_rev :: "int \<Rightarrow> kv_event list \<Rightarrow> kv_event list" where
  "upto_rev at evs \<equiv> filter (\<lambda>e. main (ev_rev e) \<le> at) evs"

definition hist_get :: "int \<Rightarrow> kv_event list \<Rightarrow> kv_event option" where
  "hist_get at evs =
     (if upto_rev at evs = [] \<or> ev_tomb (last (upto_rev at evs)) then None else Some (last (upto_rev at evs)))"

definition hist_next :: "revision \<Rightarrow> bool \<Rightarrow> kv_event list \<Rightarrow> kv_event" where
  "hist_next r t evs =
     (if evs \<noteq> [] \<and> \<not> ev_tomb (last evs) then Event r t (ev_created (last evs)) (ev_ver (last evs) + 1)
      else Event r t r 1)"

definition hist_compact :: "int \<Rightarrow> kv_event list \<Rightarrow> kv_event list" where
  "hist_compact at evs =
     (case hist_get at evs of None \<Rightarrow> [] | Some e \<Rightarrow> [e]) @ filter (\<lambda>e. main (ev_rev e) > at) evs"

text \<open>The well-formedness of an index: what holds of every index in the tree.\<close>

definition ki_revs :: "keyIndex \<Rightarrow> revision list" where
  "ki_revs ki = concat (map g_revs (ki_generations ki))"

definition ki_inv :: "keyIndex \<Rightarrow> bool" where
  "ki_inv ki \<longleftrightarrow>
     (\<forall>g \<in> set (butlast (ki_generations ki)). 2 \<le> length (g_revs g)) \<and>
     (\<forall>g \<in> set (ki_generations ki). g_revs g = [] \<longrightarrow> g_ver g = 0) \<and>
     (\<forall>g \<in> set (tl (ki_generations ki)). g_revs g \<noteq> [] \<longrightarrow> g_created g = hd (g_revs g)) \<and>
     sorted_wrt (<) (ki_revs ki) \<and> (\<forall>r \<in> set (ki_revs ki). 0 < main r \<and> r \<le> ki_modified ki)"

section \<open>Histories\<close>

abbreviation ev_sorted :: "kv_event list \<Rightarrow> bool" where
  "ev_sorted evs \<equiv> sorted_wrt (\<lambda>e e'. main (ev_rev e) \<le> main (ev_rev e')) evs"

lemma upto_rev_split:
  assumes "ev_sorted evs" "at \<le> rv"
  shows "upto_rev rv evs = upto_rev at evs @ upto_rev rv (filter (\<lambda>e. main (ev_rev e) > at) evs)"
  using assms(1)
proof (induction evs)
  case (Cons e evs)
  have "upto_rev at evs = []" if "at < main (ev_rev e)"
    using Cons.prems that by (auto simp: filter_empty_conv)
  then show ?case using Cons assms(2) by auto
qed simp

lemma hist_get_compact:
  assumes "ev_sorted evs" "at \<le> rv"
  shows "hist_get rv (hist_compact at evs) = hist_get rv evs"
proof -
  have "upto_rev rv (hist_compact at evs) =
      (case hist_get at evs of None \<Rightarrow> [] | Some e \<Rightarrow> [e]) @ upto_rev rv (filter (\<lambda>e. main (ev_rev e) > at) evs)"
  proof -
    have "main (ev_rev e) \<le> rv" if "hist_get at evs = Some e" for e
      using that assms(2) last_in_set [of "upto_rev at evs"] by (auto simp: hist_get_def split: if_splits)
    then show ?thesis by (auto simp: hist_compact_def split: option.split)
  qed
  then show ?thesis
    using upto_rev_split [OF assms] by (auto simp: hist_get_def split: option.splits if_splits)
qed

lemma hist_get_Nil [simp]: "hist_get at [] = None"
  by (simp add: hist_get_def)

lemma hist_get_append:
  "hist_get at (evs @ evs') = (if upto_rev at evs' = [] then hist_get at evs else hist_get at evs')"
  by (auto simp: hist_get_def)

text \<open>\<^verbatim>\<open>walk\<close> stops at the last position whose revision fails the test.\<close>

lemma walk_from_last:
  assumes "walk_from (\<lambda>r s. if P r then (False, f r s) else (True, s)) xs k s = (n, s')"
  shows "n = (if filter (\<lambda>i. P (xs ! i)) [0..<k] = [] then - 1 else int (last (filter (\<lambda>i. P (xs ! i)) [0..<k])))"
    "s' = (if n = - 1 then s else f (xs ! nat n) s)"
  using assms by (induction k) (auto split: if_splits)

lemma filter_gen_events:
  "upto_rev at (gen_events c g) = map (gen_event c g) (filter (\<lambda>i. main (g_revs g ! i) \<le> at) [0..<length (g_revs g)])"
  by (simp add: gen_events_def filter_map gen_event_def o_def)

lemma gen_event_sel [simp]:
  "ev_rev (gen_event c g i) = g_revs g ! i" "ev_tomb (gen_event c g i) \<longleftrightarrow> c \<and> i = length (g_revs g) - 1"
  "ev_created (gen_event c g i) = g_created g" "ev_ver (gen_event c g i) = g_ver g - (int (length (g_revs g)) - int i - 1)"
  by (simp_all add: gen_event_def)

lemma gen_events_revs: "map ev_rev (gen_events c g) = g_revs g"
  by (simp add: gen_events_def o_def map_nth)

section \<open>Lookup\<close>

abbreviation last_upto :: "int \<Rightarrow> revision list \<Rightarrow> nat" where
  "last_upto at xs \<equiv> last (filter (\<lambda>i. main (xs ! i) \<le> at) [0..<length xs])"

lemma sorted_hd_last:
  assumes "sorted_wrt (<) (xs :: 'a :: linorder list)" "x \<in> set xs"
  shows "hd xs \<le> x" "x \<le> last xs"
proof -
  show "hd xs \<le> x" using assms by (cases xs) auto
  show "x \<le> last xs" using assms by (cases xs rule: rev_cases) (auto simp: sorted_wrt_append)
qed

lemma last_upto_in:
  assumes "xs \<noteq> []" "main (hd xs) \<le> at"
  shows "filter (\<lambda>i. main (xs ! i) \<le> at) [0..<length xs] \<noteq> []" "last_upto at xs < length xs"
    "main (xs ! last_upto at xs) \<le> at"
proof -
  have "0 \<in> set (filter (\<lambda>i. main (xs ! i) \<le> at) [0..<length xs])" using assms by (simp add: hd_conv_nth)
  then show *: "filter (\<lambda>i. main (xs ! i) \<le> at) [0..<length xs] \<noteq> []" by (metis empty_iff empty_set)
  show "last_upto at xs < length xs" "main (xs ! last_upto at xs) \<le> at" using last_in_set [OF *] by auto
qed

text \<open>One generation on top of older ones: closed before the revision, open at it, or created after it.\<close>

lemma hist_get_closed:
  assumes "sorted_wrt (<) (g_revs g)" "g_revs g \<noteq> []" "main (last (g_revs g)) \<le> at"
  shows "hist_get at (evs @ gen_events True g) = None"
proof -
  have "main (g_revs g ! i) \<le> at" if "i < length (g_revs g)" for i
    using assms sorted_hd_last(2) [OF assms(1), of "g_revs g ! i"] main_mono that by (metis nth_mem order_trans)
  then have "upto_rev at (gen_events True g) = map (gen_event True g) [0..<length (g_revs g)]"
    unfolding filter_gen_events by (metis (no_types, lifting) atLeastLessThan_iff filter_True set_upt)
  then show ?thesis using assms(2) unfolding hist_get_append by (simp add: hist_get_def last_map)
qed

lemma hist_get_open:
  assumes "g_revs g \<noteq> []" "main (hd (g_revs g)) \<le> at" "\<not> (c \<and> main (last (g_revs g)) \<le> at)"
  shows "hist_get at (evs @ gen_events c g) = Some (gen_event c g (last_upto at (g_revs g)))"
proof -
  note l = last_upto_in [OF assms(1,2)]
  have "\<not> (c \<and> last_upto at (g_revs g) = length (g_revs g) - 1)"
    using assms(1,3) l(3) by (auto simp: last_conv_nth)
  then show ?thesis
    using l(1) unfolding hist_get_append by (simp add: hist_get_def filter_gen_events last_map)
qed

lemma hist_get_later:
  assumes "sorted_wrt (<) (g_revs g)" "\<not> main (hd (g_revs g)) \<le> at"
  shows "hist_get at (evs @ gen_events c g) = hist_get at evs"
proof -
  have "\<not> main (g_revs g ! i) \<le> at" if "i < length (g_revs g)" for i
    using assms sorted_hd_last(1) [OF assms(1), of "g_revs g ! i"] main_mono that by (metis nth_mem order_trans)
  then have "upto_rev at (gen_events c g) = []" by (simp add: filter_gen_events filter_empty_conv)
  then show ?thesis unfolding hist_get_append by simp
qed

abbreviation version_of :: "kv_event \<Rightarrow> key_version" where
  "version_of e \<equiv> (ev_rev e, ev_created e, ev_ver e)"

definition gen_found :: "int \<Rightarrow> generation option \<Rightarrow> kv_event option \<Rightarrow> bool" where
  "gen_found at go eo \<longleftrightarrow>
     (case go of
        None \<Rightarrow> eo = None
      | Some g \<Rightarrow> g_revs g \<noteq> [] \<and> main (hd (g_revs g)) \<le> at \<and>
          (\<exists>c. eo = Some (gen_event c g (last_upto at (g_revs g)))))"

lemma findGeneration_step:
  assumes "gen_found at (findGeneration_loop at gs n) (hist_get at evs)" "sorted_wrt (<) (g_revs (gs ! n))"
    "c \<longleftrightarrow> n \<noteq> length gs - 1"
  shows "gen_found at (findGeneration_loop at gs (Suc n)) (hist_get at (evs @ gen_events c (gs ! n)))"
proof (cases "g_revs (gs ! n) = []")
  case True
  then show ?thesis using assms(1) by (simp add: gen_events_def)
next
  case False
  then consider "c \<and> main (last (g_revs (gs ! n))) \<le> at" | "\<not> (c \<and> main (last (g_revs (gs ! n))) \<le> at)"
      "main (hd (g_revs (gs ! n))) \<le> at" | "\<not> (c \<and> main (last (g_revs (gs ! n))) \<le> at)" "\<not> main (hd (g_revs (gs ! n))) \<le> at"
    by blast
  then show ?thesis
  proof cases
    case 1
    then show ?thesis using hist_get_closed [OF assms(2) False] assms(3) False by (simp add: gen_found_def)
  next
    case 2
    then show ?thesis using hist_get_open [OF False 2(2,1)] assms(3) False by (auto simp: gen_found_def)
  next
    case 3
    then show ?thesis using hist_get_later [OF assms(2) 3(2)] assms(1,3) False by (auto simp: Let_def)
  qed
qed

lemma findGeneration_closed:
  assumes "\<And>g. g \<in> set gs \<Longrightarrow> sorted_wrt (<) (g_revs g)"
  shows "n < length gs \<Longrightarrow> gen_found at (findGeneration_loop at gs n) (hist_get at (concat (map (gen_events True) (take n gs))))"
proof (induction n)
  case (Suc n)
  then show ?case
    using findGeneration_step [where c = True and n = n and gs = gs] assms by (simp add: take_Suc_conv_app_nth)
qed (simp add: gen_found_def hist_get_def)

lemma findGeneration_events:
  assumes "\<And>g. g \<in> set (ki_generations ki) \<Longrightarrow> sorted_wrt (<) (g_revs g)"
  shows "gen_found at (findGeneration at ki) (hist_get at (events ki))"
proof (cases "ki_generations ki" rule: rev_cases)
  case (snoc gs g)
  have "gen_found at (findGeneration_loop at (gs @ [g]) (length gs)) (hist_get at (concat (map (gen_events True) gs)))"
    using findGeneration_closed [of "gs @ [g]" "length gs"] assms snoc by simp
  from findGeneration_step [OF this, of False] show ?thesis
    using assms [of g] snoc
    by (simp add: findGeneration_def events_def events_of_def del: findGeneration_loop.simps)
qed (simp add: findGeneration_def events_def events_of_def gen_found_def hist_get_def)

lemma ki_inv_sorted: "ki_inv ki \<Longrightarrow> g \<in> set (ki_generations ki) \<Longrightarrow> sorted_wrt (<) (g_revs g)"
  by (auto simp: ki_inv_def ki_revs_def sorted_wrt_append dest!: split_list)

lemma ki_get_events:
  assumes "ki_inv ki" "\<not> ki_isEmpty ki"
  shows "ki_get at ki = Some (case hist_get at (events ki) of None \<Rightarrow> Inl ErrRevisionNotFound | Some e \<Rightarrow> Inr (version_of e))"
proof -
  have "gen_found at (findGeneration at ki) (hist_get at (events ki))"
    by (rule findGeneration_events) (rule ki_inv_sorted [OF assms(1)])
  moreover have "ki_get at ki = Some (Inr (version_of (gen_event c g (last_upto at (g_revs g)))))"
    if g: "findGeneration at ki = Some g" "g_revs g \<noteq> []" "main (hd (g_revs g)) \<le> at" for g c
  proof -
    note l = last_upto_in [OF g(2,3)]
    have "(\<lambda>r s :: unit. (main r > at, s)) = (\<lambda>r s. if main r \<le> at then (False, s) else (True, s))"
      by (auto simp: fun_eq_iff)
    then have "fst (walk (\<lambda>r s. (main r > at, s)) g ()) = int (last_upto at (g_revs g))"
      using walk_from_last(1) [where P = "\<lambda>r. main r \<le> at" and f = "\<lambda>_ s. s" and xs = "g_revs g" and s = "()"] l(1)
      by (metis (no_types, lifting) surjective_pairing walk_def)
    then show ?thesis using assms(2) g l(2) by (simp add: ki_get_def g_isEmpty_def)
  qed
  ultimately show ?thesis
    using assms(2) by (cases "findGeneration at ki") (auto simp: gen_found_def ki_get_def)
qed

section \<open>Changes\<close>

text \<open>The generation that a change extends.\<close>

abbreviation grow :: "revision \<Rightarrow> generation \<Rightarrow> generation" where
  "grow r g \<equiv> g\<lparr>g_created := (if g_revs g = [] then r else g_created g), g_revs := g_revs g @ [r], g_ver := g_ver g + 1\<rparr>"

lemma gen_events_empty: "g_revs g = [] \<Longrightarrow> gen_events c g = []"
  by (simp add: gen_events_def)

lemma last_gen_events: "g_revs g \<noteq> [] \<Longrightarrow> last (gen_events c g) = gen_event c g (length (g_revs g) - 1)"
  by (simp add: gen_events_def last_map)

lemma gen_events_nonempty: "g_revs g \<noteq> [] \<Longrightarrow> gen_events c g \<noteq> []"
  by (simp add: gen_events_def)

lemma events_snoc: "ki_generations ki = gs @ [g] \<Longrightarrow> events ki = concat (map (gen_events True) gs) @ gen_events False g"
  by (simp add: events_def events_of_def)

text \<open>Behind closed generations the key is deleted.\<close>

lemma last_closed:
  assumes "\<forall>g \<in> set gs. 2 \<le> length (g_revs g)"
  shows "gs = [] \<or> ev_tomb (last (concat (map (gen_events True) gs)))"
proof (cases gs rule: rev_cases)
  case (snoc hs h)
  then have "g_revs h \<noteq> []" using assms by auto
  then show ?thesis using snoc by (simp add: gen_events_nonempty last_gen_events)
qed simp

lemma grow_event:
  assumes "\<forall>h \<in> set gs. 2 \<le> length (g_revs h)" "g_revs g = [] \<Longrightarrow> g_ver g = 0"
  defines "evs \<equiv> concat (map (gen_events True) gs) @ gen_events False g"
  shows "concat (map (gen_events True) gs) @ gen_events c (grow r g) = evs @ [hist_next r c evs]"
proof (cases "g_revs g = []")
  case True
  then have "evs = concat (map (gen_events True) gs)" by (simp add: evs_def gen_events_empty)
  then have "hist_next r c evs = Event r c r 1" using last_closed [OF assms(1)] by (auto simp: hist_next_def)
  then show ?thesis using True assms(2) by (simp add: gen_events_def gen_event_def evs_def)
next
  case False
  then have "last evs = gen_event False g (length (g_revs g) - 1)" "evs \<noteq> []"
    by (simp_all add: evs_def gen_events_nonempty last_gen_events)
  then have "hist_next r c evs = Event r c (g_created g) (g_ver g + 1)"
    using False by (simp add: hist_next_def of_nat_diff Suc_le_eq)
  then show ?thesis using False by (auto simp: gen_events_def gen_event_def nth_append evs_def)
qed

lemma ki_put_unfold:
  assumes "ki_generations ki = gs @ [g] \<or> ki_generations ki = [] \<and> gs = [] \<and> g = zero_generation"
    "ki_modified ki < Revision mn sb"
  shows "ki_put mn sb ki = Some (ki\<lparr>ki_generations := gs @ [grow (Revision mn sb) g], ki_modified := Revision mn sb\<rparr>)"
  using assms by (auto simp: ki_put_def Let_def nth_append list_update_append)

lemma ki_cases:
  obtains gs g where "ki_generations ki = gs @ [g]" | "ki_generations ki = []"
  by (cases "ki_generations ki" rule: rev_cases) auto

text \<open>Extending an index by a change of a later revision; \<open>tail\<close> is the generation opened by a deletion.\<close>

lemma ki_inv_grow:
  assumes "ki_inv ki" "ki_generations ki = gs @ [g] \<or> ki_generations ki = [] \<and> gs = [] \<and> g = zero_generation"
    "ki_modified ki < r" "0 < main r" "tail = [] \<or> tail = [zero_generation] \<and> g_revs g \<noteq> []"
  shows "ki_inv (ki\<lparr>ki_generations := gs @ grow r g # tail, ki_modified := r\<rparr>)"
proof -
  have k: "ki_revs ki = concat (map g_revs gs) @ g_revs g"
    using assms(2) by (auto simp: ki_revs_def zero_generation_def)
  have p: "\<forall>x \<in> set (ki_revs ki). 0 < main x \<and> x < r" using assms(1,3) by (auto simp: ki_inv_def)
  then have s: "sorted_wrt (<) (ki_revs ki @ [r])" using assms(1) by (simp add: ki_inv_def sorted_wrt_append)
  have c: "\<forall>h \<in> set (tl (gs @ [grow r g])). g_revs h \<noteq> [] \<longrightarrow> g_created h = hd (g_revs h)"
    using assms(1,2) by (cases gs) (auto simp: ki_inv_def)
  show ?thesis
  proof -
    have "set (tl (gs @ grow r g # tail)) \<subseteq> set (tl (gs @ [grow r g])) \<union> set tail" by (cases gs) auto
    moreover have "\<forall>h \<in> set tail. g_revs h = [] \<and> g_ver h = 0" using assms(5) by (auto simp: zero_generation_def)
    moreover have "ki_revs (ki\<lparr>ki_generations := gs @ grow r g # tail, ki_modified := r\<rparr>) = ki_revs ki @ [r]"
      using assms(5) k by (auto simp: ki_revs_def zero_generation_def)
    moreover have "\<forall>h \<in> set (butlast (gs @ grow r g # tail)). 2 \<le> length (g_revs h)"
      using assms(1,2,5) by (auto simp: ki_inv_def butlast_append Suc_le_eq)
    moreover have "\<forall>h \<in> set gs. g_revs h = [] \<longrightarrow> g_ver h = 0" using assms(1,2) by (auto simp: ki_inv_def)
    ultimately show ?thesis
      using s p c assms(4) unfolding ki_inv_def by (auto simp: less_imp_le)
  qed
qed

lemma ki_put_events:
  assumes "ki_inv ki" "ki_modified ki < Revision mn sb" "0 < mn"
  obtains ki' where "ki_put mn sb ki = Some ki'" "ki_inv ki'" "ki_key ki' = ki_key ki" "\<not> ki_isEmpty ki'"
    "events ki' = events ki @ [hist_next (Revision mn sb) False (events ki)]" "ki_modified ki' = Revision mn sb"
proof -
  obtain gs g where g: "ki_generations ki = gs @ [g] \<or> ki_generations ki = [] \<and> gs = [] \<and> g = zero_generation"
    by (rule ki_cases [of ki]) auto
  let ?ki = "ki\<lparr>ki_generations := gs @ [grow (Revision mn sb) g], ki_modified := Revision mn sb\<rparr>"
  have e: "events ki = concat (map (gen_events True) gs) @ gen_events False g"
    using g by (auto simp: events_snoc) (simp add: events_def events_of_def gen_events_empty zero_generation_def)
  have "events ?ki = events ki @ [hist_next (Revision mn sb) False (events ki)]"
    unfolding e using assms(1) g
    by (subst grow_event [symmetric]) (auto simp: events_def events_of_def ki_inv_def zero_generation_def)
  moreover have "ki_inv ?ki" using ki_inv_grow [OF assms(1) g assms(2), of "[]"] assms(3) by simp
  moreover have "\<not> ki_isEmpty ?ki" by (cases gs) (auto simp: ki_isEmpty_def g_isEmpty_def)
  ultimately show thesis using that [of ?ki] ki_put_unfold [OF g assms(2)] by simp
qed

text \<open>A deletion succeeds exactly if the key exists.\<close>

definition hist_alive :: "kv_event list \<Rightarrow> bool" where
  "hist_alive evs \<longleftrightarrow> evs \<noteq> [] \<and> \<not> ev_tomb (last evs)"

lemma hist_alive_iff:
  assumes "ki_inv ki" "ki_generations ki = gs @ [g]"
  shows "hist_alive (events ki) \<longleftrightarrow> g_revs g \<noteq> []"
proof (cases "g_revs g = []")
  case True
  then show ?thesis
    using last_closed [of gs] assms by (auto simp: hist_alive_def events_snoc gen_events_empty ki_inv_def)
next
  case False
  then show ?thesis by (simp add: hist_alive_def events_snoc [OF assms(2)] gen_events_nonempty last_gen_events)
qed

lemma ki_tombstone_events:
  assumes "ki_inv ki" "ki_generations ki \<noteq> []" "\<not> ki_isEmpty ki" "ki_modified ki < Revision mn sb" "0 < mn"
  shows "if hist_alive (events ki)
    then \<exists>ki'. ki_tombstone mn sb ki = Some (Inr ki') \<and> ki_inv ki' \<and> ki_key ki' = ki_key ki \<and>
      events ki' = events ki @ [hist_next (Revision mn sb) True (events ki)] \<and> \<not> ki_isEmpty ki' \<and>
      ki_generations ki' \<noteq> [] \<and> ki_modified ki' = Revision mn sb
    else ki_tombstone mn sb ki = Some (Inl ErrRevisionNotFound)"
proof -
  obtain gs g where g: "ki_generations ki = gs @ [g]" using assms(2) by (cases "ki_generations ki" rule: rev_cases) auto
  let ?ki = "ki\<lparr>ki_generations := gs @ [grow (Revision mn sb) g, zero_generation], ki_modified := Revision mn sb\<rparr>"
  have "ki_tombstone mn sb ki = Some (Inr ?ki)" if "g_revs g \<noteq> []"
    using assms(3) ki_put_unfold [OF disjI1 [OF g] assms(4)] g that by (simp add: ki_tombstone_def g_isEmpty_def)
  moreover have "ki_inv ?ki" if "g_revs g \<noteq> []"
    using ki_inv_grow [OF assms(1) disjI1 [OF g] assms(4), of "[zero_generation]"] assms(5) that by simp
  moreover have "events ?ki = events ki @ [hist_next (Revision mn sb) True (events ki)]"
    unfolding events_snoc [OF g] using assms(1) g
    by (subst grow_event [symmetric])
       (auto simp: events_def events_of_def butlast_append ki_inv_def zero_generation_def gen_events_empty)
  moreover have "\<not> ki_isEmpty ?ki" by (simp add: ki_isEmpty_def)
  moreover have "ki_tombstone mn sb ki = Some (Inl ErrRevisionNotFound)" if "g_revs g = []"
    using assms(3) g that by (simp add: ki_tombstone_def g_isEmpty_def)
  ultimately show ?thesis unfolding hist_alive_iff [OF assms(1) g] by auto
qed

section \<open>Compaction of a history\<close>

lemma doCompact_loop_spec:
  assumes "\<And>g. g \<in> set (butlast gs) \<Longrightarrow> g_revs g \<noteq> []" "n < length gs"
    "\<And>g. g \<in> set (take n gs) \<Longrightarrow> main (last (g_revs g)) \<le> at"
  shows "\<exists>i. doCompact_loop at gs n = Some i \<and> i < length gs \<and> (\<forall>g \<in> set (take i gs). main (last (g_revs g)) \<le> at) \<and>
    (i \<noteq> length gs - 1 \<longrightarrow> at < main (last (g_revs (gs ! i))))"
  using assms(2,3)
proof (induction "length gs - n" arbitrary: n)
  case (Suc d)
  have ne: "g_revs (gs ! n) \<noteq> []" if "n < length gs - 1"
    using assms(1) [of "gs ! n"] that by (metis length_butlast nth_butlast nth_mem)
  show ?case
  proof (cases "n < length gs - 1 \<and> main (last (g_revs (gs ! n))) \<le> at")
    case True
    have "\<exists>i. doCompact_loop at gs (n + 1) = Some i \<and> i < length gs \<and> (\<forall>g \<in> set (take i gs). main (last (g_revs g)) \<le> at) \<and>
        (i \<noteq> length gs - 1 \<longrightarrow> at < main (last (g_revs (gs ! i))))"
      using Suc.prems Suc.hyps(2) True by (intro Suc.hyps(1)) (auto simp: take_Suc_conv_app_nth)
    then show ?thesis using True ne by (subst doCompact_loop.simps) auto
  next
    case False
    then show ?thesis using Suc.prems ne by (subst doCompact_loop.simps) auto
  qed
qed simp

lemma events_of_split:
  "events_of (hs @ g # ts) = concat (map (gen_events True) hs) @ gen_events (ts \<noteq> []) g @ events_of ts"
  by (cases ts rule: rev_cases) (auto simp: events_of_def butlast_append)

lemma last_upto_max: "i < length xs \<Longrightarrow> main (xs ! i) \<le> at \<Longrightarrow> i \<le> last_upto at xs"
  by (rule sorted_hd_last(2)) (simp_all add: sorted_wrt_filter)

lemma above_last_upto:
  assumes "sorted_wrt (<) xs" "xs \<noteq> []" "main (hd xs) \<le> at"
  shows "filter (\<lambda>i. at < main (xs ! i)) [0..<length xs] = [Suc (last_upto at xs)..<length xs]"
proof -
  define k where "k = last_upto at xs"
  note l = last_upto_in [OF assms(2,3), folded k_def]
  have le: "main (xs ! i) \<le> at" if "i < Suc k" for i
  proof (cases "i = k")
    case False
    then have "xs ! i < xs ! k" using sorted_wrt_nth_less [OF assms(1), of i k] that l(2) by simp
    then show ?thesis using order_trans [OF main_mono [OF less_imp_le] l(3)] by blast
  qed (use l(3) in simp)
  have gt: "at < main (xs ! i)" if "Suc k \<le> i" "i < length xs" for i
    using last_upto_max [OF that(2), of at, folded k_def] that(1) by (metis not_less_eq_eq not_le)
  have "[0..<length xs] = [0..<Suc k] @ [Suc k..<length xs]"
    using l(2) by (metis Suc_leI le_add_diff_inverse upt_add_eq_append zero_le)
  moreover have "filter (\<lambda>i. at < main (xs ! i)) [0..<Suc k] = []" using le by (simp add: filter_empty_conv not_less del: upt_Suc)
  moreover have "filter (\<lambda>i. at < main (xs ! i)) [Suc k..<length xs] = [Suc k..<length xs]" using gt by (simp add: filter_id_conv)
  ultimately show ?thesis unfolding k_def [symmetric] by (simp del: upt_Suc)
qed

lemma gen_events_drop:
  assumes "k < length (g_revs g)"
  shows "gen_events c (g\<lparr>g_revs := drop k (g_revs g)\<rparr>) = drop k (gen_events c g)"
proof (rule nth_equalityI)
  fix i assume "i < length (gen_events c (g\<lparr>g_revs := drop k (g_revs g)\<rparr>))"
  then show "gen_events c (g\<lparr>g_revs := drop k (g_revs g)\<rparr>) ! i = drop k (gen_events c g) ! i"
    using assms by (auto simp: gen_events_def gen_event_def)
qed (simp add: gen_events_def)

lemma gen_events_above:
  assumes "sorted_wrt (<) (g_revs g)" "g_revs g \<noteq> []" "main (hd (g_revs g)) \<le> at"
  shows "filter (\<lambda>e. at < main (ev_rev e)) (gen_events c g) = drop (Suc (last_upto at (g_revs g))) (gen_events c g)"
  using above_last_upto [OF assms] by (simp add: gen_events_def filter_map o_def drop_map)

text \<open>The generation that survives a compaction, and whether it holds a revision not after the given one.\<close>

abbreviation found :: "int \<Rightarrow> generation \<Rightarrow> bool" where
  "found at g \<equiv> g_revs g \<noteq> [] \<and> main (hd (g_revs g)) \<le> at"

lemma not_found:
  assumes "sorted_wrt (<) (g_revs g)" "\<not> found at g" "i < length (g_revs g)"
  shows "at < main (g_revs g ! i)"
proof -
  have "main (hd (g_revs g)) \<le> main (g_revs g ! i)"
    by (rule main_mono [OF sorted_hd_last(1) [OF assms(1)]]) (use assms(3) in simp)
  then show ?thesis using assms(2,3) by auto
qed

lemma doCompact_spec:
  assumes "ki_inv ki" "ki_generations ki \<noteq> []"
  obtains hs g ts where "ki_generations ki = hs @ g # ts" "\<forall>h \<in> set hs. main (last (g_revs h)) \<le> at"
    "ts \<noteq> [] \<longrightarrow> at < main (last (g_revs g))"
    "doCompact at av ki = Some (length hs, if found at g then int (last_upto at (g_revs g)) else - 1,
       if found at g then insert (g_revs g ! last_upto at (g_revs g)) av else av)"
proof -
  let ?gs = "ki_generations ki"
  have "g_revs g \<noteq> []" if "g \<in> set (butlast ?gs)" for g using assms(1) that by (auto simp: ki_inv_def)
  from doCompact_loop_spec [OF this, where n = 0 and at = at] assms(2) obtain i where
    i: "doCompact_loop at ?gs 0 = Some i" "i < length ?gs" "\<forall>h \<in> set (take i ?gs). main (last (g_revs h)) \<le> at"
      "i \<noteq> length ?gs - 1 \<longrightarrow> at < main (last (g_revs (?gs ! i)))" by auto
  let ?g = "?gs ! i"
  have s: "sorted_wrt (<) (g_revs ?g)" by (rule ki_inv_sorted [OF assms(1)]) (use i(2) in simp)
  obtain n av' where w: "walk (\<lambda>r av. if main r \<le> at then (False, insert r av) else (True, av)) ?g av = (n, av')"
    by fastforce
  have n: "n = (if found at ?g then int (last_upto at (g_revs ?g)) else - 1)"
    using walk_from_last(1) [OF w [unfolded walk_def]] last_upto_in(1) [of "g_revs ?g" at] not_found [OF s, of at]
    by (cases "found at ?g") (simp_all add: filter_empty_conv not_le)
  moreover have "av' = (if found at ?g then insert (g_revs ?g ! last_upto at (g_revs ?g)) av else av)"
    using walk_from_last(2) [OF w [unfolded walk_def]] n by auto
  ultimately show thesis
    using that [of "take i ?gs" ?g "drop (Suc i) ?gs"] i assms(2) w by (simp add: doCompact_def id_take_nth_drop [symmetric])
qed

text \<open>The history around that generation.\<close>

lemma hist_compact_split:
  assumes "sorted_wrt (<) (concat (map g_revs hs) @ g_revs g @ concat (map g_revs ts))"
    "\<forall>h \<in> set hs. 2 \<le> length (g_revs h) \<and> main (last (g_revs h)) \<le> at" "ts \<noteq> [] \<longrightarrow> at < main (last (g_revs g))"
    "ts \<noteq> [] \<longrightarrow> g_revs g \<noteq> []"
  defines "evs \<equiv> events_of (hs @ g # ts)"
  shows "hist_get at evs = (if found at g then Some (gen_event (ts \<noteq> []) g (last_upto at (g_revs g))) else None)"
    "hist_compact at evs = (if found at g then drop (last_upto at (g_revs g)) (gen_events (ts \<noteq> []) g)
       else gen_events (ts \<noteq> []) g) @ events_of ts"
proof -
  let ?H = "concat (map (gen_events True) hs)" and ?G = "gen_events (ts \<noteq> []) g" and ?R = "events_of ts"
  have revs: "map ev_rev (events_of gs) = concat (map g_revs gs)" for gs
    by (cases gs rule: rev_cases) (simp_all add: events_of_def map_concat o_def gen_events_revs)
  have s: "sorted_wrt (<) (g_revs g)" using assms(1) by (simp add: sorted_wrt_append)
  have H: "main (ev_rev e) \<le> at" if e: "e \<in> set ?H" for e
  proof -
    obtain h where h: "h \<in> set hs" "ev_rev e \<in> set (g_revs h)" using e by (auto simp: gen_events_def)
    then have "sorted_wrt (<) (g_revs h)" using assms(1) by (auto simp: sorted_wrt_append dest!: split_list)
    from order_trans [OF main_mono [OF sorted_hd_last(2) [OF this h(2)]]] show ?thesis using assms(2) h(1) by blast
  qed
  have R: "at < main (ev_rev e)" if e: "e \<in> set ?R" for e
  proof -
    have "ev_rev e \<in> set (map ev_rev ?R)" using e by simp
    then have "ev_rev e \<in> set (concat (map g_revs ts))" unfolding revs .
    moreover have "ts \<noteq> []" using e by (auto simp: events_of_def)
    ultimately have "last (g_revs g) < ev_rev e" "at < main (last (g_revs g))"
      using assms(1,3,4) last_in_set [of "g_revs g"] by (auto simp: sorted_wrt_append)
    then show ?thesis using main_mono [OF less_imp_le] by (metis less_le_trans)
  qed
  have evs: "evs = ?H @ ?G @ ?R" by (simp add: evs_def events_of_split)
  have uR: "upto_rev at ?R = []" using R by (auto simp: filter_empty_conv not_le)
  have uH: "upto_rev at ?H = ?H" using H by (simp add: filter_id_conv)
  have G: "upto_rev at ?G = []" if "\<not> found at g"
    using not_found [OF s that] by (auto simp: gen_events_def filter_empty_conv not_le)
  show get: "hist_get at evs = (if found at g then Some (gen_event (ts \<noteq> []) g (last_upto at (g_revs g))) else None)"
  proof (cases "found at g")
    case True
    then have "hist_get at (?H @ ?G) = Some (gen_event (ts \<noteq> []) g (last_upto at (g_revs g)))"
      using assms(3) by (intro hist_get_open) auto
    then show ?thesis using True uR hist_get_append [of at "?H @ ?G" ?R] by (simp add: evs)
  next
    case False
    then show ?thesis using G uR uH last_closed [of hs] assms(2) by (auto simp: evs hist_get_def)
  qed
  have f: "filter (\<lambda>e. at < main (ev_rev e)) ?H = []" "filter (\<lambda>e. at < main (ev_rev e)) ?R = ?R"
    using H R by (auto simp: filter_empty_conv filter_id_conv not_less)
  show "hist_compact at evs = (if found at g then drop (last_upto at (g_revs g)) ?G else ?G) @ ?R"
  proof (cases "found at g")
    case True
    note l = last_upto_in [of "g_revs g" at]
    have "drop (last_upto at (g_revs g)) ?G = gen_event (ts \<noteq> []) g (last_upto at (g_revs g)) # drop (Suc (last_upto at (g_revs g))) ?G"
      using l(2) True by (subst Cons_nth_drop_Suc [symmetric]) (simp_all add: gen_events_def)
    then show ?thesis using True get gen_events_above [OF s] f by (simp add: hist_compact_def evs)
  next
    case False
    then have "filter (\<lambda>e. at < main (ev_rev e)) ?G = ?G"
      using not_found [OF s False] by (auto simp: gen_events_def filter_id_conv)
    then show ?thesis using False get f by (auto simp: hist_compact_def evs)
  qed
qed

text \<open>An index without changes is the one that the tree drops.\<close>

lemma ki_isEmpty_iff: "ki_inv ki \<Longrightarrow> ki_generations ki \<noteq> [] \<Longrightarrow> ki_isEmpty ki \<longleftrightarrow> events ki = []"
proof -
  assume inv: "ki_inv ki" and "ki_generations ki \<noteq> []"
  then obtain gs g where g: "ki_generations ki = gs @ [g]" by (cases "ki_generations ki" rule: rev_cases) auto
  have "gen_events True h \<noteq> []" if "h \<in> set gs" for h
    using inv g that by (intro gen_events_nonempty) (auto simp: ki_inv_def)
  then show ?thesis
    by (cases gs) (auto simp: events_snoc [OF g] ki_isEmpty_def g g_isEmpty_def gen_events_def)
qed

lemma ki_compact_events:
  assumes "ki_inv ki" "ki_generations ki \<noteq> []" "\<not> ki_isEmpty ki"
  obtains ki' av' where "ki_compact at av ki = Some (ki', av')" "ki_keep at av ki = Some av'"
    "ki_inv ki'" "ki_key ki' = ki_key ki" "ki_modified ki' = ki_modified ki" "ki_generations ki' \<noteq> []"
    "events ki' = hist_compact at (events ki)" "av' = av \<union> ev_rev ` set_option (hist_get at (events ki))"
proof -
  obtain hs g ts where c: "ki_generations ki = hs @ g # ts" "\<forall>h \<in> set hs. main (last (g_revs h)) \<le> at"
    "ts \<noteq> [] \<longrightarrow> at < main (last (g_revs g))"
    "doCompact at av ki = Some (length hs, if found at g then int (last_upto at (g_revs g)) else - 1,
       if found at g then insert (g_revs g ! last_upto at (g_revs g)) av else av)"
    by (rule doCompact_spec [OF assms(1,2)])
  define g' where "g' = (if found at g then g\<lparr>g_revs := drop (last_upto at (g_revs g)) (g_revs g)\<rparr> else g)"
  let ?ki = "ki\<lparr>ki_generations := g' # ts\<rparr>" and ?av = "if found at g then insert (g_revs g ! last_upto at (g_revs g)) av else av"
  have two: "2 \<le> length (g_revs g)" if "ts \<noteq> []" using assms(1) c(1) that by (simp add: ki_inv_def butlast_append)
  have lt: "last_upto at (g_revs g) < length (g_revs g) - 1" if "ts \<noteq> []" "found at g"
  proof -
    have "main (g_revs g ! last_upto at (g_revs g)) \<noteq> main (last (g_revs g))" "last_upto at (g_revs g) < length (g_revs g)"
      using last_upto_in [of "g_revs g" at] c(3) that by auto
    then show ?thesis by (metis One_nat_def Suc_pred last_conv_nth length_greater_0_conv less_SucE list.size(3) not_less_zero)
  qed
  have comp: "ki_compact at av ki = Some (?ki, ?av)"
    using assms(3) c(1,4) two lt by (cases "found at g"; cases "ts = []")
      (auto simp: ki_compact_def g'_def g_isEmpty_def list_update_append Let_def split: if_splits)
  have keep: "ki_keep at av ki = Some ?av"
    using assms(3) c(1,4) two lt by (cases "found at g"; cases "ts = []") (auto simp: ki_keep_def g_isEmpty_def Let_def)
  have s: "sorted_wrt (<) (concat (map g_revs hs) @ g_revs g @ concat (map g_revs ts))"
    and h2: "\<forall>h \<in> set hs. 2 \<le> length (g_revs h) \<and> main (last (g_revs h)) \<le> at"
    using assms(1) c(1,2) by (auto simp: ki_inv_def ki_revs_def butlast_append)
  have ne: "ts \<noteq> [] \<longrightarrow> g_revs g \<noteq> []" using two by auto
  have hist: "hist_get at (events ki) = (if found at g then Some (gen_event (ts \<noteq> []) g (last_upto at (g_revs g))) else None)"
    "hist_compact at (events ki) = (if found at g then drop (last_upto at (g_revs g)) (gen_events (ts \<noteq> []) g)
       else gen_events (ts \<noteq> []) g) @ events_of ts"
    unfolding events_def c(1) by (rule hist_compact_split [OF s h2 c(3) ne])+
  have "gen_events (ts \<noteq> []) g' = (if found at g then drop (last_upto at (g_revs g)) (gen_events (ts \<noteq> []) g) else gen_events (ts \<noteq> []) g)"
    using last_upto_in(2) [of "g_revs g" at] by (simp add: g'_def gen_events_drop)
  then have ev: "events ?ki = hist_compact at (events ki)"
    using events_of_split [of "[]" g' ts] hist(2) by (simp add: events_def)
  have inv: "ki_inv ?ki"
  proof -
    obtain k where k: "g_revs g' = drop k (g_revs g)" by (cases "found at g") (auto simp: g'_def intro: that [of 0])
    have "ki_revs ki = (concat (map g_revs hs) @ take k (g_revs g)) @ ki_revs ?ki"
      by (simp add: ki_revs_def c(1) k)
    moreover have "2 \<le> length (g_revs g')" if "ts \<noteq> []" using two lt that by (auto simp: g'_def)
    moreover have "g_revs g' = [] \<longrightarrow> g_revs g = [] \<and> g_ver g' = g_ver g"
      using last_upto_in(2) [of "g_revs g" at] by (auto simp: g'_def)
    moreover have "set ts \<subseteq> set (tl (ki_generations ki))" unfolding c(1) by (cases hs) auto
    ultimately show ?thesis
      using assms(1) unfolding ki_inv_def c(1) by (auto simp: sorted_wrt_append butlast_append split: if_splits)
  qed
  show thesis using that [OF comp keep inv _ _ _ ev] hist(1) by (auto split: if_splits)
qed

section \<open>Changes since a revision\<close>

text \<open>Of neighbours with the same main revision the last one stays.\<close>

fun last_per_main :: "revision list \<Rightarrow> revision list" where
  "last_per_main (r # r' # rs) = (if main r = main r' then last_per_main (r' # rs) else r # last_per_main (r' # rs))"
| "last_per_main rs = rs"

lemma since_collect_snoc:
  "since_collect snc xs (pre @ [x]) (main x) = Some (pre @ last_per_main (x # filter (\<lambda>r. snc \<le> r) xs))"
proof (induction xs arbitrary: pre x)
  case (Cons r xs)
  show ?case using Cons [of pre r] Cons [of "pre @ [x]" r] Cons [of pre x] by (auto simp: not_less)
qed simp

lemma since_collect_start:
  "\<forall>r \<in> set xs. 0 < main r \<Longrightarrow> since_collect snc xs [] 0 = Some (last_per_main (filter (\<lambda>r. snc \<le> r) xs))"
proof (induction xs)
  case (Cons r xs)
  then show ?case using since_collect_snoc [of snc xs "[]" r] by (auto simp: not_less)
qed simp

lemma since_start_skips:
  assumes "sorted_wrt (<) (concat (map g_revs gs))" "\<And>g. g \<in> set (tl gs) \<Longrightarrow> g_revs g \<noteq> [] \<Longrightarrow> g_created g = hd (g_revs g)"
  shows "n < length gs \<Longrightarrow> r \<in> set (concat (map g_revs (take (since_start snc gs n) gs))) \<Longrightarrow> r < snc"
proof (induction n)
  case (Suc n)
  show ?case
  proof (cases "\<not> g_isEmpty (gs ! Suc n) \<and> g_created (gs ! Suc n) < snc")
    case True
    have "gs ! Suc n \<in> set (tl gs)" using Suc.prems(1) by (cases gs) auto
    then have "hd (g_revs (gs ! Suc n)) < snc" "g_revs (gs ! Suc n) \<noteq> []"
      using assms(2) [of "gs ! Suc n"] True by (auto simp: g_isEmpty_def)
    moreover have "r \<in> set (concat (map g_revs (take (Suc n) gs)))" using Suc.prems(2) True by (simp add: Let_def)
    moreover have "concat (map g_revs gs) = concat (map g_revs (take (Suc n) gs)) @ g_revs (gs ! Suc n) @
        concat (map g_revs (drop (Suc (Suc n)) gs))"
      using arg_cong [OF id_take_nth_drop [OF Suc.prems(1)], of "\<lambda>xs. concat (map g_revs xs)"] by simp
    ultimately have "r < hd (g_revs (gs ! Suc n))" using assms(1) by (simp only: sorted_wrt_append) auto
    with \<open>hd (g_revs (gs ! Suc n)) < snc\<close> show ?thesis by simp
  next
    case False
    then have "since_start snc gs (Suc n) = since_start snc gs n" by (auto simp: Let_def)
    then show ?thesis using Suc by simp
  qed
qed simp

lemma ki_since_events:
  assumes "ki_inv ki" "ki_generations ki \<noteq> []" "\<not> ki_isEmpty ki"
  shows "ki_since rv ki = Some (last_per_main (filter (\<lambda>r. Revision rv 0 \<le> r) (ki_revs ki)))"
proof -
  let ?gs = "ki_generations ki" and ?snc = "Revision rv 0"
  define i where "i = since_start ?snc ?gs (length ?gs - Suc 0)"
  have "r < ?snc" if "r \<in> set (concat (map g_revs (take i ?gs)))" for r
    using since_start_skips [of ?gs "length ?gs - 1" r ?snc] assms(1,2) that by (simp add: ki_inv_def ki_revs_def i_def)
  then have "filter (\<lambda>r. ?snc \<le> r) (concat (map g_revs (take i ?gs))) = []" by (auto simp: filter_empty_conv not_le)
  moreover have "ki_revs ki = concat (map g_revs (take i ?gs)) @ concat (map g_revs (drop i ?gs))"
    unfolding ki_revs_def by (metis append_take_drop_id concat_append map_append)
  ultimately have "filter (\<lambda>r. ?snc \<le> r) (concat (map g_revs (drop i ?gs))) = filter (\<lambda>r. ?snc \<le> r) (ki_revs ki)"
    by simp
  moreover have "\<forall>r \<in> set (concat (map g_revs (drop i ?gs))). 0 < main r"
    using assms(1) by (auto simp: ki_inv_def ki_revs_def dest: in_set_dropD)
  ultimately show ?thesis
    using assms(2,3) since_collect_start [of "concat (map g_revs (drop i ?gs))" ?snc] by (simp add: ki_since_def Let_def flip: i_def)
qed

end
