(* ===== verification/Tree_Index.thy ===== *)
theory Tree_Index
  imports Key_Index
begin

text \<open>
  \<^verbatim>\<open>server/storage/mvcc/index.go\<close>: the index of all keys, a B-tree of key indexes ordered by key. The tree is
  the package \<^verbatim>\<open>github.com/google/btree\<close>, which is not part of the repository: it is the parameter \<open>B\<close>, a
  record of its operations, and \<open>btree_laws\<close> states what its documentation promises. The items of the
  tree are pointers; an operation on an item in place is the replacement of the item by its new
  value, whose key is the same. Every operation runs under the lock of the index; \<^verbatim>\<open>Compact\<close> takes it
  anew for every key, and is modelled as one operation.
\<close>

section \<open>The tree\<close>

text \<open>Iterations are the lists of items in the order in which the callback is given them.\<close>

record 't btree =
  bt_New :: "nat \<Rightarrow> 't"
  bt_Get :: "'t \<Rightarrow> keyIndex \<Rightarrow> keyIndex option"
  bt_ReplaceOrInsert :: "keyIndex \<Rightarrow> 't \<Rightarrow> 't"
  bt_Delete :: "keyIndex \<Rightarrow> 't \<Rightarrow> 't \<times> keyIndex option"
  bt_Ascend :: "'t \<Rightarrow> keyIndex list"
  bt_AscendGreaterOrEqual :: "keyIndex \<Rightarrow> 't \<Rightarrow> keyIndex list"
  bt_Len :: "'t \<Rightarrow> nat"

fun insert_item :: "keyIndex \<Rightarrow> keyIndex list \<Rightarrow> keyIndex list" where
  "insert_item k [] = [k]"
| "insert_item k (x # xs) =
     (if ki_key k < ki_key x then k # x # xs else if ki_key k = ki_key x then k # xs else x # insert_item k xs)"

definition btree_laws :: "'t btree \<Rightarrow> bool" where
  "btree_laws B \<longleftrightarrow>
     (\<forall>d. bt_Ascend B (bt_New B d) = []) \<and>
     (\<forall>t. sorted_wrt ki_Less (bt_Ascend B t)) \<and>
     (\<forall>t k. bt_Get B t k = find (\<lambda>x. ki_key x = ki_key k) (bt_Ascend B t)) \<and>
     (\<forall>t k. bt_Ascend B (bt_ReplaceOrInsert B k t) = insert_item k (bt_Ascend B t)) \<and>
     (\<forall>t k. bt_Ascend B (fst (bt_Delete B k t)) = filter (\<lambda>x. ki_key x \<noteq> ki_key k) (bt_Ascend B t)) \<and>
     (\<forall>t k. snd (bt_Delete B k t) = bt_Get B t k) \<and>
     (\<forall>t k. bt_AscendGreaterOrEqual B k t = filter (\<lambda>x. \<not> ki_Less x k) (bt_Ascend B t)) \<and>
     (\<forall>t. bt_Len B t = length (bt_Ascend B t))"

section \<open>Operations\<close>

definition newTreeIndex :: "'t btree \<Rightarrow> 't" where
  "newTreeIndex B = bt_New B 32"

definition ti_Put :: "'t btree \<Rightarrow> bytes \<Rightarrow> revision \<Rightarrow> 't \<Rightarrow> 't option" where
  "ti_Put B key r t =
     (let keyi = new_keyIndex key in
      case bt_Get B t keyi of
        None \<Rightarrow> do { keyi \<leftarrow> ki_put (main r) (sub r) keyi; Some (bt_ReplaceOrInsert B keyi t) }
      | Some okeyi \<Rightarrow> do { okeyi \<leftarrow> ki_put (main r) (sub r) okeyi; Some (bt_ReplaceOrInsert B okeyi t) })"

definition ti_keyIndex :: "'t btree \<Rightarrow> keyIndex \<Rightarrow> 't \<Rightarrow> keyIndex option" where
  "ti_keyIndex B keyi t = bt_Get B t keyi"

definition ti_Get :: "'t btree \<Rightarrow> bytes \<Rightarrow> int \<Rightarrow> 't \<Rightarrow> (IndexErr + key_version) option" where
  "ti_Get B key at t =
     (case ti_keyIndex B (new_keyIndex key) t of
        None \<Rightarrow> Some (Inl ErrRevisionNotFound)
      | Some keyi \<Rightarrow> ki_get at keyi)"

text \<open>\<^verbatim>\<open>visit\<close> with the variables its callback assigns; an empty end is no end.\<close>

fun visit_items ::
  "bytes \<Rightarrow> (keyIndex \<Rightarrow> 's \<Rightarrow> (bool \<times> 's) option) \<Rightarrow> keyIndex list \<Rightarrow> 's \<Rightarrow> 's option" where
  "visit_items e f [] s = Some s"
| "visit_items e f (item # items) s =
     (if 0 < length e \<and> \<not> ki_Less item (new_keyIndex e) then Some s
      else do {
        (ok, s) \<leftarrow> f item s;
        if \<not> ok then Some s else visit_items e f items s
      })"

definition ti_visit ::
  "'t btree \<Rightarrow> bytes \<Rightarrow> bytes \<Rightarrow> (keyIndex \<Rightarrow> 's \<Rightarrow> (bool \<times> 's) option) \<Rightarrow> 't \<Rightarrow> 's \<Rightarrow> 's option" where
  "ti_visit B key e f t s = visit_items e f (bt_AscendGreaterOrEqual B (new_keyIndex key) t) s"

definition ti_Revisions ::
  "'t btree \<Rightarrow> bytes \<Rightarrow> gobytes \<Rightarrow> int \<Rightarrow> int \<Rightarrow> 't \<Rightarrow> (revision list \<times> nat) option" where
  "ti_Revisions B key e at limit t =
     (case e of
        None \<Rightarrow> do {
          res \<leftarrow> ti_Get B key at t;
          Some (case res of Inl _ \<Rightarrow> ([], 0) | Inr (r, _, _) \<Rightarrow> ([r], 1))
        }
      | Some e \<Rightarrow>
          ti_visit B key e (\<lambda>ki (revs, total). do {
            res \<leftarrow> ki_get at ki;
            Some (True, case res of
                Inl _ \<Rightarrow> (revs, total)
              | Inr (r, _, _) \<Rightarrow>
                  (if limit \<le> 0 \<or> int (length revs) < limit then revs @ [r] else revs, total + 1))
          }) t ([], 0))"

definition ti_CountRevisions :: "'t btree \<Rightarrow> bytes \<Rightarrow> gobytes \<Rightarrow> int \<Rightarrow> 't \<Rightarrow> nat option" where
  "ti_CountRevisions B key e at t =
     (case e of
        None \<Rightarrow> do {
          res \<leftarrow> ti_Get B key at t;
          Some (case res of Inl _ \<Rightarrow> 0 | Inr _ \<Rightarrow> 1)
        }
      | Some e \<Rightarrow>
          ti_visit B key e (\<lambda>ki total. do {
            res \<leftarrow> ki_get at ki;
            Some (True, case res of Inl _ \<Rightarrow> total | Inr _ \<Rightarrow> total + 1)
          }) t 0)"

definition ti_Range ::
  "'t btree \<Rightarrow> bytes \<Rightarrow> gobytes \<Rightarrow> int \<Rightarrow> 't \<Rightarrow> (bytes list \<times> revision list) option" where
  "ti_Range B key e at t =
     (case e of
        None \<Rightarrow> do {
          res \<leftarrow> ti_Get B key at t;
          Some (case res of Inl _ \<Rightarrow> ([], []) | Inr (r, _, _) \<Rightarrow> ([key], [r]))
        }
      | Some e \<Rightarrow>
          ti_visit B key e (\<lambda>ki (keys, revs). do {
            res \<leftarrow> ki_get at ki;
            Some (True, case res of
                Inl _ \<Rightarrow> (keys, revs)
              | Inr (r, _, _) \<Rightarrow> (keys @ [ki_key ki], revs @ [r]))
          }) t ([], []))"

definition ti_Tombstone :: "'t btree \<Rightarrow> bytes \<Rightarrow> revision \<Rightarrow> 't \<Rightarrow> (IndexErr + 't) option" where
  "ti_Tombstone B key r t =
     (case bt_Get B t (new_keyIndex key) of
        None \<Rightarrow> Some (Inl ErrRevisionNotFound)
      | Some ki \<Rightarrow> do {
          res \<leftarrow> ki_tombstone (main r) (sub r) ki;
          Some (case res of Inl err \<Rightarrow> Inl err | Inr ki \<Rightarrow> Inr (bt_ReplaceOrInsert B ki t))
        })"

text \<open>\<^verbatim>\<open>sort.Sort\<close> orders by revision; equal revisions are indistinguishable.\<close>

definition ti_RangeSince :: "'t btree \<Rightarrow> bytes \<Rightarrow> gobytes \<Rightarrow> int \<Rightarrow> 't \<Rightarrow> revision list option" where
  "ti_RangeSince B key e rv t =
     (case e of
        None \<Rightarrow>
          (case bt_Get B t (new_keyIndex key) of
             None \<Rightarrow> Some []
           | Some keyi \<Rightarrow> ki_since rv keyi)
      | Some e \<Rightarrow> do {
          revs \<leftarrow> visit_items e (\<lambda>ki revs. do { rs \<leftarrow> ki_since rv ki; Some (True, revs @ rs) })
            (bt_AscendGreaterOrEqual B (new_keyIndex key) t) [];
          Some (sort revs)
        })"

fun compact_items ::
  "'t btree \<Rightarrow> int \<Rightarrow> keyIndex list \<Rightarrow> 't \<Rightarrow> revision set \<Rightarrow> ('t \<times> revision set) option" where
  "compact_items B rv [] t available = Some (t, available)"
| "compact_items B rv (keyi # items) t available =
     do {
       (keyi, available) \<leftarrow> ki_compact rv available keyi;
       let t = bt_ReplaceOrInsert B keyi t;
       t \<leftarrow> (if ki_isEmpty keyi
            then (case bt_Delete B keyi t of (_, None) \<Rightarrow> None | (t, Some _) \<Rightarrow> Some t)
            else Some t);
       compact_items B rv items t available
     }"

definition ti_Compact :: "'t btree \<Rightarrow> int \<Rightarrow> 't \<Rightarrow> ('t \<times> revision set) option" where
  "ti_Compact B rv t = compact_items B rv (bt_Ascend B t) t {}"

fun keep_items :: "int \<Rightarrow> keyIndex list \<Rightarrow> revision set \<Rightarrow> revision set option" where
  "keep_items rv [] available = Some available"
| "keep_items rv (keyi # items) available =
     do { available \<leftarrow> ki_keep rv available keyi; keep_items rv items available }"

definition ti_Keep :: "'t btree \<Rightarrow> int \<Rightarrow> 't \<Rightarrow> revision set option" where
  "ti_Keep B rv t = keep_items rv (bt_Ascend B t) {}"

text \<open>The type assertion on the item found panics if there is none.\<close>

fun equal_items :: "'t btree \<Rightarrow> keyIndex list \<Rightarrow> 't \<Rightarrow> bool option" where
  "equal_items B [] b = Some True"
| "equal_items B (aki # items) b =
     do {
       bki \<leftarrow> bt_Get B b aki;
       if \<not> ki_equal aki bki then Some False else equal_items B items b
     }"

definition ti_Equal :: "'t btree \<Rightarrow> 't \<Rightarrow> 't \<Rightarrow> bool option" where
  "ti_Equal B a b = (if bt_Len B a \<noteq> bt_Len B b then Some False else equal_items B (bt_Ascend B a) b)"

definition ti_Insert :: "'t btree \<Rightarrow> keyIndex \<Rightarrow> 't \<Rightarrow> 't" where
  "ti_Insert B ki t = bt_ReplaceOrInsert B ki t"

section \<open>The tree as a map\<close>

definition get_key :: "'t btree \<Rightarrow> 't \<Rightarrow> bytes \<Rightarrow> keyIndex option" where
  "get_key B t key = bt_Get B t (new_keyIndex key)"

lemma new_keyIndex_key [simp]: "ki_key (new_keyIndex key) = key"
  by (simp add: new_keyIndex_def)

abbreviation by_key :: "bytes \<Rightarrow> keyIndex list \<Rightarrow> keyIndex option" where
  "by_key key xs \<equiv> find (\<lambda>x. ki_key x = key) xs"

lemma set_insert_item: "set (insert_item k xs) \<subseteq> insert k (set xs)"
  by (induction xs) auto

lemma by_key_None: "\<forall>x \<in> set xs. ki_key x \<noteq> key \<Longrightarrow> by_key key xs = None"
  by (simp add: find_None_iff)

lemma by_key_insert_item:
  "sorted_wrt ki_Less xs \<Longrightarrow> by_key key (insert_item k xs) = (if key = ki_key k then Some k else by_key key xs)"
  by (induction xs) auto

lemma by_key_filter:
  "by_key key (filter (\<lambda>x. ki_key x \<noteq> key') xs) = (if key = key' then None else by_key key xs)"
  by (induction xs) auto

lemma by_key_in:
  assumes "sorted_wrt ki_Less xs"
  shows "by_key key xs = Some x \<longleftrightarrow> x \<in> set xs \<and> ki_key x = key"
  using assms by (induction xs) (auto simp: ki_Less_def)

lemma get_key_New: "btree_laws B \<Longrightarrow> get_key B (bt_New B d) key = None"
  by (simp add: get_key_def btree_laws_def)

lemma bt_Get_key: "btree_laws B \<Longrightarrow> bt_Get B t x = get_key B t (ki_key x)"
  by (simp add: get_key_def btree_laws_def)

lemma get_key_Replace:
  "btree_laws B \<Longrightarrow> get_key B (bt_ReplaceOrInsert B k t) key = (if key = ki_key k then Some k else get_key B t key)"
  by (simp add: get_key_def btree_laws_def by_key_insert_item)

lemma get_key_Delete:
  "btree_laws B \<Longrightarrow> get_key B (fst (bt_Delete B k t)) key = (if key = ki_key k then None else get_key B t key)"
  by (simp add: get_key_def btree_laws_def by_key_filter)

lemma Delete_result: "btree_laws B \<Longrightarrow> snd (bt_Delete B k t) = get_key B t (ki_key k)"
  by (simp add: get_key_def btree_laws_def)

lemma Ascend_sorted: "btree_laws B \<Longrightarrow> sorted_wrt ki_Less (bt_Ascend B t)"
  by (simp add: btree_laws_def)

lemma get_key_iff: "btree_laws B \<Longrightarrow> get_key B t key = Some x \<longleftrightarrow> x \<in> set (bt_Ascend B t) \<and> ki_key x = key"
  by (simp add: get_key_def btree_laws_def by_key_in)

lemma get_key_outside: "btree_laws B \<Longrightarrow> key \<notin> ki_key ` set (bt_Ascend B t) \<Longrightarrow> get_key B t key = None"
  by (metis get_key_iff imageI not_None_eq)

section \<open>The histories of the keys\<close>

text \<open>
  The index represents a history for every key; \<open>ti_inv\<close> says that its items are well formed and not
  empty. A change has to come with a revision later than all before, \<open>ti_before\<close>.
\<close>

definition ti_hist :: "'t btree \<Rightarrow> 't \<Rightarrow> bytes \<Rightarrow> kv_event list" where
  "ti_hist B t key = (case get_key B t key of None \<Rightarrow> [] | Some ki \<Rightarrow> events ki)"

definition item_ok :: "keyIndex \<Rightarrow> bool" where
  "item_ok ki \<longleftrightarrow> ki_inv ki \<and> ki_generations ki \<noteq> [] \<and> \<not> ki_isEmpty ki"

definition ti_inv :: "'t btree \<Rightarrow> 't \<Rightarrow> bool" where
  "ti_inv B t \<longleftrightarrow> (\<forall>ki \<in> set (bt_Ascend B t). item_ok ki)"

definition ti_before :: "'t btree \<Rightarrow> 't \<Rightarrow> revision \<Rightarrow> bool" where
  "ti_before B t r \<longleftrightarrow> (\<forall>ki \<in> set (bt_Ascend B t). ki_modified ki < r)"

lemma ti_hist_outside: "btree_laws B \<Longrightarrow> key \<notin> ki_key ` set (bt_Ascend B t) \<Longrightarrow> ti_hist B t key = []"
  using get_key_outside [of B key t] by (simp add: ti_hist_def)

lemma get_key_ok:
  assumes "btree_laws B" "get_key B t key = Some ki"
  shows "ti_inv B t \<Longrightarrow> item_ok ki" "ti_before B t r \<Longrightarrow> ki_modified ki < r" "ki_key ki = key"
  using assms by (auto simp: ti_inv_def ti_before_def get_key_iff)

lemma ti_inv_Replace:
  "btree_laws B \<Longrightarrow> ti_inv B t \<Longrightarrow> item_ok ki \<Longrightarrow> ti_inv B (bt_ReplaceOrInsert B ki t)"
  using set_insert_item [of ki "bt_Ascend B t"] by (auto simp: ti_inv_def btree_laws_def)

lemma ti_hist_Replace:
  "btree_laws B \<Longrightarrow> ti_hist B (bt_ReplaceOrInsert B ki t) = (ti_hist B t)(ki_key ki := events ki)"
  by (auto simp: ti_hist_def get_key_Replace fun_eq_iff)

lemma ti_before_Replace:
  "btree_laws B \<Longrightarrow> ti_before B t r \<Longrightarrow> ki_modified ki < r \<Longrightarrow> ti_before B (bt_ReplaceOrInsert B ki t) r"
  using set_insert_item [of ki "bt_Ascend B t"] by (auto simp: ti_before_def btree_laws_def)

lemma ti_before_mono: "ti_before B t r \<Longrightarrow> r \<le> r' \<Longrightarrow> ti_before B t r'"
  by (auto simp: ti_before_def)

lemma ti_Get_hist:
  assumes "btree_laws B" "ti_inv B t"
  shows "ti_Get B key at t = Some (case hist_get at (ti_hist B t key) of
    None \<Rightarrow> Inl ErrRevisionNotFound | Some e \<Rightarrow> Inr (version_of e))"
proof (cases "get_key B t key")
  case None
  then show ?thesis by (simp add: ti_Get_def ti_keyIndex_def ti_hist_def hist_get_def flip: get_key_def)
next
  case (Some ki)
  then have "item_ok ki" using assms by (rule_tac get_key_ok)
  then show ?thesis
    using Some ki_get_events [of ki at] by (simp add: ti_Get_def ti_keyIndex_def ti_hist_def item_ok_def flip: get_key_def)
qed

text \<open>A new key starts from an index without generations.\<close>

lemma new_keyIndex_inv: "ki_inv (new_keyIndex key)" "events (new_keyIndex key) = []" "ki_modified (new_keyIndex key) = zero_revision"
  by (simp_all add: new_keyIndex_def ki_inv_def ki_revs_def events_def events_of_def)

lemma zero_revision_less: "0 < main r \<Longrightarrow> zero_revision < r"
  by (simp add: zero_revision_def less_revision_def)

lemma ti_Put_hist:
  assumes "btree_laws B" "ti_inv B t" "ti_before B t r" "0 < main r"
  obtains t' where "ti_Put B key r t = Some t'" "ti_inv B t'" "\<And>r'. r < r' \<Longrightarrow> ti_before B t' r'"
    "ti_hist B t' = (ti_hist B t)(key := ti_hist B t key @ [hist_next r False (ti_hist B t key)])"
proof -
  define ki where "ki = (case get_key B t key of None \<Rightarrow> new_keyIndex key | Some ki \<Rightarrow> ki)"
  have ki: "ki_inv ki" "ki_modified ki < Revision (main r) (sub r)" "ki_key ki = key" "events ki = ti_hist B t key"
    using get_key_ok [OF assms(1)] assms(2-4)
    by (auto simp: ki_def ti_hist_def new_keyIndex_inv zero_revision_less item_ok_def split: option.splits)
  obtain ki' where p: "ki_put (main r) (sub r) ki = Some ki'" "ki_inv ki'" "ki_key ki' = ki_key ki" "\<not> ki_isEmpty ki'"
      "events ki' = events ki @ [hist_next (Revision (main r) (sub r)) False (events ki)]"
      "ki_modified ki' = Revision (main r) (sub r)"
    using ki_put_events [OF ki(1,2) assms(4)] by blast
  have "ti_Put B key r t = Some (bt_ReplaceOrInsert B ki' t)"
    using p(1) by (auto simp: ti_Put_def ki_def get_key_def Let_def split: option.splits)
  moreover have "item_ok ki'" using p(2,4,5) by (auto simp: item_ok_def events_def events_of_def)
  moreover have "ti_before B (bt_ReplaceOrInsert B ki' t) r'" if "r < r'" for r'
    using that p(6) assms(1) ti_before_mono [OF assms(3)] by (intro ti_before_Replace) auto
  ultimately show thesis
    using that [of "bt_ReplaceOrInsert B ki' t"] ti_inv_Replace [OF assms(1,2)] ti_hist_Replace [OF assms(1)] p(3,5) ki(3,4)
    by simp
qed

lemma ti_Tombstone_hist:
  assumes "btree_laws B" "ti_inv B t" "ti_before B t r" "0 < main r"
  shows "if hist_alive (ti_hist B t key)
    then \<exists>t'. ti_Tombstone B key r t = Some (Inr t') \<and> ti_inv B t' \<and> (\<forall>r'. r < r' \<longrightarrow> ti_before B t' r') \<and>
      ti_hist B t' = (ti_hist B t)(key := ti_hist B t key @ [hist_next r True (ti_hist B t key)])
    else ti_Tombstone B key r t = Some (Inl ErrRevisionNotFound)"
proof (cases "get_key B t key")
  case None
  then show ?thesis by (simp add: ti_hist_def hist_alive_def ti_Tombstone_def flip: get_key_def)
next
  case (Some ki)
  note ok = get_key_ok [OF assms(1) Some]
  have k: "ki_inv ki" "ki_generations ki \<noteq> []" "\<not> ki_isEmpty ki" "ki_modified ki < Revision (main r) (sub r)"
    using ok(1) [OF assms(2)] ok(2) [OF assms(3)] by (simp_all add: item_ok_def)
  have h: "ti_hist B t key = events ki" using Some by (simp add: ti_hist_def)
  show ?thesis
  proof (cases "hist_alive (events ki)")
    case True
    with ki_tombstone_events [OF k assms(4)] obtain ki' where
      d: "ki_tombstone (main r) (sub r) ki = Some (Inr ki')" "item_ok ki'" "ki_key ki' = key"
        "events ki' = events ki @ [hist_next r True (events ki)]" "ki_modified ki' = r"
      using ok(3) by (auto simp: item_ok_def)
    have "ti_before B (bt_ReplaceOrInsert B ki' t) r'" if "r < r'" for r'
      using that d(5) assms(1) ti_before_mono [OF assms(3)] by (intro ti_before_Replace) auto
    then show ?thesis
      using True d Some h ti_inv_Replace [OF assms(1,2) d(2)] ti_hist_Replace [OF assms(1), of ki' t]
      by (auto simp: ti_Tombstone_def simp flip: get_key_def)
  next
    case False
    then show ?thesis using ki_tombstone_events [OF k assms(4)] h Some by (simp add: ti_Tombstone_def flip: get_key_def)
  qed
qed

section \<open>Ranges\<close>

definition in_range :: "bytes \<Rightarrow> bytes \<Rightarrow> bytes \<Rightarrow> bool" where
  "in_range key e k \<longleftrightarrow> key \<le> k \<and> (e = [] \<or> k < e)"

lemma visit_items_fold:
  assumes "\<And>ki s. ki \<in> set items \<Longrightarrow> f ki s = Some (True, h ki s)" "sorted_wrt ki_Less items"
  shows "visit_items e f items s = Some (fold h (filter (\<lambda>ki. e = [] \<or> ki_key ki < e) items) s)"
  using assms
proof (induction items arbitrary: s)
  case (Cons x items)
  show ?case
  proof (cases "e = [] \<or> ki_key x < e")
    case False
    then have "filter (\<lambda>ki. e = [] \<or> ki_key ki < e) items = []"
      using Cons.prems(2) by (auto simp: filter_empty_conv ki_Less_def dest: order_less_trans)
    then show ?thesis using False by (simp add: ki_Less_def)
  qed (use Cons in \<open>auto simp: ki_Less_def\<close>)
qed simp

abbreviation range_items :: "'t btree \<Rightarrow> bytes \<Rightarrow> bytes \<Rightarrow> 't \<Rightarrow> keyIndex list" where
  "range_items B key e t \<equiv> filter (\<lambda>ki. in_range key e (ki_key ki)) (bt_Ascend B t)"

lemma ti_visit_fold:
  assumes "btree_laws B" "\<And>ki s. ki \<in> set (bt_Ascend B t) \<Longrightarrow> f ki s = Some (True, h ki s)"
  shows "ti_visit B key e f t s = Some (fold h (range_items B key e t) s)"
proof -
  let ?xs = "bt_AscendGreaterOrEqual B (new_keyIndex key) t"
  have xs: "?xs = filter (\<lambda>x. key \<le> ki_key x) (bt_Ascend B t)"
    using assms(1) by (simp add: btree_laws_def ki_Less_def not_less)
  have "sorted_wrt ki_Less ?xs" using Ascend_sorted [OF assms(1)] by (simp add: xs sorted_wrt_filter)
  moreover have "filter (\<lambda>ki. e = [] \<or> ki_key ki < e) ?xs = range_items B key e t"
    by (simp add: xs in_range_def conj_commute)
  ultimately show ?thesis
    using visit_items_fold [of ?xs f h e s] assms(2) by (simp add: ti_visit_def xs)
qed

text \<open>The keys of a range that exist at a revision, in order, and their revisions.\<close>

definition live_keys :: "'t btree \<Rightarrow> 't \<Rightarrow> bytes \<Rightarrow> bytes \<Rightarrow> int \<Rightarrow> bytes list" where
  "live_keys B t key e at = filter (\<lambda>k. hist_get at (ti_hist B t k) \<noteq> None) (map ki_key (range_items B key e t))"

definition live_rev :: "'t btree \<Rightarrow> 't \<Rightarrow> int \<Rightarrow> bytes \<Rightarrow> revision" where
  "live_rev B t at k = ev_rev (the (hist_get at (ti_hist B t k)))"

lemma live_keys_spec:
  assumes "btree_laws B"
  shows "sorted_wrt (<) (live_keys B t key e at)"
    "set (live_keys B t key e at) = {k. in_range key e k \<and> hist_get at (ti_hist B t k) \<noteq> None}"
proof -
  have "sorted_wrt (<) (map ki_key (range_items B key e t))"
    using Ascend_sorted [OF assms, of t]
    by (auto simp: sorted_wrt_map intro!: sorted_wrt_filter elim!: sorted_wrt_mono_rel [rotated] simp: ki_Less_def)
  then show "sorted_wrt (<) (live_keys B t key e at)" by (simp add: live_keys_def sorted_wrt_filter)
  have "k \<in> ki_key ` set (bt_Ascend B t)" if "hist_get at (ti_hist B t k) \<noteq> None" for k
    using that ti_hist_outside [OF assms, of k t] by (cases "k \<in> ki_key ` set (bt_Ascend B t)") simp_all
  then show "set (live_keys B t key e at) = {k. in_range key e k \<and> hist_get at (ti_hist B t k) \<noteq> None}"
    by (auto simp: live_keys_def)
qed

lemma item_hist:
  assumes "btree_laws B" "ti_inv B t" "ki \<in> set (bt_Ascend B t)"
  shows "ki_get at ki = Some (case hist_get at (ti_hist B t (ki_key ki)) of
    None \<Rightarrow> Inl ErrRevisionNotFound | Some e \<Rightarrow> Inr (version_of e))"
proof -
  have "get_key B t (ki_key ki) = Some ki" using assms(1,3) by (simp add: get_key_iff)
  then show ?thesis
    using assms(2,3) ki_get_events [of ki at] by (auto simp: ti_hist_def ti_inv_def item_ok_def)
qed

text \<open>A fold over the items that acts on the live keys only.\<close>

lemma fold_live_list:
  "fold (\<lambda>ki s. case hist_get at (ti_hist B t (ki_key ki)) of None \<Rightarrow> s | Some ev \<Rightarrow> g (ki_key ki) (ev_rev ev) s) xs s =
     fold (\<lambda>k. g k (live_rev B t at k)) (filter (\<lambda>k. hist_get at (ti_hist B t k) \<noteq> None) (map ki_key xs)) s"
  by (induction xs arbitrary: s) (auto simp: live_rev_def)

lemma ti_visit_live:
  assumes "btree_laws B" "\<And>ki s. ki \<in> set (bt_Ascend B t) \<Longrightarrow> f ki s =
    Some (True, case hist_get at (ti_hist B t (ki_key ki)) of None \<Rightarrow> s | Some ev \<Rightarrow> g (ki_key ki) (ev_rev ev) s)"
  shows "ti_visit B key e f t s = Some (fold (\<lambda>k. g k (live_rev B t at k)) (live_keys B t key e at) s)"
  unfolding live_keys_def fold_live_list [symmetric] by (rule ti_visit_fold [OF assms])

lemma fold_snoc_map: "fold (\<lambda>k (ks, rs). (ks @ [k], rs @ [h k])) xs (ks, rs) = (ks @ xs, rs @ map h xs)"
  by (induction xs arbitrary: ks rs) simp_all

lemma fold_count: "fold (\<lambda>k (n :: nat). n + 1) xs n = n + length xs"
  by (induction xs arbitrary: n) simp_all

lemma fold_limit:
  "fold (\<lambda>k (rs, n). (if limit \<le> 0 \<or> int (length rs) < limit then rs @ [h k] else rs, n + 1)) xs (rs, n) =
     (rs @ map h (if limit \<le> 0 then xs else take (nat limit - length rs) xs), n + length xs)"
  by (induction xs arbitrary: rs n) (auto simp: take_Cons' nat_diff_distrib' zless_nat_conj)

text \<open>The answers to the range queries; a nil end asks for the single key.\<close>

definition range_keys :: "'t btree \<Rightarrow> 't \<Rightarrow> bytes \<Rightarrow> gobytes \<Rightarrow> int \<Rightarrow> bytes list" where
  "range_keys B t key e at =
     (case e of
        None \<Rightarrow> if hist_get at (ti_hist B t key) = None then [] else [key]
      | Some e \<Rightarrow> live_keys B t key e at)"

lemma ti_Range_hist:
  assumes "btree_laws B" "ti_inv B t"
  shows "ti_Range B key e at t = Some (range_keys B t key e at, map (live_rev B t at) (range_keys B t key e at))"
proof (cases e)
  case None
  then show ?thesis using ti_Get_hist [OF assms, of key at] by (auto simp: ti_Range_def range_keys_def live_rev_def split: option.split)
next
  case (Some e')
  show ?thesis unfolding ti_Range_def Some option.case
    by (subst ti_visit_live [OF assms(1), where g = "\<lambda>k r (ks, rs). (ks @ [k], rs @ [r])" and at = at])
       (auto simp: item_hist [OF assms] range_keys_def fold_snoc_map split: option.split)
qed

lemma ti_CountRevisions_hist:
  assumes "btree_laws B" "ti_inv B t"
  shows "ti_CountRevisions B key e at t = Some (length (range_keys B t key e at))"
proof (cases e)
  case None
  then show ?thesis using ti_Get_hist [OF assms, of key at] by (auto simp: ti_CountRevisions_def range_keys_def split: option.split)
next
  case (Some e')
  show ?thesis unfolding ti_CountRevisions_def Some option.case
    by (subst ti_visit_live [OF assms(1), where g = "\<lambda>k r n. n + 1" and at = at])
       (auto simp: item_hist [OF assms] range_keys_def fold_count [simplified] split: option.split)
qed

definition cut :: "int \<Rightarrow> gobytes \<Rightarrow> bytes list \<Rightarrow> bytes list" where
  "cut limit e ks = (if limit \<le> 0 \<or> e = None then ks else take (nat limit) ks)"

lemma ti_Revisions_hist:
  assumes "btree_laws B" "ti_inv B t"
  shows "ti_Revisions B key e at limit t =
    Some (map (live_rev B t at) (cut limit e (range_keys B t key e at)), length (range_keys B t key e at))"
proof (cases e)
  case None
  then show ?thesis
    using ti_Get_hist [OF assms, of key at] by (auto simp: cut_def ti_Revisions_def range_keys_def live_rev_def split: option.split)
next
  case (Some e')
  show ?thesis unfolding ti_Revisions_def Some option.case
    by (subst ti_visit_live [OF assms(1), where at = at and
          g = "\<lambda>k r (rs, n). (if limit \<le> 0 \<or> int (length rs) < limit then rs @ [r] else rs, n + 1)"])
       (auto simp: item_hist [OF assms] range_keys_def fold_limit [simplified] cut_def split: option.split)
qed

section \<open>Compaction\<close>

definition kept_revs :: "int \<Rightarrow> (bytes \<Rightarrow> kv_event list) \<Rightarrow> bytes set \<Rightarrow> revision set" where
  "kept_revs rv H ks = (\<Union>k \<in> ks. ev_rev ` set_option (hist_get rv (H k)))"

lemma compact_item:
  assumes "btree_laws B" "ti_inv B t" "get_key B t (ki_key x) = Some x"
  obtains t1 av1 where "compact_items B rv (x # items) t av = compact_items B rv items t1 av1" "ki_keep rv av x = Some av1"
    "ti_inv B t1" "\<And>r. ti_before B t r \<Longrightarrow> ti_before B t1 r"
    "ti_hist B t1 = (ti_hist B t)(ki_key x := hist_compact rv (ti_hist B t (ki_key x)))"
    "\<And>k. k \<noteq> ki_key x \<Longrightarrow> get_key B t1 k = get_key B t k"
    "av1 = av \<union> ev_rev ` set_option (hist_get rv (ti_hist B t (ki_key x)))"
proof -
  have ok: "item_ok x" by (rule get_key_ok(1) [OF assms(1,3,2)])
  have mod: "ki_modified x < r" if "ti_before B t r" for r using get_key_ok(2) [OF assms(1,3) that] .
  obtain y av1 where y: "ki_compact rv av x = Some (y, av1)" "ki_keep rv av x = Some av1" "ki_inv y" "ki_key y = ki_key x"
      "ki_modified y = ki_modified x" "ki_generations y \<noteq> []" "events y = hist_compact rv (events x)"
      "av1 = av \<union> ev_rev ` set_option (hist_get rv (events x))"
    by (rule ki_compact_events [of x rv av]) (use ok in \<open>auto simp: item_ok_def\<close>)
  have h: "ti_hist B t (ki_key x) = events x" using assms(3) by (simp add: ti_hist_def)
  define t1 where "t1 = (let t' = bt_ReplaceOrInsert B y t in if ki_isEmpty y then fst (bt_Delete B y t') else t')"
  have c: "compact_items B rv (x # items) t av = compact_items B rv items t1 av1"
    using y(1) Delete_result [OF assms(1), of y "bt_ReplaceOrInsert B y t"] get_key_Replace [OF assms(1), of y t]
    by (auto simp: t1_def Let_def split: prod.split option.split)
  have as: "set (bt_Ascend B t1) \<subseteq> set (bt_Ascend B t) \<union> (if ki_isEmpty y then {} else {y})"
    using set_insert_item [of y "bt_Ascend B t"] assms(1) by (auto simp: t1_def Let_def btree_laws_def)
  have g: "get_key B t1 k = (if k = ki_key x then if ki_isEmpty y then None else Some y else get_key B t k)" for k
    by (simp add: t1_def Let_def get_key_Delete [OF assms(1)] get_key_Replace [OF assms(1)] y(4))
  have "ti_inv B t1" using as assms(2) y(3,6) by (auto simp: ti_inv_def item_ok_def split: if_splits)
  moreover have "ti_before B t1 r" if "ti_before B t r" for r
    using as that mod [OF that] y(5) by (auto simp: ti_before_def split: if_splits)
  moreover have "ti_hist B t1 = (ti_hist B t)(ki_key x := hist_compact rv (ti_hist B t (ki_key x)))"
    using g y(7) h ki_isEmpty_iff [OF y(3,6)] by (auto simp: ti_hist_def fun_eq_iff)
  ultimately show thesis using that [OF c y(2)] g h y(8) by simp
qed

lemma compact_items_hist:
  assumes "btree_laws B" "ti_inv B t" "distinct (map ki_key items)" "\<And>x. x \<in> set items \<Longrightarrow> get_key B t (ki_key x) = Some x"
  shows "\<exists>t' av'. compact_items B rv items t av = Some (t', av') \<and> keep_items rv items av = Some av' \<and>
    ti_inv B t' \<and> (\<forall>r. ti_before B t r \<longrightarrow> ti_before B t' r) \<and>
    ti_hist B t' = (\<lambda>k. if k \<in> ki_key ` set items then hist_compact rv (ti_hist B t k) else ti_hist B t k) \<and>
    av' = av \<union> kept_revs rv (ti_hist B t) (ki_key ` set items)"
  using assms(2-4)
proof (induction items arbitrary: t av)
  case (Cons x items)
  have gx: "get_key B t (ki_key x) = Some x" using Cons.prems(3) by simp
  obtain t1 av1 where s: "compact_items B rv (x # items) t av = compact_items B rv items t1 av1" "ki_keep rv av x = Some av1"
    "ti_inv B t1" "\<And>r. ti_before B t r \<Longrightarrow> ti_before B t1 r"
    "ti_hist B t1 = (ti_hist B t)(ki_key x := hist_compact rv (ti_hist B t (ki_key x)))"
    "\<And>k. k \<noteq> ki_key x \<Longrightarrow> get_key B t1 k = get_key B t k"
    "av1 = av \<union> ev_rev ` set_option (hist_get rv (ti_hist B t (ki_key x)))"
    using compact_item [OF assms(1) Cons.prems(1) gx] by metis
  have new: "ki_key x \<notin> ki_key ` set items" using Cons.prems(2) by simp
  obtain t' av' where r: "compact_items B rv items t1 av1 = Some (t', av')" "keep_items rv items av1 = Some av'" "ti_inv B t'"
    "\<forall>r. ti_before B t1 r \<longrightarrow> ti_before B t' r"
    "ti_hist B t' = (\<lambda>k. if k \<in> ki_key ` set items then hist_compact rv (ti_hist B t1 k) else ti_hist B t1 k)"
    "av' = av1 \<union> kept_revs rv (ti_hist B t1) (ki_key ` set items)"
  proof -
    have "get_key B t1 (ki_key y) = Some y" if "y \<in> set items" for y
      using Cons.prems(3) [of y] s(6) [of "ki_key y"] new that by (metis imageI list.set_intros(2))
    moreover have "distinct (map ki_key items)" using Cons.prems(2) by simp
    ultimately show thesis using Cons.IH [OF s(3), of av1] that by blast
  qed
  have "kept_revs rv (ti_hist B t1) (ki_key ` set items) = kept_revs rv (ti_hist B t) (ki_key ` set items)"
    unfolding kept_revs_def using s(5) new by (intro SUP_cong refl) (metis fun_upd_other)
  then show ?case using r s(1,2,4,5,7) new by (auto simp: kept_revs_def fun_eq_iff)
qed (simp add: kept_revs_def)

lemma ti_Compact_hist:
  assumes "btree_laws B" "ti_inv B t"
  obtains t' where "ti_Compact B rv t = Some (t', kept_revs rv (ti_hist B t) UNIV)" "ti_Keep B rv t = Some (kept_revs rv (ti_hist B t) UNIV)"
    "ti_inv B t'" "\<And>r. ti_before B t r \<Longrightarrow> ti_before B t' r" "ti_hist B t' = (\<lambda>k. hist_compact rv (ti_hist B t k))"
proof -
  let ?xs = "bt_Ascend B t"
  have "sorted_wrt (<) (map ki_key ?xs)"
    using Ascend_sorted [OF assms(1), of t] unfolding sorted_wrt_map by (rule sorted_wrt_mono_rel [rotated]) (simp add: ki_Less_def)
  then have d: "distinct (map ki_key ?xs)" by (simp add: strict_sorted_iff)
  have g: "get_key B t (ki_key x) = Some x" if "x \<in> set ?xs" for x using that by (simp add: get_key_iff [OF assms(1)])
  have out: "ti_hist B t k = []" if "k \<notin> ki_key ` set ?xs" for k
    by (rule ti_hist_outside [OF assms(1) that])
  have "k \<in> ki_key ` set ?xs" if "e \<in> set_option (hist_get rv (ti_hist B t k))" for k e
    using that out [of k] by (cases "k \<in> ki_key ` set ?xs") simp_all
  then have k: "kept_revs rv (ti_hist B t) (ki_key ` set ?xs) = kept_revs rv (ti_hist B t) UNIV"
    unfolding kept_revs_def by blast
  have h: "(if k \<in> ki_key ` set ?xs then hist_compact rv (ti_hist B t k) else ti_hist B t k) = hist_compact rv (ti_hist B t k)" for k
    using out [of k] by (auto simp: hist_compact_def hist_get_def)
  from compact_items_hist [OF assms d g, of rv "{}"] show thesis
    unfolding k h using that by (auto simp: ti_Compact_def ti_Keep_def)
qed

section \<open>A tree that keeps the laws\<close>

text \<open>
  A list of insertions, newest first, put in order when it is read: it shows that the laws of the tree can
  be met and serves to run the index.
\<close>

definition list_items :: "keyIndex list \<Rightarrow> keyIndex list" where
  "list_items t = foldr insert_item t []"

definition list_btree :: "keyIndex list btree" where
  "list_btree = \<lparr>bt_New = \<lambda>_. [], bt_Get = \<lambda>t k. by_key (ki_key k) (list_items t), bt_ReplaceOrInsert = (#),
     bt_Delete = \<lambda>k t. (filter (\<lambda>x. ki_key x \<noteq> ki_key k) t, by_key (ki_key k) (list_items t)),
     bt_Ascend = list_items, bt_AscendGreaterOrEqual = \<lambda>k t. filter (\<lambda>x. \<not> ki_Less x k) (list_items t),
     bt_Len = \<lambda>t. length (list_items t)\<rparr>"

lemma insert_item_sorted: "sorted_wrt ki_Less xs \<Longrightarrow> sorted_wrt ki_Less (insert_item k xs)"
proof (induction xs)
  case (Cons x xs)
  then show ?case using set_insert_item [of k xs] by (auto simp: ki_Less_def not_less_iff_gr_or_eq dest: order_less_trans)
qed simp

lemma list_items_sorted: "sorted_wrt ki_Less (list_items t)"
  by (induction t) (simp_all add: list_items_def insert_item_sorted)

lemma insert_item_front: "\<forall>x \<in> set xs. ki_key k < ki_key x \<Longrightarrow> insert_item k xs = k # xs"
  by (cases xs) auto

lemma filter_insert_item:
  assumes "sorted_wrt ki_Less xs"
  shows "filter (\<lambda>x. ki_key x \<noteq> key) (insert_item k xs) =
    (if ki_key k = key then filter (\<lambda>x. ki_key x \<noteq> key) xs else insert_item k (filter (\<lambda>x. ki_key x \<noteq> key) xs))"
  using assms
proof (induction xs)
  case (Cons x xs)
  have "insert_item k (filter (\<lambda>x. ki_key x \<noteq> key) xs) = k # filter (\<lambda>x. ki_key x \<noteq> key) xs" if "ki_key k \<le> ki_key x"
    using Cons.prems that by (intro insert_item_front) (auto simp: ki_Less_def)
  then show ?case using Cons by auto
qed simp

lemma list_items_filter: "list_items (filter (\<lambda>x. ki_key x \<noteq> key) t) = filter (\<lambda>x. ki_key x \<noteq> key) (list_items t)"
proof (induction t)
  case (Cons k t)
  have "sorted_wrt ki_Less (list_items t)" by (rule list_items_sorted)
  from filter_insert_item [OF this, of key k] Cons show ?case by (simp add: list_items_def)
qed (simp add: list_items_def)

lemma list_btree_laws: "btree_laws list_btree"
  by (simp add: btree_laws_def list_btree_def list_items_sorted list_items_filter) (simp add: list_items_def)

section \<open>Properties\<close>

datatype index_op = IPut bytes revision | ITombstone bytes revision | ICompact int

fun ti_op :: "'t btree \<Rightarrow> index_op \<Rightarrow> 't \<Rightarrow> 't option" where
  "ti_op B (IPut key r) t = ti_Put B key r t"
| "ti_op B (ITombstone key r) t =
     do { res \<leftarrow> ti_Tombstone B key r t; Some (case res of Inl _ \<Rightarrow> t | Inr t \<Rightarrow> t) }"
| "ti_op B (ICompact rv) t = do { (t, _) \<leftarrow> ti_Compact B rv t; Some t }"

fun ti_ops :: "'t btree \<Rightarrow> index_op list \<Rightarrow> 't \<Rightarrow> 't option" where
  "ti_ops B [] t = Some t"
| "ti_ops B (op # ops) t = do { t \<leftarrow> ti_op B op t; ti_ops B ops t }"

text \<open>The specification: a history per key, empty at first.\<close>

fun hist_op :: "index_op \<Rightarrow> (bytes \<Rightarrow> kv_event list) \<Rightarrow> bytes \<Rightarrow> kv_event list" where
  "hist_op (IPut key r) H = H(key := H key @ [hist_next r False (H key)])"
| "hist_op (ITombstone key r) H = (if hist_alive (H key) then H(key := H key @ [hist_next r True (H key)]) else H)"
| "hist_op (ICompact rv) H = (\<lambda>key. hist_compact rv (H key))"

fun op_revs :: "index_op \<Rightarrow> revision list" where
  "op_revs (IPut key r) = [r]"
| "op_revs (ITombstone key r) = [r]"
| "op_revs (ICompact rv) = []"

definition ops_ok :: "index_op list \<Rightarrow> bool" where
  "ops_ok ops \<longleftrightarrow> sorted_wrt (<) (concat (map op_revs ops)) \<and> (\<forall>r \<in> set (concat (map op_revs ops)). 0 < main r)"

lemma ti_op_hist:
  assumes "btree_laws B" "ti_inv B t" "\<And>r. r \<in> set (op_revs op) \<Longrightarrow> ti_before B t r \<and> 0 < main r"
  shows "\<exists>t'. ti_op B op t = Some t' \<and> ti_inv B t' \<and> ti_hist B t' = hist_op op (ti_hist B t) \<and>
    (\<forall>r. ti_before B t r \<and> (\<forall>r' \<in> set (op_revs op). r' < r) \<longrightarrow> ti_before B t' r)"
proof (cases op)
  case (IPut key r)
  obtain t' where "ti_Put B key r t = Some t'" "ti_inv B t'" "\<And>r'. r < r' \<Longrightarrow> ti_before B t' r'"
    "ti_hist B t' = (ti_hist B t)(key := ti_hist B t key @ [hist_next r False (ti_hist B t key)])"
    by (rule ti_Put_hist [OF assms(1,2), of r key]) (use assms(3) IPut in auto)
  then show ?thesis using IPut by simp
next
  case (ITombstone key r)
  then show ?thesis
    using ti_Tombstone_hist [OF assms(1,2), of r key] assms(2,3) by (auto split: if_splits)
next
  case (ICompact rv)
  obtain t' where "ti_Compact B rv t = Some (t', kept_revs rv (ti_hist B t) UNIV)" "ti_inv B t'"
    "\<And>r. ti_before B t r \<Longrightarrow> ti_before B t' r" "ti_hist B t' = (\<lambda>k. hist_compact rv (ti_hist B t k))"
    using ti_Compact_hist [OF assms(1,2), of rv] by blast
  then show ?thesis using ICompact by simp
qed

lemma ti_ops_hist:
  assumes "btree_laws B"
  shows "\<lbrakk>ti_inv B t; ops_ok ops; \<And>r. r \<in> set (concat (map op_revs ops)) \<Longrightarrow> ti_before B t r\<rbrakk> \<Longrightarrow>
    \<exists>t'. ti_ops B ops t = Some t' \<and> ti_inv B t' \<and> ti_hist B t' = fold hist_op ops (ti_hist B t)"
proof (induction ops arbitrary: t)
  case (Cons op ops)
  have "ti_before B t r \<and> 0 < main r" if "r \<in> set (op_revs op)" for r
    using Cons.prems(2) Cons.prems(3) [of r] that by (auto simp: ops_ok_def)
  then obtain t1 where
    t1: "ti_op B op t = Some t1" "ti_inv B t1" "ti_hist B t1 = hist_op op (ti_hist B t)"
      "\<And>r. ti_before B t r \<Longrightarrow> (\<forall>r' \<in> set (op_revs op). r' < r) \<Longrightarrow> ti_before B t1 r"
    using ti_op_hist [OF assms Cons.prems(1), of op] by auto
  have "ti_before B t1 r" if r: "r \<in> set (concat (map op_revs ops))" for r
    using Cons.prems(2) Cons.prems(3) [of r] r by (intro t1(4)) (auto simp: ops_ok_def sorted_wrt_append)
  moreover have "ops_ok ops" using Cons.prems(2) by (auto simp: ops_ok_def sorted_wrt_append)
  ultimately show ?case using Cons.IH [OF t1(2)] t1(1,3) by auto
qed simp

lemma new_index: "btree_laws B \<Longrightarrow> ti_inv B (newTreeIndex B)" "btree_laws B \<Longrightarrow> ti_before B (newTreeIndex B) r"
  "btree_laws B \<Longrightarrow> ti_hist B (newTreeIndex B) = (\<lambda>_. [])"
  by (simp_all add: newTreeIndex_def ti_inv_def ti_before_def ti_hist_def get_key_New fun_eq_iff) (simp_all add: btree_laws_def)

text \<open>
  (C19) The index of the store keeps the history of every key. After any sequence of puts, tombstones and
  compactions, the changes in the order of their revisions, a lookup at any revision finds what the
  histories say: the last change of the key not after the revision, with the revision that created
  the key and its version, or nothing if there is none or it is a deletion.
\<close>

theorem index_refines_histories:
  assumes "btree_laws B" "ops_ok ops"
  shows "\<exists>t. ti_ops B ops (newTreeIndex B) = Some t \<and>
    (\<forall>key at. ti_Get B key at t = Some (case hist_get at (fold hist_op ops (\<lambda>_. []) key) of
       None \<Rightarrow> Inl ErrRevisionNotFound | Some e \<Rightarrow> Inr (version_of e)))"
  using ti_ops_hist [OF assms(1) new_index(1) assms(2) new_index(2)] assms(1) new_index(3) [OF assms(1)]
  by (auto simp: ti_Get_hist [OF assms(1)])

definition run_index_ops :: "index_op list" where
  "run_index_ops = [IPut [1] (Revision 2 0), IPut [2] (Revision 3 0), IPut [1] (Revision 3 1), ITombstone [1] (Revision 4 0),
     ICompact 3, IPut [1] (Revision 5 0)]"

theorem index_refines_histories_witness:
  "\<exists>t. ti_ops list_btree run_index_ops (newTreeIndex list_btree) = Some t \<and>
     ti_Get list_btree [1] 3 t = Some (Inr (Revision 3 1, Revision 2 0, 2)) \<and>
     ti_Get list_btree [1] 4 t = Some (Inl ErrRevisionNotFound) \<and>
     ti_Get list_btree [1] 9 t = Some (Inr (Revision 5 0, Revision 5 0, 1))"
proof -
  have "ops_ok run_index_ops" by (simp add: ops_ok_def run_index_ops_def less_revision_def)
  from index_refines_histories [OF list_btree_laws this] obtain t where
    t: "ti_ops list_btree run_index_ops (newTreeIndex list_btree) = Some t"
      "\<And>key at. ti_Get list_btree key at t = Some (case hist_get at (fold hist_op run_index_ops (\<lambda>_. []) key) of
         None \<Rightarrow> Inl ErrRevisionNotFound | Some e \<Rightarrow> Inr (version_of e))" by blast
  show ?thesis
    by (intro exI conjI, rule t(1), unfold t(2))
       (simp_all add: run_index_ops_def hist_next_def hist_compact_def hist_get_def hist_alive_def)
qed

lemma events_revs: "map ev_rev (events ki) = ki_revs ki"
  by (cases "ki_generations ki" rule: rev_cases)
     (simp_all add: events_def events_of_def ki_revs_def map_concat o_def gen_events_revs)

lemma ti_hist_sorted:
  assumes "btree_laws B" "ti_inv B t"
  shows "ev_sorted (ti_hist B t key)"
proof (cases "get_key B t key")
  case (Some ki)
  then have "sorted_wrt (<) (map ev_rev (events ki))"
    using get_key_ok(1) [OF assms(1) Some assms(2)] by (simp add: events_revs item_ok_def ki_inv_def)
  then show ?thesis
    using Some unfolding sorted_wrt_map by (auto simp: ti_hist_def elim!: sorted_wrt_mono_rel [rotated] intro: main_mono)
qed (simp add: ti_hist_def)

text \<open>
  (C20) Compacting the index at a revision changes no lookup at that or a later revision. The revisions it
  reports to be kept are exactly those that a lookup at the compaction revision finds, and \<^verbatim>\<open>Keep\<close>
  predicts them.
\<close>

theorem index_compaction_preserves_reads:
  assumes "btree_laws B" "ti_inv B t"
  shows "\<exists>t' av. ti_Compact B rv t = Some (t', av) \<and> ti_Keep B rv t = Some av \<and> ti_inv B t' \<and>
    av = {r. \<exists>key c v. ti_Get B key rv t = Some (Inr (r, c, v))} \<and>
    (\<forall>key at. rv \<le> at \<longrightarrow> ti_Get B key at t' = ti_Get B key at t)"
proof -
  obtain t' where c: "ti_Compact B rv t = Some (t', kept_revs rv (ti_hist B t) UNIV)"
    "ti_Keep B rv t = Some (kept_revs rv (ti_hist B t) UNIV)" "ti_inv B t'" "ti_hist B t' = (\<lambda>k. hist_compact rv (ti_hist B t k))"
    using ti_Compact_hist [OF assms, of rv] by blast
  have "kept_revs rv (ti_hist B t) UNIV = {r. \<exists>key c v. ti_Get B key rv t = Some (Inr (r, c, v))}"
    by (auto simp: kept_revs_def ti_Get_hist [OF assms] split: option.splits)
  then show ?thesis
    using c ti_Get_hist [OF assms] ti_Get_hist [OF assms(1) c(3)] hist_get_compact [OF ti_hist_sorted [OF assms]] by auto
qed

text \<open>
  A range query answers for the keys of the half-open range (without end if the end is empty) that
  exist at the revision, in increasing order: their revisions, cut to the limit if there is one, and
  how many there are. \<^verbatim>\<open>Range\<close>, \<^verbatim>\<open>Revisions\<close> and \<^verbatim>\<open>CountRevisions\<close> agree.
\<close>

theorem index_range_spec:
  assumes "btree_laws B" "ti_inv B t"
  shows "\<exists>ks rs. sorted_wrt (<) ks \<and>
    set ks = {k. key \<le> k \<and> (e = [] \<or> k < e) \<and> (\<exists>v. ti_Get B k at t = Some (Inr v))} \<and>
    list_all2 (\<lambda>k r. \<exists>c v. ti_Get B k at t = Some (Inr (r, c, v))) ks rs \<and>
    ti_Range B key (Some e) at t = Some (ks, rs) \<and>
    ti_Revisions B key (Some e) at limit t = Some (if limit \<le> 0 then rs else take (nat limit) rs, length ks) \<and>
    ti_CountRevisions B key (Some e) at t = Some (length ks)"
proof (intro exI conjI)
  let ?ks = "live_keys B t key e at" and ?rs = "map (live_rev B t at) (live_keys B t key e at)"
  show "sorted_wrt (<) ?ks" by (rule live_keys_spec [OF assms(1)])
  have live: "(\<exists>v. ti_Get B k at t = Some (Inr v)) \<longleftrightarrow> hist_get at (ti_hist B t k) \<noteq> None" for k
    by (auto simp: ti_Get_hist [OF assms] split: option.split)
  show "set ?ks = {k. key \<le> k \<and> (e = [] \<or> k < e) \<and> (\<exists>v. ti_Get B k at t = Some (Inr v))}"
    unfolding live live_keys_spec(2) [OF assms(1)] by (auto simp: in_range_def)
  show "list_all2 (\<lambda>k r. \<exists>c v. ti_Get B k at t = Some (Inr (r, c, v))) ?ks ?rs"
    using live_keys_spec(2) [OF assms(1)] by (auto simp: list_all2_map2 live_rev_def ti_Get_hist [OF assms] intro!: list_all2_same [THEN iffD2])
qed (simp_all add: ti_Range_hist [OF assms] ti_Revisions_hist [OF assms] ti_CountRevisions_hist [OF assms] range_keys_def cut_def
      take_map)

definition run_index :: "keyIndex list option" where
  "run_index = ti_ops list_btree run_index_ops (newTreeIndex list_btree)"

lemma run_index_ok: "\<exists>t. run_index = Some t \<and> ti_inv list_btree t"
proof -
  have ok: "ops_ok run_index_ops" by (simp add: ops_ok_def run_index_ops_def less_revision_def)
  note L = list_btree_laws
  show ?thesis unfolding run_index_def using ti_ops_hist [OF L new_index(1) [OF L] ok new_index(2) [OF L]] by blast
qed

theorem index_compaction_preserves_reads_witness:
  "\<exists>t t' av. run_index = Some t \<and> ti_Compact list_btree 4 t = Some (t', av) \<and> ti_inv list_btree t' \<and>
     ti_Get list_btree [2] 5 t' = ti_Get list_btree [2] 5 t"
proof -
  obtain t where t: "run_index = Some t" "ti_inv list_btree t" using run_index_ok by blast
  from index_compaction_preserves_reads [OF list_btree_laws t(2), of 4] obtain t' av where
    "ti_Compact list_btree 4 t = Some (t', av)" "ti_inv list_btree t'"
    "\<And>key at. 4 \<le> at \<Longrightarrow> ti_Get list_btree key at t' = ti_Get list_btree key at t" by blast
  then show ?thesis using t(1) by auto
qed

theorem index_range_spec_witness:
  "\<exists>t (ks :: bytes list). run_index = Some t \<and> sorted_wrt (<) ks \<and> ti_CountRevisions list_btree [1] (Some [3]) 5 t = Some (length ks)"
proof -
  obtain t where t: "run_index = Some t" "ti_inv list_btree t" using run_index_ok by blast
  from index_range_spec [OF list_btree_laws t(2), of "[1]" "[3]" 5 1] show ?thesis
    using t(1) by blast
qed

end
