(* ===== verification/Kv_Pb.thy ===== *)
theory Kv_Pb
  imports Codec_Messages Mvcc_Revision
begin

unbundle bit_operations_syntax

text \<open>
  \<^verbatim>\<open>api/mvccpb/kv.pb.go\<close>: the key-value pairs that the store writes to its backend and the events it sends
  to watchers, with their sizes, encoders and decoders. The generated code is the one of \<^verbatim>\<open>raftpb\<close>, down to
  its helpers (\<^verbatim>\<open>sovKv\<close>, \<^verbatim>\<open>encodeVarintKv\<close>, \<^verbatim>\<open>skipKv\<close>), except that fields with the zero value are not written
  and the bytes of unknown fields are kept in \<^verbatim>\<open>XXX_unrecognized\<close>. The two types are codecs.
\<close>

section \<open>The messages\<close>

record KeyValue =
  kv_Key :: gobytes
  kv_CreateRevision :: int
  kv_ModRevision :: int
  kv_Version :: int
  kv_Value :: gobytes
  kv_Lease :: int
  kv_unrecognized :: gobytes

definition zero_KeyValue :: KeyValue where
  "zero_KeyValue = \<lparr>kv_Key = None, kv_CreateRevision = 0, kv_ModRevision = 0, kv_Version = 0, kv_Value = None,
     kv_Lease = 0, kv_unrecognized = None\<rparr>"

datatype EventType = PUT | DELETE | EventTypeOther "32 word"

fun EventType_value :: "EventType \<Rightarrow> 32 word" where
  "EventType_value PUT = 0"
| "EventType_value DELETE = 1"
| "EventType_value (EventTypeOther w) = w"

definition EventType_of :: "32 word \<Rightarrow> EventType" where
  "EventType_of w = (if w = 0 then PUT else if w = 1 then DELETE else EventTypeOther w)"

record mvcc_Event =
  ev_Type :: EventType
  ev_Kv :: "KeyValue option"
  ev_PrevKv :: "KeyValue option"
  ev_unrecognized :: gobytes

definition zero_Event :: mvcc_Event where
  "zero_Event = \<lparr>ev_Type = PUT, ev_Kv = None, ev_PrevKv = None, ev_unrecognized = None\<rparr>"

section \<open>Sizes and writing\<close>

definition nonzero_Size :: "u64 \<Rightarrow> nat" where
  "nonzero_Size v = (if v \<noteq> 0 then 1 + sovRaft v else 0)"

definition nonempty_Size :: "gobytes \<Rightarrow> nat" where
  "nonempty_Size b = (if blen b > 0 then 1 + blen b + sovRaft (of_nat (blen b)) else 0)"

definition unrecognized_Size :: "gobytes \<Rightarrow> nat" where
  "unrecognized_Size b = (case b of None \<Rightarrow> 0 | Some b \<Rightarrow> length b)"

definition KeyValue_Size :: "KeyValue \<Rightarrow> nat" where
  "KeyValue_Size m =
     nonempty_Size (kv_Key m) + nonzero_Size (word_of_int (kv_CreateRevision m)) +
     nonzero_Size (word_of_int (kv_ModRevision m)) + nonzero_Size (word_of_int (kv_Version m)) +
     nonempty_Size (kv_Value m) + nonzero_Size (word_of_int (kv_Lease m)) + unrecognized_Size (kv_unrecognized m)"

definition put_nonzero :: "byte \<Rightarrow> u64 \<Rightarrow> cursor \<Rightarrow> cursor option" where
  "put_nonzero tag v c = (if v \<noteq> 0 then put_varint tag v c else Some c)"

definition put_nonempty :: "byte \<Rightarrow> gobytes \<Rightarrow> cursor \<Rightarrow> cursor option" where
  "put_nonempty tag b c =
     (if blen b > 0
      then do {
        c \<leftarrow> put_bytes (str_of b) c;
        c \<leftarrow> encodeVarintRaft (of_nat (blen b)) c;
        put_byte tag c
      }
      else Some c)"

definition put_unrecognized :: "gobytes \<Rightarrow> cursor \<Rightarrow> cursor option" where
  "put_unrecognized b c = (case b of None \<Rightarrow> Some c | Some b \<Rightarrow> put_bytes b c)"

definition KeyValue_MarshalToSizedBuffer :: "KeyValue \<Rightarrow> bytes \<Rightarrow> (bytes \<times> nat) option" where
  "KeyValue_MarshalToSizedBuffer m = sized_buffer (\<lambda>c. do {
       c \<leftarrow> put_unrecognized (kv_unrecognized m) c;
       c \<leftarrow> put_nonzero 0x30 (word_of_int (kv_Lease m)) c;
       c \<leftarrow> put_nonempty 0x2A (kv_Value m) c;
       c \<leftarrow> put_nonzero 0x20 (word_of_int (kv_Version m)) c;
       c \<leftarrow> put_nonzero 0x18 (word_of_int (kv_ModRevision m)) c;
       c \<leftarrow> put_nonzero 0x10 (word_of_int (kv_CreateRevision m)) c;
       put_nonempty 0xA (kv_Key m) c
     })"

definition KeyValue_Marshal :: "KeyValue \<Rightarrow> bytes option" where
  "KeyValue_Marshal m = marshal (KeyValue_Size m) (KeyValue_MarshalToSizedBuffer m)"

definition KeyValue_MarshalTo :: "KeyValue \<Rightarrow> bytes \<Rightarrow> (bytes \<times> nat) option" where
  "KeyValue_MarshalTo m = marshal_to (KeyValue_Size m) (KeyValue_MarshalToSizedBuffer m)"

definition event_type_u64 :: "EventType \<Rightarrow> u64" where
  "event_type_u64 t = scast (EventType_value t)"

definition pointer_Size :: "KeyValue option \<Rightarrow> nat" where
  "pointer_Size kv = (case kv of None \<Rightarrow> 0 | Some kv \<Rightarrow> nested_Size (KeyValue_Size kv))"

definition Event_Size :: "mvcc_Event \<Rightarrow> nat" where
  "Event_Size m =
     nonzero_Size (event_type_u64 (ev_Type m)) + pointer_Size (ev_Kv m) + pointer_Size (ev_PrevKv m) +
     unrecognized_Size (ev_unrecognized m)"

definition put_pointer :: "byte \<Rightarrow> KeyValue option \<Rightarrow> cursor \<Rightarrow> cursor option" where
  "put_pointer tag kv c =
     (case kv of None \<Rightarrow> Some c | Some kv \<Rightarrow> put_nested (KeyValue_MarshalToSizedBuffer kv) tag c)"

definition Event_MarshalToSizedBuffer :: "mvcc_Event \<Rightarrow> bytes \<Rightarrow> (bytes \<times> nat) option" where
  "Event_MarshalToSizedBuffer m = sized_buffer (\<lambda>c. do {
       c \<leftarrow> put_unrecognized (ev_unrecognized m) c;
       c \<leftarrow> put_pointer 0x1A (ev_PrevKv m) c;
       c \<leftarrow> put_pointer 0x12 (ev_Kv m) c;
       put_nonzero 0x8 (event_type_u64 (ev_Type m)) c
     })"

definition Event_Marshal :: "mvcc_Event \<Rightarrow> bytes option" where
  "Event_Marshal m = marshal (Event_Size m) (Event_MarshalToSizedBuffer m)"

definition Event_MarshalTo :: "mvcc_Event \<Rightarrow> bytes \<Rightarrow> (bytes \<times> nat) option" where
  "Event_MarshalTo m = marshal_to (Event_Size m) (Event_MarshalToSizedBuffer m)"

section \<open>Reading\<close>

definition KeyValue_keep :: "bytes \<Rightarrow> KeyValue \<Rightarrow> KeyValue" where
  "KeyValue_keep b m = m\<lparr>kv_unrecognized := Some (str_of (kv_unrecognized m) @ b)\<rparr>"

definition KeyValue_field :: "KeyValue dispatch" where
  "KeyValue_field fieldNum wireType dAtA i m =
     (if fieldNum = 1 then Some (bytes_field (\<lambda>b m. Inr (m\<lparr>kv_Key := Some b\<rparr>)) wireType dAtA i m)
      else if fieldNum = 2
      then Some (varint_field (\<lambda>w :: u64. \<lambda>m. m\<lparr>kv_CreateRevision := sint w\<rparr>) wireType dAtA i m)
      else if fieldNum = 3
      then Some (varint_field (\<lambda>w :: u64. \<lambda>m. m\<lparr>kv_ModRevision := sint w\<rparr>) wireType dAtA i m)
      else if fieldNum = 4
      then Some (varint_field (\<lambda>w :: u64. \<lambda>m. m\<lparr>kv_Version := sint w\<rparr>) wireType dAtA i m)
      else if fieldNum = 5 then Some (bytes_field (\<lambda>b m. Inr (m\<lparr>kv_Value := Some b\<rparr>)) wireType dAtA i m)
      else if fieldNum = 6
      then Some (varint_field (\<lambda>w :: u64. \<lambda>m. m\<lparr>kv_Lease := sint w\<rparr>) wireType dAtA i m)
      else None)"

definition KeyValue_Unmarshal :: "bytes \<Rightarrow> KeyValue \<Rightarrow> DecodeErr + KeyValue" where
  "KeyValue_Unmarshal dAtA m = unmarshal_loop KeyValue_keep KeyValue_field dAtA 0 m"

text \<open>A nil pointer is replaced by a new message before the nested bytes are read into it.\<close>

definition allocated :: "KeyValue option \<Rightarrow> KeyValue" where
  "allocated kv = (case kv of None \<Rightarrow> zero_KeyValue | Some kv \<Rightarrow> kv)"

definition Event_keep :: "bytes \<Rightarrow> mvcc_Event \<Rightarrow> mvcc_Event" where
  "Event_keep b m = m\<lparr>ev_unrecognized := Some (str_of (ev_unrecognized m) @ b)\<rparr>"

definition Event_field :: "mvcc_Event dispatch" where
  "Event_field fieldNum wireType dAtA i m =
     (if fieldNum = 1 then Some (varint_field (\<lambda>w m. m\<lparr>ev_Type := EventType_of w\<rparr>) wireType dAtA i m)
      else if fieldNum = 2
      then Some (bytes_field (decode_into KeyValue_Unmarshal (\<lambda>m. allocated (ev_Kv m)) (\<lambda>kv m. m\<lparr>ev_Kv := Some kv\<rparr>))
                   wireType dAtA i m)
      else if fieldNum = 3
      then Some (bytes_field (decode_into KeyValue_Unmarshal (\<lambda>m. allocated (ev_PrevKv m)) (\<lambda>kv m. m\<lparr>ev_PrevKv := Some kv\<rparr>))
                   wireType dAtA i m)
      else None)"

definition Event_Unmarshal :: "bytes \<Rightarrow> mvcc_Event \<Rightarrow> DecodeErr + mvcc_Event" where
  "Event_Unmarshal dAtA m = unmarshal_loop Event_keep Event_field dAtA 0 m"

section \<open>Key-value pairs as a codec\<close>

definition nonzero_wire :: "byte \<Rightarrow> u64 \<Rightarrow> bytes" where
  "nonzero_wire tag v = (if v \<noteq> 0 then varint_wire tag v else [])"

definition nonempty_wire :: "byte \<Rightarrow> gobytes \<Rightarrow> bytes" where
  "nonempty_wire tag b = (if blen b > 0 then bytes_wire tag (str_of b) else [])"

lemma kv_tag [simp]: "tag_of 5 2 0x2A"
  by (simp add: tag_of_def; code_simp)

lemma writes_nil: "writes [] (\<lambda>c. Some c)"
  by (simp add: writes_def)

lemma put_nonzero_writes: "writes (nonzero_wire tag v) (put_nonzero tag v)"
  using put_varint_writes [of tag v] writes_nil by (cases "v = 0") (simp_all add: nonzero_wire_def put_nonzero_def [abs_def])

lemma put_nonempty_writes: "writes (nonempty_wire tag b) (put_nonempty tag b)"
  using put_context_writes [of tag b] writes_nil
  by (cases b) (auto simp: nonempty_wire_def put_nonempty_def [abs_def] put_context_def [abs_def] context_wire_def)

lemma put_unrecognized_writes: "writes (str_of b) (put_unrecognized b)"
  using put_bytes_writes writes_nil by (cases b) (simp_all add: put_unrecognized_def [abs_def])

lemma wire_lengths [simp]:
  "length (nonzero_wire tag v) = nonzero_Size v" "length (nonempty_wire tag b) = nonempty_Size b"
  "length (str_of b) = unrecognized_Size b"
  by (simp_all add: nonzero_wire_def nonzero_Size_def nonempty_wire_def nonempty_Size_def blen_def unrecognized_Size_def str_of_def
      split: option.split)

lemma reads_nonzero:
  assumes "tag_of k 0 tag" "\<And>d i m. f k 0 d i m = Some (varint_field (\<lambda>w :: u64. put (sint w)) 0 d i m)" "int64_ok v"
  shows "reads kp f (nonzero_wire tag (word_of_int v)) (\<lambda>m. if v = 0 then m else put v m)"
proof (cases "v = 0")
  case True
  then show ?thesis using reads_nil by (simp add: nonzero_wire_def)
next
  case False
  then have "(word_of_int v :: u64) \<noteq> 0" using sint_word_of_int64 [OF assms(3)] by (metis sint_0)
  then show ?thesis
    using reads_varint [of k tag f "\<lambda>w :: u64. put (sint w)" kp "word_of_int v", OF assms(1,2)] False sint_word_of_int64 [OF assms(3)]
    by (simp add: nonzero_wire_def)
qed

lemma reads_nonempty:
  assumes "tag_of k 2 tag" "\<And>d i m. f k 2 d i m = Some (bytes_field (\<lambda>b m. Inr (put (Some b) m)) 2 d i m)"
  shows "reads kp f (nonempty_wire tag b) (\<lambda>m. if blen b = 0 then m else put b m)"
  using reads_context [of k tag f "\<lambda>b. put (Some b)" kp b, OF assms] reads_nil
  by (cases b) (auto simp: nonempty_wire_def context_wire_def)

definition KeyValue_wire :: "KeyValue \<Rightarrow> bytes" where
  "KeyValue_wire m =
     nonempty_wire 0xA (kv_Key m) @ nonzero_wire 0x10 (word_of_int (kv_CreateRevision m)) @
     nonzero_wire 0x18 (word_of_int (kv_ModRevision m)) @ nonzero_wire 0x20 (word_of_int (kv_Version m)) @
     nonempty_wire 0x2A (kv_Value m) @ nonzero_wire 0x30 (word_of_int (kv_Lease m)) @ str_of (kv_unrecognized m)"

definition KeyValue_merge :: "KeyValue \<Rightarrow> KeyValue \<Rightarrow> KeyValue" where
  "KeyValue_merge m x =
     \<lparr>kv_Key = (if blen (kv_Key m) = 0 then kv_Key x else kv_Key m),
      kv_CreateRevision = (if kv_CreateRevision m = 0 then kv_CreateRevision x else kv_CreateRevision m),
      kv_ModRevision = (if kv_ModRevision m = 0 then kv_ModRevision x else kv_ModRevision m),
      kv_Version = (if kv_Version m = 0 then kv_Version x else kv_Version m),
      kv_Value = (if blen (kv_Value m) = 0 then kv_Value x else kv_Value m),
      kv_Lease = (if kv_Lease m = 0 then kv_Lease x else kv_Lease m), kv_unrecognized = kv_unrecognized x\<rparr>"

text \<open>
  The pairs that fit the encoding: \<^verbatim>\<open>int64\<close> fields in range, nothing unrecognized. They survive if no empty
  slice is not nil.
\<close>

definition KeyValue_fits :: "KeyValue \<Rightarrow> bool" where
  "KeyValue_fits m \<longleftrightarrow> kv_unrecognized m = None \<and> int64_ok (kv_CreateRevision m) \<and> int64_ok (kv_ModRevision m) \<and>
     int64_ok (kv_Version m) \<and> int64_ok (kv_Lease m)"

definition KeyValue_ok :: "KeyValue \<Rightarrow> bool" where
  "KeyValue_ok m \<longleftrightarrow> kv_Key m \<noteq> Some [] \<and> kv_Value m \<noteq> Some [] \<and> KeyValue_fits m"

lemma KeyValue_reads:
  assumes "KeyValue_fits m"
  shows "reads KeyValue_keep KeyValue_field (KeyValue_wire m) (KeyValue_merge m)"
proof -
  let ?r = "reads KeyValue_keep KeyValue_field"
  have 1: "?r (nonempty_wire 0xA b) (\<lambda>m. if blen b = 0 then m else m\<lparr>kv_Key := b\<rparr>)" for b
    by (rule reads_nonempty [where k = 1]) (simp_all add: KeyValue_field_def)
  have 2: "?r (nonzero_wire 0x10 (word_of_int v)) (\<lambda>m. if v = 0 then m else m\<lparr>kv_CreateRevision := v\<rparr>)" if "int64_ok v" for v
    by (rule reads_nonzero [where k = 2]) (simp_all add: KeyValue_field_def that)
  have 3: "?r (nonzero_wire 0x18 (word_of_int v)) (\<lambda>m. if v = 0 then m else m\<lparr>kv_ModRevision := v\<rparr>)" if "int64_ok v" for v
    by (rule reads_nonzero [where k = 3]) (simp_all add: KeyValue_field_def that)
  have 4: "?r (nonzero_wire 0x20 (word_of_int v)) (\<lambda>m. if v = 0 then m else m\<lparr>kv_Version := v\<rparr>)" if "int64_ok v" for v
    by (rule reads_nonzero [where k = 4]) (simp_all add: KeyValue_field_def that)
  have 5: "?r (nonempty_wire 0x2A b) (\<lambda>m. if blen b = 0 then m else m\<lparr>kv_Value := b\<rparr>)" for b
    by (rule reads_nonempty [where k = 5]) (simp_all add: KeyValue_field_def)
  have 6: "?r (nonzero_wire 0x30 (word_of_int v)) (\<lambda>m. if v = 0 then m else m\<lparr>kv_Lease := v\<rparr>)" if "int64_ok v" for v
    by (rule reads_nonzero [where k = 6]) (simp_all add: KeyValue_field_def that)
  have ok: "int64_ok (kv_CreateRevision m)" "int64_ok (kv_ModRevision m)" "int64_ok (kv_Version m)" "int64_ok (kv_Lease m)"
    "str_of (kv_unrecognized m) = []"
    using assms by (simp_all add: KeyValue_fits_def)
  show ?thesis
    unfolding KeyValue_wire_def ok(5)
    by (rule reads_cong, (rule reads_comp reads_nil 1 5 2 [OF ok(1)] 3 [OF ok(2)] 4 [OF ok(3)] 6 [OF ok(4)])+)
       (simp add: KeyValue_merge_def)
qed

interpretation key_value:
  codec KeyValue_wire KeyValue_Size KeyValue_MarshalToSizedBuffer KeyValue_keep KeyValue_field KeyValue_merge zero_KeyValue KeyValue_ok
proof unfold_locales
  fix m
  show "fills (KeyValue_wire m) (KeyValue_MarshalToSizedBuffer m)"
    unfolding KeyValue_wire_def KeyValue_MarshalToSizedBuffer_def append.assoc [symmetric]
    by (intro sized_buffer_fills writes_comp put_nonzero_writes put_nonempty_writes put_unrecognized_writes)
  show "length (KeyValue_wire m) = KeyValue_Size m"
    by (simp add: KeyValue_wire_def KeyValue_Size_def)
  show "KeyValue_ok m \<Longrightarrow> KeyValue_merge m zero_KeyValue = m"
    by (cases m) (auto simp: KeyValue_merge_def KeyValue_ok_def KeyValue_fits_def zero_KeyValue_def blen_def str_of_def split: option.splits)
qed (simp add: KeyValue_ok_def KeyValue_reads)

lemma KeyValue_round_trip:
  "KeyValue_ok m \<Longrightarrow> KeyValue_Size m < 2 ^ 63 \<Longrightarrow>
     KeyValue_Marshal m = Some (KeyValue_wire m) \<and> KeyValue_Unmarshal (KeyValue_wire m) zero_KeyValue = Inr m"
  by (simp add: KeyValue_Marshal_def key_value.marshal_wire KeyValue_Unmarshal_def key_value.unmarshal_wire key_value.merge_zero)

lemma KeyValue_Marshal_wire: "KeyValue_Marshal m = Some (KeyValue_wire m)"
  by (simp add: KeyValue_Marshal_def key_value.marshal_wire)

lemma KeyValue_decode:
  "KeyValue_fits m \<Longrightarrow> KeyValue_Size m < 2 ^ 63 \<Longrightarrow> KeyValue_Unmarshal (KeyValue_wire m) x = Inr (KeyValue_merge m x)"
  using reads_all [OF KeyValue_reads] by (simp add: KeyValue_Unmarshal_def key_value.wire_length)

lemma KeyValue_Size_le: "kv_unrecognized m = None \<Longrightarrow> KeyValue_Size m \<le> blen (kv_Key m) + blen (kv_Value m) + 66"
proof -
  have z: "nonzero_Size v \<le> 11" for v using sovRaft_le [of v] by (simp add: nonzero_Size_def)
  have b: "nonempty_Size x \<le> blen x + 11" for x using sovRaft_le [of "of_nat (blen x)"] by (simp add: nonempty_Size_def)
  assume "kv_unrecognized m = None"
  then show ?thesis
    using b [of "kv_Key m"] b [of "kv_Value m"] z [of "word_of_int (kv_CreateRevision m)"] z [of "word_of_int (kv_ModRevision m)"]
      z [of "word_of_int (kv_Version m)"] z [of "word_of_int (kv_Lease m)"]
    by (simp add: KeyValue_Size_def unrecognized_Size_def)
qed

section \<open>Events as a codec\<close>

definition pointer_wire :: "byte \<Rightarrow> KeyValue option \<Rightarrow> bytes" where
  "pointer_wire tag kv = (case kv of None \<Rightarrow> [] | Some kv \<Rightarrow> bytes_wire tag (KeyValue_wire kv))"

lemma pointer_wire_length [simp]: "length (pointer_wire tag kv) = pointer_Size kv"
  by (simp add: pointer_wire_def pointer_Size_def nested_Size_def key_value.wire_length split: option.split)

lemma put_pointer_writes: "writes (pointer_wire tag kv) (put_pointer tag kv)"
  using key_value.nested_written writes_nil by (cases kv) (simp_all add: pointer_wire_def put_pointer_def [abs_def])

lemma reads_pointer:
  assumes "tag_of k 2 tag" "\<And>x. kv = Some x \<Longrightarrow> KeyValue_ok x"
    "\<And>d i x. f k 2 d i x = Some (bytes_field (decode_into KeyValue_Unmarshal (\<lambda>m. allocated (get m)) (\<lambda>x. put (Some x))) 2 d i x)"
    "\<And>m. put (get m) m = m"
  shows "reads kp f (pointer_wire tag kv)
    (\<lambda>m. put (case kv of None \<Rightarrow> get m | Some x \<Rightarrow> Some (KeyValue_merge x (allocated (get m)))) m)"
proof (cases kv)
  case None
  then show ?thesis using reads_nil assms(4) by (simp add: pointer_wire_def)
next
  case (Some x)
  have "KeyValue_Unmarshal = (\<lambda>b. unmarshal_loop KeyValue_keep KeyValue_field b 0)"
    by (simp add: fun_eq_iff KeyValue_Unmarshal_def)
  with Some show ?thesis
    using key_value.nested_read [of k tag x f "\<lambda>m. allocated (get m)" "\<lambda>x. put (Some x)", OF assms(1) assms(2)] assms(3)
    by (simp add: pointer_wire_def)
qed

definition Event_wire :: "mvcc_Event \<Rightarrow> bytes" where
  "Event_wire m = nonzero_wire 0x8 (event_type_u64 (ev_Type m)) @ pointer_wire 0x12 (ev_Kv m) @
     pointer_wire 0x1A (ev_PrevKv m) @ str_of (ev_unrecognized m)"

definition Event_merge :: "mvcc_Event \<Rightarrow> mvcc_Event \<Rightarrow> mvcc_Event" where
  "Event_merge m x = x\<lparr>ev_Type := (if event_type_u64 (ev_Type m) = 0 then ev_Type x else ev_Type m),
     ev_Kv := (case ev_Kv m of None \<Rightarrow> ev_Kv x | Some kv \<Rightarrow> Some (KeyValue_merge kv (allocated (ev_Kv x)))),
     ev_PrevKv := (case ev_PrevKv m of None \<Rightarrow> ev_PrevKv x | Some kv \<Rightarrow> Some (KeyValue_merge kv (allocated (ev_PrevKv x))))\<rparr>"

definition Event_ok :: "mvcc_Event \<Rightarrow> bool" where
  "Event_ok m \<longleftrightarrow> EventType_of (EventType_value (ev_Type m)) = ev_Type m \<and> (\<forall>kv. ev_Kv m = Some kv \<longrightarrow> KeyValue_ok kv) \<and>
     (\<forall>kv. ev_PrevKv m = Some kv \<longrightarrow> KeyValue_ok kv) \<and> ev_unrecognized m = None"

lemma event_type_there_back: "EventType_of (EventType_value t) = t \<Longrightarrow> EventType_of (ucast (event_type_u64 t)) = t"
  by (simp add: event_type_u64_def sign_there_back)

lemma event_type_zero: "EventType_of (EventType_value t) = t \<Longrightarrow> event_type_u64 t = 0 \<Longrightarrow> t = PUT"
  using event_type_there_back [of t] by (simp add: EventType_of_def)

lemma Event_reads:
  assumes "Event_ok m"
  shows "reads Event_keep Event_field (Event_wire m) (Event_merge m)"
proof -
  let ?r = "reads Event_keep Event_field"
  have "?r (varint_wire 0x8 v) (\<lambda>m. m\<lparr>ev_Type := EventType_of (ucast v)\<rparr>)" for v
    by (rule reads_varint [where k = 1]) (simp_all add: Event_field_def)
  then have 1: "?r (nonzero_wire 0x8 v) (\<lambda>m. if v = 0 then m else m\<lparr>ev_Type := EventType_of (ucast v)\<rparr>)" for v
    using reads_nil by (cases "v = 0") (simp_all add: nonzero_wire_def)
  have 2: "?r (pointer_wire 0x12 (ev_Kv m))
      (\<lambda>x. x\<lparr>ev_Kv := (case ev_Kv m of None \<Rightarrow> ev_Kv x | Some kv \<Rightarrow> Some (KeyValue_merge kv (allocated (ev_Kv x))))\<rparr>)"
    by (rule reads_pointer [where k = 2 and put = "\<lambda>kv m. m\<lparr>ev_Kv := kv\<rparr>"]) (use assms in \<open>simp_all add: Event_field_def Event_ok_def\<close>)
  have 3: "?r (pointer_wire 0x1A (ev_PrevKv m))
      (\<lambda>x. x\<lparr>ev_PrevKv := (case ev_PrevKv m of None \<Rightarrow> ev_PrevKv x | Some kv \<Rightarrow> Some (KeyValue_merge kv (allocated (ev_PrevKv x))))\<rparr>)"
    by (rule reads_pointer [where k = 3 and put = "\<lambda>kv m. m\<lparr>ev_PrevKv := kv\<rparr>"]) (use assms in \<open>simp_all add: Event_field_def Event_ok_def\<close>)
  have u: "str_of (ev_unrecognized m) = []" using assms by (simp add: Event_ok_def)
  show ?thesis
    unfolding Event_wire_def u
    by (rule reads_cong, (rule reads_comp reads_nil 1 2 3)+)
       (use assms event_type_there_back in \<open>auto simp: Event_merge_def Event_ok_def split: option.split\<close>)
qed

interpretation event:
  codec Event_wire Event_Size Event_MarshalToSizedBuffer Event_keep Event_field Event_merge zero_Event Event_ok
proof unfold_locales
  fix m
  show "fills (Event_wire m) (Event_MarshalToSizedBuffer m)"
    unfolding Event_wire_def Event_MarshalToSizedBuffer_def append.assoc [symmetric]
    by (intro sized_buffer_fills writes_comp put_nonzero_writes put_pointer_writes put_unrecognized_writes)
  show "length (Event_wire m) = Event_Size m"
    by (simp add: Event_wire_def Event_Size_def)
  show "Event_ok m \<Longrightarrow> Event_merge m zero_Event = m"
    using event_type_zero [of "ev_Type m"]
    by (cases m) (auto simp: Event_merge_def Event_ok_def zero_Event_def allocated_def key_value.merge_zero split: option.splits)
qed (rule Event_reads)

section \<open>Properties\<close>

text \<open>
  (C27) Stored key-value pairs and watch events survive their encoding: the encoder does not panic, and the
  decoder reads the message back, for fields in range and slices that are nil or not empty.
\<close>

theorem event_round_trip:
  assumes "Event_ok m" "Event_Size m < 2 ^ 63"
  shows "\<exists>bs. Event_Marshal m = Some bs \<and> length bs = Event_Size m \<and> Event_Unmarshal bs zero_Event = Inr m"
  using event.marshal_wire [of m] event.wire_length [of m] event.unmarshal_wire [OF assms, of zero_Event] event.merge_zero [OF assms(1)]
  by (simp add: Event_Marshal_def Event_Unmarshal_def)

definition run_kv :: KeyValue where
  "run_kv = zero_KeyValue\<lparr>kv_Key := Some [1, 2], kv_Value := Some [3], kv_Version := 1, kv_ModRevision := 300\<rparr>"

theorem event_round_trip_witness:
  "\<exists>bs. Event_Marshal (zero_Event\<lparr>ev_Type := DELETE, ev_Kv := Some run_kv\<rparr>) = Some bs \<and>
     Event_Unmarshal bs zero_Event = Inr (zero_Event\<lparr>ev_Type := DELETE, ev_Kv := Some run_kv\<rparr>)"
proof -
  let ?m = "zero_Event\<lparr>ev_Type := DELETE, ev_Kv := Some run_kv\<rparr>"
  have "Event_ok ?m"
    by (simp add: Event_ok_def zero_Event_def run_kv_def KeyValue_ok_def KeyValue_fits_def zero_KeyValue_def EventType_of_def int64_ok_def)
  moreover have "Event_Size ?m \<le> 200" by code_simp
  then have "Event_Size ?m < 2 ^ 63" by (rule le_less_trans) simp
  ultimately show ?thesis using event_round_trip by blast
qed

end
