(* ===== verification/Tx_Buffer.thy ===== *)
theory Tx_Buffer
  imports Mvcc_Revision
begin

text \<open>
  \<^verbatim>\<open>server/storage/backend/tx_buffer.go\<close>: the buffers through which readers see the writes of a batch
  transaction before it is committed to the database. A bucket buffer is an array of key-value pairs of
  which the first \<open>used\<close> count; a read buffer finds a key by binary search (\<^verbatim>\<open>sort.Search\<close>), so it has to be
  kept in order. \<^verbatim>\<open>sort.Stable\<close> is the library's stable sort; \<^verbatim>\<open>sort.Sort\<close>, which may order equal keys in any
  way, is a parameter with the hypothesis \<open>sort_law\<close>. The two results of a range, keys and values, are one
  list of pairs.
\<close>

section \<open>Bucket buffers\<close>

type_synonym kv = "bytes \<times> bytes"

record bucketBuffer =
  bb_buf :: "kv list"
  bb_used :: nat

definition bucketBufferInitialSize :: nat where
  "bucketBufferInitialSize = 512"

definition newBucketBuffer :: bucketBuffer where
  "newBucketBuffer = \<lparr>bb_buf = replicate bucketBufferInitialSize ([], []), bb_used = 0\<rparr>"

text \<open>\<^verbatim>\<open>sort.Search\<close>; the predicate may panic.\<close>

function search_loop :: "(nat \<Rightarrow> bool option) \<Rightarrow> nat \<Rightarrow> nat \<Rightarrow> nat option" where
  "search_loop f i j =
     (if i < j
      then do {
        ok \<leftarrow> f ((i + j) div 2);
        if \<not> ok then search_loop f ((i + j) div 2 + 1) j else search_loop f i ((i + j) div 2)
      }
      else Some i)"
  by pat_completeness auto
termination by (relation "measure (\<lambda>(f, i, j). j - i)") auto

definition sort_Search :: "nat \<Rightarrow> (nat \<Rightarrow> bool option) \<Rightarrow> nat option" where
  "sort_Search n f = search_loop f 0 n"

function bb_range_loop :: "kv list \<Rightarrow> nat \<Rightarrow> bytes \<Rightarrow> int \<Rightarrow> nat \<Rightarrow> kv list \<Rightarrow> kv list option" where
  "bb_range_loop buf used endKey limit i kvs =
     (if i < used \<and> int (length kvs) < limit
      then do {
        p \<leftarrow> go_index buf i;
        if endKey \<le> fst p then Some kvs else bb_range_loop buf used endKey limit (i + 1) (kvs @ [p])
      }
      else Some kvs)"
  by pat_completeness auto
termination by (relation "measure (\<lambda>(buf, used, endKey, limit, i, kvs). used - i)") auto

definition bb_search :: "bytes \<Rightarrow> bucketBuffer \<Rightarrow> nat option" where
  "bb_search k bb = sort_Search (bb_used bb) (\<lambda>i. do { p \<leftarrow> go_index (bb_buf bb) i; Some (k \<le> fst p) })"

definition bb_Range :: "bytes \<Rightarrow> gobytes \<Rightarrow> int \<Rightarrow> bucketBuffer \<Rightarrow> kv list option" where
  "bb_Range key endKey limit bb =
     do {
       idx \<leftarrow> bb_search key bb;
       if idx \<ge> bb_used bb then Some []
       else do {
         p \<leftarrow> go_index (bb_buf bb) idx;
         if blen endKey = 0 then Some (if key = fst p then [p] else [])
         else if str_of endKey \<le> fst p then Some []
         else bb_range_loop (bb_buf bb) (bb_used bb) (str_of endKey) limit idx []
       }
     }"

text \<open>A visitor changes the state of its closure and may stop with an error.\<close>

fun visit_kvs :: "(kv \<Rightarrow> 's \<Rightarrow> 'e + 's) \<Rightarrow> kv list \<Rightarrow> 's \<Rightarrow> 'e + 's" where
  "visit_kvs visitor [] s = Inr s"
| "visit_kvs visitor (p # ps) s = (case visitor p s of Inl e \<Rightarrow> Inl e | Inr s \<Rightarrow> visit_kvs visitor ps s)"

definition bb_items :: "bucketBuffer \<Rightarrow> kv list" where
  "bb_items bb = take (bb_used bb) (bb_buf bb)"

definition bb_ForEach :: "(kv \<Rightarrow> 's \<Rightarrow> 'e + 's) \<Rightarrow> bucketBuffer \<Rightarrow> 's \<Rightarrow> ('e + 's) option" where
  "bb_ForEach visitor bb s =
     (if bb_used bb \<le> length (bb_buf bb) then Some (visit_kvs visitor (bb_items bb) s) else None)"

definition bb_add :: "kv \<Rightarrow> bucketBuffer \<Rightarrow> bucketBuffer option" where
  "bb_add p bb =
     do {
       buf \<leftarrow> go_update (bb_buf bb) (bb_used bb) p;
       let used = bb_used bb + 1;
       Some (if used = length buf
             then \<lparr>bb_buf = buf @ replicate (3 * length buf div 2 - length buf) ([], []), bb_used = used\<rparr>
             else \<lparr>bb_buf = buf, bb_used = used\<rparr>)
     }"

fun bb_add_all :: "kv list \<Rightarrow> bucketBuffer \<Rightarrow> bucketBuffer option" where
  "bb_add_all [] bb = Some bb"
| "bb_add_all (p # ps) bb = do { bb \<leftarrow> bb_add p bb; bb_add_all ps bb }"

definition bb_Stable :: "bucketBuffer \<Rightarrow> bucketBuffer" where
  "bb_Stable bb = bb\<lparr>bb_buf := sort_key fst (bb_items bb) @ drop (bb_used bb) (bb_buf bb)\<rparr>"

function dedupe_loop :: "nat \<Rightarrow> nat \<Rightarrow> nat \<Rightarrow> kv list \<Rightarrow> (kv list \<times> nat) option" where
  "dedupe_loop used ridx widx buf =
     (if ridx < used
      then do {
        r \<leftarrow> go_index buf ridx;
        w \<leftarrow> go_index buf widx;
        let widx = (if fst r \<noteq> fst w then widx + 1 else widx);
        buf \<leftarrow> go_update buf widx r;
        dedupe_loop used (ridx + 1) widx buf
      }
      else Some (buf, widx))"
  by pat_completeness auto
termination by (relation "measure (\<lambda>(used, ridx, widx, buf). used - ridx)") auto

definition bb_merge :: "bucketBuffer \<Rightarrow> bucketBuffer \<Rightarrow> bucketBuffer option" where
  "bb_merge bbsrc bb =
     (if bb_used bbsrc \<le> length (bb_buf bbsrc)
      then do {
        bb \<leftarrow> bb_add_all (bb_items bbsrc) bb;
        if bb_used bb = bb_used bbsrc then Some bb
        else do {
          l \<leftarrow> go_index (bb_buf bb) (bb_used bb - bb_used bbsrc - 1);
          f \<leftarrow> go_index (bb_buf bbsrc) 0;
          if fst l < fst f then Some bb
          else do {
            let bb = bb_Stable bb;
            (buf, widx) \<leftarrow> dedupe_loop (bb_used bb) 1 0 (bb_buf bb);
            Some \<lparr>bb_buf = buf, bb_used = widx + 1\<rparr>
          }
        }
      }
      else None)"

definition bb_Copy :: "bucketBuffer \<Rightarrow> bucketBuffer" where
  "bb_Copy bb = \<lparr>bb_buf = bb_buf bb, bb_used = bb_used bb\<rparr>"

section \<open>Buffers of a transaction\<close>

text \<open>The buffers of the buckets, by the identifier of the bucket.\<close>

type_synonym txBuffer = "(int, bucketBuffer) mapping"

definition txb_reset :: "txBuffer \<Rightarrow> txBuffer" where
  "txb_reset bs = Mapping.map_values (\<lambda>k v. v\<lparr>bb_used := 0\<rparr>) (Mapping.filter (\<lambda>k v. bb_used v \<noteq> 0) bs)"

record txWriteBuffer =
  txw_buckets :: txBuffer
  txw_bucket2seq :: "(int, bool) mapping"

record txReadBuffer =
  txr_buckets :: txBuffer
  txr_bufVersion :: nat

definition putInternal :: "int \<Rightarrow> kv \<Rightarrow> txWriteBuffer \<Rightarrow> txWriteBuffer option" where
  "putInternal bucket p txw =
     do {
       let b = (case Mapping.lookup (txw_buckets txw) bucket of None \<Rightarrow> newBucketBuffer | Some b \<Rightarrow> b);
       b \<leftarrow> bb_add p b;
       Some (txw\<lparr>txw_buckets := Mapping.update bucket b (txw_buckets txw)\<rparr>)
     }"

definition txw_put :: "int \<Rightarrow> kv \<Rightarrow> txWriteBuffer \<Rightarrow> txWriteBuffer option" where
  "txw_put bucket p txw = putInternal bucket p (txw\<lparr>txw_bucket2seq := Mapping.update bucket False (txw_bucket2seq txw)\<rparr>)"

definition txw_putSeq :: "int \<Rightarrow> kv \<Rightarrow> txWriteBuffer \<Rightarrow> txWriteBuffer option" where
  "txw_putSeq bucket p txw = putInternal bucket p txw"

definition txw_reset :: "txWriteBuffer \<Rightarrow> txWriteBuffer" where
  "txw_reset txw =
     (let bs = txb_reset (txw_buckets txw) in
      \<lparr>txw_buckets = bs,
       txw_bucket2seq =
         Mapping.map_values (\<lambda>k seq. case Mapping.lookup bs k of None \<Rightarrow> seq | Some v \<Rightarrow> (if bb_used v = 0 then True else seq))
           (Mapping.filter (\<lambda>k _. k \<in> Mapping.keys bs) (txw_bucket2seq txw))\<rparr>)"

text \<open>
  One bucket of the write buffer handed to the read buffer. Where the read buffer has none, it takes the
  buffer over as it is, and the write buffer gives it up.
\<close>

definition bb_Sort :: "(kv list \<Rightarrow> kv list) \<Rightarrow> bucketBuffer \<Rightarrow> bucketBuffer" where
  "bb_Sort sort_Sort bb = bb\<lparr>bb_buf := sort_Sort (bb_items bb) @ drop (bb_used bb) (bb_buf bb)\<rparr>"

definition writeback_bucket ::
  "(kv list \<Rightarrow> kv list) \<Rightarrow> bool option \<Rightarrow> bucketBuffer \<Rightarrow> bucketBuffer option \<Rightarrow> (bucketBuffer option \<times> bucketBuffer) option" where
  "writeback_bucket sort_Sort seq wb rb =
     (case rb of
        None \<Rightarrow> Some (None, wb)
      | Some rb \<Rightarrow> do {
          let wb = (if seq = Some False \<and> 1 < bb_used wb then bb_Sort sort_Sort wb else wb);
          rb \<leftarrow> bb_merge wb rb;
          Some (Some wb, rb)
        })"

definition set_bucket :: "int \<Rightarrow> bucketBuffer option \<Rightarrow> txBuffer \<Rightarrow> txBuffer" where
  "set_bucket k b bs = (case b of None \<Rightarrow> Mapping.delete k bs | Some b \<Rightarrow> Mapping.update k b bs)"

fun writeback_buckets ::
  "(kv list \<Rightarrow> kv list) \<Rightarrow> int list \<Rightarrow> (txWriteBuffer \<times> txBuffer) \<Rightarrow> (txWriteBuffer \<times> txBuffer) option" where
  "writeback_buckets sort_Sort [] s = Some s"
| "writeback_buckets sort_Sort (k # ks) (txw, rbs) =
     (case Mapping.lookup (txw_buckets txw) k of
        None \<Rightarrow> writeback_buckets sort_Sort ks (txw, rbs)
      | Some wb \<Rightarrow> do {
          (wb, rb) \<leftarrow> writeback_bucket sort_Sort (Mapping.lookup (txw_bucket2seq txw) k) wb (Mapping.lookup rbs k);
          writeback_buckets sort_Sort ks (txw\<lparr>txw_buckets := set_bucket k wb (txw_buckets txw)\<rparr>, Mapping.update k rb rbs)
        })"

definition writeback ::
  "(kv list \<Rightarrow> kv list) \<Rightarrow> txWriteBuffer \<Rightarrow> txReadBuffer \<Rightarrow> (txWriteBuffer \<times> txReadBuffer) option" where
  "writeback sort_Sort txw txr =
     do {
       (txw, rbs) \<leftarrow> writeback_buckets sort_Sort (Mapping.ordered_keys (txw_buckets txw)) (txw, txr_buckets txr);
       Some (txw_reset txw, \<lparr>txr_buckets = rbs, txr_bufVersion = txr_bufVersion txr + 1\<rparr>)
     }"

definition txr_Range :: "int \<Rightarrow> bytes \<Rightarrow> gobytes \<Rightarrow> int \<Rightarrow> txReadBuffer \<Rightarrow> kv list option" where
  "txr_Range bucket key endKey limit txr =
     (case Mapping.lookup (txr_buckets txr) bucket of None \<Rightarrow> Some [] | Some b \<Rightarrow> bb_Range key endKey limit b)"

definition txr_ForEach :: "int \<Rightarrow> (kv \<Rightarrow> 's \<Rightarrow> 'e + 's) \<Rightarrow> txReadBuffer \<Rightarrow> 's \<Rightarrow> ('e + 's) option" where
  "txr_ForEach bucket visitor txr s =
     (case Mapping.lookup (txr_buckets txr) bucket of None \<Rightarrow> Some (Inr s) | Some b \<Rightarrow> bb_ForEach visitor b s)"

definition unsafeCopy :: "txReadBuffer \<Rightarrow> txReadBuffer" where
  "unsafeCopy txr = \<lparr>txr_buckets = Mapping.map_values (\<lambda>_. bb_Copy) (txr_buckets txr), txr_bufVersion = 0\<rparr>"

declare search_loop.simps [simp del] bb_range_loop.simps [simp del] dedupe_loop.simps [simp del]

section \<open>Buffers as maps\<close>

text \<open>
  A buffer holds for every key the value written last. An ordered buffer has its keys in increasing
  order, each once; a buffer always has room for one more pair.
\<close>

abbreviation kv_sorted :: "kv list \<Rightarrow> bool" where
  "kv_sorted ps \<equiv> sorted_wrt (\<lambda>p q. fst p < fst q) ps"

definition bb_ok :: "bucketBuffer \<Rightarrow> bool" where
  "bb_ok bb \<longleftrightarrow> bb_used bb < length (bb_buf bb) \<and> 2 \<le> length (bb_buf bb)"

definition sort_law :: "(kv list \<Rightarrow> kv list) \<Rightarrow> bool" where
  "sort_law sort_Sort \<longleftrightarrow> (\<forall>ps. mset (sort_Sort ps) = mset ps \<and> sorted (map fst (sort_Sort ps)))"

lemma new_buffer [simp]: "bb_ok newBucketBuffer" "bb_items newBucketBuffer = []"
  by (simp_all add: bb_ok_def newBucketBuffer_def bucketBufferInitialSize_def bb_items_def)

lemma bb_add_items:
  assumes "bb_ok bb"
  obtains bb' where "bb_add p bb = Some bb'" "bb_ok bb'" "bb_items bb' = bb_items bb @ [p]"
proof -
  let ?buf = "(bb_buf bb)[bb_used bb := p]"
  have u: "bb_used bb < length (bb_buf bb)" "2 \<le> length (bb_buf bb)" using assms by (simp_all add: bb_ok_def)
  then have t: "take (Suc (bb_used bb)) ?buf = take (bb_used bb) (bb_buf bb) @ [p]" by (simp add: take_Suc_conv_app_nth)
  obtain bb' where bb': "bb_add p bb = Some bb'" using u by (simp add: bb_add_def)
  show thesis
  proof (rule that [OF bb'])
    show "bb_ok bb'" using bb' u by (auto simp: bb_add_def bb_ok_def Let_def split: if_splits)
    have "take (Suc (bb_used bb)) (?buf @ xs) = take (Suc (bb_used bb)) ?buf" for xs using u by simp
    then show "bb_items bb' = bb_items bb @ [p]"
      unfolding bb_items_def t [symmetric] using bb' u(1)
      by (cases "Suc (bb_used bb) = length (bb_buf bb)") (auto simp: bb_add_def Let_def)
  qed
qed

lemma bb_add_all_items:
  "bb_ok bb \<Longrightarrow> \<exists>bb'. bb_add_all ps bb = Some bb' \<and> bb_ok bb' \<and> bb_items bb' = bb_items bb @ ps"
proof (induction ps arbitrary: bb)
  case (Cons p ps)
  obtain bb1 where "bb_add p bb = Some bb1" "bb_ok bb1" "bb_items bb1 = bb_items bb @ [p]"
    using bb_add_items [OF Cons.prems] by blast
  with Cons.IH [of bb1] show ?case by auto
qed simp

lemma bb_used_items: "bb_ok bb \<Longrightarrow> bb_used bb = length (bb_items bb)"
  by (simp add: bb_ok_def bb_items_def)

lemma bb_nth: "bb_ok bb \<Longrightarrow> i < length (bb_items bb) \<Longrightarrow> go_index (bb_buf bb) i = Some (bb_items bb ! i)"
  by (simp add: bb_ok_def bb_items_def)

subsection \<open>Binary search\<close>

lemma search_loop_spec:
  assumes "i \<le> j" "\<And>h. i \<le> h \<Longrightarrow> h < j \<Longrightarrow> f h = Some (P h)" "\<And>h h'. i \<le> h \<Longrightarrow> h \<le> h' \<Longrightarrow> h' < j \<Longrightarrow> P h \<Longrightarrow> P h'"
  shows "\<exists>r. search_loop f i j = Some r \<and> i \<le> r \<and> r \<le> j \<and> (\<forall>h. i \<le> h \<and> h < r \<longrightarrow> \<not> P h) \<and> (\<forall>h. r \<le> h \<and> h < j \<longrightarrow> P h)"
  using assms
proof (induction f i j rule: search_loop.induct)
  case (1 f i j)
  show ?case
  proof (cases "i < j")
    case True
    let ?h = "(i + j) div 2"
    have h: "i \<le> ?h" "?h < j" using True by auto
    have fh: "f ?h = Some (P ?h)" using 1(4) h by blast
    show ?thesis
    proof (cases "P ?h")
      case True
      obtain r where r: "search_loop f i ?h = Some r" "i \<le> r" "r \<le> ?h" "\<forall>h. i \<le> h \<and> h < r \<longrightarrow> \<not> P h"
        "\<forall>h. r \<le> h \<and> h < ?h \<longrightarrow> P h"
      proof -
        have "\<exists>r. search_loop f i ?h = Some r \<and> i \<le> r \<and> r \<le> ?h \<and> (\<forall>h. i \<le> h \<and> h < r \<longrightarrow> \<not> P h) \<and> (\<forall>h. r \<le> h \<and> h < ?h \<longrightarrow> P h)"
        proof (rule 1(2) [OF \<open>i < j\<close> fh])
          show "f h = Some (P h)" if "h < ?h" "i \<le> h" for h using 1(4) [of h] that h by simp
          show "P h'" if "i \<le> k" "k \<le> h'" "h' < ?h" "P k" for k h' using 1(5) [of k h'] that h by simp
        qed (use True h in simp_all)
        then show thesis using that by blast
      qed
      have "P h'" if "r \<le> h'" "h' < j" for h'
        using that r(2,5) 1(5) [of ?h h'] h(1) True by (cases "h' < ?h") auto
      then show ?thesis using r True h \<open>i < j\<close> fh by (subst search_loop.simps) auto
    next
      case False
      obtain r where r: "search_loop f (?h + 1) j = Some r" "?h + 1 \<le> r" "r \<le> j" "\<forall>h. ?h + 1 \<le> h \<and> h < r \<longrightarrow> \<not> P h"
        "\<forall>h. r \<le> h \<and> h < j \<longrightarrow> P h"
      proof -
        have "\<exists>r. search_loop f (?h + 1) j = Some r \<and> ?h + 1 \<le> r \<and> r \<le> j \<and> (\<forall>h. ?h + 1 \<le> h \<and> h < r \<longrightarrow> \<not> P h) \<and>
            (\<forall>h. r \<le> h \<and> h < j \<longrightarrow> P h)"
        proof (rule 1(1) [OF \<open>i < j\<close> fh False])
          show "f h = Some (P h)" if "h < j" "?h + 1 \<le> h" for h using 1(4) [of h] that h by simp
          show "P h'" if "?h + 1 \<le> k" "k \<le> h'" "h' < j" "P k" for k h' using 1(5) [of k h'] that h by simp
        qed (use h in simp_all)
        then show thesis using that by blast
      qed
      have "\<not> P h'" if "i \<le> h'" "h' < r" for h'
        using that r(4) 1(5) [of h' ?h] h(2) False by (cases "h' \<le> ?h") auto
      then show ?thesis using r False h \<open>i < j\<close> fh by (subst search_loop.simps) auto
    qed
  next
    case False
    then show ?thesis using 1(3) by (subst search_loop.simps) auto
  qed
qed

lemma kv_sorted_nth: "kv_sorted ps \<Longrightarrow> i < j \<Longrightarrow> j < length ps \<Longrightarrow> fst (ps ! i) < fst (ps ! j)"
  by (simp add: sorted_wrt_iff_nth_less)

lemma kv_sorted_drop_le:
  assumes "kv_sorted ps" "i < length ps" "p \<in> set (drop i ps)"
  shows "fst (ps ! i) \<le> fst p"
proof -
  obtain k where "p = ps ! (i + k)" "i + k < length ps" using assms(2,3) by (auto simp: in_set_conv_nth)
  then show ?thesis using kv_sorted_nth [OF assms(1), of i "i + k"] by (cases k) auto
qed

lemma bb_search_spec:
  assumes "bb_ok bb" "kv_sorted (bb_items bb)"
  shows "\<exists>r. bb_search key bb = Some r \<and> r \<le> length (bb_items bb) \<and> (\<forall>h<r. fst (bb_items bb ! h) < key) \<and>
    (\<forall>h. r \<le> h \<and> h < length (bb_items bb) \<longrightarrow> key \<le> fst (bb_items bb ! h))"
proof -
  let ?P = "\<lambda>h. key \<le> fst (bb_items bb ! h)"
  have "?P h'" if "h \<le> h'" "h' < length (bb_items bb)" "?P h" for h h'
    using that kv_sorted_nth [OF assms(2), of h h'] by (cases "h = h'") auto
  then have "\<exists>r. search_loop (\<lambda>i. do { p \<leftarrow> go_index (bb_buf bb) i; Some (key \<le> fst p) }) 0 (bb_used bb) = Some r \<and> 0 \<le> r \<and>
      r \<le> bb_used bb \<and> (\<forall>h. 0 \<le> h \<and> h < r \<longrightarrow> \<not> ?P h) \<and> (\<forall>h. r \<le> h \<and> h < bb_used bb \<longrightarrow> ?P h)"
    using bb_nth [OF assms(1)] bb_used_items [OF assms(1)] by (intro search_loop_spec) auto
  then show ?thesis using bb_used_items [OF assms(1)] by (auto simp: bb_search_def sort_Search_def not_le)
qed

text \<open>In an ordered buffer the search splits the pairs at the key.\<close>

lemma split_at_key:
  fixes ps :: "kv list"
  assumes "r \<le> length ps" "\<forall>h<r. fst (ps ! h) < key" "\<forall>h. r \<le> h \<and> h < length ps \<longrightarrow> key \<le> fst (ps ! h)"
  shows "drop r ps = filter (\<lambda>p. key \<le> fst p) ps"
proof -
  have "filter (\<lambda>p. key \<le> fst p) (take r ps) = []"
  proof -
    have "\<not> key \<le> fst p" if "p \<in> set (take r ps)" for p
    proof -
      obtain h where "h < r" "p = ps ! h" using \<open>p \<in> set (take r ps)\<close> assms(1) unfolding in_set_conv_nth by auto
      then show ?thesis using assms(2) by (auto simp: not_le)
    qed
    then show ?thesis by (simp add: filter_empty_conv)
  qed
  moreover have "filter (\<lambda>p. key \<le> fst p) (drop r ps) = drop r ps"
  proof -
    have "key \<le> fst p" if "p \<in> set (drop r ps)" for p
    proof -
      obtain h where "h < length ps - r" "p = ps ! (r + h)" using \<open>p \<in> set (drop r ps)\<close> assms(1) unfolding in_set_conv_nth by auto
      then show ?thesis using assms(3) by simp
    qed
    then show ?thesis by (simp add: filter_id_conv)
  qed
  ultimately show ?thesis by (metis append_take_drop_id filter_append append_Nil)
qed

lemma map_of_sorted_filter:
  "kv_sorted ps \<Longrightarrow> filter (\<lambda>p. fst p = key) ps = (case map_of ps key of None \<Rightarrow> [] | Some v \<Rightarrow> [(key, v)])"
proof (induction ps)
  case (Cons p ps)
  then have "map_of ps (fst p) = None" by (auto simp: map_of_eq_None_iff)
  with Cons show ?case by (cases p) (auto split: option.split)
qed simp

lemma bb_Range_single:
  assumes "bb_ok bb" "kv_sorted (bb_items bb)" "blen e = 0"
  shows "bb_Range key e limit bb = Some (filter (\<lambda>p. fst p = key) (bb_items bb))"
proof -
  obtain r where r: "bb_search key bb = Some r"
    "r \<le> length (bb_items bb)" "\<forall>h<r. fst (bb_items bb ! h) < key"
    "\<forall>h. r \<le> h \<and> h < length (bb_items bb) \<longrightarrow> key \<le> fst (bb_items bb ! h)"
    using bb_search_spec [OF assms(1,2), of key] by blast
  have "filter (\<lambda>p. fst p = key) (bb_items bb) = filter (\<lambda>p. fst p = key) (drop r (bb_items bb))"
    unfolding split_at_key [OF r(2-4)] by (auto simp: filter_filter intro!: filter_cong)
  moreover have "filter (\<lambda>p. fst p = key) (drop r (bb_items bb)) = (if fst (bb_items bb ! r) = key then [bb_items bb ! r] else [])"
    if "r < length (bb_items bb)"
  proof -
    have "fst p \<noteq> key" if p: "p \<in> set (drop (Suc r) (bb_items bb))" for p
    proof (cases "Suc r < length (bb_items bb)")
      case True
      have "key \<le> fst (bb_items bb ! r)" using r(4) True by simp
      also have "\<dots> < fst (bb_items bb ! Suc r)" using kv_sorted_nth [OF assms(2)] True by simp
      also have "\<dots> \<le> fst p" using kv_sorted_drop_le [OF assms(2) True p] .
      finally show ?thesis by simp
    qed (use p in simp)
    then show ?thesis using that by (subst Cons_nth_drop_Suc [symmetric]) (auto simp: filter_empty_conv)
  qed
  ultimately show ?thesis
    unfolding bb_Range_def r(1) bind.bind_lunit
    using bb_nth [OF assms(1), of r] bb_used_items [OF assms(1)] r(2) assms(3) by (cases "r < length (bb_items bb)") auto
qed

lemma bb_range_loop_spec:
  assumes "bb_ok bb" "kv_sorted (bb_items bb)" "i \<le> length (bb_items bb)"
  shows "bb_range_loop (bb_buf bb) (bb_used bb) e limit i acc =
    Some (acc @ take (nat (limit - int (length acc))) (filter (\<lambda>p. fst p < e) (drop i (bb_items bb))))"
  using assms(3)
proof (induction "bb_buf bb" "bb_used bb" e limit i acc rule: bb_range_loop.induct)
  case (1 e limit i acc)
  show ?case
  proof (cases "i < bb_used bb \<and> int (length acc) < limit")
    case True
    then have i: "i < length (bb_items bb)" using bb_used_items [OF assms(1)] by simp
    let ?p = "bb_items bb ! i"
    have d: "drop i (bb_items bb) = ?p # drop (Suc i) (bb_items bb)" using i by (simp add: Cons_nth_drop_Suc)
    show ?thesis
    proof (cases "e \<le> fst ?p")
      case e: True
      have "\<not> fst p < e" if "p \<in> set (drop i (bb_items bb))" for p
        using order_trans [OF e kv_sorted_drop_le [OF assms(2) i that]] by (simp add: not_less)
      then have "filter (\<lambda>p. fst p < e) (drop i (bb_items bb)) = []" by (simp add: filter_empty_conv)
      then show ?thesis using True e bb_nth [OF assms(1) i] by (subst bb_range_loop.simps) simp
    next
      case False
      have "nat (limit - int (length acc)) = Suc (nat (limit - int (length (acc @ [?p]))))" using True by (simp add: Suc_nat_eq_nat_zadd1)
      then show ?thesis
        using True False 1(1) [OF True bb_nth [OF assms(1) i] False] bb_nth [OF assms(1) i] i
        by (subst bb_range_loop.simps) (simp add: d not_le)
    qed
  next
    case False
    then show ?thesis using bb_used_items [OF assms(1)] by (subst bb_range_loop.simps) auto
  qed
qed

lemma bb_Range_spec:
  assumes "bb_ok bb" "kv_sorted (bb_items bb)" "blen e \<noteq> 0"
  shows "bb_Range key e limit bb = Some (take (nat limit) (filter (\<lambda>p. key \<le> fst p \<and> fst p < str_of e) (bb_items bb)))"
proof -
  obtain r where r: "bb_search key bb = Some r"
    "r \<le> length (bb_items bb)" "\<forall>h<r. fst (bb_items bb ! h) < key"
    "\<forall>h. r \<le> h \<and> h < length (bb_items bb) \<longrightarrow> key \<le> fst (bb_items bb ! h)"
    using bb_search_spec [OF assms(1,2), of key] by blast
  have f: "filter (\<lambda>p. key \<le> fst p \<and> fst p < str_of e) (bb_items bb) = filter (\<lambda>p. fst p < str_of e) (drop r (bb_items bb))"
    unfolding split_at_key [OF r(2-4)] filter_filter by (rule filter_cong) auto
  have z: "filter (\<lambda>p. fst p < str_of e) (drop r (bb_items bb)) = []" if "r < length (bb_items bb)" "str_of e \<le> fst (bb_items bb ! r)"
    using kv_sorted_drop_le [OF assms(2) that(1)] that(2) by (auto simp: filter_empty_conv not_less intro: order_trans)
  show ?thesis
    unfolding f bb_Range_def
    unfolding r(1) bind.bind_lunit
    using bb_nth [OF assms(1), of r] bb_used_items [OF assms(1)] r(2) assms(3) z bb_range_loop_spec [OF assms(1,2) r(2), of "str_of e" limit "[]"]
    by (cases "r < length (bb_items bb)") simp_all
qed

subsection \<open>Merging\<close>

text \<open>The last pair of every run of equal keys.\<close>

fun newest :: "kv list \<Rightarrow> kv list" where
  "newest [] = []"
| "newest [p] = [p]"
| "newest (p # q # ps) = (if fst p = fst q then newest (q # ps) else p # newest (q # ps))"

lemma newest_eq_Nil [simp]: "newest ps = [] \<longleftrightarrow> ps = []"
  by (induction ps rule: newest.induct) auto

lemma set_newest: "set (newest ps) \<subseteq> set ps"
  by (induction ps rule: newest.induct) auto

lemma last_newest: "ps \<noteq> [] \<Longrightarrow> last (newest ps) = last ps"
  by (induction ps rule: newest.induct) auto

lemma newest_snoc:
  "newest (ps @ [p]) = (if ps \<noteq> [] \<and> fst (last ps) = fst p then butlast (newest ps) @ [p] else newest ps @ [p])"
  by (induction ps rule: newest.induct) auto

lemma newest_sorted: "sorted (map fst ps) \<Longrightarrow> kv_sorted (newest ps)"
proof (induction ps rule: newest.induct)
  case (3 p q ps)
  have "fst p < fst r" if "fst p \<noteq> fst q" "r \<in> set (newest (q # ps))" for r
  proof -
    have "r \<in> set (q # ps)" using that(2) set_newest by blast
    then have "fst q \<le> fst r" using 3(3) by auto
    then show ?thesis using 3(3) that(1) by auto
  qed
  then show ?case using 3 by auto
qed simp_all

lemma map_of_snoc: "fst p \<notin> fst ` set ps \<Longrightarrow> map_of (ps @ [p]) = (map_of ps)(fst p \<mapsto> snd p)"
  by (induction ps) (auto simp: fun_upd_twist)

lemma map_of_newest: "sorted (map fst ps) \<Longrightarrow> map_of (newest ps) = map_of (rev ps)"
proof (induction ps rule: newest.induct)
  case (3 p q ps)
  show ?case
  proof (cases "fst p = fst q")
    case True
    then have "map_of (rev (q # ps) @ [p]) = map_of (rev (q # ps))" by (auto simp: fun_eq_iff map_add_def split: option.split)
    then show ?thesis using 3 True by simp
  next
    case False
    then have "fst p \<notin> fst ` set (rev (q # ps))" using 3(3) by auto
    then show ?thesis using 3(2) [OF False] 3(3) False map_of_snoc [of p "rev (q # ps)"] by simp
  qed
qed simp_all

lemma dedupe_loop_spec:
  assumes "used \<le> length buf" "0 < ridx" "ridx \<le> used" "widx < ridx" "take (widx + 1) buf = newest (take ridx orig)"
    "drop ridx buf = drop ridx orig" "length buf = length orig"
  shows "\<exists>buf' w. dedupe_loop used ridx widx buf = Some (buf', w) \<and> take (w + 1) buf' = newest (take used orig) \<and>
    w < used \<and> length buf' = length buf"
  using assms
proof (induction used ridx widx buf rule: dedupe_loop.induct)
  case (1 used ridx widx buf)
  show ?case
  proof (cases "ridx < used")
    case False
    then have "ridx = used" using 1(4) by simp
    then show ?thesis using 1(5,6) by (subst dedupe_loop.simps) simp
  next
    case True
    let ?r = "orig ! ridx" and ?w = "buf ! widx"
    have len: "ridx < length buf" "widx < length buf" using 1(2,5) True by simp_all
    have r: "buf ! ridx = ?r" using 1(7,8) len by (metis hd_drop_conv_nth)
    have "take (widx + 1) buf \<noteq> []" using len by auto
    then have w: "?w = last (newest (take ridx orig))" using len 1(6) by (metis Suc_eq_plus1 last_snoc take_Suc_conv_app_nth)
    have ne: "take ridx orig \<noteq> []" using 1(3,8) len by auto
    have w': "?w = last (take ridx orig)" using w last_newest [OF ne] by simp
    have t: "take (ridx + 1) orig = take ridx orig @ [?r]" using 1(8) len by (simp add: take_Suc_conv_app_nth)
    define w1 where "w1 = (if fst ?r \<noteq> fst ?w then widx + 1 else widx)"
    let ?buf = "buf[w1 := ?r]"
    have w1: "w1 < ridx + 1" "w1 < length buf" using 1(5) len by (simp_all add: w1_def)
    have step: "dedupe_loop used ridx widx buf = dedupe_loop used (ridx + 1) w1 ?buf"
      using True len w1(2) r by (subst dedupe_loop.simps) (simp add: w1_def Let_def)
    have "take (w1 + 1) ?buf = newest (take (ridx + 1) orig)"
    proof (cases "fst ?r = fst ?w")
      case True
      have "take (widx + 1) ?buf = butlast (take (widx + 1) buf) @ [?r]"
        using True len by (simp add: w1_def take_Suc_conv_app_nth)
      then show ?thesis unfolding t newest_snoc using True ne w' 1(6) by (simp add: w1_def)
    next
      case False
      then have "take (w1 + 1) ?buf = take (widx + 1) buf @ [?r]" using w1(2) by (simp add: w1_def take_Suc_conv_app_nth)
      then show ?thesis unfolding t newest_snoc using False ne w' 1(6) by auto
    qed
    moreover have "drop (ridx + 1) ?buf = drop (ridx + 1) orig"
      using w1(1) 1(7) by (metis Suc_eq_plus1 drop_Suc drop_update_cancel tl_drop)
    ultimately show ?thesis
      unfolding step using 1(1) [OF True, of ?r ?w w1 ?buf] len r w1 1(2,8) True by (simp add: w1_def)
  qed
qed

text \<open>
  What a key is last paired with only depends on the pairs with that key, which a stable sort leaves in
  order.
\<close>

lemma map_of_filter_key: "map_of ps k = map_of (filter (\<lambda>p. fst p = k) ps) k"
  by (induction ps) auto

lemma map_of_rev_Stable: "map_of (rev (sort_key fst ps)) = map_of (rev ps)"
proof
  fix k
  have "map_of (rev (sort_key fst ps)) k = map_of (rev (filter (\<lambda>p. fst p = k) (sort_key fst ps))) k"
    by (subst map_of_filter_key) (simp add: rev_filter)
  also have "\<dots> = map_of (rev (filter (\<lambda>p. fst p = k) ps)) k" by (simp add: sort_key_stable)
  also have "\<dots> = map_of (rev ps) k" by (subst (2) map_of_filter_key) (simp add: rev_filter)
  finally show "map_of (rev (sort_key fst ps)) k = map_of (rev ps) k" .
qed

lemma kv_sorted_distinct: "kv_sorted ps \<Longrightarrow> distinct (map fst ps)"
  by (induction ps) auto

lemma kv_sorted_map_of_rev: "kv_sorted ps \<Longrightarrow> map_of (rev ps) = map_of ps"
proof (induction ps)
  case (Cons p ps)
  then have "fst p \<notin> fst ` set (rev ps)" by auto
  then show ?case using Cons map_of_snoc [of p "rev ps"] by simp
qed simp

lemma kv_sorted_append:
  assumes "kv_sorted ps" "kv_sorted qs" "ps \<noteq> []" "qs \<noteq> []" "fst (last ps) < fst (hd qs)"
  shows "kv_sorted (ps @ qs)"
proof -
  have "fst p < fst q" if "p \<in> set ps" "q \<in> set qs" for p q
  proof -
    have "fst p \<le> fst (last ps)"
      using assms(1) that(1) by (induction ps) (auto intro: less_imp_le)
    moreover have "fst (hd qs) \<le> fst q" using assms(2) that(2) by (cases qs) (auto intro: less_imp_le)
    ultimately show ?thesis using assms(5) by simp
  qed
  then show ?thesis using assms(1,2) by (simp add: sorted_wrt_append)
qed

lemma bb_merge_items:
  assumes "bb_ok bb" "bb_ok bbsrc"
  shows "\<exists>bb'. bb_merge bbsrc bb = Some bb' \<and> bb_ok bb' \<and>
    bb_items bb' = (if bb_items bb = [] \<or> fst (last (bb_items bb)) < fst (bb_buf bbsrc ! 0) then bb_items bb @ bb_items bbsrc
                    else newest (sort_key fst (bb_items bb @ bb_items bbsrc)))"
proof -
  let ?a = "bb_items bb" and ?b = "bb_items bbsrc"
  obtain bb1 where bb1: "bb_add_all ?b bb = Some bb1" "bb_ok bb1" "bb_items bb1 = ?a @ ?b"
    using bb_add_all_items [OF assms(1)] by blast
  have u: "bb_used bb = length ?a" "bb_used bbsrc = length ?b" "bb_used bb1 = length (?a @ ?b)"
    using bb_used_items assms bb1 by auto
  have len: "length ?b \<le> length (bb_buf bbsrc)" "0 < length (bb_buf bbsrc)" using assms(2) u(2) by (auto simp: bb_ok_def)
  show ?thesis
  proof (cases "?a = []")
    case True
    then show ?thesis using bb1 len u by (simp add: bb_merge_def)
  next
    case a: False
    then have "length ?a - 1 < length (bb_items bb1)" by (cases ?a) (auto simp: bb1(3))
    then have l: "go_index (bb_buf bb1) (length (?a @ ?b) - length ?b - 1) = Some (last ?a)"
      using bb_nth [OF bb1(2), of "length ?a - 1"] a by (simp add: bb1(3) nth_append last_conv_nth)
    show ?thesis
    proof (cases "fst (last ?a) < fst (bb_buf bbsrc ! 0)")
      case True
      then show ?thesis using bb1 len u l a by (simp add: bb_merge_def)
    next
      case False
      let ?s = "sort_key fst (?a @ ?b)"
      let ?buf = "?s @ drop (bb_used bb1) (bb_buf bb1)"
      have bl: "length ?buf = length (bb_buf bb1)" using bb1(2) u(3) by (simp add: bb_ok_def)
      have used: "0 < length (?a @ ?b)" "length (?a @ ?b) \<le> length ?buf" using a by auto
      have "?buf \<noteq> []" using a by (metis Nil_is_append_conv length_0_conv length_sort)
      then obtain p ps where p: "?buf = p # ps" by (cases ?buf) auto
      have "\<exists>buf' w. dedupe_loop (length (?a @ ?b)) 1 0 ?buf = Some (buf', w) \<and> take (w + 1) buf' = newest (take (length (?a @ ?b)) ?buf) \<and>
          w < length (?a @ ?b) \<and> length buf' = length ?buf"
        by (rule dedupe_loop_spec) (use used(2) p a in \<open>simp_all add: Suc_le_eq\<close>)
      then obtain buf' w where d: "dedupe_loop (length (?a @ ?b)) 1 0 ?buf = Some (buf', w)" "take (w + 1) buf' = newest ?s"
        "w < length (?a @ ?b)" "length buf' = length ?buf" by auto
      have "bb_merge bbsrc bb = Some \<lparr>bb_buf = buf', bb_used = w + 1\<rparr>"
        using bb1 len u l False a d(1) by (simp add: bb_merge_def bb_Stable_def Let_def)
      moreover have "bb_ok \<lparr>bb_buf = buf', bb_used = w + 1\<rparr>"
        using d(3,4) bl bb1(2) u(3) by (simp add: bb_ok_def)
      ultimately show ?thesis using False a d(2) by (simp add: bb_items_def)
    qed
  qed
qed

text \<open>Merging an ordered buffer into an ordered one updates its map and keeps it ordered.\<close>

lemma bb_merge_spec:
  assumes "bb_ok bb" "kv_sorted (bb_items bb)" "bb_ok bbsrc" "kv_sorted (bb_items bbsrc)"
  shows "\<exists>bb'. bb_merge bbsrc bb = Some bb' \<and> bb_ok bb' \<and> kv_sorted (bb_items bb') \<and>
    map_of (bb_items bb') = map_of (bb_items bb) ++ map_of (bb_items bbsrc)"
proof -
  let ?a = "bb_items bb" and ?b = "bb_items bbsrc"
  have m: "map_of (rev (?a @ ?b)) = map_of ?a ++ map_of ?b"
    using kv_sorted_map_of_rev assms(2,4) by simp
  have lt: "kv_sorted (?a @ ?b)" if "?a = [] \<or> fst (last ?a) < fst (bb_buf bbsrc ! 0)"
  proof (cases "?a = [] \<or> ?b = []")
    case False
    then have "hd ?b = bb_buf bbsrc ! 0" by (auto simp: bb_items_def hd_conv_nth)
    then show ?thesis using kv_sorted_append [OF assms(2,4)] that False by auto
  qed (use assms(2,4) in auto)
  have "sorted (map fst (sort_key fst (?a @ ?b)))" by simp
  then have n: "kv_sorted (newest (sort_key fst (?a @ ?b)))" "map_of (newest (sort_key fst (?a @ ?b))) = map_of ?a ++ map_of ?b"
    using newest_sorted map_of_newest [of "sort_key fst (?a @ ?b)"] map_of_rev_Stable [of "?a @ ?b"] m by simp_all
  have l: "map_of (?a @ ?b) = map_of ?a ++ map_of ?b" if "kv_sorted (?a @ ?b)"
    using kv_sorted_map_of_rev [OF that] m by simp
  show ?thesis
    using bb_merge_items [OF assms(1,3)] lt l n by (cases "?a = [] \<or> fst (last ?a) < fst (bb_buf bbsrc ! 0)") auto
qed

section \<open>Writing back\<close>

definition txb_ok :: "txBuffer \<Rightarrow> bool" where
  "txb_ok bs \<longleftrightarrow> finite (Mapping.keys bs) \<and> (\<forall>k b. Mapping.lookup bs k = Some b \<longrightarrow> bb_ok b)"

definition txb_items :: "txBuffer \<Rightarrow> int \<Rightarrow> kv list" where
  "txb_items bs k = (case Mapping.lookup bs k of None \<Rightarrow> [] | Some b \<Rightarrow> bb_items b)"

lemma bb_ok_unused: "bb_ok b \<Longrightarrow> bb_ok (b\<lparr>bb_used := 0\<rparr>)"
  by (auto simp: bb_ok_def)

lemma txb_reset_ok: "txb_ok bs \<Longrightarrow> txb_ok (txb_reset bs)"
  using finite_subset [OF Mapping.keys_filter]
  by (auto simp: txb_ok_def txb_reset_def Mapping.lookup_map_values Mapping.lookup_filter bb_ok_unused split: option.splits if_splits)

lemma txb_items_reset [simp]: "txb_items (txb_reset bs) k = []"
  by (simp add: txb_items_def txb_reset_def Mapping.lookup_map_values Mapping.lookup_filter bb_items_def split: option.split)

lemma putInternal_items:
  assumes "txb_ok (txw_buckets txw)"
  shows "\<exists>txw'. putInternal k p txw = Some txw' \<and> txb_ok (txw_buckets txw') \<and> txw_bucket2seq txw' = txw_bucket2seq txw \<and>
    (\<forall>j. txb_items (txw_buckets txw') j = txb_items (txw_buckets txw) j @ (if j = k then [p] else []))"
proof -
  define b where "b = (case Mapping.lookup (txw_buckets txw) k of None \<Rightarrow> newBucketBuffer | Some b \<Rightarrow> b)"
  have b: "bb_ok b" "bb_items b = txb_items (txw_buckets txw) k"
    using assms by (auto simp: b_def txb_ok_def txb_items_def split: option.split)
  obtain b' where "bb_add p b = Some b'" "bb_ok b'" "bb_items b' = bb_items b @ [p]" using bb_add_items [OF b(1)] by blast
  then show ?thesis
    using assms b unfolding putInternal_def b_def [symmetric] Let_def
    by (auto simp: txb_ok_def txb_items_def lookup_update')
qed

lemma bb_Sort_items:
  assumes "sort_law sort_Sort" "bb_ok bb"
  shows "bb_ok (bb_Sort sort_Sort bb)" "bb_items (bb_Sort sort_Sort bb) = sort_Sort (bb_items bb)"
proof -
  have "length (sort_Sort (bb_items bb)) = length (bb_items bb)" using assms(1) by (metis sort_law_def mset_eq_length)
  then show "bb_ok (bb_Sort sort_Sort bb)" "bb_items (bb_Sort sort_Sort bb) = sort_Sort (bb_items bb)"
    using assms(2) by (auto simp: bb_ok_def bb_Sort_def bb_items_def)
qed

lemma sort_law_sorted:
  assumes "sort_law sort_Sort" "kv_sorted ps"
  shows "sort_Sort ps = ps"
proof -
  have s: "mset (sort_Sort ps) = mset ps" "sorted (map fst (sort_Sort ps))" using assms(1) by (auto simp: sort_law_def)
  have d: "distinct (map fst ps)" using kv_sorted_distinct [OF assms(2)] .
  have "sorted (map fst ps)" using assms(2) by (simp add: sorted_map sorted_wrt_mono_rel [of ps "\<lambda>p q. fst p < fst q"])
  moreover have "inj_on fst (set ps)" using d by (simp add: distinct_map)
  moreover have "set (sort_Sort ps) = set ps" using s(1) by (rule mset_eq_setD)
  moreover have "map fst (sort_Sort ps) = map fst ps"
    using s(1,2) \<open>sorted (map fst ps)\<close> by (metis properties_for_sort mset_map sort_key_id_if_sorted)
  ultimately show ?thesis by (metis map_inj_on Un_absorb)
qed

lemma writeback_bucket_ok:
  assumes "sort_law sort_Sort" "bb_ok wb" "\<And>b. rb = Some b \<Longrightarrow> bb_ok b"
  shows "\<exists>wb' rb'. writeback_bucket sort_Sort seq wb rb = Some (wb', rb') \<and> (\<forall>b. wb' = Some b \<longrightarrow> bb_ok b) \<and> bb_ok rb' \<and>
    (kv_sorted (bb_items wb) \<and> (\<forall>b. rb = Some b \<longrightarrow> kv_sorted (bb_items b)) \<longrightarrow>
       kv_sorted (bb_items rb') \<and>
       map_of (bb_items rb') = (case rb of None \<Rightarrow> Map.empty | Some b \<Rightarrow> map_of (bb_items b)) ++ map_of (bb_items wb))"
proof (cases rb)
  case None
  then show ?thesis using assms(2) by (simp add: writeback_bucket_def)
next
  case (Some b)
  define w where "w = (if seq = Some False \<and> 1 < bb_used wb then bb_Sort sort_Sort wb else wb)"
  have w: "bb_ok w" "kv_sorted (bb_items wb) \<Longrightarrow> bb_items w = bb_items wb"
    using bb_Sort_items [OF assms(1,2)] sort_law_sorted [OF assms(1)] assms(2) by (auto simp: w_def)
  have b: "bb_ok b" using assms(3) Some by simp
  obtain b' where b': "bb_merge w b = Some b'" "bb_ok b'" using bb_merge_items [OF b w(1)] by blast
  have "writeback_bucket sort_Sort seq wb rb = Some (Some w, b')"
    using Some b'(1) unfolding writeback_bucket_def w_def by (simp add: Let_def)
  moreover have "kv_sorted (bb_items b') \<and> map_of (bb_items b') = map_of (bb_items b) ++ map_of (bb_items wb)"
    if "kv_sorted (bb_items wb)" "kv_sorted (bb_items b)"
    using bb_merge_spec [OF b _ w(1)] that w(2) b'(1) by auto
  ultimately show ?thesis using w(1) b'(2) Some by simp
qed

lemma writeback_buckets_ok:
  assumes "sort_law sort_Sort" "txb_ok (txw_buckets txw)" "txb_ok rbs" "distinct ks"
  shows "\<exists>txw' rbs'. writeback_buckets sort_Sort ks (txw, rbs) = Some (txw', rbs') \<and> txb_ok (txw_buckets txw') \<and> txb_ok rbs' \<and>
    (\<forall>k. k \<notin> set ks \<longrightarrow> Mapping.lookup (txw_buckets txw') k = Mapping.lookup (txw_buckets txw) k \<and>
       Mapping.lookup rbs' k = Mapping.lookup rbs k) \<and>
    (\<forall>k \<in> set ks. kv_sorted (txb_items (txw_buckets txw) k) \<longrightarrow> kv_sorted (txb_items rbs k) \<longrightarrow>
       kv_sorted (txb_items rbs' k) \<and> map_of (txb_items rbs' k) = map_of (txb_items rbs k) ++ map_of (txb_items (txw_buckets txw) k))"
  using assms(2-4)
proof (induction ks arbitrary: txw rbs)
  case (Cons k ks)
  show ?case
  proof (cases "Mapping.lookup (txw_buckets txw) k")
    case None
    then have "txb_items (txw_buckets txw) k = []" by (simp add: txb_items_def)
    then show ?thesis using Cons.IH [of txw rbs] Cons.prems None by (fastforce simp: txb_items_def)
  next
    case (Some wb)
    have ok: "bb_ok wb" "\<And>b. Mapping.lookup rbs k = Some b \<Longrightarrow> bb_ok b" using Some Cons.prems by (auto simp: txb_ok_def)
    obtain wb' rb' where b: "writeback_bucket sort_Sort (Mapping.lookup (txw_bucket2seq txw) k) wb (Mapping.lookup rbs k) = Some (wb', rb')"
      "\<forall>b. wb' = Some b \<longrightarrow> bb_ok b" "bb_ok rb'"
      "kv_sorted (bb_items wb) \<and> (\<forall>b. Mapping.lookup rbs k = Some b \<longrightarrow> kv_sorted (bb_items b)) \<longrightarrow> kv_sorted (bb_items rb') \<and>
         map_of (bb_items rb') = (case Mapping.lookup rbs k of None \<Rightarrow> Map.empty | Some b \<Rightarrow> map_of (bb_items b)) ++ map_of (bb_items wb)"
      using writeback_bucket_ok [OF assms(1) ok] by blast
    let ?txw = "txw\<lparr>txw_buckets := set_bucket k wb' (txw_buckets txw)\<rparr>" and ?rbs = "Mapping.update k rb' rbs"
    have l: "Mapping.lookup (set_bucket k wb' (txw_buckets txw)) j = (if j = k then wb' else Mapping.lookup (txw_buckets txw) j)" for j
      by (auto simp: set_bucket_def lookup_update' lookup_delete_if split: option.split)
    have "txb_ok (txw_buckets ?txw)" "txb_ok ?rbs"
      using Cons.prems b(2,3) by (auto simp: txb_ok_def l lookup_update' set_bucket_def lookup_delete_if split: if_splits option.split)
    then obtain txw' rbs' where r: "writeback_buckets sort_Sort ks (?txw, ?rbs) = Some (txw', rbs')" "txb_ok (txw_buckets txw')" "txb_ok rbs'"
      "\<forall>j. j \<notin> set ks \<longrightarrow> Mapping.lookup (txw_buckets txw') j = Mapping.lookup (txw_buckets ?txw) j \<and>
         Mapping.lookup rbs' j = Mapping.lookup ?rbs j"
      "\<forall>j \<in> set ks. kv_sorted (txb_items (txw_buckets ?txw) j) \<longrightarrow> kv_sorted (txb_items ?rbs j) \<longrightarrow>
         kv_sorted (txb_items rbs' j) \<and> map_of (txb_items rbs' j) = map_of (txb_items ?rbs j) ++ map_of (txb_items (txw_buckets ?txw) j)"
      using Cons.IH [of ?txw ?rbs] Cons.prems(3) by auto
    have same: "txb_items (txw_buckets ?txw) j = txb_items (txw_buckets txw) j" "txb_items ?rbs j = txb_items rbs j" if "j \<noteq> k" for j
      using that by (simp_all add: txb_items_def l lookup_update')
    have k: "txb_items rbs' k = bb_items rb'" "txb_items (txw_buckets txw) k = bb_items wb"
      using r(4) Cons.prems(3) Some by (auto simp: txb_items_def lookup_update')
    have "kv_sorted (txb_items rbs' j) \<and> map_of (txb_items rbs' j) = map_of (txb_items rbs j) ++ map_of (txb_items (txw_buckets txw) j)"
      if "j \<in> set (k # ks)" "kv_sorted (txb_items (txw_buckets txw) j)" "kv_sorted (txb_items rbs j)" for j
    proof (cases "j = k")
      case True
      then show ?thesis using that(2,3) b(4) k by (auto simp: txb_items_def split: option.splits)
    next
      case False
      then show ?thesis using that r(5) same [OF False] by auto
    qed
    moreover have "writeback_buckets sort_Sort (k # ks) (txw, rbs) = Some (txw', rbs')" using Some b(1) r(1) by simp
    moreover have "Mapping.lookup (txw_buckets txw') j = Mapping.lookup (txw_buckets txw) j \<and> Mapping.lookup rbs' j = Mapping.lookup rbs j"
      if "j \<notin> set (k # ks)" for j
      using that r(4) by (auto simp: l lookup_update')
    ultimately show ?thesis using r(2,3) by blast
  qed
qed simp

text \<open>
  After a write-back the write buffer is empty. For a bucket whose write buffer and read buffer are
  ordered, the read buffer is ordered and holds the written pairs over its own.
\<close>

lemma writeback_ok:
  assumes "sort_law sort_Sort" "txb_ok (txw_buckets txw)" "txb_ok (txr_buckets txr)"
  shows "\<exists>txw' txr'. writeback sort_Sort txw txr = Some (txw', txr') \<and> txb_ok (txw_buckets txw') \<and> txb_ok (txr_buckets txr') \<and>
    txr_bufVersion txr' = txr_bufVersion txr + 1 \<and> (\<forall>k. txb_items (txw_buckets txw') k = []) \<and>
    (\<forall>k. kv_sorted (txb_items (txw_buckets txw) k) \<longrightarrow> kv_sorted (txb_items (txr_buckets txr) k) \<longrightarrow>
       kv_sorted (txb_items (txr_buckets txr') k) \<and>
       map_of (txb_items (txr_buckets txr') k) = map_of (txb_items (txr_buckets txr) k) ++ map_of (txb_items (txw_buckets txw) k))"
proof -
  let ?ks = "Mapping.ordered_keys (txw_buckets txw)"
  have out: "txb_items (txw_buckets txw) k = []" if "k \<notin> Mapping.keys (txw_buckets txw)" for k
    using that by (auto simp: txb_items_def keys_is_none_rep Option.is_none_def split: option.split)
  have ks: "set ?ks = Mapping.keys (txw_buckets txw)" "distinct ?ks" using assms(2) by (simp_all add: txb_ok_def)
  obtain txw' rbs' where r: "writeback_buckets sort_Sort ?ks (txw, txr_buckets txr) = Some (txw', rbs')" "txb_ok (txw_buckets txw')" "txb_ok rbs'"
    "\<forall>k. k \<notin> set ?ks \<longrightarrow> Mapping.lookup (txw_buckets txw') k = Mapping.lookup (txw_buckets txw) k \<and>
       Mapping.lookup rbs' k = Mapping.lookup (txr_buckets txr) k"
    "\<forall>k \<in> set ?ks. kv_sorted (txb_items (txw_buckets txw) k) \<longrightarrow> kv_sorted (txb_items (txr_buckets txr) k) \<longrightarrow>
       kv_sorted (txb_items rbs' k) \<and> map_of (txb_items rbs' k) = map_of (txb_items (txr_buckets txr) k) ++ map_of (txb_items (txw_buckets txw) k)"
    using writeback_buckets_ok [OF assms ks(2)] by blast
  have "kv_sorted (txb_items rbs' k) \<and> map_of (txb_items rbs' k) = map_of (txb_items (txr_buckets txr) k) ++ map_of (txb_items (txw_buckets txw) k)"
    if "kv_sorted (txb_items (txw_buckets txw) k)" "kv_sorted (txb_items (txr_buckets txr) k)" for k
  proof (cases "k \<in> set ?ks")
    case False
    then have "txb_items rbs' k = txb_items (txr_buckets txr) k" using r(4) by (simp add: txb_items_def)
    then show ?thesis using that out [of k] False ks(1) by simp
  qed (use r(5) that in blast)
  then show ?thesis using r(1-3) txb_reset_ok by (auto simp: writeback_def txw_reset_def Let_def)
qed

section \<open>Reading\<close>

lemma txr_Range_single:
  assumes "txb_ok (txr_buckets txr)" "kv_sorted (txb_items (txr_buckets txr) k)" "blen e = 0"
  shows "txr_Range k key e limit txr = Some (filter (\<lambda>p. fst p = key) (txb_items (txr_buckets txr) k))"
  using assms bb_Range_single by (auto simp: txr_Range_def txb_items_def txb_ok_def split: option.split)

lemma txr_Range_spec:
  assumes "txb_ok (txr_buckets txr)" "kv_sorted (txb_items (txr_buckets txr) k)" "blen e \<noteq> 0"
  shows "txr_Range k key e limit txr =
    Some (take (nat limit) (filter (\<lambda>p. key \<le> fst p \<and> fst p < str_of e) (txb_items (txr_buckets txr) k)))"
  using assms bb_Range_spec by (auto simp: txr_Range_def txb_items_def txb_ok_def split: option.split)

lemma unsafeCopy_items [simp]: "txb_items (txr_buckets (unsafeCopy txr)) k = txb_items (txr_buckets txr) k"
  by (simp add: txb_items_def unsafeCopy_def Mapping.lookup_map_values bb_items_def bb_Copy_def split: option.split)

lemma unsafeCopy_ok: "txb_ok (txr_buckets txr) \<Longrightarrow> txb_ok (txr_buckets (unsafeCopy txr))"
  by (auto simp: txb_ok_def unsafeCopy_def Mapping.lookup_map_values bb_ok_def bb_Copy_def)

end
