(* ===== verification/Backend.thy ===== *)
theory Backend
  imports Tx_Buffer
begin

text \<open>
  \<^verbatim>\<open>server/storage/backend\<close>: the batching backend over the database \<^verbatim>\<open>go.etcd.io/bbolt\<close>
  (\<^verbatim>\<open>batch_tx.go\<close>, \<^verbatim>\<open>read_tx.go\<close>, \<^verbatim>\<open>backend.go\<close>), with the buckets of \<^verbatim>\<open>schema/bucket.go\<close>. Writes go to a write transaction
  of the database and to a buffer; when the transaction is unlocked the buffer is handed to the readers,
  who look there first and then in a read transaction that was opened at the last commit.

  The database is not part of the repository: it is the parameter \<open>Bo\<close>, a record of its operations, and
  \<open>bolt_laws\<close> states what its documentation promises as long as the disk does not fail. A transaction is
  the value of its contents, so that a read transaction is not changed by later writes. A cursor is the
  list of the pairs that \<^verbatim>\<open>Seek\<close> and the calls of \<^verbatim>\<open>Next\<close> return. \<^verbatim>\<open>Lock\<close> has no effect on the state: what runs
  between \<^verbatim>\<open>Lock\<close> and \<^verbatim>\<open>Unlock\<close> runs alone. A fatal log message ends the process, which is \<open>None\<close>. The sizes
  and times kept for the metrics are left out, and so is the cache of the bucket handles of a read
  transaction, which returns what the transaction returns.
\<close>

section \<open>Buckets\<close>

record Bucket =
  bk_ID :: int
  bk_Name :: bytes
  bk_IsSafeRangeBucket :: bool

definition ascii :: "string \<Rightarrow> bytes" where
  "ascii s = map of_char s"

definition schema_Key :: Bucket where
  "schema_Key = \<lparr>bk_ID = 1, bk_Name = ascii ''key'', bk_IsSafeRangeBucket = True\<rparr>"

definition schema_Meta :: Bucket where
  "schema_Meta = \<lparr>bk_ID = 2, bk_Name = ascii ''meta'', bk_IsSafeRangeBucket = False\<rparr>"

definition schema_Lease :: Bucket where
  "schema_Lease = \<lparr>bk_ID = 3, bk_Name = ascii ''lease'', bk_IsSafeRangeBucket = False\<rparr>"

definition schema_buckets :: "Bucket list" where
  "schema_buckets =
     [schema_Key, schema_Meta, schema_Lease,
      \<lparr>bk_ID = 4, bk_Name = ascii ''alarm'', bk_IsSafeRangeBucket = False\<rparr>,
      \<lparr>bk_ID = 5, bk_Name = ascii ''cluster'', bk_IsSafeRangeBucket = False\<rparr>,
      \<lparr>bk_ID = 10, bk_Name = ascii ''members'', bk_IsSafeRangeBucket = False\<rparr>,
      \<lparr>bk_ID = 11, bk_Name = ascii ''members_removed'', bk_IsSafeRangeBucket = False\<rparr>,
      \<lparr>bk_ID = 20, bk_Name = ascii ''auth'', bk_IsSafeRangeBucket = False\<rparr>,
      \<lparr>bk_ID = 21, bk_Name = ascii ''authUsers'', bk_IsSafeRangeBucket = False\<rparr>,
      \<lparr>bk_ID = 22, bk_Name = ascii ''authRoles'', bk_IsSafeRangeBucket = False\<rparr>,
      \<lparr>bk_ID = 100, bk_Name = ascii ''test'', bk_IsSafeRangeBucket = False\<rparr>]"

section \<open>The database\<close>

datatype bolt_err = ErrBucketExists | ErrBucketNotFound | OtherBoltErr

record 't bolt =
  bolt_Bucket :: "'t \<Rightarrow> bytes \<Rightarrow> bool"
  bolt_CreateBucket :: "bytes \<Rightarrow> 't \<Rightarrow> bolt_err + 't"
  bolt_DeleteBucket :: "bytes \<Rightarrow> 't \<Rightarrow> bolt_err + 't"
  bolt_Put :: "bytes \<Rightarrow> kv \<Rightarrow> 't \<Rightarrow> bolt_err + 't"
  bolt_Delete :: "bytes \<Rightarrow> bytes \<Rightarrow> 't \<Rightarrow> bolt_err + 't"
  bolt_Seek :: "'t \<Rightarrow> bytes \<Rightarrow> bytes \<Rightarrow> kv list"
  bolt_ForEach :: "'t \<Rightarrow> bytes \<Rightarrow> kv list"
  bolt_Commit :: "'t \<Rightarrow> bolt_err + 't"
  bolt_Begin :: "bool \<Rightarrow> 't \<Rightarrow> bolt_err + 't"

definition same_content :: "'t bolt \<Rightarrow> 't \<Rightarrow> 't \<Rightarrow> bool" where
  "same_content Bo t t' \<longleftrightarrow> (\<forall>n. bolt_Bucket Bo t' n = bolt_Bucket Bo t n \<and> bolt_ForEach Bo t' n = bolt_ForEach Bo t n)"

definition others_kept :: "'t bolt \<Rightarrow> bytes \<Rightarrow> 't \<Rightarrow> 't \<Rightarrow> bool" where
  "others_kept Bo n t t' \<longleftrightarrow> (\<forall>m. m \<noteq> n \<longrightarrow> bolt_Bucket Bo t' m = bolt_Bucket Bo t m \<and> bolt_ForEach Bo t' m = bolt_ForEach Bo t m)"

text \<open>The sizes \<^verbatim>\<open>MaxKeySize\<close> and \<^verbatim>\<open>MaxValueSize\<close> up to which the database accepts a pair.\<close>

definition put_ok :: "kv \<Rightarrow> bool" where
  "put_ok p \<longleftrightarrow> fst p \<noteq> [] \<and> int (length (fst p)) \<le> 32768 \<and> int (length (snd p)) \<le> 2 ^ 31 - 2"

definition bolt_laws :: "'t bolt \<Rightarrow> bool" where
  "bolt_laws Bo \<longleftrightarrow>
     (\<forall>t n. kv_sorted (bolt_ForEach Bo t n)) \<and>
     (\<forall>t n. \<not> bolt_Bucket Bo t n \<longrightarrow> bolt_ForEach Bo t n = []) \<and>
     (\<forall>t n key. bolt_Seek Bo t n key = filter (\<lambda>p. key \<le> fst p) (bolt_ForEach Bo t n)) \<and>
     (\<forall>t n p. bolt_Bucket Bo t n \<and> put_ok p \<longrightarrow>
        (\<exists>t'. bolt_Put Bo n p t = Inr t' \<and> others_kept Bo n t t' \<and> bolt_Bucket Bo t' n \<and>
           map_of (bolt_ForEach Bo t' n) = (map_of (bolt_ForEach Bo t n))(fst p \<mapsto> snd p))) \<and>
     (\<forall>t n key. bolt_Bucket Bo t n \<longrightarrow>
        (\<exists>t'. bolt_Delete Bo n key t = Inr t' \<and> others_kept Bo n t t' \<and> bolt_Bucket Bo t' n \<and>
           bolt_ForEach Bo t' n = filter (\<lambda>p. fst p \<noteq> key) (bolt_ForEach Bo t n))) \<and>
     (\<forall>t n. bolt_Bucket Bo t n \<longrightarrow> bolt_CreateBucket Bo n t = Inl ErrBucketExists) \<and>
     (\<forall>t n. \<not> bolt_Bucket Bo t n \<and> n \<noteq> [] \<longrightarrow>
        (\<exists>t'. bolt_CreateBucket Bo n t = Inr t' \<and> others_kept Bo n t t' \<and> bolt_Bucket Bo t' n \<and> bolt_ForEach Bo t' n = [])) \<and>
     (\<forall>t. \<exists>t'. bolt_Commit Bo t = Inr t' \<and> same_content Bo t t') \<and>
     (\<forall>w t. \<exists>t'. bolt_Begin Bo w t = Inr t' \<and> same_content Bo t t')"

lemma bolt_sorted: "bolt_laws Bo \<Longrightarrow> kv_sorted (bolt_ForEach Bo t n)"
  by (simp add: bolt_laws_def)

lemma bolt_no_bucket: "bolt_laws Bo \<Longrightarrow> \<not> bolt_Bucket Bo t n \<Longrightarrow> bolt_ForEach Bo t n = []"
  by (simp add: bolt_laws_def)

lemma bolt_Seek_law: "bolt_laws Bo \<Longrightarrow> bolt_Seek Bo t n key = filter (\<lambda>p. key \<le> fst p) (bolt_ForEach Bo t n)"
  by (simp add: bolt_laws_def)

lemma bolt_Put_law:
  "bolt_laws Bo \<Longrightarrow> bolt_Bucket Bo t n \<Longrightarrow> put_ok p \<Longrightarrow>
     \<exists>t'. bolt_Put Bo n p t = Inr t' \<and> others_kept Bo n t t' \<and> bolt_Bucket Bo t' n \<and>
       map_of (bolt_ForEach Bo t' n) = (map_of (bolt_ForEach Bo t n))(fst p \<mapsto> snd p)"
  by (cases p) (simp add: bolt_laws_def)

lemma bolt_Delete_law:
  "bolt_laws Bo \<Longrightarrow> bolt_Bucket Bo t n \<Longrightarrow>
     \<exists>t'. bolt_Delete Bo n key t = Inr t' \<and> others_kept Bo n t t' \<and> bolt_Bucket Bo t' n \<and>
       bolt_ForEach Bo t' n = filter (\<lambda>p. fst p \<noteq> key) (bolt_ForEach Bo t n)"
  by (simp add: bolt_laws_def)

lemma bolt_CreateBucket_law:
  "bolt_laws Bo \<Longrightarrow> bolt_Bucket Bo t n \<Longrightarrow> bolt_CreateBucket Bo n t = Inl ErrBucketExists"
  "bolt_laws Bo \<Longrightarrow> \<not> bolt_Bucket Bo t n \<Longrightarrow> n \<noteq> [] \<Longrightarrow>
     \<exists>t'. bolt_CreateBucket Bo n t = Inr t' \<and> others_kept Bo n t t' \<and> bolt_Bucket Bo t' n \<and> bolt_ForEach Bo t' n = []"
  by (simp_all add: bolt_laws_def)

lemma bolt_Commit_law: "bolt_laws Bo \<Longrightarrow> \<exists>t'. bolt_Commit Bo t = Inr t' \<and> same_content Bo t t'"
  by (simp add: bolt_laws_def)

lemma bolt_Begin_law: "bolt_laws Bo \<Longrightarrow> \<exists>t'. bolt_Begin Bo w t = Inr t' \<and> same_content Bo t t'"
  by (simp add: bolt_laws_def)

section \<open>The state\<close>

text \<open>The write transaction: not yet begun, open, or committed without a successor.\<close>

datatype 't boltTx = NilTx | OpenTx 't | ClosedTx

fun is_nil_tx :: "'t boltTx \<Rightarrow> bool" where
  "is_nil_tx NilTx = True"
| "is_nil_tx (OpenTx t) = False"
| "is_nil_tx ClosedTx = False"

record 't baseReadTx =
  rt_buf :: txReadBuffer
  rt_tx :: "'t option"

record txReadBufferCache =
  cache_buf :: "txReadBuffer option"
  cache_bufVersion :: nat

record 't backend =
  be_db :: 't
  be_batchLimit :: int
  be_tx :: "'t boltTx"
  be_pending :: nat
  be_buf :: txWriteBuffer
  be_readTx :: "'t baseReadTx"
  be_cache :: txReadBufferCache
  be_commits :: nat

text \<open>A hook that runs before a commit, if there is one; it works on the locked transaction.\<close>

type_synonym 't hook = "('t backend \<Rightarrow> 't backend option) option"

fun open_tx :: "'t boltTx \<Rightarrow> 't option" where
  "open_tx (OpenTx t) = Some t"
| "open_tx NilTx = None"
| "open_tx ClosedTx = None"

fun fatal :: "bolt_err + 'a \<Rightarrow> 'a option" where
  "fatal (Inl e) = None"
| "fatal (Inr x) = Some x"

section \<open>The batch transaction\<close>

definition be_write :: "'t \<Rightarrow> 't backend \<Rightarrow> 't backend" where
  "be_write tx be = be\<lparr>be_tx := OpenTx tx, be_pending := be_pending be + 1\<rparr>"

definition UnsafeCreateBucket :: "'t bolt \<Rightarrow> Bucket \<Rightarrow> 't backend \<Rightarrow> 't backend option" where
  "UnsafeCreateBucket Bo bucket be =
     do {
       tx \<leftarrow> open_tx (be_tx be);
       tx \<leftarrow> (case bolt_CreateBucket Bo (bk_Name bucket) tx of
               Inr tx \<Rightarrow> Some tx
             | Inl e \<Rightarrow> (if e = ErrBucketExists then Some tx else None));
       Some (be_write tx be)
     }"

definition UnsafeDeleteBucket :: "'t bolt \<Rightarrow> Bucket \<Rightarrow> 't backend \<Rightarrow> 't backend option" where
  "UnsafeDeleteBucket Bo bucket be =
     do {
       tx \<leftarrow> open_tx (be_tx be);
       tx \<leftarrow> (case bolt_DeleteBucket Bo (bk_Name bucket) tx of
               Inr tx \<Rightarrow> Some tx
             | Inl e \<Rightarrow> (if e = ErrBucketNotFound then Some tx else None));
       Some (be_write tx be)
     }"

definition bolt_bucket_tx :: "'t bolt \<Rightarrow> Bucket \<Rightarrow> 't backend \<Rightarrow> 't option" where
  "bolt_bucket_tx Bo bucket be =
     do {
       tx \<leftarrow> open_tx (be_tx be);
       if bolt_Bucket Bo tx (bk_Name bucket) then Some tx else None
     }"

text \<open>The sequential flag only sets the fill factor of the pages of the database.\<close>

definition batchTx_unsafePut :: "'t bolt \<Rightarrow> Bucket \<Rightarrow> kv \<Rightarrow> bool \<Rightarrow> 't backend \<Rightarrow> 't backend option" where
  "batchTx_unsafePut Bo bucket p seq be =
     do {
       tx \<leftarrow> bolt_bucket_tx Bo bucket be;
       tx \<leftarrow> fatal (bolt_Put Bo (bk_Name bucket) p tx);
       Some (be_write tx be)
     }"

definition UnsafePut :: "'t bolt \<Rightarrow> Bucket \<Rightarrow> kv \<Rightarrow> 't backend \<Rightarrow> 't backend option" where
  "UnsafePut Bo bucket p be =
     do {
       be \<leftarrow> batchTx_unsafePut Bo bucket p False be;
       buf \<leftarrow> txw_put (bk_ID bucket) p (be_buf be);
       Some (be\<lparr>be_buf := buf\<rparr>)
     }"

definition UnsafeSeqPut :: "'t bolt \<Rightarrow> Bucket \<Rightarrow> kv \<Rightarrow> 't backend \<Rightarrow> 't backend option" where
  "UnsafeSeqPut Bo bucket p be =
     do {
       be \<leftarrow> batchTx_unsafePut Bo bucket p True be;
       buf \<leftarrow> txw_putSeq (bk_ID bucket) p (be_buf be);
       Some (be\<lparr>be_buf := buf\<rparr>)
     }"

definition UnsafeDelete :: "'t bolt \<Rightarrow> Bucket \<Rightarrow> bytes \<Rightarrow> 't backend \<Rightarrow> 't backend option" where
  "UnsafeDelete Bo bucket key be =
     do {
       tx \<leftarrow> bolt_bucket_tx Bo bucket be;
       tx \<leftarrow> fatal (bolt_Delete Bo (bk_Name bucket) key tx);
       Some (be_write tx be)
     }"

definition MaxInt64 :: int where
  "MaxInt64 = 2 ^ 63 - 1"

fun cursor_range :: "(bytes \<Rightarrow> bool) \<Rightarrow> int \<Rightarrow> kv list \<Rightarrow> kv list \<Rightarrow> kv list" where
  "cursor_range isMatch limit [] kvs = kvs"
| "cursor_range isMatch limit (p # c) kvs =
     (if isMatch (fst p)
      then (if limit = int (length (kvs @ [p])) then kvs @ [p] else cursor_range isMatch limit c (kvs @ [p]))
      else kvs)"

definition unsafeRange :: "(bytes \<Rightarrow> kv list) \<Rightarrow> bytes \<Rightarrow> gobytes \<Rightarrow> int \<Rightarrow> kv list" where
  "unsafeRange seek key endKey limit =
     (if blen endKey > 0
      then cursor_range (\<lambda>b. b < str_of endKey) (if limit \<le> 0 then MaxInt64 else limit) (seek key) []
      else cursor_range (\<lambda>b. b = key) 1 (seek key) [])"

definition batchTx_UnsafeRange :: "'t bolt \<Rightarrow> Bucket \<Rightarrow> bytes \<Rightarrow> gobytes \<Rightarrow> int \<Rightarrow> 't backend \<Rightarrow> kv list option" where
  "batchTx_UnsafeRange Bo bucket key endKey limit be =
     do {
       tx \<leftarrow> bolt_bucket_tx Bo bucket be;
       Some (unsafeRange (bolt_Seek Bo tx (bk_Name bucket)) key endKey limit)
     }"

definition unsafeForEach :: "'t bolt \<Rightarrow> 't \<Rightarrow> Bucket \<Rightarrow> (kv \<Rightarrow> 's \<Rightarrow> 'e + 's) \<Rightarrow> 's \<Rightarrow> 'e + 's" where
  "unsafeForEach Bo tx bucket visitor s =
     (if bolt_Bucket Bo tx (bk_Name bucket) then visit_kvs visitor (bolt_ForEach Bo tx (bk_Name bucket)) s else Inr s)"

definition batchTx_UnsafeForEach ::
  "'t bolt \<Rightarrow> Bucket \<Rightarrow> (kv \<Rightarrow> 's \<Rightarrow> 'e + 's) \<Rightarrow> 't backend \<Rightarrow> 's \<Rightarrow> ('e + 's) option" where
  "batchTx_UnsafeForEach Bo bucket visitor be s =
     do { tx \<leftarrow> open_tx (be_tx be); Some (unsafeForEach Bo tx bucket visitor s) }"

definition be_begin :: "'t bolt \<Rightarrow> bool \<Rightarrow> 't backend \<Rightarrow> 't option" where
  "be_begin Bo write be = fatal (bolt_Begin Bo write (be_db be))"

definition batchTx_commit :: "'t bolt \<Rightarrow> bool \<Rightarrow> 't backend \<Rightarrow> 't backend option" where
  "batchTx_commit Bo stop be =
     (if \<not> is_nil_tx (be_tx be) \<and> be_pending be = 0 \<and> \<not> stop then Some be
      else do {
        be \<leftarrow> (if is_nil_tx (be_tx be) then Some be
              else do {
                tx \<leftarrow> open_tx (be_tx be);
                db \<leftarrow> fatal (bolt_Commit Bo tx);
                Some (be\<lparr>be_db := db, be_tx := ClosedTx, be_pending := 0, be_commits := be_commits be + 1\<rparr>)
              });
        if stop then Some be
        else do { tx \<leftarrow> be_begin Bo True be; Some (be\<lparr>be_tx := OpenTx tx\<rparr>) }
      })"

definition readTx_reset :: "'t baseReadTx \<Rightarrow> 't baseReadTx" where
  "readTx_reset rt = rt\<lparr>rt_buf := (rt_buf rt)\<lparr>txr_buckets := txb_reset (txr_buckets (rt_buf rt))\<rparr>, rt_tx := None\<rparr>"

definition unsafeCommit :: "'t bolt \<Rightarrow> bool \<Rightarrow> 't backend \<Rightarrow> 't backend option" where
  "unsafeCommit Bo stop be =
     do {
       let be = (if rt_tx (be_readTx be) \<noteq> None then be\<lparr>be_readTx := readTx_reset (be_readTx be)\<rparr> else be);
       be \<leftarrow> batchTx_commit Bo stop be;
       if stop then Some be
       else do { tx \<leftarrow> be_begin Bo False be; Some (be\<lparr>be_readTx := (be_readTx be)\<lparr>rt_tx := Some tx\<rparr>\<rparr>) }
     }"

definition batchTxBuffered_commit :: "'t bolt \<Rightarrow> 't hook \<Rightarrow> bool \<Rightarrow> 't backend \<Rightarrow> 't backend option" where
  "batchTxBuffered_commit Bo hooks stop be =
     do {
       be \<leftarrow> (case hooks of None \<Rightarrow> Some be | Some onPreCommitUnsafe \<Rightarrow> onPreCommitUnsafe be);
       unsafeCommit Bo stop be
     }"

definition be_Unlock :: "'t bolt \<Rightarrow> (kv list \<Rightarrow> kv list) \<Rightarrow> 't hook \<Rightarrow> 't backend \<Rightarrow> 't backend option" where
  "be_Unlock Bo sort_Sort hooks be =
     do {
       be \<leftarrow> (if be_pending be \<noteq> 0
             then do {
               (buf, rbuf) \<leftarrow> writeback sort_Sort (be_buf be) (rt_buf (be_readTx be));
               let be = be\<lparr>be_buf := buf, be_readTx := (be_readTx be)\<lparr>rt_buf := rbuf\<rparr>\<rparr>;
               if int (be_pending be) \<ge> be_batchLimit be then batchTxBuffered_commit Bo hooks False be else Some be
             }
             else Some be);
       if int (be_pending be) \<ge> be_batchLimit be then batchTx_commit Bo False be else Some be
     }"

definition be_Commit :: "'t bolt \<Rightarrow> (kv list \<Rightarrow> kv list) \<Rightarrow> 't hook \<Rightarrow> 't backend \<Rightarrow> 't backend option" where
  "be_Commit Bo sort_Sort hooks be =
     do { be \<leftarrow> batchTxBuffered_commit Bo hooks False be; be_Unlock Bo sort_Sort hooks be }"

definition be_CommitAndStop :: "'t bolt \<Rightarrow> (kv list \<Rightarrow> kv list) \<Rightarrow> 't hook \<Rightarrow> 't backend \<Rightarrow> 't backend option" where
  "be_CommitAndStop Bo sort_Sort hooks be =
     do { be \<leftarrow> batchTxBuffered_commit Bo hooks True be; be_Unlock Bo sort_Sort hooks be }"

section \<open>Read transactions\<close>

definition baseReadTx_UnsafeRange ::
  "'t bolt \<Rightarrow> Bucket \<Rightarrow> bytes \<Rightarrow> gobytes \<Rightarrow> int \<Rightarrow> 't baseReadTx \<Rightarrow> kv list option" where
  "baseReadTx_UnsafeRange Bo bucket key endKey limit rt =
     do {
       let limit = (if endKey = None then 1 else limit);
       let limit = (if limit \<le> 0 then MaxInt64 else limit);
       if limit > 1 \<and> \<not> bk_IsSafeRangeBucket bucket then None
       else do {
         kvs \<leftarrow> txr_Range (bk_ID bucket) key endKey limit (rt_buf rt);
         if int (length kvs) = limit then Some kvs
         else do {
           tx \<leftarrow> rt_tx rt;
           if \<not> bolt_Bucket Bo tx (bk_Name bucket) then Some kvs
           else Some (unsafeRange (bolt_Seek Bo tx (bk_Name bucket)) key endKey (limit - int (length kvs)) @ kvs)
         }
       }
     }"

text \<open>The pairs of the database that the buffer holds too are left out, then those of the buffer follow.\<close>

definition baseReadTx_UnsafeForEach ::
  "'t bolt \<Rightarrow> Bucket \<Rightarrow> (kv \<Rightarrow> 's \<Rightarrow> 'e + 's) \<Rightarrow> 't baseReadTx \<Rightarrow> 's \<Rightarrow> ('e + 's) option" where
  "baseReadTx_UnsafeForEach Bo bucket visitor rt s =
     do {
       dups \<leftarrow> txr_ForEach (bk_ID bucket) (\<lambda>p ks. Inr (insert (fst p) ks)) (rt_buf rt) {};
       case dups of
         Inl err \<Rightarrow> Some (Inl err)
       | Inr dups \<Rightarrow> do {
           tx \<leftarrow> rt_tx rt;
           case unsafeForEach Bo tx bucket (\<lambda>p s. if fst p \<in> dups then Inr s else visitor p s) s of
             Inl err \<Rightarrow> Some (Inl err)
           | Inr s \<Rightarrow> txr_ForEach (bk_ID bucket) visitor (rt_buf rt) s
         }
     }"

text \<open>
  A concurrent read transaction takes a copy of the read buffer, or the cached copy if no write-back
  has happened since it was made. The operation is modelled as one step.
\<close>

definition ConcurrentReadTx :: "'t backend \<Rightarrow> 't baseReadTx \<times> 't backend" where
  "ConcurrentReadTx be =
     (let cache = be_cache be;
          curBufVer = txr_bufVersion (rt_buf (be_readTx be));
          buf = (case cache_buf cache of
                   None \<Rightarrow> unsafeCopy (rt_buf (be_readTx be))
                 | Some b \<Rightarrow> (if cache_bufVersion cache \<noteq> curBufVer then unsafeCopy (rt_buf (be_readTx be)) else b))
      in (\<lparr>rt_buf = buf, rt_tx = rt_tx (be_readTx be)\<rparr>,
          be\<lparr>be_cache := \<lparr>cache_buf = Some buf, cache_bufVersion = curBufVer\<rparr>\<rparr>))"

section \<open>The backend\<close>

definition newBackend :: "'t bolt \<Rightarrow> (kv list \<Rightarrow> kv list) \<Rightarrow> int \<Rightarrow> 't \<Rightarrow> 't backend option" where
  "newBackend Bo sort_Sort batchLimit db =
     be_Commit Bo sort_Sort None
       \<lparr>be_db = db, be_batchLimit = batchLimit, be_tx = NilTx, be_pending = 0,
        be_buf = \<lparr>txw_buckets = Mapping.empty, txw_bucket2seq = Mapping.empty\<rparr>,
        be_readTx = \<lparr>rt_buf = \<lparr>txr_buckets = Mapping.empty, txr_bufVersion = 0\<rparr>, rt_tx = None\<rparr>,
        be_cache = \<lparr>cache_buf = None, cache_bufVersion = 0\<rparr>, be_commits = 0\<rparr>"

definition ForceCommit :: "'t bolt \<Rightarrow> (kv list \<Rightarrow> kv list) \<Rightarrow> 't hook \<Rightarrow> 't backend \<Rightarrow> 't backend option" where
  "ForceCommit Bo sort_Sort hooks be = be_Commit Bo sort_Sort hooks be"

text \<open>The goroutine \<^verbatim>\<open>run\<close>: the batch interval has passed, or the backend is stopped.\<close>

definition be_run_tick :: "'t bolt \<Rightarrow> (kv list \<Rightarrow> kv list) \<Rightarrow> 't hook \<Rightarrow> 't backend \<Rightarrow> 't backend option" where
  "be_run_tick Bo sort_Sort hooks be = (if be_pending be \<noteq> 0 then be_Commit Bo sort_Sort hooks be else Some be)"

definition be_run_stop :: "'t bolt \<Rightarrow> (kv list \<Rightarrow> kv list) \<Rightarrow> 't hook \<Rightarrow> 't backend \<Rightarrow> 't backend option" where
  "be_run_stop Bo sort_Sort hooks be = be_CommitAndStop Bo sort_Sort hooks be"

section \<open>What readers see\<close>

text \<open>
  For a bucket \<open>b\<close>: its contents in a transaction, what a reader finds with the read transaction and a
  buffer, and the invariant that makes both agree. \<open>D\<close> is the set of keys deleted since the backend was
  opened; the buffers do not record deletions, and the invariant says nothing about these keys.
\<close>

definition bolt_map :: "'t bolt \<Rightarrow> Bucket \<Rightarrow> 't \<Rightarrow> bytes \<Rightarrow> bytes option" where
  "bolt_map Bo b t = map_of (bolt_ForEach Bo t (bk_Name b))"

definition be_wbuf :: "Bucket \<Rightarrow> 't backend \<Rightarrow> kv list" where
  "be_wbuf b be = txb_items (txw_buckets (be_buf be)) (bk_ID b)"

definition be_rbuf :: "Bucket \<Rightarrow> txReadBuffer \<Rightarrow> kv list" where
  "be_rbuf b txr = txb_items (txr_buckets txr) (bk_ID b)"

definition be_view :: "'t bolt \<Rightarrow> Bucket \<Rightarrow> 't backend \<Rightarrow> bytes \<Rightarrow> bytes option" where
  "be_view Bo b be = (case open_tx (be_tx be) of None \<Rightarrow> Map.empty | Some t \<Rightarrow> bolt_map Bo b t)"

definition be_has :: "'t bolt \<Rightarrow> 't backend \<Rightarrow> bytes \<Rightarrow> bool" where
  "be_has Bo be n = (case open_tx (be_tx be) of None \<Rightarrow> False | Some t \<Rightarrow> bolt_Bucket Bo t n)"

definition covers :: "'t bolt \<Rightarrow> Bucket \<Rightarrow> bytes set \<Rightarrow> 't \<Rightarrow> 't \<Rightarrow> kv list \<Rightarrow> txReadBuffer \<Rightarrow> bool" where
  "covers Bo b D tx rtx w txr \<longleftrightarrow> txb_ok (txr_buckets txr) \<and> kv_sorted (be_rbuf b txr) \<and>
     (\<forall>k. k \<notin> D \<longrightarrow> (bolt_map Bo b rtx ++ map_of (be_rbuf b txr) ++ map_of w) k = bolt_map Bo b tx k)"

definition be_inv :: "'t bolt \<Rightarrow> Bucket \<Rightarrow> bytes set \<Rightarrow> 't backend \<Rightarrow> bool" where
  "be_inv Bo b D be \<longleftrightarrow> (\<exists>tx rtx.
     be_tx be = OpenTx tx \<and> rt_tx (be_readTx be) = Some rtx \<and> bolt_Bucket Bo tx (bk_Name b) \<and>
     same_content Bo (be_db be) rtx \<and> txb_ok (txw_buckets (be_buf be)) \<and> kv_sorted (be_wbuf b be) \<and>
     (be_pending be = 0 \<longrightarrow> same_content Bo (be_db be) tx \<and> be_wbuf b be = []) \<and>
     covers Bo b D tx rtx (be_wbuf b be) (rt_buf (be_readTx be)) \<and>
     cache_bufVersion (be_cache be) \<le> txr_bufVersion (rt_buf (be_readTx be)) \<and>
     (\<forall>cb. cache_buf (be_cache be) = Some cb \<and> cache_bufVersion (be_cache be) = txr_bufVersion (rt_buf (be_readTx be)) \<longrightarrow>
        covers Bo b D tx rtx (be_wbuf b be) cb))"

lemma be_invE:
  assumes "be_inv Bo b D be"
  obtains tx rtx where "be_tx be = OpenTx tx" "rt_tx (be_readTx be) = Some rtx" "bolt_Bucket Bo tx (bk_Name b)"
    "same_content Bo (be_db be) rtx" "txb_ok (txw_buckets (be_buf be))" "kv_sorted (be_wbuf b be)"
    "be_pending be = 0 \<longrightarrow> same_content Bo (be_db be) tx \<and> be_wbuf b be = []"
    "covers Bo b D tx rtx (be_wbuf b be) (rt_buf (be_readTx be))"
    "cache_bufVersion (be_cache be) \<le> txr_bufVersion (rt_buf (be_readTx be))"
    "\<forall>cb. cache_buf (be_cache be) = Some cb \<and> cache_bufVersion (be_cache be) = txr_bufVersion (rt_buf (be_readTx be)) \<longrightarrow>
       covers Bo b D tx rtx (be_wbuf b be) cb"
  using assms by (auto simp: be_inv_def)

lemma be_inv_has: "be_inv Bo b D be \<Longrightarrow> be_has Bo be (bk_Name b)"
  by (auto simp: be_inv_def be_has_def)

subsection \<open>Writes\<close>

lemma covers_put:
  assumes "covers Bo b D tx rtx w txr" "bolt_map Bo b tx' = (bolt_map Bo b tx)(fst p \<mapsto> snd p)" "kv_sorted (w @ [p])"
  shows "covers Bo b D tx' rtx (w @ [p]) txr"
proof -
  have "fst p \<notin> fst ` set w" using assms(3) by (auto simp: sorted_wrt_append)
  then have "map_of (w @ [p]) = (map_of w)(fst p \<mapsto> snd p)" by (rule map_of_snoc)
  then show ?thesis using assms(1,2) by (simp add: covers_def map_add_def split: option.split)
qed

lemma covers_same:
  assumes "covers Bo b D tx rtx w txr" "bolt_map Bo b tx' = bolt_map Bo b tx" "bolt_map Bo b rtx' = bolt_map Bo b rtx"
  shows "covers Bo b D tx' rtx' w txr"
  using assms by (simp add: covers_def)

lemma same_content_map: "same_content Bo t t' \<Longrightarrow> bolt_map Bo b t' = bolt_map Bo b t"
  by (simp add: same_content_def bolt_map_def)

lemma others_kept_map: "others_kept Bo n t t' \<Longrightarrow> bk_Name b \<noteq> n \<Longrightarrow> bolt_map Bo b t' = bolt_map Bo b t"
  by (simp add: others_kept_def bolt_map_def)

lemma others_kept_has:
  assumes "others_kept Bo n t t'" "bolt_Bucket Bo t n" "bolt_Bucket Bo t' n"
  shows "bolt_Bucket Bo t' = bolt_Bucket Bo t"
proof
  show "bolt_Bucket Bo t' m = bolt_Bucket Bo t m" for m using assms by (cases "m = n") (simp_all add: others_kept_def)
qed

lemma be_write_fields [simp]:
  "be_tx (be_write tx be) = OpenTx tx" "be_buf (be_write tx be) = be_buf be" "be_readTx (be_write tx be) = be_readTx be"
  "be_cache (be_write tx be) = be_cache be" "be_pending (be_write tx be) = Suc (be_pending be)" "be_db (be_write tx be) = be_db be"
  by (simp_all add: be_write_def)

text \<open>A write keeps the invariant if every reader that was covered still is.\<close>

lemma be_inv_write:
  assumes "be_inv Bo b D be" "be_tx be = OpenTx tx" "bolt_Bucket Bo tx' (bk_Name b)" "txb_ok (txw_buckets buf)"
    "kv_sorted (txb_items (txw_buckets buf) (bk_ID b))"
    "\<And>rtx txr. covers Bo b D tx rtx (be_wbuf b be) txr \<Longrightarrow> covers Bo b D' tx' rtx (txb_items (txw_buckets buf) (bk_ID b)) txr"
  shows "be_inv Bo b D' ((be_write tx' be)\<lparr>be_buf := buf\<rparr>)"
proof -
  let ?be = "(be_write tx' be)\<lparr>be_buf := buf\<rparr>"
  have w: "be_wbuf b ?be = txb_items (txw_buckets buf) (bk_ID b)" by (simp add: be_wbuf_def)
  from assms(1) obtain rtx where i: "rt_tx (be_readTx be) = Some rtx" "same_content Bo (be_db be) rtx"
    "covers Bo b D tx rtx (be_wbuf b be) (rt_buf (be_readTx be))"
    "cache_bufVersion (be_cache be) \<le> txr_bufVersion (rt_buf (be_readTx be))"
    "\<forall>cb. cache_buf (be_cache be) = Some cb \<and> cache_bufVersion (be_cache be) = txr_bufVersion (rt_buf (be_readTx be)) \<longrightarrow>
       covers Bo b D tx rtx (be_wbuf b be) cb"
    using assms(2) by (auto simp: be_inv_def)
  show ?thesis unfolding be_inv_def w using i assms(3-6) by auto
qed

lemma be_inv_parts:
  assumes "be_inv Bo b D be"
  obtains tx where "be_tx be = OpenTx tx" "bolt_Bucket Bo tx (bk_Name b)" "txb_ok (txw_buckets (be_buf be))" "kv_sorted (be_wbuf b be)"
  using assms by (auto simp: be_inv_def)

lemma batch_put:
  assumes "bolt_laws Bo" "be_tx be = OpenTx tx" "bolt_Bucket Bo tx (bk_Name c)" "put_ok p"
  obtains tx' where "batchTx_unsafePut Bo c p seq be = Some (be_write tx' be)" "others_kept Bo (bk_Name c) tx tx'"
    "bolt_Bucket Bo tx' (bk_Name c)" "bolt_map Bo c tx' = (bolt_map Bo c tx)(fst p \<mapsto> snd p)"
proof -
  obtain tx' where "bolt_Put Bo (bk_Name c) p tx = Inr tx'" "others_kept Bo (bk_Name c) tx tx'" "bolt_Bucket Bo tx' (bk_Name c)"
    "map_of (bolt_ForEach Bo tx' (bk_Name c)) = (map_of (bolt_ForEach Bo tx (bk_Name c)))(fst p \<mapsto> snd p)"
    using bolt_Put_law [OF assms(1,3,4)] by blast
  then show thesis using that assms(2,3) by (simp add: batchTx_unsafePut_def bolt_bucket_tx_def bolt_map_def)
qed

text \<open>Both puts write the pair to the transaction and append it to the write buffer of the bucket.\<close>

lemma puts_shape:
  assumes "bolt_laws Bo" "be_tx be = OpenTx tx" "bolt_Bucket Bo tx (bk_Name c)" "put_ok p" "txb_ok (txw_buckets (be_buf be))"
    "put = UnsafePut \<or> put = UnsafeSeqPut"
  obtains tx' buf where "put Bo c p be = Some ((be_write tx' be)\<lparr>be_buf := buf\<rparr>)" "others_kept Bo (bk_Name c) tx tx'"
    "bolt_Bucket Bo tx' (bk_Name c)" "bolt_map Bo c tx' = (bolt_map Bo c tx)(fst p \<mapsto> snd p)" "txb_ok (txw_buckets buf)"
    "\<And>j. txb_items (txw_buckets buf) j = txb_items (txw_buckets (be_buf be)) j @ (if j = bk_ID c then [p] else [])"
proof -
  obtain tx' where tx': "\<And>seq. batchTx_unsafePut Bo c p seq be = Some (be_write tx' be)" "others_kept Bo (bk_Name c) tx tx'"
    "bolt_Bucket Bo tx' (bk_Name c)" "bolt_map Bo c tx' = (bolt_map Bo c tx)(fst p \<mapsto> snd p)"
    by (rule batch_put [OF assms(1-4)]) (auto simp: batchTx_unsafePut_def)
  let ?put = "\<lambda>w. if put = UnsafePut then txw_put (bk_ID c) p w else txw_putSeq (bk_ID c) p w"
  have "put Bo c p be = do { buf \<leftarrow> ?put (be_buf be); Some ((be_write tx' be)\<lparr>be_buf := buf\<rparr>) }"
    using assms(6) tx'(1) be_write_fields(2) by (auto simp: UnsafePut_def UnsafeSeqPut_def)
  moreover have "\<exists>buf. ?put (be_buf be) = Some buf \<and> txb_ok (txw_buckets buf) \<and>
      (\<forall>j. txb_items (txw_buckets buf) j = txb_items (txw_buckets (be_buf be)) j @ (if j = bk_ID c then [p] else []))"
    using putInternal_items [of "be_buf be" "bk_ID c" p] assms(5)
      putInternal_items [of "(be_buf be)\<lparr>txw_bucket2seq := Mapping.update (bk_ID c) False (txw_bucket2seq (be_buf be))\<rparr>" "bk_ID c" p]
    by (auto simp: txw_put_def txw_putSeq_def)
  ultimately show thesis using that tx'(2-4) by auto
qed

definition bucket_apart :: "Bucket \<Rightarrow> Bucket \<Rightarrow> bool" where
  "bucket_apart b c \<longleftrightarrow> bk_ID c \<noteq> bk_ID b \<and> bk_Name c \<noteq> bk_Name b"

lemma be_put_own:
  assumes "bolt_laws Bo" "be_inv Bo b D be" "put_ok p" "put = UnsafePut \<or> put = UnsafeSeqPut" "kv_sorted (be_wbuf b be @ [p])"
  shows "\<exists>be'. put Bo b p be = Some be' \<and> be_inv Bo b D be' \<and> be_view Bo b be' = (be_view Bo b be)(fst p \<mapsto> snd p) \<and>
    be_wbuf b be' = be_wbuf b be @ [p] \<and> be_has Bo be' = be_has Bo be"
proof -
  obtain tx where i: "be_tx be = OpenTx tx" "bolt_Bucket Bo tx (bk_Name b)" "txb_ok (txw_buckets (be_buf be))" "kv_sorted (be_wbuf b be)"
    using be_inv_parts [OF assms(2)] by blast
  obtain tx' buf where p: "put Bo b p be = Some ((be_write tx' be)\<lparr>be_buf := buf\<rparr>)" "others_kept Bo (bk_Name b) tx tx'"
    "bolt_Bucket Bo tx' (bk_Name b)" "bolt_map Bo b tx' = (bolt_map Bo b tx)(fst p \<mapsto> snd p)" "txb_ok (txw_buckets buf)"
    "\<And>j. txb_items (txw_buckets buf) j = txb_items (txw_buckets (be_buf be)) j @ (if j = bk_ID b then [p] else [])"
    using puts_shape [OF assms(1) i(1,2) assms(3) i(3) assms(4)] by blast
  have w: "txb_items (txw_buckets buf) (bk_ID b) = be_wbuf b be @ [p]" using p(6) by (simp add: be_wbuf_def)
  have "be_inv Bo b D ((be_write tx' be)\<lparr>be_buf := buf\<rparr>)"
    by (rule be_inv_write [OF assms(2) i(1) p(3,5)]) (simp_all add: w assms(5) covers_put [OF _ p(4)])
  then show ?thesis
    using p(1,4) w i(1) others_kept_has [OF p(2) i(2) p(3)] by (auto simp: be_view_def be_wbuf_def be_has_def fun_eq_iff)
qed

lemma be_put_other:
  assumes "bolt_laws Bo" "be_inv Bo b D be" "put_ok p" "put = UnsafePut \<or> put = UnsafeSeqPut" "bucket_apart b c" "be_has Bo be (bk_Name c)"
  shows "\<exists>be'. put Bo c p be = Some be' \<and> be_inv Bo b D be' \<and> be_view Bo b be' = be_view Bo b be \<and>
    be_wbuf b be' = be_wbuf b be \<and> be_has Bo be' = be_has Bo be"
proof -
  obtain tx where i: "be_tx be = OpenTx tx" "bolt_Bucket Bo tx (bk_Name b)" "txb_ok (txw_buckets (be_buf be))" "kv_sorted (be_wbuf b be)"
    using be_inv_parts [OF assms(2)] by blast
  have h: "bolt_Bucket Bo tx (bk_Name c)" using assms(6) i(1) by (simp add: be_has_def)
  obtain tx' buf where p: "put Bo c p be = Some ((be_write tx' be)\<lparr>be_buf := buf\<rparr>)" "others_kept Bo (bk_Name c) tx tx'"
    "bolt_Bucket Bo tx' (bk_Name c)" "txb_ok (txw_buckets buf)"
    "\<And>j. txb_items (txw_buckets buf) j = txb_items (txw_buckets (be_buf be)) j @ (if j = bk_ID c then [p] else [])"
    using puts_shape [OF assms(1) i(1) h assms(3) i(3) assms(4)] by blast
  have n: "bk_Name b \<noteq> bk_Name c" "bk_ID b \<noteq> bk_ID c" using assms(5) by (auto simp: bucket_apart_def)
  have w: "txb_items (txw_buckets buf) (bk_ID b) = be_wbuf b be" using p(5) n(2) by (simp add: be_wbuf_def)
  have m: "bolt_map Bo b tx' = bolt_map Bo b tx" using others_kept_map [OF p(2) n(1)] .
  have h': "bolt_Bucket Bo tx' = bolt_Bucket Bo tx" using others_kept_has [OF p(2) h p(3)] .
  have "be_inv Bo b D ((be_write tx' be)\<lparr>be_buf := buf\<rparr>)"
    by (rule be_inv_write [OF assms(2) i(1) _ p(4)]) (simp_all add: w h' i covers_same [OF _ m])
  then show ?thesis using p(1) w i(1) m h' by (auto simp: be_view_def be_wbuf_def be_has_def fun_eq_iff)
qed

lemma map_of_filter_other: "map_of (filter (\<lambda>p. fst p \<noteq> key) ps) = (map_of ps)(key := None)"
  by (induction ps) (auto simp: fun_eq_iff)

lemma be_delete_own:
  assumes "bolt_laws Bo" "be_inv Bo b D be"
  shows "\<exists>be'. UnsafeDelete Bo b key be = Some be' \<and> be_inv Bo b (insert key D) be' \<and> be_view Bo b be' = (be_view Bo b be)(key := None) \<and>
    be_wbuf b be' = be_wbuf b be \<and> be_has Bo be' = be_has Bo be"
proof -
  obtain tx where i: "be_tx be = OpenTx tx" "bolt_Bucket Bo tx (bk_Name b)" "txb_ok (txw_buckets (be_buf be))" "kv_sorted (be_wbuf b be)"
    using be_inv_parts [OF assms(2)] by blast
  obtain tx' where d: "bolt_Delete Bo (bk_Name b) key tx = Inr tx'" "others_kept Bo (bk_Name b) tx tx'" "bolt_Bucket Bo tx' (bk_Name b)"
    "bolt_ForEach Bo tx' (bk_Name b) = filter (\<lambda>p. fst p \<noteq> key) (bolt_ForEach Bo tx (bk_Name b))"
    using bolt_Delete_law [OF assms(1) i(2)] by blast
  have m: "bolt_map Bo b tx' = (bolt_map Bo b tx)(key := None)"
    by (simp add: bolt_map_def d(4) map_of_filter_other)
  have "be_inv Bo b (insert key D) ((be_write tx' be)\<lparr>be_buf := be_buf be\<rparr>)"
    by (rule be_inv_write [OF assms(2) i(1) d(3) i(3)]) (use i(4) m in \<open>auto simp: be_wbuf_def covers_def\<close>)
  then show ?thesis
    using m d(1) i(1,2) others_kept_has [OF d(2) i(2) d(3)]
    by (auto simp: UnsafeDelete_def bolt_bucket_tx_def be_view_def be_wbuf_def be_has_def fun_eq_iff be_write_def)
qed

subsection \<open>Unlocking and committing\<close>

lemma same_content_refl: "same_content Bo t t"
  by (simp add: same_content_def)

lemma same_content_trans: "same_content Bo t t' \<Longrightarrow> same_content Bo t' t'' \<Longrightarrow> same_content Bo t t''"
  by (simp add: same_content_def)

lemma same_content_sym: "same_content Bo t t' \<Longrightarrow> same_content Bo t' t"
  by (simp add: same_content_def)

text \<open>A hook must leave alone what a reader of the bucket sees.\<close>

definition keeps_bucket :: "'t bolt \<Rightarrow> Bucket \<Rightarrow> 't backend \<Rightarrow> 't backend \<Rightarrow> bool" where
  "keeps_bucket Bo b be be' \<longleftrightarrow> be_view Bo b be' = be_view Bo b be \<and> be_has Bo be' = be_has Bo be"

definition hook_ok :: "'t bolt \<Rightarrow> Bucket \<Rightarrow> 't hook \<Rightarrow> bool" where
  "hook_ok Bo b hooks \<longleftrightarrow> (\<forall>f. hooks = Some f \<longrightarrow> (\<forall>D be. be_inv Bo b D be \<longrightarrow>
     (\<exists>be'. f be = Some be' \<and> be_inv Bo b D be' \<and> keeps_bucket Bo b be be' \<and> be_wbuf b be' = be_wbuf b be)))"

lemma hook_ok_None [simp]: "hook_ok Bo b None"
  by (simp add: hook_ok_def)

text \<open>What a commit leaves: nothing pending, both transactions as the database.\<close>

lemma batchTx_commit_open:
  assumes "bolt_laws Bo" "be_tx be = OpenTx tx" "be_pending be = 0 \<longrightarrow> same_content Bo (be_db be) tx"
  obtains be' tx' where "batchTx_commit Bo False be = Some be'" "be_tx be' = OpenTx tx'" "same_content Bo tx tx'"
    "same_content Bo (be_db be') tx'" "be_pending be' = 0" "be_buf be' = be_buf be" "be_readTx be' = be_readTx be" "be_cache be' = be_cache be"
proof (cases "be_pending be = 0")
  case True
  then show thesis using that [of be tx] assms(2,3) same_content_refl [of Bo tx] by (simp add: batchTx_commit_def)
next
  case False
  obtain db where db: "bolt_Commit Bo tx = Inr db" "same_content Bo tx db" using bolt_Commit_law [OF assms(1)] by blast
  obtain tx' where tx': "bolt_Begin Bo True db = Inr tx'" "same_content Bo db tx'" using bolt_Begin_law [OF assms(1)] by blast
  show thesis
    by (rule that [of "be\<lparr>be_db := db, be_tx := OpenTx tx', be_pending := 0, be_commits := be_commits be + 1\<rparr>" tx'])
       (use False assms(2) db tx' same_content_trans [OF db(2) tx'(2)] in \<open>simp_all add: batchTx_commit_def be_begin_def\<close>)
qed

lemma unsafeCommit_inv:
  assumes "bolt_laws Bo" "be_inv Bo b D be" "be_wbuf b be = []"
  shows "\<exists>be'. unsafeCommit Bo False be = Some be' \<and> be_inv Bo b D be' \<and> keeps_bucket Bo b be be' \<and> be_wbuf b be' = [] \<and>
    be_pending be' = 0"
proof -
  from assms(2) obtain tx rtx where i: "be_tx be = OpenTx tx" "rt_tx (be_readTx be) = Some rtx" "bolt_Bucket Bo tx (bk_Name b)"
    "txb_ok (txw_buckets (be_buf be))" "be_pending be = 0 \<longrightarrow> same_content Bo (be_db be) tx"
    "covers Bo b D tx rtx [] (rt_buf (be_readTx be))"
    "cache_bufVersion (be_cache be) \<le> txr_bufVersion (rt_buf (be_readTx be))"
    "\<forall>cb. cache_buf (be_cache be) = Some cb \<and> cache_bufVersion (be_cache be) = txr_bufVersion (rt_buf (be_readTx be)) \<longrightarrow>
       covers Bo b D tx rtx [] cb"
    unfolding be_inv_def assms(3) by auto
  let ?be = "be\<lparr>be_readTx := readTx_reset (be_readTx be)\<rparr>"
  have "be_tx ?be = OpenTx tx" "be_pending ?be = 0 \<longrightarrow> same_content Bo (be_db ?be) tx" using i(1,5) by simp_all
  from batchTx_commit_open [OF assms(1) this] obtain be1 tx' where
    c: "batchTx_commit Bo False ?be = Some be1" "be_tx be1 = OpenTx tx'" "same_content Bo tx tx'" "same_content Bo (be_db be1) tx'"
      "be_pending be1 = 0" "be_buf be1 = be_buf be" "be_readTx be1 = readTx_reset (be_readTx be)" "be_cache be1 = be_cache be"
    by auto
  obtain rtx' where r: "bolt_Begin Bo False (be_db be1) = Inr rtx'" "same_content Bo (be_db be1) rtx'"
    using bolt_Begin_law [OF assms(1)] by blast
  have mtx: "bolt_map Bo b tx' = bolt_map Bo b tx" using same_content_map [OF c(3)] .
  have mr: "bolt_map Bo b rtx' = bolt_map Bo b tx"
    using same_content_map [OF r(2)] same_content_map [OF c(4)] mtx by simp
  have cov: "covers Bo b D tx' rtx' [] txr" if "covers Bo b D tx rtx [] txr" for txr
    using that mtx mr by (auto simp: covers_def map_add_def split: option.splits)
  have cov0: "covers Bo b D tx' rtx' [] (rt_buf (readTx_reset (be_readTx be)))"
    using i(6) mtx mr txb_reset_ok by (auto simp: covers_def be_rbuf_def readTx_reset_def)
  have v: "txr_bufVersion (rt_buf (readTx_reset (be_readTx be))) = txr_bufVersion (rt_buf (be_readTx be))"
    by (simp add: readTx_reset_def)
  let ?r = "be1\<lparr>be_readTx := (be_readTx be1)\<lparr>rt_tx := Some rtx'\<rparr>\<rparr>"
  have w: "be_wbuf b ?r = []" using assms(3) c(6) by (simp add: be_wbuf_def)
  have h: "bolt_Bucket Bo tx' = bolt_Bucket Bo tx" using c(3) by (simp add: same_content_def fun_eq_iff)
  have "be_inv Bo b D ?r"
    unfolding be_inv_def w using c r i(3,4,7,8) cov cov0 v h by simp
  moreover have "unsafeCommit Bo False be = Some ?r"
    using i(2) c(1) r(1) by (simp add: unsafeCommit_def be_begin_def Let_def)
  moreover have "keeps_bucket Bo b be ?r" using c(2) i(1) mtx h by (simp add: keeps_bucket_def be_view_def be_has_def fun_eq_iff)
  ultimately show ?thesis using w c(5) by simp
qed

lemma commit_inv:
  assumes "bolt_laws Bo" "be_inv Bo b D be" "be_wbuf b be = []" "hook_ok Bo b hooks"
  shows "\<exists>be'. batchTxBuffered_commit Bo hooks False be = Some be' \<and> be_inv Bo b D be' \<and> keeps_bucket Bo b be be' \<and> be_wbuf b be' = [] \<and>
    be_pending be' = 0"
proof (cases hooks)
  case None
  then show ?thesis using unsafeCommit_inv [OF assms(1-3)] by (simp add: batchTxBuffered_commit_def)
next
  case (Some f)
  obtain be1 where h: "f be = Some be1" "be_inv Bo b D be1" "keeps_bucket Bo b be be1" "be_wbuf b be1 = be_wbuf b be"
    using assms(2,4) Some unfolding hook_ok_def by blast
  then show ?thesis using unsafeCommit_inv [OF assms(1) h(2)] Some assms(3) by (auto simp: batchTxBuffered_commit_def keeps_bucket_def)
qed

lemma unlock_rest:
  assumes "be_inv Bo b D be" "be_pending be = 0 \<or> int (be_pending be) < be_batchLimit be"
  shows "(if int (be_pending be) \<ge> be_batchLimit be then batchTx_commit Bo False be else Some be) = Some be"
  using assms by (auto simp: batchTx_commit_def be_inv_def)

lemma be_Unlock_inv:
  assumes "bolt_laws Bo" "sort_law sort_Sort" "be_inv Bo b D be" "hook_ok Bo b hooks"
  shows "\<exists>be'. be_Unlock Bo sort_Sort hooks be = Some be' \<and> be_inv Bo b D be' \<and> keeps_bucket Bo b be be' \<and> be_wbuf b be' = []"
proof (cases "be_pending be = 0")
  case True
  then show ?thesis
    using unlock_rest [OF assms(3)] assms(3) by (auto simp: be_Unlock_def keeps_bucket_def be_inv_def)
next
  case False
  from assms(3) obtain tx rtx where i: "be_tx be = OpenTx tx" "rt_tx (be_readTx be) = Some rtx" "bolt_Bucket Bo tx (bk_Name b)"
    "same_content Bo (be_db be) rtx" "txb_ok (txw_buckets (be_buf be))" "kv_sorted (be_wbuf b be)"
    "covers Bo b D tx rtx (be_wbuf b be) (rt_buf (be_readTx be))"
    "cache_bufVersion (be_cache be) \<le> txr_bufVersion (rt_buf (be_readTx be))"
    unfolding be_inv_def by blast
  have ok: "txb_ok (txr_buckets (rt_buf (be_readTx be)))" using i(7) by (simp add: covers_def)
  from writeback_ok [OF assms(2) i(5) ok] obtain buf rbuf where
    wb: "writeback sort_Sort (be_buf be) (rt_buf (be_readTx be)) = Some (buf, rbuf)" "txb_ok (txw_buckets buf)" "txb_ok (txr_buckets rbuf)"
      "txr_bufVersion rbuf = txr_bufVersion (rt_buf (be_readTx be)) + 1" "\<forall>k. txb_items (txw_buckets buf) k = []"
      "kv_sorted (be_wbuf b be) \<longrightarrow> kv_sorted (be_rbuf b (rt_buf (be_readTx be))) \<longrightarrow> kv_sorted (be_rbuf b rbuf) \<and>
         map_of (be_rbuf b rbuf) = map_of (be_rbuf b (rt_buf (be_readTx be))) ++ map_of (be_wbuf b be)"
    by (auto simp: be_rbuf_def be_wbuf_def)
  let ?be = "be\<lparr>be_buf := buf, be_readTx := (be_readTx be)\<lparr>rt_buf := rbuf\<rparr>\<rparr>"
  have w: "be_wbuf b ?be = []" using wb(5) by (simp add: be_wbuf_def)
  have "covers Bo b D tx rtx [] rbuf" using i(6,7) wb(3,6) by (simp add: covers_def)
  then have inv: "be_inv Bo b D ?be" unfolding be_inv_def w using i wb(2,4) False by simp
  have k: "keeps_bucket Bo b be ?be" by (simp add: keeps_bucket_def be_view_def be_has_def fun_eq_iff)
  show ?thesis
  proof (cases "int (be_pending be) \<ge> be_batchLimit be")
    case True
    obtain be2 where c: "batchTxBuffered_commit Bo hooks False ?be = Some be2" "be_inv Bo b D be2" "keeps_bucket Bo b ?be be2" "be_wbuf b be2 = []"
      "be_pending be2 = 0" using commit_inv [OF assms(1) inv w assms(4)] by blast
    then show ?thesis using False True wb(1) k unlock_rest [OF c(2)] by (simp add: be_Unlock_def keeps_bucket_def)
  next
    case lt: False
    then show ?thesis using False wb(1) inv w k unlock_rest [OF inv] by (simp add: be_Unlock_def)
  qed
qed

lemma be_Commit_inv:
  assumes "bolt_laws Bo" "sort_law sort_Sort" "be_inv Bo b D be" "be_wbuf b be = []" "hook_ok Bo b hooks"
  shows "\<exists>be'. be_Commit Bo sort_Sort hooks be = Some be' \<and> be_inv Bo b D be' \<and> keeps_bucket Bo b be be' \<and> be_wbuf b be' = []"
proof -
  obtain be1 where c: "batchTxBuffered_commit Bo hooks False be = Some be1" "be_inv Bo b D be1" "keeps_bucket Bo b be be1"
    using commit_inv [OF assms(1,3,4,5)] by blast
  then show ?thesis using be_Unlock_inv [OF assms(1,2) c(2) assms(5)] by (auto simp: be_Commit_def keeps_bucket_def)
qed

subsection \<open>Reads\<close>

definition found :: "bytes \<Rightarrow> bytes option \<Rightarrow> kv list" where
  "found key v = (case v of None \<Rightarrow> [] | Some v \<Rightarrow> [(key, v)])"

lemma cursor_single: "kv_sorted ps \<Longrightarrow> cursor_range (\<lambda>b. b = key) 1 (filter (\<lambda>p. key \<le> fst p) ps) [] = found key (map_of ps key)"
proof (induction ps)
  case (Cons p ps)
  show ?case
  proof (cases "key \<le> fst p")
    case True
    then have "map_of ps key = None" using Cons.prems by (auto simp: map_of_eq_None_iff)
    then show ?thesis using True by (cases p) (auto simp: found_def)
  next
    case False
    then show ?thesis using Cons by auto
  qed
qed (simp add: found_def)

lemma unsafeRange_single:
  "bolt_laws Bo \<Longrightarrow> blen e = 0 \<Longrightarrow>
     unsafeRange (bolt_Seek Bo t (bk_Name b)) key e limit = found key (bolt_map Bo b t key)"
  by (simp add: unsafeRange_def bolt_Seek_law cursor_single bolt_sorted bolt_map_def)

lemma batch_read_single:
  assumes "bolt_laws Bo" "be_has Bo be (bk_Name b)"
  shows "batchTx_UnsafeRange Bo b key None limit be = Some (found key (be_view Bo b be key))"
  using assms unsafeRange_single [OF assms(1), of None]
  by (cases "be_tx be") (auto simp: batchTx_UnsafeRange_def bolt_bucket_tx_def be_has_def be_view_def)

lemma covered_read_single:
  assumes "bolt_laws Bo" "covers Bo b D tx rtx [] txr" "key \<notin> D"
  shows "baseReadTx_UnsafeRange Bo b key None limit \<lparr>rt_buf = txr, rt_tx = Some rtx\<rparr> = Some (found key (bolt_map Bo b tx key))"
proof -
  let ?ps = "be_rbuf b txr"
  have c: "txb_ok (txr_buckets txr)" "kv_sorted ?ps" "(bolt_map Bo b rtx ++ map_of ?ps) key = bolt_map Bo b tx key"
    using assms(2,3) by (simp_all add: covers_def)
  have "txr_Range (bk_ID b) key None 1 txr = Some (found key (map_of ?ps key))"
    using txr_Range_single [of txr "bk_ID b" None key 1] c(1,2) map_of_sorted_filter [OF c(2), of key] by (simp add: be_rbuf_def found_def)
  moreover have "bolt_map Bo b rtx key = None" if "\<not> bolt_Bucket Bo rtx (bk_Name b)"
    using bolt_no_bucket [OF assms(1) that] by (simp add: bolt_map_def)
  ultimately show ?thesis
    using unsafeRange_single [OF assms(1), of None rtx b key] unfolding c(3) [symmetric]
    by (cases "map_of ?ps key") (auto simp: baseReadTx_UnsafeRange_def Let_def found_def map_add_def)
qed

lemma read_single:
  assumes "bolt_laws Bo" "be_inv Bo b D be" "be_wbuf b be = []" "key \<notin> D"
  shows "baseReadTx_UnsafeRange Bo b key None limit (be_readTx be) = Some (found key (be_view Bo b be key))"
proof -
  from assms(2) obtain tx rtx where "be_tx be = OpenTx tx" "rt_tx (be_readTx be) = Some rtx" "covers Bo b D tx rtx [] (rt_buf (be_readTx be))"
    unfolding be_inv_def assms(3) by auto
  then show ?thesis
    using covered_read_single [OF assms(1) _ assms(4), of b tx rtx "rt_buf (be_readTx be)" limit]
    by (simp add: be_view_def) (metis (full_types) baseReadTx.surjective old.unit.exhaust)
qed

lemma ConcurrentReadTx_inv:
  assumes "bolt_laws Bo" "be_inv Bo b D be" "be_wbuf b be = []"
  shows "\<exists>rt be'. ConcurrentReadTx be = (rt, be') \<and> be_inv Bo b D be' \<and> keeps_bucket Bo b be be' \<and> be_wbuf b be' = [] \<and>
    (\<forall>key limit. key \<notin> D \<longrightarrow> baseReadTx_UnsafeRange Bo b key None limit rt = Some (found key (be_view Bo b be key)))"
proof -
  let ?txr = "rt_buf (be_readTx be)"
  from assms(2) obtain tx rtx where i: "be_tx be = OpenTx tx" "rt_tx (be_readTx be) = Some rtx" "covers Bo b D tx rtx [] ?txr"
    "\<forall>cb. cache_buf (be_cache be) = Some cb \<and> cache_bufVersion (be_cache be) = txr_bufVersion ?txr \<longrightarrow> covers Bo b D tx rtx [] cb"
    unfolding be_inv_def assms(3) by auto
  obtain buf where c: "ConcurrentReadTx be = (\<lparr>rt_buf = buf, rt_tx = Some rtx\<rparr>,
      be\<lparr>be_cache := \<lparr>cache_buf = Some buf, cache_bufVersion = txr_bufVersion ?txr\<rparr>\<rparr>)"
    "buf = unsafeCopy ?txr \<or> (cache_buf (be_cache be) = Some buf \<and> cache_bufVersion (be_cache be) = txr_bufVersion ?txr)"
    using i(2) by (auto simp: ConcurrentReadTx_def Let_def split: option.split)
  have "covers Bo b D tx rtx [] (unsafeCopy ?txr)" using i(3) unsafeCopy_ok by (simp add: covers_def be_rbuf_def)
  then have cov: "covers Bo b D tx rtx [] buf" using c(2) i(4) by blast
  let ?be = "be\<lparr>be_cache := \<lparr>cache_buf = Some buf, cache_bufVersion = txr_bufVersion ?txr\<rparr>\<rparr>"
  have w: "be_wbuf b ?be = []" using assms(3) by (simp add: be_wbuf_def)
  have "be_inv Bo b D ?be" using assms(2) cov i(1,2) unfolding be_inv_def w assms(3) by auto
  moreover have "keeps_bucket Bo b be ?be" by (simp add: keeps_bucket_def be_view_def be_has_def fun_eq_iff)
  ultimately show ?thesis
    using c(1) w covered_read_single [OF assms(1) cov] i(1) by (simp add: be_view_def)
qed

lemma newBackend_inv:
  assumes "bolt_laws Bo" "sort_law sort_Sort" "bolt_Bucket Bo db (bk_Name b)"
  shows "\<exists>be. newBackend Bo sort_Sort batchLimit db = Some be \<and> be_inv Bo b {} be \<and> be_wbuf b be = [] \<and>
    be_view Bo b be = bolt_map Bo b db \<and> be_has Bo be = bolt_Bucket Bo db"
proof -
  obtain tx rtx where t: "bolt_Begin Bo True db = Inr tx" "same_content Bo db tx" "bolt_Begin Bo False db = Inr rtx" "same_content Bo db rtx"
    using bolt_Begin_law [OF assms(1)] by meson
  let ?be = "\<lparr>be_db = db, be_batchLimit = batchLimit, be_tx = OpenTx tx, be_pending = 0,
     be_buf = \<lparr>txw_buckets = Mapping.empty, txw_bucket2seq = Mapping.empty\<rparr>,
     be_readTx = \<lparr>rt_buf = \<lparr>txr_buckets = Mapping.empty, txr_bufVersion = 0\<rparr>, rt_tx = Some rtx\<rparr>,
     be_cache = \<lparr>cache_buf = None, cache_bufVersion = 0\<rparr>, be_commits = 0\<rparr>"
  have h: "bolt_Bucket Bo tx = bolt_Bucket Bo db" "bolt_map Bo b tx = bolt_map Bo b db" "bolt_map Bo b rtx = bolt_map Bo b db"
    using t(2) same_content_map [OF t(2)] same_content_map [OF t(4)] by (simp_all add: same_content_def fun_eq_iff)
  have inv: "be_inv Bo b {} ?be" "be_wbuf b ?be = []"
    using t(2,4) h assms(3) by (auto simp: be_inv_def covers_def be_wbuf_def be_rbuf_def txb_items_def txb_ok_def)
  have "newBackend Bo sort_Sort batchLimit db = Some ?be"
    using t(1,3) unlock_rest [OF inv(1)]
    by (simp add: newBackend_def be_Commit_def batchTxBuffered_commit_def unsafeCommit_def batchTx_commit_def be_begin_def be_Unlock_def Let_def)
  then show ?thesis using inv h by (simp add: be_view_def be_has_def fun_eq_iff)
qed

section \<open>A database that keeps the laws\<close>

text \<open>For every bucket the pairs in the order in which they were put; reading sorts them.\<close>

type_synonym log_db = "bytes \<Rightarrow> kv list option"

definition log_pairs :: "log_db \<Rightarrow> bytes \<Rightarrow> kv list" where
  "log_pairs t n = (case t n of None \<Rightarrow> [] | Some ps \<Rightarrow> newest (sort_key fst ps))"

definition log_bolt :: "log_db bolt" where
  "log_bolt = \<lparr>
     bolt_Bucket = \<lambda>t n. t n \<noteq> None,
     bolt_CreateBucket = \<lambda>n t. if t n \<noteq> None then Inl ErrBucketExists else if n = [] then Inl OtherBoltErr else Inr (t(n := Some [])),
     bolt_DeleteBucket = \<lambda>n t. if t n = None then Inl ErrBucketNotFound else Inr (t(n := None)),
     bolt_Put = \<lambda>n p t. (case t n of None \<Rightarrow> Inl OtherBoltErr | Some ps \<Rightarrow>
                          if put_ok p then Inr (t(n := Some (ps @ [p]))) else Inl OtherBoltErr),
     bolt_Delete = \<lambda>n key t. (case t n of None \<Rightarrow> Inl OtherBoltErr | Some ps \<Rightarrow> Inr (t(n := Some (filter (\<lambda>p. fst p \<noteq> key) ps)))),
     bolt_Seek = \<lambda>t n key. filter (\<lambda>p. key \<le> fst p) (log_pairs t n),
     bolt_ForEach = log_pairs, bolt_Commit = Inr, bolt_Begin = \<lambda>w. Inr\<rparr>"

lemma newest_filter: "newest (filter (\<lambda>p. fst p \<noteq> key) ps) = filter (\<lambda>p. fst p \<noteq> key) (newest ps)" if "sorted (map fst ps)"
  using that
proof (induction ps rule: newest.induct)
  case (3 p q ps)
  have key: "newest (p # xs) = p # newest xs" if "\<forall>x \<in> set xs. fst x \<noteq> fst p" for xs using that by (cases xs) auto
  show ?case
  proof (cases "fst p = fst q")
    case True
    then show ?thesis using 3 by (cases "fst q = key") simp_all
  next
    case False
    then have "\<forall>x \<in> set (q # ps). fst x \<noteq> fst p" using 3(3) by auto
    then have "\<forall>x \<in> set (filter (\<lambda>p. fst p \<noteq> key) (q # ps)). fst x \<noteq> fst p" by auto
    from key [OF this] show ?thesis using 3(2) [OF False] 3(3) False by simp
  qed
qed simp_all

lemma log_bolt_laws: "bolt_laws log_bolt"
proof -
  have s: "kv_sorted (newest (sort_key fst ps))" for ps by (rule newest_sorted) simp
  have p: "map_of (newest (sort_key fst (ps @ [p]))) = (map_of (newest (sort_key fst ps)))(fst p \<mapsto> snd p)" for ps p
    using map_of_newest [of "sort_key fst (ps @ [p])"] map_of_newest [of "sort_key fst ps"]
      map_of_rev_Stable [of "ps @ [p]"] map_of_rev_Stable [of ps] by simp
  have d: "newest (sort_key fst (filter (\<lambda>p. fst p \<noteq> key) ps)) = filter (\<lambda>p. fst p \<noteq> key) (newest (sort_key fst ps))" for key ps
    using newest_filter [of "sort_key fst ps" key] by (simp add: filter_sort)
  show ?thesis
    unfolding bolt_laws_def
    by (intro conjI allI impI) (auto simp: log_bolt_def log_pairs_def s p d others_kept_def same_content_def split: option.split)
qed

lemma sort_key_law: "sort_law (sort_key fst)"
  by (simp add: sort_law_def)

section \<open>Properties\<close>

text \<open>Critical sections that write pairs, commits, and the opening of concurrent readers.\<close>

datatype be_op = Locked "(Bucket \<times> kv \<times> bool) list" | Force | OpenReader

fun be_puts :: "'t bolt \<Rightarrow> (Bucket \<times> kv \<times> bool) list \<Rightarrow> 't backend \<Rightarrow> 't backend option" where
  "be_puts Bo [] be = Some be"
| "be_puts Bo ((c, p, seq) # ws) be = do { be \<leftarrow> (if seq then UnsafeSeqPut else UnsafePut) Bo c p be; be_puts Bo ws be }"

fun be_exec :: "'t bolt \<Rightarrow> (kv list \<Rightarrow> kv list) \<Rightarrow> 't hook \<Rightarrow> be_op \<Rightarrow> 't backend \<Rightarrow> 't backend option" where
  "be_exec Bo sort_Sort hooks (Locked ws) be = do { be \<leftarrow> be_puts Bo ws be; be_Unlock Bo sort_Sort hooks be }"
| "be_exec Bo sort_Sort hooks Force be = ForceCommit Bo sort_Sort hooks be"
| "be_exec Bo sort_Sort hooks OpenReader be = Some (snd (ConcurrentReadTx be))"

fun be_execs :: "'t bolt \<Rightarrow> (kv list \<Rightarrow> kv list) \<Rightarrow> 't hook \<Rightarrow> be_op list \<Rightarrow> 't backend \<Rightarrow> 't backend option" where
  "be_execs Bo sort_Sort hooks [] be = Some be"
| "be_execs Bo sort_Sort hooks (x # xs) be = do { be \<leftarrow> be_exec Bo sort_Sort hooks x be; be_execs Bo sort_Sort hooks xs be }"

fun op_writes :: "be_op \<Rightarrow> (Bucket \<times> kv \<times> bool) list" where
  "op_writes (Locked ws) = ws"
| "op_writes Force = []"
| "op_writes OpenReader = []"

definition own_pairs :: "Bucket \<Rightarrow> (Bucket \<times> kv \<times> bool) list \<Rightarrow> kv list" where
  "own_pairs b ws = map (\<lambda>(c, p, seq). p) (filter (\<lambda>(c, p, seq). c = b) ws)"

definition op_ok :: "'t bolt \<Rightarrow> 't \<Rightarrow> Bucket \<Rightarrow> be_op \<Rightarrow> bool" where
  "op_ok Bo db b x \<longleftrightarrow> (\<forall>(c, p, seq) \<in> set (op_writes x). c \<in> set schema_buckets \<and> bolt_Bucket Bo db (bk_Name c) \<and> put_ok p) \<and>
     kv_sorted (own_pairs b (op_writes x))"

lemma schema_apart:
  assumes "b \<in> set schema_buckets" "c \<in> set schema_buckets" "b \<noteq> c"
  shows "bucket_apart b c"
proof -
  have d: "distinct (map bk_ID schema_buckets)" "distinct (map bk_Name schema_buckets)" by code_simp+
  then show ?thesis
    using assms by (auto simp: bucket_apart_def distinct_map inj_on_def)
qed

lemma be_puts_inv:
  assumes "bolt_laws Bo" "b \<in> set schema_buckets"
    "be_inv Bo b {} be" "\<And>c p seq. (c, p, seq) \<in> set ws \<Longrightarrow> c \<in> set schema_buckets \<and> be_has Bo be (bk_Name c) \<and> put_ok p"
    "kv_sorted (be_wbuf b be @ own_pairs b ws)"
  shows "\<exists>be'. be_puts Bo ws be = Some be' \<and> be_inv Bo b {} be' \<and> be_has Bo be' = be_has Bo be \<and>
    be_view Bo b be' = be_view Bo b be ++ map_of (rev (own_pairs b ws))"
  using assms(3-5)
proof (induction ws arbitrary: be)
  case Nil
  then show ?case by (simp add: own_pairs_def)
next
  case (Cons x ws)
  obtain c p seq where x: "x = (c, p, seq)" by (cases x)
  define put where "put = (if seq then UnsafeSeqPut else UnsafePut :: 'a bolt \<Rightarrow> _)"
  have put: "put = UnsafePut \<or> put = UnsafeSeqPut" by (simp add: put_def)
  have c: "c \<in> set schema_buckets" "be_has Bo be (bk_Name c)" "put_ok p" using Cons.prems(2) [of c p seq] x by auto
  have step: "be_puts Bo (x # ws) be = do { be \<leftarrow> put Bo c p be; be_puts Bo ws be }" by (simp add: x put_def)
  show ?case
  proof (cases "c = b")
    case True
    have s: "kv_sorted (be_wbuf b be @ [p])" using Cons.prems(3) x True by (auto simp: own_pairs_def sorted_wrt_append)
    obtain be1 where b1: "put Bo b p be = Some be1" "be_inv Bo b {} be1" "be_view Bo b be1 = (be_view Bo b be)(fst p \<mapsto> snd p)"
      "be_wbuf b be1 = be_wbuf b be @ [p]" "be_has Bo be1 = be_has Bo be"
      using be_put_own [OF assms(1) Cons.prems(1) c(3) put s] by blast
    have "kv_sorted (be_wbuf b be1 @ own_pairs b ws)" using Cons.prems(3) x True b1(4) by (simp add: own_pairs_def)
    moreover have "c' \<in> set schema_buckets \<and> be_has Bo be1 (bk_Name c') \<and> put_ok q" if "(c', q, s) \<in> set ws" for c' q s
      using Cons.prems(2) [of c' q s] that b1(5) by simp
    ultimately obtain be2 where "be_puts Bo ws be1 = Some be2" "be_inv Bo b {} be2" "be_has Bo be2 = be_has Bo be1"
      "be_view Bo b be2 = be_view Bo b be1 ++ map_of (rev (own_pairs b ws))"
      using Cons.IH [OF b1(2)] by blast
    moreover have "own_pairs b (x # ws) = p # own_pairs b ws" by (simp add: own_pairs_def x True)
    moreover have "be_view Bo b be1 ++ m = be_view Bo b be ++ ([fst p \<mapsto> snd p] ++ m)" for m
      by (simp add: b1(3) fun_eq_iff map_add_def split: option.split)
    ultimately show ?thesis using step True b1 by simp
  next
    case False
    obtain be1 where b1: "put Bo c p be = Some be1" "be_inv Bo b {} be1" "be_view Bo b be1 = be_view Bo b be"
      "be_wbuf b be1 = be_wbuf b be" "be_has Bo be1 = be_has Bo be"
      using be_put_other [OF assms(1) Cons.prems(1) c(3) put _ c(2)] schema_apart [OF assms(2) c(1)] False by blast
    have "kv_sorted (be_wbuf b be1 @ own_pairs b ws)" using Cons.prems(3) x False b1(4) by (simp add: own_pairs_def)
    moreover have "c' \<in> set schema_buckets \<and> be_has Bo be1 (bk_Name c') \<and> put_ok q" if "(c', q, s) \<in> set ws" for c' q s
      using Cons.prems(2) [of c' q s] that b1(5) by simp
    ultimately obtain be2 where "be_puts Bo ws be1 = Some be2" "be_inv Bo b {} be2" "be_has Bo be2 = be_has Bo be1"
      "be_view Bo b be2 = be_view Bo b be1 ++ map_of (rev (own_pairs b ws))"
      using Cons.IH [OF b1(2)] by blast
    then show ?thesis using step False b1 x by (simp add: own_pairs_def)
  qed
qed

lemma be_exec_inv:
  assumes "bolt_laws Bo" "sort_law sort_Sort" "hook_ok Bo b hooks" "b \<in> set schema_buckets"
    "be_inv Bo b {} be" "be_wbuf b be = []" "be_has Bo be = bolt_Bucket Bo db" "op_ok Bo db b x"
  shows "\<exists>be'. be_exec Bo sort_Sort hooks x be = Some be' \<and> be_inv Bo b {} be' \<and> be_wbuf b be' = [] \<and> be_has Bo be' = bolt_Bucket Bo db \<and>
    be_view Bo b be' = be_view Bo b be ++ map_of (rev (own_pairs b (op_writes x)))"
proof (cases x)
  case (Locked ws)
  have "\<exists>be'. be_puts Bo ws be = Some be' \<and> be_inv Bo b {} be' \<and> be_has Bo be' = be_has Bo be \<and>
      be_view Bo b be' = be_view Bo b be ++ map_of (rev (own_pairs b ws))"
    by (rule be_puts_inv [OF assms(1,4,5)]) (use assms(6-8) Locked in \<open>auto simp: op_ok_def\<close>)
  then obtain be1 where b1: "be_puts Bo ws be = Some be1" "be_inv Bo b {} be1" "be_has Bo be1 = be_has Bo be"
      "be_view Bo b be1 = be_view Bo b be ++ map_of (rev (own_pairs b ws))" by blast
  then show ?thesis using be_Unlock_inv [OF assms(1,2) b1(2) assms(3)] Locked assms(7) by (auto simp: keeps_bucket_def)
next
  case Force
  then show ?thesis using be_Commit_inv [OF assms(1,2,5,6,3)] assms(7) by (auto simp: ForceCommit_def keeps_bucket_def own_pairs_def)
next
  case OpenReader
  then show ?thesis using ConcurrentReadTx_inv [OF assms(1,5,6)] assms(7) by (auto simp: keeps_bucket_def own_pairs_def)
qed

lemma be_execs_inv:
  assumes "bolt_laws Bo" "sort_law sort_Sort" "hook_ok Bo b hooks" "b \<in> set schema_buckets"
  shows "\<lbrakk>be_inv Bo b {} be; be_wbuf b be = []; be_has Bo be = bolt_Bucket Bo db; \<forall>x \<in> set xs. op_ok Bo db b x\<rbrakk> \<Longrightarrow>
    \<exists>be'. be_execs Bo sort_Sort hooks xs be = Some be' \<and> be_inv Bo b {} be' \<and> be_wbuf b be' = [] \<and> be_has Bo be' = bolt_Bucket Bo db \<and>
      be_view Bo b be' = fold (\<lambda>x m. m ++ map_of (rev (own_pairs b (op_writes x)))) xs (be_view Bo b be)"
proof (induction xs arbitrary: be)
  case (Cons x xs)
  obtain be1 where "be_exec Bo sort_Sort hooks x be = Some be1" "be_inv Bo b {} be1" "be_wbuf b be1 = []" "be_has Bo be1 = bolt_Bucket Bo db"
    "be_view Bo b be1 = be_view Bo b be ++ map_of (rev (own_pairs b (op_writes x)))"
    using be_exec_inv [OF assms Cons.prems(1-3), of x] Cons.prems(4) by auto
  with Cons.IH [of be1] Cons.prems(4) show ?case by simp
qed simp

text \<open>
  (C21) Readers see every write as soon as it is unlocked, committed or not. After any sequence of critical
  sections, commits (forced, or because the batch is full) and openings of readers, a lookup of a key
  in the read transaction, in a new concurrent read transaction and in the batch transaction finds the
  value put last, or else the one the database held at the start. This is for sections that only put,
  within the size limits of the database and into existing buckets of the schema, and that each put the
  keys of the bucket looked at in strictly increasing order, as the store does with its revisions.
\<close>

theorem readers_see_writes:
  assumes "bolt_laws Bo" "sort_law sort_Sort" "hook_ok Bo b hooks" "b \<in> set schema_buckets" "bolt_Bucket Bo db (bk_Name b)"
    "\<forall>x \<in> set xs. op_ok Bo db b x"
  shows "\<exists>be0 be. newBackend Bo sort_Sort batchLimit db = Some be0 \<and> be_execs Bo sort_Sort hooks xs be0 = Some be \<and>
    (\<forall>key. let v = found key (fold (\<lambda>x m. m ++ map_of (rev (own_pairs b (op_writes x)))) xs (bolt_map Bo b db) key) in
       batchTx_UnsafeRange Bo b key None 0 be = Some v \<and>
       baseReadTx_UnsafeRange Bo b key None 0 (be_readTx be) = Some v \<and>
       baseReadTx_UnsafeRange Bo b key None 0 (fst (ConcurrentReadTx be)) = Some v)"
proof -
  obtain be0 where b0: "newBackend Bo sort_Sort batchLimit db = Some be0" "be_inv Bo b {} be0" "be_wbuf b be0 = []"
    "be_view Bo b be0 = bolt_map Bo b db" "be_has Bo be0 = bolt_Bucket Bo db"
    using newBackend_inv [OF assms(1,2,5)] by blast
  obtain be where be: "be_execs Bo sort_Sort hooks xs be0 = Some be" "be_inv Bo b {} be" "be_wbuf b be = []"
    "be_view Bo b be = fold (\<lambda>x m. m ++ map_of (rev (own_pairs b (op_writes x)))) xs (bolt_map Bo b db)"
    using be_execs_inv [OF assms(1-4) b0(2,3,5) assms(6)] b0(4) by auto
  show ?thesis
    using b0(1) be(1) batch_read_single [OF assms(1) be_inv_has [OF be(2)]] read_single [OF assms(1) be(2,3)]
      ConcurrentReadTx_inv [OF assms(1) be(2,3)] be(4) by (auto simp: Let_def)
qed

definition run_db :: log_db where
  "run_db = (\<lambda>n. if n \<in> {bk_Name schema_Key, bk_Name schema_Meta} then Some [] else None)"

definition run_ops :: "be_op list" where
  "run_ops = [Locked [(schema_Key, ([1], [10]), True), (schema_Meta, ([7], [70]), False), (schema_Key, ([2], [20]), True)],
     OpenReader, Locked [(schema_Key, ([1], [11]), False)], Force, Locked [(schema_Key, ([3], [30]), True)]]"

theorem readers_see_writes_witness:
  "\<exists>be0 be. newBackend log_bolt (sort_key fst) 3 run_db = Some be0 \<and> be_execs log_bolt (sort_key fst) None run_ops be0 = Some be \<and>
     baseReadTx_UnsafeRange log_bolt schema_Key [1] None 0 (fst (ConcurrentReadTx be)) = Some [([1], [11])]"
proof -
  have ok: "\<forall>x \<in> set run_ops. op_ok log_bolt run_db schema_Key x"
    by (simp add: run_ops_def op_ok_def run_db_def log_bolt_def put_ok_def own_pairs_def schema_buckets_def schema_Key_def schema_Meta_def)
  have k: "schema_Key \<in> set schema_buckets" "bolt_Bucket log_bolt run_db (bk_Name schema_Key)"
    by (simp_all add: schema_buckets_def log_bolt_def run_db_def)
  have f: "found [1] (fold (\<lambda>x m. m ++ map_of (rev (own_pairs schema_Key (op_writes x)))) run_ops (bolt_map log_bolt schema_Key run_db) [1]) = [([1], [11])]"
    by (simp add: run_ops_def own_pairs_def found_def schema_Key_def schema_Meta_def)
  from readers_see_writes [OF log_bolt_laws sort_key_law hook_ok_None k ok, of 3] f show ?thesis
    unfolding Let_def by metis
qed

definition unsorted_ops :: "be_op list" where
  "unsorted_ops = [Locked [(schema_Meta, ([2], [20]), False), (schema_Meta, ([1], [10]), False)]]"

text \<open>
  (C39) A bucket that readers have not seen since the last commit takes over the write buffer as it was
  filled. If the keys were not written in increasing order, the binary search of a reader can miss a
  key: here the second key is found by the batch transaction, but by no reader before the next commit.
\<close>

theorem first_writeback_unsorted:
  "\<exists>be0 be. newBackend log_bolt (sort_key fst) 10 run_db = Some be0 \<and> be_execs log_bolt (sort_key fst) None unsorted_ops be0 = Some be \<and>
     batchTx_UnsafeRange log_bolt schema_Meta [1] None 0 be = Some [([1], [10])] \<and>
     baseReadTx_UnsafeRange log_bolt schema_Meta [1] None 0 (be_readTx be) = Some []"
proof -
  have "(do { be0 \<leftarrow> newBackend log_bolt (sort_key fst) 10 run_db; be \<leftarrow> be_execs log_bolt (sort_key fst) None unsorted_ops be0;
      x \<leftarrow> batchTx_UnsafeRange log_bolt schema_Meta [1] None 0 be;
      y \<leftarrow> baseReadTx_UnsafeRange log_bolt schema_Meta [1] None 0 (be_readTx be); Some (x, y) }) = Some ([([1], [10])], [])"
    by code_simp
  then show ?thesis by (auto simp: panic_simps)
qed

end
