(* ===== verification/Mvcc_Store.thy ===== *)
theory Mvcc_Store
  imports Tree_Index Kv_Pb Backend
begin

text \<open>
  \<^verbatim>\<open>server/storage/mvcc\<close>: the multi-version store (\<^verbatim>\<open>kvstore.go\<close>, \<^verbatim>\<open>kvstore_txn.go\<close>, \<^verbatim>\<open>kvstore_compaction.go\<close>,
  \<^verbatim>\<open>store.go\<close>, \<^verbatim>\<open>kv_view.go\<close>). A write transaction gives every change the next revision, writes it to the
  bucket \<^verbatim>\<open>key\<close> under that revision and records it in the index; a read looks the revisions up in the index
  and the pairs in the backend.

  The parts a store is made of are parameters, collected in the record \<open>env\<close>: the database and the sort
  function of the backend, its commit hook, the B-tree of the index, and the lessor, of which the store
  uses three methods of the interface \<^verbatim>\<open>lease.Lessor\<close>; the fourth, \<^verbatim>\<open>Lookup\<close>, tells which leases there are. A write transaction holds the lock of the batch
  transaction from \<^verbatim>\<open>Write\<close> to \<^verbatim>\<open>End\<close>. The loop of a compaction gives the lock up between its batches, so one
  batch is one operation; \<open>ctx\<close> says before which pair the context of a request is cancelled. Traces and
  metrics are left out.
\<close>

section \<open>Data\<close>

record RangeOptions =
  opt_Limit :: int
  opt_Rev :: int
  opt_Count :: bool

record RangeResult =
  res_KVs :: "KeyValue list"
  res_Rev :: int
  res_Count :: int

datatype StoreErr = ErrCompacted | ErrFutureRev | CtxErr

datatype LeaseErr = ErrLeaseNotFound

record 'l lessor_ops =
  le_Lookup :: "'l \<Rightarrow> int \<Rightarrow> bool"
  le_GetLease :: "'l \<Rightarrow> bytes \<Rightarrow> int"
  le_Attach :: "int \<Rightarrow> bytes \<Rightarrow> 'l \<Rightarrow> LeaseErr + 'l"
  le_Detach :: "int \<Rightarrow> bytes \<Rightarrow> 'l \<Rightarrow> LeaseErr + 'l"

record ('t, 'x, 'l) env =
  env_bolt :: "'t bolt"
  env_sort :: "kv list \<Rightarrow> kv list"
  env_hooks :: "'t hook"
  env_btree :: "'x btree"
  env_lessor :: "'l lessor_ops"

text \<open>A job of the scheduler: the compaction of the index and the backend, or a barrier.\<close>

datatype job = CompactJob int | BarrierJob

text \<open>The local variables of a compaction loop that is under way.\<close>

record compaction =
  cp_rev :: int
  cp_keep :: "revision set"
  cp_last :: bytes

record ('t, 'x, 'l) store =
  st_b :: "'t backend"
  st_kvindex :: 'x
  st_le :: "'l option"
  st_currentRev :: int
  st_compactMainRev :: int
  st_CompactionBatchLimit :: nat
  st_fifoSched :: "job list"
  st_running :: "compaction option"

record storeTxnWrite =
  tw_beginRev :: int
  tw_changes :: "KeyValue list"

record 't storeTxnRead =
  tr_tx :: "'t baseReadTx"
  tr_firstRev :: int
  tr_rev :: int

definition NoLease :: int where
  "NoLease = 0"

definition defaultCompactBatchLimit :: nat where
  "defaultCompactBatchLimit = 1000"

text \<open>
  The store that \<^verbatim>\<open>NewStore\<close> sets up before it creates its buckets and loads what the backend holds. The
  batch limit of a compaction, an \<^verbatim>\<open>int\<close> of the configuration, is taken to be not negative.
\<close>

definition new_store :: "('t, 'x, 'l) env \<Rightarrow> 't backend \<Rightarrow> 'l option \<Rightarrow> nat \<Rightarrow> ('t, 'x, 'l) store" where
  "new_store E b le CompactionBatchLimit =
     \<lparr>st_b = b, st_kvindex = newTreeIndex (env_btree E), st_le = le, st_currentRev = 1, st_compactMainRev = - 1,
      st_CompactionBatchLimit = (if CompactionBatchLimit = 0 then defaultCompactBatchLimit else CompactionBatchLimit),
      st_fifoSched = [], st_running = None\<rparr>"

section \<open>Reading\<close>

text \<open>The loop that fetches the pairs of the revisions; \<open>rd\<close> looks a key up in the transaction.\<close>

fun fetch_kvs ::
  "(bytes \<Rightarrow> kv list option) \<Rightarrow> (nat \<Rightarrow> bool) \<Rightarrow> nat \<Rightarrow> bytes \<Rightarrow> revision list \<Rightarrow> (StoreErr + KeyValue list) option" where
  "fetch_kvs rd ctx i revBytes [] = Some (Inr [])"
| "fetch_kvs rd ctx i revBytes (revpair # revpairs) =
     (if ctx i then Some (Inl CtxErr)
      else do {
        revBytes \<leftarrow> revToBytes revpair revBytes;
        vs \<leftarrow> rd revBytes;
        if length vs \<noteq> 1 then None
        else
          case KeyValue_Unmarshal (snd (hd vs)) zero_KeyValue of
            Inl _ \<Rightarrow> None
          | Inr kv \<Rightarrow> do {
              res \<leftarrow> fetch_kvs rd ctx (i + 1) revBytes revpairs;
              Some (case res of Inl err \<Rightarrow> Inl err | Inr kvs \<Rightarrow> Inr (kv # kvs))
            }
      })"

type_synonym range_answer = "(StoreErr \<times> RangeResult option) + RangeResult"

definition rangeKeys ::
  "('t, 'x, 'l) env \<Rightarrow> (bytes \<Rightarrow> kv list option) \<Rightarrow> (nat \<Rightarrow> bool) \<Rightarrow> bytes \<Rightarrow> gobytes \<Rightarrow> int \<Rightarrow> RangeOptions \<Rightarrow>
     ('t, 'x, 'l) store \<Rightarrow> range_answer option" where
  "rangeKeys E rd ctx key e curRev ro s =
     (let rv = opt_Rev ro in
      if rv > curRev then Some (Inl (ErrFutureRev, Some \<lparr>res_KVs = [], res_Rev = curRev, res_Count = - 1\<rparr>))
      else
        let rv = (if rv \<le> 0 then curRev else rv) in
        if rv < st_compactMainRev s then Some (Inl (ErrCompacted, Some \<lparr>res_KVs = [], res_Rev = 0, res_Count = - 1\<rparr>))
        else if opt_Count ro
        then do {
          total \<leftarrow> ti_CountRevisions (env_btree E) key e rv (st_kvindex s);
          Some (Inr \<lparr>res_KVs = [], res_Rev = curRev, res_Count = int total\<rparr>)
        }
        else do {
          (revpairs, total) \<leftarrow> ti_Revisions (env_btree E) key e rv (opt_Limit ro) (st_kvindex s);
          if length revpairs = 0 then Some (Inr \<lparr>res_KVs = [], res_Rev = curRev, res_Count = int total\<rparr>)
          else do {
            let limit = (if opt_Limit ro \<le> 0 \<or> opt_Limit ro > int (length revpairs) then length revpairs else nat (opt_Limit ro));
            res \<leftarrow> fetch_kvs rd ctx 0 newRevBytes (take limit revpairs);
            Some (case res of
                Inl err \<Rightarrow> Inl (err, None)
              | Inr kvs \<Rightarrow> Inr \<lparr>res_KVs = kvs, res_Rev = curRev, res_Count = int total\<rparr>)
          }
        })"

datatype ReadTxMode = ConcurrentReadTxMode | SharedBufReadTxMode

definition st_Read :: "ReadTxMode \<Rightarrow> ('t, 'x, 'l) store \<Rightarrow> 't storeTxnRead \<times> ('t, 'x, 'l) store" where
  "st_Read mode s =
     (let (tx, b) = (if mode = ConcurrentReadTxMode then ConcurrentReadTx (st_b s) else (be_readTx (st_b s), st_b s)) in
      (\<lparr>tr_tx = tx, tr_firstRev = st_compactMainRev s, tr_rev = st_currentRev s\<rparr>, s\<lparr>st_b := b\<rparr>))"

definition tr_Range ::
  "('t, 'x, 'l) env \<Rightarrow> (nat \<Rightarrow> bool) \<Rightarrow> bytes \<Rightarrow> gobytes \<Rightarrow> RangeOptions \<Rightarrow> 't storeTxnRead \<Rightarrow>
     ('t, 'x, 'l) store \<Rightarrow> range_answer option" where
  "tr_Range E ctx key e ro tr s =
     rangeKeys E (\<lambda>k. baseReadTx_UnsafeRange (env_bolt E) schema_Key k None 0 (tr_tx tr)) ctx key e (tr_rev tr) ro s"

text \<open>The view of \<^verbatim>\<open>kv_view.go\<close>: a request of its own opens a concurrent read transaction.\<close>

definition rv_Range ::
  "('t, 'x, 'l) env \<Rightarrow> (nat \<Rightarrow> bool) \<Rightarrow> bytes \<Rightarrow> gobytes \<Rightarrow> RangeOptions \<Rightarrow> ('t, 'x, 'l) store \<Rightarrow>
     (range_answer \<times> ('t, 'x, 'l) store) option" where
  "rv_Range E ctx key e ro s =
     (let (tr, s) = st_Read ConcurrentReadTxMode s in do { res \<leftarrow> tr_Range E ctx key e ro tr s; Some (res, s) })"

section \<open>Writing\<close>

definition st_Write :: "('t, 'x, 'l) store \<Rightarrow> storeTxnWrite" where
  "st_Write s = \<lparr>tw_beginRev = st_currentRev s, tw_changes = []\<rparr>"

definition tw_Range ::
  "('t, 'x, 'l) env \<Rightarrow> (nat \<Rightarrow> bool) \<Rightarrow> bytes \<Rightarrow> gobytes \<Rightarrow> RangeOptions \<Rightarrow> storeTxnWrite \<Rightarrow>
     ('t, 'x, 'l) store \<Rightarrow> range_answer option" where
  "tw_Range E ctx key e ro tw s =
     (let rv = (if length (tw_changes tw) > 0 then tw_beginRev tw + 1 else tw_beginRev tw) in
      rangeKeys E (\<lambda>k. batchTx_UnsafeRange (env_bolt E) schema_Key k None 0 (st_b s)) ctx key e rv ro s)"

definition tw_detach :: "('t, 'x, 'l) env \<Rightarrow> int \<Rightarrow> bytes \<Rightarrow> 'l \<Rightarrow> 'l" where
  "tw_detach E oldLease key le = (case le_Detach (env_lessor E) oldLease key le of Inl _ \<Rightarrow> le | Inr le \<Rightarrow> le)"

definition tw_put ::
  "('t, 'x, 'l) env \<Rightarrow> gobytes \<Rightarrow> gobytes \<Rightarrow> int \<Rightarrow> storeTxnWrite \<times> ('t, 'x, 'l) store \<Rightarrow>
     (storeTxnWrite \<times> ('t, 'x, 'l) store) option" where
  "tw_put E key value leaseID = (\<lambda>(tw, s). do {
     let rv = tw_beginRev tw + 1;
     found \<leftarrow> ti_Get (env_btree E) (str_of key) rv (st_kvindex s);
     (c, ver, oldLease) \<leftarrow> (case found of
         Inl _ \<Rightarrow> Some (rv, 0, NoLease)
       | Inr (_, created, ver) \<Rightarrow> do {
           le \<leftarrow> st_le s;
           Some (main created, ver, le_GetLease (env_lessor E) le (str_of key))
         });
     let idxRev = Revision rv (int (length (tw_changes tw)));
     ibytes \<leftarrow> revToBytes idxRev newRevBytes;
     let kv = \<lparr>kv_Key = key, kv_CreateRevision = c, kv_ModRevision = rv, kv_Version = ver + 1, kv_Value = value,
               kv_Lease = leaseID, kv_unrecognized = None\<rparr>;
     d \<leftarrow> KeyValue_Marshal kv;
     b \<leftarrow> UnsafeSeqPut (env_bolt E) schema_Key (ibytes, d) (st_b s);
     x \<leftarrow> ti_Put (env_btree E) (str_of key) idxRev (st_kvindex s);
     let tw = tw\<lparr>tw_changes := tw_changes tw @ [kv]\<rparr>;
     le \<leftarrow> (if oldLease \<noteq> NoLease then do { le \<leftarrow> st_le s; Some (Some (tw_detach E oldLease (str_of key) le)) } else Some (st_le s));
     le \<leftarrow> (if leaseID \<noteq> NoLease
           then do {
             le \<leftarrow> le;
             (case le_Attach (env_lessor E) leaseID (str_of key) le of Inl _ \<Rightarrow> None | Inr le \<Rightarrow> Some (Some le))
           }
           else Some le);
     Some (tw, s\<lparr>st_b := b, st_kvindex := x, st_le := le\<rparr>)
   })"

definition tw_delete ::
  "('t, 'x, 'l) env \<Rightarrow> bytes \<Rightarrow> storeTxnWrite \<times> ('t, 'x, 'l) store \<Rightarrow> (storeTxnWrite \<times> ('t, 'x, 'l) store) option" where
  "tw_delete E key = (\<lambda>(tw, s). do {
     let idxRev = Revision (tw_beginRev tw + 1) (int (length (tw_changes tw)));
     ibytes \<leftarrow> revToBytes idxRev newRevBytes;
     ibytes \<leftarrow> appendMarkTombstone ibytes;
     let kv = zero_KeyValue\<lparr>kv_Key := Some key\<rparr>;
     d \<leftarrow> KeyValue_Marshal kv;
     b \<leftarrow> UnsafeSeqPut (env_bolt E) schema_Key (ibytes, d) (st_b s);
     res \<leftarrow> ti_Tombstone (env_btree E) key idxRev (st_kvindex s);
     x \<leftarrow> (case res of Inl _ \<Rightarrow> None | Inr x \<Rightarrow> Some x);
     let tw = tw\<lparr>tw_changes := tw_changes tw @ [kv]\<rparr>;
     le \<leftarrow> st_le s;
     let leaseID = le_GetLease (env_lessor E) le key;
     let le = (if leaseID \<noteq> NoLease then tw_detach E leaseID key le else le);
     Some (tw, s\<lparr>st_b := b, st_kvindex := x, st_le := Some le\<rparr>)
   })"

fun tw_delete_all ::
  "('t, 'x, 'l) env \<Rightarrow> bytes list \<Rightarrow> storeTxnWrite \<times> ('t, 'x, 'l) store \<Rightarrow> (storeTxnWrite \<times> ('t, 'x, 'l) store) option" where
  "tw_delete_all E [] ts = Some ts"
| "tw_delete_all E (key # keys) ts = do { ts \<leftarrow> tw_delete E key ts; tw_delete_all E keys ts }"

definition tw_deleteRange ::
  "('t, 'x, 'l) env \<Rightarrow> bytes \<Rightarrow> gobytes \<Rightarrow> storeTxnWrite \<times> ('t, 'x, 'l) store \<Rightarrow>
     (int \<times> storeTxnWrite \<times> ('t, 'x, 'l) store) option" where
  "tw_deleteRange E key e = (\<lambda>(tw, s). do {
     let rrev = (if length (tw_changes tw) > 0 then tw_beginRev tw + 1 else tw_beginRev tw);
     (keys, _) \<leftarrow> ti_Range (env_btree E) key e rrev (st_kvindex s);
     if length keys = 0 then Some (0, tw, s)
     else do { ts \<leftarrow> tw_delete_all E keys (tw, s); Some (int (length keys), ts) }
   })"

definition tw_DeleteRange ::
  "('t, 'x, 'l) env \<Rightarrow> bytes \<Rightarrow> gobytes \<Rightarrow> storeTxnWrite \<times> ('t, 'x, 'l) store \<Rightarrow>
     ((int \<times> int) \<times> storeTxnWrite \<times> ('t, 'x, 'l) store) option" where
  "tw_DeleteRange E key e ts = do {
     (n, tw, s) \<leftarrow> tw_deleteRange E key e ts;
     Some (if n \<noteq> 0 \<or> length (tw_changes tw) > 0 then ((n, tw_beginRev tw + 1), tw, s) else ((0, tw_beginRev tw), tw, s))
   }"

definition tw_Put ::
  "('t, 'x, 'l) env \<Rightarrow> gobytes \<Rightarrow> gobytes \<Rightarrow> int \<Rightarrow> storeTxnWrite \<times> ('t, 'x, 'l) store \<Rightarrow>
     (int \<times> storeTxnWrite \<times> ('t, 'x, 'l) store) option" where
  "tw_Put E key value leaseID ts = do {
     (tw, s) \<leftarrow> tw_put E key value leaseID ts;
     Some (tw_beginRev tw + 1, tw, s)
   }"

definition tw_End :: "('t, 'x, 'l) env \<Rightarrow> storeTxnWrite \<times> ('t, 'x, 'l) store \<Rightarrow> ('t, 'x, 'l) store option" where
  "tw_End E = (\<lambda>(tw, s). do {
     let s = (if length (tw_changes tw) \<noteq> 0 then s\<lparr>st_currentRev := st_currentRev s + 1\<rparr> else s);
     b \<leftarrow> be_Unlock (env_bolt E) (env_sort E) (env_hooks E) (st_b s);
     Some (s\<lparr>st_b := b\<rparr>)
   })"

definition wv_Put ::
  "('t, 'x, 'l) env \<Rightarrow> gobytes \<Rightarrow> gobytes \<Rightarrow> int \<Rightarrow> ('t, 'x, 'l) store \<Rightarrow> (int \<times> ('t, 'x, 'l) store) option" where
  "wv_Put E key value leaseID s = do {
     (rv, ts) \<leftarrow> tw_Put E key value leaseID (st_Write s, s);
     s \<leftarrow> tw_End E ts;
     Some (rv, s)
   }"

definition wv_DeleteRange ::
  "('t, 'x, 'l) env \<Rightarrow> bytes \<Rightarrow> gobytes \<Rightarrow> ('t, 'x, 'l) store \<Rightarrow> ((int \<times> int) \<times> ('t, 'x, 'l) store) option" where
  "wv_DeleteRange E key e s = do {
     (res, ts) \<leftarrow> tw_DeleteRange E key e (st_Write s, s);
     s \<leftarrow> tw_End E ts;
     Some (res, s)
   }"

section \<open>Compaction\<close>

definition ScheduledCompactKeyName :: bytes where
  "ScheduledCompactKeyName = ascii ''scheduledCompactRev''"

definition FinishedCompactKeyName :: bytes where
  "FinishedCompactKeyName = ascii ''finishedCompactRev''"

definition UnsafeSetScheduledCompact :: "'t bolt \<Rightarrow> int \<Rightarrow> 't backend \<Rightarrow> 't backend option" where
  "UnsafeSetScheduledCompact Bo v be = do {
     rbytes \<leftarrow> revToBytes (Revision v 0) newRevBytes;
     UnsafePut Bo schema_Meta (ScheduledCompactKeyName, rbytes) be
   }"

definition UnsafeSetFinishedCompact :: "'t bolt \<Rightarrow> int \<Rightarrow> 't backend \<Rightarrow> 't backend option" where
  "UnsafeSetFinishedCompact Bo v be = do {
     rbytes \<leftarrow> revToBytes (Revision v 0) newRevBytes;
     UnsafePut Bo schema_Meta (FinishedCompactKeyName, rbytes) be
   }"

definition SetScheduledCompact :: "('t, 'x, 'l) env \<Rightarrow> int \<Rightarrow> 't backend \<Rightarrow> 't backend option" where
  "SetScheduledCompact E v be = do {
     be \<leftarrow> UnsafeSetScheduledCompact (env_bolt E) v be;
     be_Unlock (env_bolt E) (env_sort E) (env_hooks E) be
   }"

text \<open>The error comes with the state, in which a barrier has been scheduled.\<close>

definition updateCompactRev :: "('t, 'x, 'l) env \<Rightarrow> int \<Rightarrow> ('t, 'x, 'l) store \<Rightarrow> (StoreErr option \<times> ('t, 'x, 'l) store) option" where
  "updateCompactRev E rv s =
     (if rv \<le> st_compactMainRev s then Some (Some ErrCompacted, s\<lparr>st_fifoSched := st_fifoSched s @ [BarrierJob]\<rparr>)
      else if rv > st_currentRev s then Some (Some ErrFutureRev, s)
      else do {
        let s = s\<lparr>st_compactMainRev := rv\<rparr>;
        b \<leftarrow> SetScheduledCompact E rv (st_b s);
        b \<leftarrow> ForceCommit (env_bolt E) (env_sort E) (env_hooks E) b;
        Some (None, s\<lparr>st_b := b\<rparr>)
      })"

definition st_compact :: "int \<Rightarrow> ('t, 'x, 'l) store \<Rightarrow> ('t, 'x, 'l) store" where
  "st_compact rv s = s\<lparr>st_fifoSched := st_fifoSched s @ [CompactJob rv]\<rparr>"

definition st_Compact :: "('t, 'x, 'l) env \<Rightarrow> int \<Rightarrow> ('t, 'x, 'l) store \<Rightarrow> (StoreErr option \<times> ('t, 'x, 'l) store) option" where
  "st_Compact E rv s = do {
     (err, s) \<leftarrow> updateCompactRev E rv s;
     Some (case err of Some err \<Rightarrow> (Some err, s) | None \<Rightarrow> (None, st_compact rv s))
   }"

text \<open>
  The scheduler starts its first job when no other runs: a compaction job compacts the index and enters
  the loop of \<^verbatim>\<open>scheduleCompaction\<close>; a barrier only tells its caller that it was reached.
\<close>

definition start_job :: "('t, 'x, 'l) env \<Rightarrow> ('t, 'x, 'l) store \<Rightarrow> ('t, 'x, 'l) store option" where
  "start_job E s =
     (case (st_running s, st_fifoSched s) of
        (None, CompactJob rv # jobs) \<Rightarrow> do {
          (x, keep) \<leftarrow> ti_Compact (env_btree E) rv (st_kvindex s);
          Some (s\<lparr>st_kvindex := x, st_fifoSched := jobs,
            st_running := Some \<lparr>cp_rev = rv, cp_keep = keep, cp_last = replicate (8 + 1 + 8) 0\<rparr>\<rparr>)
        }
      | (None, BarrierJob # jobs) \<Rightarrow> Some (s\<lparr>st_fifoSched := jobs\<rparr>)
      | _ \<Rightarrow> Some s)"

fun delete_keys ::
  "'t bolt \<Rightarrow> revision set \<Rightarrow> kv list \<Rightarrow> revision \<Rightarrow> 't backend \<Rightarrow> (revision \<times> 't backend) option" where
  "delete_keys Bo keep [] rv be = Some (rv, be)"
| "delete_keys Bo keep (p # ps) rv be = do {
     rv \<leftarrow> bytesToRev (fst p);
     be \<leftarrow> (if rv \<in> keep then Some be else UnsafeDelete Bo schema_Key (fst p) be);
     delete_keys Bo keep ps rv be
   }"

text \<open>One round of the loop of \<^verbatim>\<open>scheduleCompaction\<close>; the pause after it is where others run.\<close>

definition compaction_batch :: "('t, 'x, 'l) env \<Rightarrow> ('t, 'x, 'l) store \<Rightarrow> ('t, 'x, 'l) store option" where
  "compaction_batch E s =
     (case st_running s of
        None \<Rightarrow> Some s
      | Some cp \<Rightarrow> do {
          let e = be_bytes (word_of_int (cp_rev cp + 1));
          ps \<leftarrow> batchTx_UnsafeRange (env_bolt E) schema_Key (cp_last cp) (Some e) (int (st_CompactionBatchLimit s)) (st_b s);
          (rv, b) \<leftarrow> delete_keys (env_bolt E) (cp_keep cp) ps zero_revision (st_b s);
          if length ps < st_CompactionBatchLimit s
          then do {
            b \<leftarrow> UnsafeSetFinishedCompact (env_bolt E) (cp_rev cp) b;
            b \<leftarrow> be_Unlock (env_bolt E) (env_sort E) (env_hooks E) b;
            Some (s\<lparr>st_b := b, st_running := None\<rparr>)
          }
          else do {
            b \<leftarrow> be_Unlock (env_bolt E) (env_sort E) (env_hooks E) b;
            last \<leftarrow> revToBytes (Revision (main rv) (sub rv + 1)) (cp_last cp);
            b \<leftarrow> ForceCommit (env_bolt E) (env_sort E) (env_hooks E) b;
            Some (s\<lparr>st_b := b, st_running := Some (cp\<lparr>cp_last := last\<rparr>)\<rparr>)
          }
        })"

definition st_Commit :: "('t, 'x, 'l) env \<Rightarrow> ('t, 'x, 'l) store \<Rightarrow> ('t, 'x, 'l) store option" where
  "st_Commit E s = do { b \<leftarrow> ForceCommit (env_bolt E) (env_sort E) (env_hooks E) (st_b s); Some (s\<lparr>st_b := b\<rparr>) }"

end
