(* ===== verification/Store_Spec.thy ===== *)
theory Store_Spec
  imports Mvcc_Store
begin

text \<open>
  What the store promises. Its specification is a map from keys to pairs for every revision:
  a write transaction makes the map of the next revision from that of the current one, a read at a
  revision answers from the map of that revision, and a compaction gives up the maps before it. The
  relation \<open>st_rel\<close> connects the index and the backend of a store with these maps; every operation keeps
  it, and a read transaction stays attached to the maps it was opened on.
\<close>

section \<open>The specification\<close>

record akv =
  a_rev :: int
  a_compact :: int
  a_at :: "int \<Rightarrow> bytes \<Rightarrow> KeyValue option"
  a_leases :: "int \<Rightarrow> bool"

text \<open>What a pair becomes by being stored: empty slices become nil.\<close>

definition kv_norm :: "KeyValue \<Rightarrow> KeyValue" where
  "kv_norm kv = KeyValue_merge kv zero_KeyValue"

definition a_put :: "int \<Rightarrow> gobytes \<Rightarrow> gobytes \<Rightarrow> int \<Rightarrow> (bytes \<Rightarrow> KeyValue option) \<Rightarrow> bytes \<Rightarrow> KeyValue option" where
  "a_put r key value leaseID m = m(str_of key \<mapsto> kv_norm
     \<lparr>kv_Key = key, kv_CreateRevision = (case m (str_of key) of None \<Rightarrow> r | Some old \<Rightarrow> kv_CreateRevision old),
      kv_ModRevision = r, kv_Version = (case m (str_of key) of None \<Rightarrow> 1 | Some old \<Rightarrow> kv_Version old + 1),
      kv_Value = value, kv_Lease = leaseID, kv_unrecognized = None\<rparr>)"

definition in_rng :: "bytes \<Rightarrow> gobytes \<Rightarrow> bytes \<Rightarrow> bool" where
  "in_rng key e k \<longleftrightarrow> (case e of None \<Rightarrow> k = key | Some e \<Rightarrow> in_range key e k)"

definition a_delete :: "bytes \<Rightarrow> gobytes \<Rightarrow> (bytes \<Rightarrow> KeyValue option) \<Rightarrow> bytes \<Rightarrow> KeyValue option" where
  "a_delete key e m = (\<lambda>k. if in_rng key e k then None else m k)"

text \<open>The answer of a read from the map \<open>m\<close>.\<close>

definition a_answer :: "(bytes \<Rightarrow> KeyValue option) \<Rightarrow> bytes \<Rightarrow> gobytes \<Rightarrow> int \<Rightarrow> RangeOptions \<Rightarrow> RangeResult \<Rightarrow> bool" where
  "a_answer m key e curRev ro res \<longleftrightarrow> (\<exists>ks. sorted_wrt (<) ks \<and> set ks = {k. in_rng key e k \<and> m k \<noteq> None} \<and>
     res = \<lparr>res_KVs = (if opt_Count ro then [] else map (the \<circ> m) (if opt_Limit ro \<le> 0 then ks else take (nat (opt_Limit ro)) ks)),
            res_Rev = curRev, res_Count = int (length ks)\<rparr>)"

section \<open>The relation\<close>

text \<open>The pair that is stored for a revision.\<close>

definition decode_at :: "(bytes \<Rightarrow> bytes option) \<Rightarrow> revision \<Rightarrow> KeyValue option" where
  "decode_at v r =
     (case v (rev_key r False) of
        None \<Rightarrow> None
      | Some bs \<Rightarrow> (case KeyValue_Unmarshal bs zero_KeyValue of Inl _ \<Rightarrow> None | Inr kv \<Rightarrow> Some kv))"

text \<open>A change in the index: its numbers are in range, and its pair is stored unless it is a deletion.\<close>

definition key_fits :: "bytes \<Rightarrow> bool" where
  "key_fits k \<longleftrightarrow> int (length k) + 66 \<le> 2 ^ 31 - 2"

definition ev_stored :: "(bytes \<Rightarrow> bytes option) \<Rightarrow> bytes set \<Rightarrow> bytes \<Rightarrow> kv_event \<Rightarrow> bool" where
  "ev_stored v D k ev \<longleftrightarrow>
     rev_ok (ev_rev ev) \<and> key_fits k \<and> 1 \<le> main (ev_created ev) \<and> main (ev_created ev) \<le> main (ev_rev ev) \<and> 1 \<le> ev_ver ev \<and>
     (\<not> ev_tomb ev \<longrightarrow> rev_key (ev_rev ev) False \<notin> D \<and>
       (\<exists>kv. decode_at v (ev_rev ev) = Some kv \<and> str_of (kv_Key kv) = k \<and> kv_CreateRevision kv = main (ev_created ev) \<and>
          kv_ModRevision kv = main (ev_rev ev) \<and> kv_Version kv = ev_ver ev))"

definition map_at :: "(bytes \<Rightarrow> bytes option) \<Rightarrow> (bytes \<Rightarrow> kv_event list) \<Rightarrow> int \<Rightarrow> bytes \<Rightarrow> KeyValue option" where
  "map_at v H at k = (case hist_get at (H k) of None \<Rightarrow> None | Some ev \<Rightarrow> decode_at v (ev_rev ev))"

abbreviation st_hist :: "('t, 'x, 'l) env \<Rightarrow> ('t, 'x, 'l) store \<Rightarrow> bytes \<Rightarrow> kv_event list" where
  "st_hist E s \<equiv> ti_hist (env_btree E) (st_kvindex s)"

abbreviation st_view :: "('t, 'x, 'l) env \<Rightarrow> ('t, 'x, 'l) store \<Rightarrow> bytes \<Rightarrow> bytes option" where
  "st_view E s \<equiv> be_view (env_bolt E) schema_Key (st_b s)"

definition lessor_laws :: "'l lessor_ops \<Rightarrow> bool" where
  "lessor_laws L \<longleftrightarrow>
     (\<forall>le i k. le_Lookup L le i \<longrightarrow> (\<exists>le'. le_Attach L i k le = Inr le' \<and> le_Lookup L le' = le_Lookup L le)) \<and>
     (\<forall>le i k le'. le_Detach L i k le = Inr le' \<longrightarrow> le_Lookup L le' = le_Lookup L le)"

definition env_ok :: "('t, 'x, 'l) env \<Rightarrow> bool" where
  "env_ok E \<longleftrightarrow> bolt_laws (env_bolt E) \<and> sort_law (env_sort E) \<and> hook_ok (env_bolt E) schema_Key (env_hooks E) \<and>
     btree_laws (env_btree E) \<and> lessor_laws (env_lessor E)"

text \<open>The backend: readers see the bucket \<^verbatim>\<open>key\<close>, whose keys are revisions before \<open>nx\<close>.\<close>

definition rev_keys :: "revision \<Rightarrow> bytes set" where
  "rev_keys nx = {k. \<exists>r t. k = rev_key r t \<and> rev_ok r \<and> r < nx}"

definition backend_rel :: "('t, 'x, 'l) env \<Rightarrow> bytes set \<Rightarrow> revision \<Rightarrow> ('t, 'x, 'l) store \<Rightarrow> bool" where
  "backend_rel E D nx s \<longleftrightarrow>
     be_inv (env_bolt E) schema_Key D (st_b s) \<and> be_has (env_bolt E) (st_b s) (bk_Name schema_Meta) \<and>
     dom (st_view E s) \<subseteq> rev_keys nx \<and> D \<subseteq> rev_keys nx \<and> fst ` set (be_wbuf schema_Key (st_b s)) \<subseteq> rev_keys nx"

lemma rev_keys_mono: "nx \<le> nx' \<Longrightarrow> rev_keys nx \<subseteq> rev_keys nx'"
  by (auto simp: rev_keys_def intro: order_less_le_trans)

lemma rev_keys_in: "rev_ok r \<Longrightarrow> r < nx \<Longrightarrow> rev_key r t \<in> rev_keys nx"
  by (auto simp: rev_keys_def)

text \<open>The index: its changes are before \<open>nx\<close> and stored in the backend.\<close>

definition index_rel :: "('t, 'x, 'l) env \<Rightarrow> bytes set \<Rightarrow> revision \<Rightarrow> ('t, 'x, 'l) store \<Rightarrow> bool" where
  "index_rel E D nx s \<longleftrightarrow>
     ti_inv (env_btree E) (st_kvindex s) \<and> ti_before (env_btree E) (st_kvindex s) nx \<and>
     (\<forall>k. \<forall>ev \<in> set (st_hist E s k). ev_stored (st_view E s) D k ev)"

text \<open>Compactions that wait or run have been accepted; what the index holds is not deleted.\<close>

definition compact_rel :: "('t, 'x, 'l) env \<Rightarrow> ('t, 'x, 'l) store \<Rightarrow> bool" where
  "compact_rel E s \<longleftrightarrow>
     (\<forall>rv. CompactJob rv \<in> set (st_fifoSched s) \<longrightarrow> 0 \<le> rv \<and> rv \<le> st_compactMainRev s) \<and>
     (\<forall>cp. st_running s = Some cp \<longrightarrow> 0 \<le> cp_rev cp \<and> cp_rev cp \<le> st_compactMainRev s \<and> length (cp_last cp) = revBytesLen \<and>
        (\<forall>k. \<forall>ev \<in> set (st_hist E s k). main (ev_rev ev) \<le> cp_rev cp \<longrightarrow> ev_rev ev \<in> cp_keep cp))"

text \<open>A store between transactions, or in one that has made \<open>n\<close> changes, with the maps \<open>A\<close> and \<open>m\<close>.\<close>

definition st_core :: "('t, 'x, 'l) env \<Rightarrow> bytes set \<Rightarrow> akv \<Rightarrow> (bytes \<Rightarrow> KeyValue option) \<Rightarrow> nat \<Rightarrow> ('t, 'x, 'l) store \<Rightarrow> bool" where
  "st_core E D A m n s \<longleftrightarrow>
     backend_rel E D (Revision (a_rev A + 1) (int n)) s \<and> index_rel E D (Revision (a_rev A + 1) (int n)) s \<and> compact_rel E s \<and>
     (\<exists>le. st_le s = Some le \<and> le_Lookup (env_lessor E) le = a_leases A) \<and>
     st_currentRev s = a_rev A \<and> st_compactMainRev s = a_compact A \<and>
     1 \<le> a_rev A \<and> a_rev A + 1 < 2 ^ 63 \<and> - 1 \<le> a_compact A \<and> a_compact A \<le> a_rev A \<and>
     (\<forall>at. a_compact A \<le> at \<and> at \<le> a_rev A \<longrightarrow> a_at A at = map_at (st_view E s) (st_hist E s) at) \<and>
     m = map_at (st_view E s) (st_hist E s) (a_rev A + 1)"

definition st_rel :: "('t, 'x, 'l) env \<Rightarrow> akv \<Rightarrow> (bytes \<Rightarrow> KeyValue option) \<Rightarrow> nat \<Rightarrow> ('t, 'x, 'l) store \<Rightarrow> bool" where
  "st_rel E A m n s \<longleftrightarrow> (\<exists>D. st_core E D A m n s)"

definition st_inv :: "('t, 'x, 'l) env \<Rightarrow> akv \<Rightarrow> ('t, 'x, 'l) store \<Rightarrow> bool" where
  "st_inv E A s \<longleftrightarrow> st_rel E A (a_at A (a_rev A)) 0 s \<and> be_wbuf schema_Key (st_b s) = []"

text \<open>
  What a step may do to the past: changes up to the current revision are only dropped, and the pairs of
  those that remain stay.
\<close>

definition past_kept :: "('t, 'x, 'l) env \<Rightarrow> ('t, 'x, 'l) store \<Rightarrow> ('t, 'x, 'l) store \<Rightarrow> bool" where
  "past_kept E s s' \<longleftrightarrow> st_currentRev s \<le> st_currentRev s' \<and> st_compactMainRev s \<le> st_compactMainRev s' \<and>
     (\<forall>k. \<forall>ev \<in> set (st_hist E s' k). main (ev_rev ev) \<le> st_currentRev s \<longrightarrow> ev \<in> set (st_hist E s k) \<and>
        (\<not> ev_tomb ev \<longrightarrow> st_view E s' (rev_key (ev_rev ev) False) = st_view E s (rev_key (ev_rev ev) False)))"

lemma past_kept_refl: "past_kept E s s"
  by (simp add: past_kept_def)

lemma past_kept_trans: "past_kept E s s' \<Longrightarrow> past_kept E s' s'' \<Longrightarrow> past_kept E s s''"
  unfolding past_kept_def by (intro conjI allI ballI impI) (force dest: order_trans)+

section \<open>Histories up to a revision\<close>

lemma ti_hist_le:
  assumes "btree_laws B" "ti_inv B t" "ti_before B t r" "ev \<in> set (ti_hist B t k)"
  shows "ev_rev ev < r"
proof (cases "get_key B t k")
  case (Some ki)
  note ok = get_key_ok [OF assms(1) Some]
  have "ev_rev ev \<in> set (ki_revs ki)" using assms(4) Some by (auto simp: ti_hist_def simp flip: events_revs)
  then have "ev_rev ev \<le> ki_modified ki" using ok(1) [OF assms(2)] by (auto simp: item_ok_def ki_inv_def)
  then show ?thesis using ok(2) [OF assms(3)] by simp
qed (use assms(4) in \<open>simp add: ti_hist_def\<close>)

lemma hist_get_in: "hist_get at evs = Some ev \<Longrightarrow> ev \<in> set evs \<and> \<not> ev_tomb ev \<and> main (ev_rev ev) \<le> at"
  using last_in_set [of "upto_rev at evs"] by (auto simp: hist_get_def split: if_splits)

lemma hist_get_all:
  assumes "\<And>ev. ev \<in> set evs \<Longrightarrow> main (ev_rev ev) \<le> at"
  shows "hist_get at evs = (if hist_alive evs then Some (last evs) else None)"
proof -
  have "upto_rev at evs = evs" using assms by (simp add: filter_id_conv)
  then show ?thesis by (auto simp: hist_get_def hist_alive_def)
qed

lemma hist_get_cong:
  assumes "\<And>ev. ev \<in> set evs \<Longrightarrow> main (ev_rev ev) \<le> at \<longleftrightarrow> main (ev_rev ev) \<le> at'"
  shows "hist_get at evs = hist_get at' evs"
proof -
  have "upto_rev at evs = upto_rev at' evs" using assms by (intro filter_cong) auto
  then show ?thesis by (simp add: hist_get_def)
qed

section \<open>Reads\<close>

lemma fetch_kvs_ok:
  assumes "\<And>r. r \<in> set rs \<Longrightarrow> \<exists>bs. rd (rev_key r False) = Some [(rev_key r False, bs)] \<and> KeyValue_Unmarshal bs zero_KeyValue = Inr (f r)"
    "\<And>i. \<not> ctx i" "length buf = revBytesLen"
  shows "fetch_kvs rd ctx i buf rs = Some (Inr (map f rs))"
  using assms(1,3)
proof (induction rs arbitrary: i buf)
  case (Cons r rs)
  obtain bs where "rd (rev_key r False) = Some [(rev_key r False, bs)]" "KeyValue_Unmarshal bs zero_KeyValue = Inr (f r)"
    using Cons.prems(1) [of r] by auto
  moreover have "length (rev_key r False) = revBytesLen" by (simp add: rev_key_def revBytesLen_def)
  ultimately show ?case
    using Cons.IH [of "rev_key r False"] Cons.prems revToBytes_new [OF Cons.prems(2)] assms(2) by simp
qed simp

lemma range_keys_spec:
  assumes "btree_laws B"
  shows "sorted_wrt (<) (range_keys B t key e at)"
    "set (range_keys B t key e at) = {k. in_rng key e k \<and> hist_get at (ti_hist B t k) \<noteq> None}"
  using live_keys_spec [OF assms] by (auto simp: range_keys_def in_rng_def split: option.split)

text \<open>A reader of a store finds the pairs of the revisions up to its own.\<close>

definition reader_ok :: "('t, 'x, 'l) env \<Rightarrow> int \<Rightarrow> (bytes \<Rightarrow> kv list option) \<Rightarrow> ('t, 'x, 'l) store \<Rightarrow> bool" where
  "reader_ok E lim rd s \<longleftrightarrow> (\<forall>k. \<forall>ev \<in> set (st_hist E s k). \<not> ev_tomb ev \<and> main (ev_rev ev) \<le> lim \<longrightarrow>
     (\<exists>bs. st_view E s (rev_key (ev_rev ev) False) = Some bs \<and> rd (rev_key (ev_rev ev) False) = Some [(rev_key (ev_rev ev) False, bs)]))"

lemma rangeKeys_ok:
  assumes "btree_laws (env_btree E)" "ti_inv (env_btree E) (st_kvindex s)" "\<And>i. \<not> ctx i"
    "reader_ok E curRev rd s" "\<And>k ev. ev \<in> set (st_hist E s k) \<Longrightarrow> ev_stored (st_view E s) D k ev"
    "opt_Rev ro \<le> curRev" "at = (if opt_Rev ro \<le> 0 then curRev else opt_Rev ro)" "st_compactMainRev s \<le> at"
  shows "\<exists>res. rangeKeys E rd ctx key e curRev ro s = Some (Inr res) \<and>
    a_answer (map_at (st_view E s) (st_hist E s) at) key e curRev ro res"
proof -
  let ?B = "env_btree E" and ?x = "st_kvindex s"
  let ?ks = "range_keys ?B ?x key e at" and ?m = "map_at (st_view E s) (st_hist E s) at"
  have at: "at \<le> curRev" using assms(6,7) by simp
  have ev: "\<exists>kv. hist_get at (st_hist E s k) = Some ev \<longrightarrow> decode_at (st_view E s) (ev_rev ev) = Some kv" for k ev
    using assms(5) [of ev k] hist_get_in [of at "st_hist E s k" ev] by (auto simp: ev_stored_def)
  have dom: "?m k \<noteq> None \<longleftrightarrow> hist_get at (st_hist E s k) \<noteq> None" for k
    using ev [of k] by (auto simp: map_at_def split: option.splits)
  have ks: "sorted_wrt (<) ?ks" "set ?ks = {k. in_rng key e k \<and> ?m k \<noteq> None}"
    using range_keys_spec [OF assms(1)] dom by auto
  let ?cut = "cut (opt_Limit ro) e ?ks"
  have c: "?cut = (if opt_Limit ro \<le> 0 then ?ks else take (nat (opt_Limit ro)) ?ks)"
    by (cases e) (auto simp: cut_def range_keys_def)
  have sub: "set ?cut \<subseteq> set ?ks" by (auto simp: cut_def dest: in_set_takeD)
  let ?rs = "map (live_rev ?B ?x at) ?cut"
  have "\<exists>bs. rd (rev_key r False) = Some [(rev_key r False, bs)] \<and>
      KeyValue_Unmarshal bs zero_KeyValue = Inr (the (decode_at (st_view E s) r))" if "r \<in> set ?rs" for r
  proof -
    obtain k where k: "k \<in> set ?ks" "r = live_rev ?B ?x at k" using \<open>r \<in> set ?rs\<close> sub by auto
    then obtain ev where h: "hist_get at (st_hist E s k) = Some ev" "r = ev_rev ev"
      using range_keys_spec(2) [OF assms(1)] by (auto simp: live_rev_def)
    note in_h = hist_get_in [OF h(1)]
    obtain bs where bs: "st_view E s (rev_key r False) = Some bs" "rd (rev_key r False) = Some [(rev_key r False, bs)]"
      using assms(4) in_h at h(2) unfolding reader_ok_def by fastforce
    obtain kv where "decode_at (st_view E s) r = Some kv" using ev [of k ev] h by blast
    then have "KeyValue_Unmarshal bs zero_KeyValue = Inr (the (decode_at (st_view E s) r))"
      using bs(1) by (auto simp: decode_at_def split: sum.splits)
    then show ?thesis using bs(2) by blast
  qed
  then have f: "fetch_kvs rd ctx 0 newRevBytes ?rs = Some (Inr (map (\<lambda>r. the (decode_at (st_view E s) r)) ?rs))"
    by (intro fetch_kvs_ok) (simp_all add: assms(3) newRevBytes_def)
  have m: "map (\<lambda>r. the (decode_at (st_view E s) r)) ?rs = map (the \<circ> ?m) ?cut"
  proof -
    have "the (decode_at (st_view E s) (live_rev ?B ?x at k)) = the (?m k)" if "k \<in> set ?cut" for k
      using that sub ks(2) dom by (auto simp: live_rev_def map_at_def split: option.splits)
    then show ?thesis by simp
  qed
  have l: "take (if opt_Limit ro \<le> 0 \<or> opt_Limit ro > int (length ?rs) then length ?rs else nat (opt_Limit ro)) ?rs = ?rs"
    by (cases e) (auto simp: cut_def range_keys_def)
  let ?res = "\<lparr>res_KVs = (if opt_Count ro then [] else map (the \<circ> ?m) ?cut), res_Rev = curRev, res_Count = int (length ?ks)\<rparr>"
  have "rangeKeys E rd ctx key e curRev ro s = Some (Inr ?res)"
  proof (cases "opt_Count ro \<or> ?cut = []")
    case True
    then show ?thesis
      using assms(6-8) ti_CountRevisions_hist [OF assms(1,2), of key e at] ti_Revisions_hist [OF assms(1,2), of key e at "opt_Limit ro"]
      by (auto simp: rangeKeys_def Let_def)
  next
    case False
    then show ?thesis
      using assms(6-8) ti_Revisions_hist [OF assms(1,2), of key e at "opt_Limit ro"] f l m
      by (auto simp: rangeKeys_def Let_def)
  qed
  then show ?thesis unfolding a_answer_def using ks c by auto
qed

lemma reader_past_kept:
  assumes "reader_ok E lim rd s" "past_kept E s s'" "lim \<le> st_currentRev s"
  shows "reader_ok E lim rd s'"
  unfolding reader_ok_def
proof (intro allI ballI impI)
  fix k ev assume ev: "ev \<in> set (st_hist E s' k)" "\<not> ev_tomb ev \<and> main (ev_rev ev) \<le> lim"
  then have "ev \<in> set (st_hist E s k)" "st_view E s' (rev_key (ev_rev ev) False) = st_view E s (rev_key (ev_rev ev) False)"
    using assms(2,3) by (auto simp: past_kept_def)
  then show "\<exists>bs. st_view E s' (rev_key (ev_rev ev) False) = Some bs \<and> rd (rev_key (ev_rev ev) False) = Some [(rev_key (ev_rev ev) False, bs)]"
    using assms(1) ev(2) by (auto simp: reader_ok_def)
qed

end
