(* ===== verification/Store_Refine.thy ===== *)
theory Store_Refine
  imports Store_Spec
begin

text \<open>
  The operations of the store keep the relation of \<^verbatim>\<open>Store_Spec\<close>: a write transaction adds changes after all
  those there are, a compaction drops changes of the index that no later read needs and then the pairs
  the index has dropped. Each lemma also says that the operation leaves the past to its readers
  (\<open>past_kept\<close>).
\<close>

section \<open>Adding a change\<close>

lemma rev_key_inj:
  assumes "rev_ok r" "rev_ok r'"
  shows "rev_key r t = rev_key r' t' \<longleftrightarrow> r = r' \<and> t = t'"
proof
  assume k: "rev_key r t = rev_key r' t'"
  have "bytesToRev (rev_key r t) = Some r" "bytesToRev (rev_key r' t') = Some r'"
    using assms by (simp_all add: bytesToRev_key rev_ok_int64)
  moreover have "isTombstone (rev_key r t) = t" "isTombstone (rev_key r' t') = t'" by simp_all
  ultimately show "r = r' \<and> t = t'" unfolding k by simp
qed simp

lemma decode_at_put: "rev_ok r \<Longrightarrow> rev_ok r' \<Longrightarrow> r' \<noteq> r \<Longrightarrow> decode_at (v(rev_key r t \<mapsto> bs)) r' = decode_at v r'"
  by (simp add: decode_at_def rev_key_inj)

lemma hist_next_rev [simp]: "ev_rev (hist_next r t evs) = r" "ev_tomb (hist_next r t evs) = t"
  by (simp_all add: hist_next_def)

lemma hist_get_next:
  "hist_get at (evs @ [hist_next r t evs]) =
     (if at < main r then hist_get at evs else if t then None else Some (hist_next r t evs))"
  by (simp add: hist_get_append) (simp add: hist_get_def)

lemma rev_key_fresh: "rev_ok r \<Longrightarrow> rev_key r t \<notin> rev_keys r"
  by (auto simp: rev_keys_def rev_key_inj)

text \<open>What the database and the index have become when the change has been written to both.\<close>

definition event_added ::
  "('t, 'x, 'l) env \<Rightarrow> bytes set \<Rightarrow> akv \<Rightarrow> revision \<Rightarrow> bool \<Rightarrow> bytes \<Rightarrow> bytes \<Rightarrow> ('t, 'x, 'l) store \<Rightarrow> ('t, 'x, 'l) store \<Rightarrow> bool" where
  "event_added E D A r t k bs s s' \<longleftrightarrow>
     be_inv (env_bolt E) schema_Key D (st_b s') \<and> st_view E s' = (st_view E s)(rev_key r t \<mapsto> bs) \<and>
     be_wbuf schema_Key (st_b s') = be_wbuf schema_Key (st_b s) @ [(rev_key r t, bs)] \<and>
     be_has (env_bolt E) (st_b s') = be_has (env_bolt E) (st_b s) \<and>
     ti_inv (env_btree E) (st_kvindex s') \<and> (\<forall>r'. r < r' \<longrightarrow> ti_before (env_btree E) (st_kvindex s') r') \<and>
     st_hist E s' = (st_hist E s)(k := st_hist E s k @ [hist_next r t (st_hist E s k)]) \<and>
     (\<exists>le. st_le s' = Some le \<and> le_Lookup (env_lessor E) le = a_leases A) \<and>
     st_currentRev s' = st_currentRev s \<and> st_compactMainRev s' = st_compactMainRev s \<and>
     st_fifoSched s' = st_fifoSched s \<and> st_running s' = st_running s"

lemma hist_next_stored:
  assumes "\<And>ev. ev \<in> set evs \<Longrightarrow> ev_stored v D k ev \<and> ev_rev ev < r" "rev_ok r" "1 \<le> main r"
  shows "1 \<le> main (ev_created (hist_next r t evs))" "main (ev_created (hist_next r t evs)) \<le> main r" "1 \<le> ev_ver (hist_next r t evs)"
proof -
  have "1 \<le> main (ev_created (last evs)) \<and> main (ev_created (last evs)) \<le> main r \<and> 1 \<le> ev_ver (last evs)" if "evs \<noteq> []"
  proof -
    have "main (ev_rev (last evs)) \<le> main r" using assms(1) [OF last_in_set [OF that]] by (auto intro: main_mono)
    then show ?thesis using assms(1) [OF last_in_set [OF that]] unfolding ev_stored_def by linarith
  qed
  then show "1 \<le> main (ev_created (hist_next r t evs))" "main (ev_created (hist_next r t evs)) \<le> main r" "1 \<le> ev_ver (hist_next r t evs)"
    using assms(3) by (auto simp: hist_next_def)
qed

lemma add_event:
  assumes "btree_laws (env_btree E)" "st_core E D A m n s" "event_added E D A r t k bs s s'"
    "r = Revision (a_rev A + 1) (int n)" "int n < 2 ^ 63" "key_fits k"
    "\<not> t \<Longrightarrow> KeyValue_Unmarshal bs zero_KeyValue = Inr kv \<and> str_of (kv_Key kv) = k \<and>
       kv_CreateRevision kv = main (ev_created (hist_next r t (st_hist E s k))) \<and> kv_ModRevision kv = main r \<and>
       kv_Version kv = ev_ver (hist_next r t (st_hist E s k))"
  shows "st_core E D A (m(k := if t then None else Some kv)) (Suc n) s'" "past_kept E s s'"
proof -
  let ?v = "st_view E s" and ?v' = "st_view E s'" and ?H = "st_hist E s" and ?H' = "st_hist E s'"
  let ?r' = "Revision (a_rev A + 1) (int (Suc n))"
  note c = assms(2) [unfolded st_core_def backend_rel_def index_rel_def, folded assms(4)]
  note a = assms(3) [unfolded event_added_def]
  have r: "rev_ok r" "1 \<le> main r" "r < ?r'" using c assms(4,5) by (auto simp: rev_ok_def less_revision_def)
  have old: "ev_stored ?v D j ev \<and> ev_rev ev < r" if "ev \<in> set (?H j)" for ev j
  proof -
    have "ti_inv (env_btree E) (st_kvindex s)" "ti_before (env_btree E) (st_kvindex s) r" "\<forall>k. \<forall>ev \<in> set (?H k). ev_stored ?v D k ev"
      using c by simp_all
    then show ?thesis using that ti_hist_le [OF assms(1)] by blast
  qed
  have dec: "decode_at ?v' (ev_rev ev) = decode_at ?v (ev_rev ev)" if "ev \<in> set (?H j)" for ev j
  proof -
    have "rev_ok (ev_rev ev)" "ev_rev ev \<noteq> r" using old [OF that] by (auto simp: ev_stored_def)
    then show ?thesis using a by (simp add: decode_at_put r(1))
  qed
  have new: "\<not> t \<Longrightarrow> decode_at ?v' r = Some kv" using a assms(7) by (simp add: decode_at_def)
  have fresh: "rev_key r t \<notin> D" using c rev_key_fresh [OF r(1)] by blast
  note nx = hist_next_stored [of "?H k", OF old r(1,2)]
  have stored: "ev_stored ?v' D j ev" if "ev \<in> set (?H' j)" for j ev
  proof (cases "ev \<in> set (?H j)")
    case True
    then show ?thesis using old [OF True] dec [OF True] by (simp add: ev_stored_def)
  next
    case False
    then have "j = k" "ev = hist_next r t (?H k)" using that a by (auto split: if_splits)
    then show ?thesis using r(1) assms(6,7) nx new fresh by (auto simp: ev_stored_def)
  qed
  have backend: "backend_rel E D ?r' s'"
  proof -
    have sub: "rev_keys r \<subseteq> rev_keys ?r'" and new: "rev_key r t \<in> rev_keys ?r'"
      by (rule rev_keys_mono [OF less_imp_le [OF r(3)]]) (rule rev_keys_in [OF r(1,3)])
    have old: "dom ?v \<subseteq> rev_keys r" "D \<subseteq> rev_keys r" "fst ` set (be_wbuf schema_Key (st_b s)) \<subseteq> rev_keys r"
      using c by simp_all
    have "insert (rev_key r t) (dom ?v) \<subseteq> rev_keys ?r'" by (rule insert_subsetI [OF new subset_trans [OF old(1) sub]])
    moreover have "insert (rev_key r t) (fst ` set (be_wbuf schema_Key (st_b s))) \<subseteq> rev_keys ?r'"
      by (rule insert_subsetI [OF new subset_trans [OF old(3) sub]])
    ultimately show ?thesis using subset_trans [OF old(2) sub] a c unfolding backend_rel_def by simp
  qed
  have index: "index_rel E D ?r' s'" unfolding index_rel_def using a r(3) stored by auto
  have compact: "compact_rel E s'" using a c assms(4) by (auto simp: compact_rel_def)
  have past: "map_at ?v' ?H' at = map_at ?v ?H at" if "at \<le> a_rev A" for at
  proof
    fix j
    have "hist_get at (?H' j) = hist_get at (?H j)" using a that assms(4) by (auto simp: hist_get_next)
    then show "map_at ?v' ?H' at j = map_at ?v ?H at j"
      using dec hist_get_in [of at "?H j"] by (auto simp: map_at_def split: option.split)
  qed
  have now: "map_at ?v' ?H' (a_rev A + 1) = m(k := if t then None else Some kv)"
  proof
    fix j show "map_at ?v' ?H' (a_rev A + 1) j = (m(k := if t then None else Some kv)) j"
    proof (cases "j = k")
      case True
      then show ?thesis using a assms(4) new by (simp add: map_at_def hist_get_next)
    next
      case False
      then have "?H' j = ?H j" using a by simp
      then show ?thesis using False dec hist_get_in [of "a_rev A + 1" "?H j"] c by (auto simp: map_at_def split: option.split)
    qed
  qed
  show "st_core E D A (m(k := if t then None else Some kv)) (Suc n) s'"
    unfolding st_core_def using backend index compact a c past now by auto
  show "past_kept E s s'"
    unfolding past_kept_def
  proof (intro conjI allI ballI impI)
    fix j ev assume ev: "ev \<in> set (?H' j)" "main (ev_rev ev) \<le> st_currentRev s"
    then show "ev \<in> set (?H j)" using a c assms(4) by (auto split: if_splits)
    then show "?v' (rev_key (ev_rev ev) False) = ?v (rev_key (ev_rev ev) False)"
      using old a r(1) by (auto simp: ev_stored_def rev_key_inj)
  qed (use a in simp_all)
qed

section \<open>Write transactions\<close>

lemma store_pair:
  assumes "env_ok E" "backend_rel E D r s" "rev_ok r" "int (length bs) \<le> 2 ^ 31 - 2"
  shows "\<exists>b. UnsafeSeqPut (env_bolt E) schema_Key (rev_key r t, bs) (st_b s) = Some b \<and> be_inv (env_bolt E) schema_Key D b \<and>
    be_view (env_bolt E) schema_Key b = (st_view E s)(rev_key r t \<mapsto> bs) \<and>
    be_wbuf schema_Key b = be_wbuf schema_Key (st_b s) @ [(rev_key r t, bs)] \<and> be_has (env_bolt E) b = be_has (env_bolt E) (st_b s)"
proof -
  let ?w = "be_wbuf schema_Key (st_b s)"
  have inv: "be_inv (env_bolt E) schema_Key D (st_b s)" and w: "fst ` set ?w \<subseteq> rev_keys r"
    using assms(2) by (simp_all add: backend_rel_def)
  have "length (rev_key r t) = (if t then 18 else 17)" by (simp add: rev_key_def)
  then have ok: "put_ok (rev_key r t, bs)" using assms(4) by (auto simp: put_ok_def)
  have "k < rev_key r t" if "k \<in> rev_keys r" for k
    using that assms(3) by (auto simp: rev_keys_def rev_key_less_iff)
  then have "kv_sorted (?w @ [(rev_key r t, bs)])"
    using w be_inv_parts [OF inv] by (auto simp: sorted_wrt_append)
  then show ?thesis
    using be_put_own [OF _ inv ok, of UnsafeSeqPut] assms(1) by (simp add: env_ok_def)
qed

lemma tw_detach_keeps: "lessor_laws (env_lessor E) \<Longrightarrow> le_Lookup (env_lessor E) (tw_detach E old key le) = le_Lookup (env_lessor E) le"
  unfolding lessor_laws_def tw_detach_def by (cases "le_Detach (env_lessor E) old key le") auto

text \<open>The requests that the store can serve: sizes, counters and leases are as they should be.\<close>

definition put_fits :: "akv \<Rightarrow> (bytes \<Rightarrow> KeyValue option) \<Rightarrow> nat \<Rightarrow> gobytes \<Rightarrow> gobytes \<Rightarrow> int \<Rightarrow> bool" where
  "put_fits A m n key value leaseID \<longleftrightarrow>
     int n < 2 ^ 63 \<and> int (blen key) + int (blen value) + 66 \<le> 2 ^ 31 - 2 \<and> int64_ok leaseID \<and> (leaseID = NoLease \<or> a_leases A leaseID) \<and>
     (case m (str_of key) of None \<Rightarrow> True | Some old \<Rightarrow> kv_Version old + 1 < 2 ^ 63)"

lemma core_hist:
  assumes "btree_laws (env_btree E)" "st_core E D A m n s" "ev \<in> set (st_hist E s k)"
  shows "ev_stored (st_view E s) D k ev" "ev_rev ev < Revision (a_rev A + 1) (int n)" "main (ev_rev ev) \<le> a_rev A + 1"
proof -
  have "ti_inv (env_btree E) (st_kvindex s)" "ti_before (env_btree E) (st_kvindex s) (Revision (a_rev A + 1) (int n))"
    using assms(2) by (simp_all add: st_core_def index_rel_def)
  then show *: "ev_rev ev < Revision (a_rev A + 1) (int n)" using assms(1,3) by (blast intro: ti_hist_le)
  show "ev_stored (st_view E s) D k ev" using assms(2,3) by (simp add: st_core_def index_rel_def)
  show "main (ev_rev ev) \<le> a_rev A + 1" using main_mono [OF less_imp_le [OF *]] by simp
qed

lemma core_newest:
  assumes "btree_laws (env_btree E)" "st_core E D A m n s"
  shows "hist_get (a_rev A + 1) (st_hist E s k) = (if hist_alive (st_hist E s k) then Some (last (st_hist E s k)) else None)"
    "(m k = None) = (\<not> hist_alive (st_hist E s k))"
    "m k = Some old \<Longrightarrow> kv_CreateRevision old = main (ev_created (last (st_hist E s k))) \<and> kv_Version old = ev_ver (last (st_hist E s k))"
proof -
  show g: "hist_get (a_rev A + 1) (st_hist E s k) = (if hist_alive (st_hist E s k) then Some (last (st_hist E s k)) else None)"
    by (rule hist_get_all) (rule core_hist(3) [OF assms])
  have "m = map_at (st_view E s) (st_hist E s) (a_rev A + 1)" using assms(2) by (simp add: st_core_def)
  moreover have "\<exists>kv. decode_at (st_view E s) (ev_rev (last (st_hist E s k))) = Some kv \<and>
      kv_CreateRevision kv = main (ev_created (last (st_hist E s k))) \<and> kv_Version kv = ev_ver (last (st_hist E s k))"
    if "hist_alive (st_hist E s k)"
    using core_hist(1) [OF assms last_in_set] that by (auto simp: hist_alive_def ev_stored_def)
  ultimately show "(m k = None) = (\<not> hist_alive (st_hist E s k))"
    "m k = Some old \<Longrightarrow> kv_CreateRevision old = main (ev_created (last (st_hist E s k))) \<and> kv_Version old = ev_ver (last (st_hist E s k))"
    using g by (auto simp: map_at_def split: if_splits)
qed

lemma lessor_put:
  assumes "lessor_laws (env_lessor E)" "st_le s = Some le" "leaseID = NoLease \<or> le_Lookup (env_lessor E) le leaseID"
  shows "\<exists>le1 le2. (if old \<noteq> NoLease then do { le \<leftarrow> st_le s; Some (Some (tw_detach E old key le)) } else Some (st_le s)) = Some (Some le1) \<and>
    (if leaseID \<noteq> NoLease
     then do { le \<leftarrow> Some le1; (case le_Attach (env_lessor E) leaseID key le of Inl _ \<Rightarrow> None | Inr le \<Rightarrow> Some (Some le)) }
     else Some (Some le1)) = Some (Some le2) \<and> le_Lookup (env_lessor E) le2 = le_Lookup (env_lessor E) le"
proof -
  let ?le1 = "if old \<noteq> NoLease then tw_detach E old key le else le"
  have k: "le_Lookup (env_lessor E) ?le1 = le_Lookup (env_lessor E) le" using tw_detach_keeps [OF assms(1)] by simp
  have "\<exists>le'. le_Attach (env_lessor E) leaseID key ?le1 = Inr le' \<and> le_Lookup (env_lessor E) le' = le_Lookup (env_lessor E) ?le1"
    if "leaseID \<noteq> NoLease"
    using assms(1,3) k that unfolding lessor_laws_def by metis
  then obtain le' where "leaseID \<noteq> NoLease \<longrightarrow>
      le_Attach (env_lessor E) leaseID key ?le1 = Inr le' \<and> le_Lookup (env_lessor E) le' = le_Lookup (env_lessor E) ?le1" by blast
  then show ?thesis
    using assms(2) k by (intro exI [of _ ?le1] exI [of _ "if leaseID = NoLease then ?le1 else le'"]) auto
qed

lemma put_stored:
  assumes "kv_unrecognized kv = None" "int (blen (kv_Key kv)) + int (blen (kv_Value kv)) + 66 \<le> 2 ^ 31 - 2" "KeyValue_fits kv"
  shows "KeyValue_Marshal kv = Some (KeyValue_wire kv)" "int (length (KeyValue_wire kv)) \<le> 2 ^ 31 - 2"
    "KeyValue_Unmarshal (KeyValue_wire kv) zero_KeyValue = Inr (kv_norm kv)"
proof -
  show "KeyValue_Marshal kv = Some (KeyValue_wire kv)" by (rule KeyValue_Marshal_wire)
  have "int (KeyValue_Size kv) \<le> 2 ^ 31 - 2" using KeyValue_Size_le [OF assms(1)] assms(2) by linarith
  moreover from this have "int (KeyValue_Size kv) < int (2 ^ 63)" by (rule le_less_trans) simp
  then have "KeyValue_Size kv < 2 ^ 63" by (simp only: of_nat_less_iff)
  ultimately show "int (length (KeyValue_wire kv)) \<le> 2 ^ 31 - 2" "KeyValue_Unmarshal (KeyValue_wire kv) zero_KeyValue = Inr (kv_norm kv)"
    using KeyValue_decode [OF assms(3)] by (simp_all add: key_value.wire_length kv_norm_def)
qed

lemma blen_zero: "blen b = 0 \<longleftrightarrow> str_of b = []"
  unfolding blen_def by (rule length_0_conv)

lemma kv_norm_fields [simp]:
  "str_of (kv_Key (kv_norm kv)) = str_of (kv_Key kv)" "kv_CreateRevision (kv_norm kv) = kv_CreateRevision kv"
  "kv_ModRevision (kv_norm kv) = kv_ModRevision kv" "kv_Version (kv_norm kv) = kv_Version kv"
  by (auto simp: kv_norm_def KeyValue_merge_def zero_KeyValue_def blen_zero)

lemma tw_put_rel:
  assumes "env_ok E" "st_rel E A m n s" "tw_beginRev tw = a_rev A" "length (tw_changes tw) = n" "put_fits A m n key value leaseID"
  shows "\<exists>tw' s'. tw_put E key value leaseID (tw, s) = Some (tw', s') \<and> st_rel E A (a_put (a_rev A + 1) key value leaseID m) (Suc n) s' \<and>
    past_kept E s s' \<and> tw_beginRev tw' = a_rev A \<and> length (tw_changes tw') = Suc n"
proof -
  obtain D where core: "st_core E D A m n s" using assms(2) by (auto simp: st_rel_def)
  have bt: "btree_laws (env_btree E)" and ll: "lessor_laws (env_lessor E)" using assms(1) by (simp_all add: env_ok_def)
  let ?k = "str_of key" and ?r = "Revision (a_rev A + 1) (int n)"
  let ?H = "st_hist E s ?k" and ?ev = "hist_next ?r False (st_hist E s ?k)"
  let ?kv = "\<lparr>kv_Key = key, kv_CreateRevision = main (ev_created ?ev), kv_ModRevision = a_rev A + 1, kv_Version = ev_ver ?ev,
    kv_Value = value, kv_Lease = leaseID, kv_unrecognized = None\<rparr>"
  have c: "backend_rel E D ?r s" "ti_inv (env_btree E) (st_kvindex s)" "ti_before (env_btree E) (st_kvindex s) ?r" "1 \<le> a_rev A" "a_rev A + 1 < 2 ^ 63"
    using core by (simp_all add: st_core_def index_rel_def)
  obtain le where le: "st_le s = Some le" "le_Lookup (env_lessor E) le = a_leases A" using core by (auto simp: st_core_def)
  have f: "int n < 2 ^ 63" "int (blen key) + int (blen value) + 66 \<le> 2 ^ 31 - 2" "int64_ok leaseID" "leaseID = NoLease \<or> a_leases A leaseID"
    using assms(5) by (simp_all add: put_fits_def)
  have r: "rev_ok ?r" "1 \<le> main ?r" using c f by (simp_all add: rev_ok_def)
  have old: "ev_stored (st_view E s) D ?k ev \<and> ev_rev ev < ?r" if "ev \<in> set ?H" for ev
    using core_hist [OF bt core that] by blast
  note nx = hist_next_stored [of ?H, OF old r]
  note newest = core_newest [OF bt core, of ?k]
  have created: "main (ev_created ?ev) = (case m ?k of None \<Rightarrow> a_rev A + 1 | Some old \<Rightarrow> kv_CreateRevision old)"
    and ver: "ev_ver ?ev = (case m ?k of None \<Rightarrow> 1 | Some old \<Rightarrow> kv_Version old + 1)"
    using newest(2,3) by (auto simp: hist_next_def hist_alive_def split: option.split)
  have ver_ok: "ev_ver ?ev < 2 ^ 63" using assms(5) unfolding ver by (auto simp: put_fits_def split: option.split)
  have fits: "KeyValue_fits ?kv" using nx [where t = False] c(4,5) f(3) ver_ok by (auto simp: KeyValue_fits_def int64_ok_def)
  note w = put_stored [of ?kv, OF _ _ fits, simplified, OF f(2) [simplified]]
  obtain b where b: "UnsafeSeqPut (env_bolt E) schema_Key (rev_key ?r False, KeyValue_wire ?kv) (st_b s) = Some b" "be_inv (env_bolt E) schema_Key D b"
    "be_view (env_bolt E) schema_Key b = (st_view E s)(rev_key ?r False \<mapsto> KeyValue_wire ?kv)"
    "be_wbuf schema_Key b = be_wbuf schema_Key (st_b s) @ [(rev_key ?r False, KeyValue_wire ?kv)]" "be_has (env_bolt E) b = be_has (env_bolt E) (st_b s)"
    using store_pair [OF assms(1) c(1) r(1), of "KeyValue_wire ?kv" False] w(2) by auto
  have "0 < main ?r" using r(2) by simp
  from ti_Put_hist [OF bt c(2,3) this, of ?k]
  obtain x where x: "ti_Put (env_btree E) ?k ?r (st_kvindex s) = Some x" "ti_inv (env_btree E) x" "\<And>r'. ?r < r' \<Longrightarrow> ti_before (env_btree E) x r'"
    "ti_hist (env_btree E) x = (st_hist E s)(?k := ?H @ [?ev])" by blast
  define old where "old = (if hist_alive ?H then le_GetLease (env_lessor E) le ?k else NoLease)"
  obtain le1 le2 where l: "(if old \<noteq> NoLease then do { le \<leftarrow> st_le s; Some (Some (tw_detach E old ?k le)) } else Some (st_le s)) = Some (Some le1)"
    "(if leaseID \<noteq> NoLease then do { le \<leftarrow> Some le1; (case le_Attach (env_lessor E) leaseID ?k le of Inl _ \<Rightarrow> None | Inr le \<Rightarrow> Some (Some le)) }
     else Some (Some le1)) = Some (Some le2)" "le_Lookup (env_lessor E) le2 = le_Lookup (env_lessor E) le"
    using lessor_put [OF ll le(1), of leaseID old ?k] f(4) le(2) by auto
  let ?s = "s\<lparr>st_b := b, st_kvindex := x, st_le := Some le2\<rparr>" and ?tw = "tw\<lparr>tw_changes := tw_changes tw @ [?kv]\<rparr>"
  have found: "(case (case hist_get (a_rev A + 1) ?H of None \<Rightarrow> Inl ErrRevisionNotFound | Some e \<Rightarrow> Inr (version_of e)) of
        Inl _ \<Rightarrow> Some (a_rev A + 1, 0, NoLease)
      | Inr (_, created, ver) \<Rightarrow> do { le \<leftarrow> st_le s; Some (main created, ver, le_GetLease (env_lessor E) le ?k) }) =
    Some (main (ev_created ?ev), ev_ver ?ev - 1, old)"
    unfolding newest(1) old_def using le(1) by (auto simp: hist_next_def hist_alive_def)
  have run: "tw_put E key value leaseID (tw, s) = Some (?tw, ?s)"
    unfolding tw_put_def prod.case Let_def assms(3,4) ti_Get_hist [OF bt c(2)] bind.bind_lunit found
    using b(1) x(1) l(1,2) w(1) by (simp add: revToBytes_new newRevBytes_def del: if_split)
  have "event_added E D A ?r False ?k (KeyValue_wire ?kv) s ?s"
    using b x le(2) l(3) by (simp add: event_added_def)
  note ae = add_event [OF bt core this refl f(1), of "kv_norm ?kv"]
  have "key_fits ?k" using f(2) by (simp add: key_fits_def blen_def)
  then have "st_core E D A (m(?k := Some (kv_norm ?kv))) (Suc n) ?s" "past_kept E s ?s" using ae w(3) by simp_all
  then show ?thesis
    using run created ver assms(3,4) by (auto simp: st_rel_def a_put_def)
qed

lemma tw_delete_rel:
  assumes "env_ok E" "st_rel E A m n s" "tw_beginRev tw = a_rev A" "length (tw_changes tw) = n" "int n < 2 ^ 63" "m key \<noteq> None"
  shows "\<exists>tw' s'. tw_delete E key (tw, s) = Some (tw', s') \<and> st_rel E A (m(key := None)) (Suc n) s' \<and>
    past_kept E s s' \<and> tw_beginRev tw' = a_rev A \<and> length (tw_changes tw') = Suc n"
proof -
  obtain D where core: "st_core E D A m n s" using assms(2) by (auto simp: st_rel_def)
  have bt: "btree_laws (env_btree E)" and ll: "lessor_laws (env_lessor E)" using assms(1) by (simp_all add: env_ok_def)
  let ?r = "Revision (a_rev A + 1) (int n)" and ?H = "st_hist E s key" and ?kv = "zero_KeyValue\<lparr>kv_Key := Some key\<rparr>"
  have c: "backend_rel E D ?r s" "ti_inv (env_btree E) (st_kvindex s)" "ti_before (env_btree E) (st_kvindex s) ?r" "1 \<le> a_rev A" "a_rev A + 1 < 2 ^ 63"
    using core by (simp_all add: st_core_def index_rel_def)
  obtain le where le: "st_le s = Some le" "le_Lookup (env_lessor E) le = a_leases A" using core by (auto simp: st_core_def)
  have r: "rev_ok ?r" "0 < main ?r" using c assms(5) by (simp_all add: rev_ok_def)
  have alive: "hist_alive ?H" using core_newest(2) [OF bt core, of key] assms(6) by simp
  then have fits: "key_fits key" using core_hist(1) [OF bt core last_in_set] by (auto simp: hist_alive_def ev_stored_def)
  have "int (blen (kv_Key ?kv)) + int (blen (kv_Value ?kv)) + 66 \<le> 2 ^ 31 - 2"
    using fits by (simp add: key_fits_def blen_def zero_KeyValue_def)
  then have w: "KeyValue_Marshal ?kv = Some (KeyValue_wire ?kv)" "int (length (KeyValue_wire ?kv)) \<le> 2 ^ 31 - 2"
    using put_stored [of ?kv] by (simp_all add: KeyValue_fits_def zero_KeyValue_def int64_ok_def)
  obtain b where b: "UnsafeSeqPut (env_bolt E) schema_Key (rev_key ?r True, KeyValue_wire ?kv) (st_b s) = Some b" "be_inv (env_bolt E) schema_Key D b"
    "be_view (env_bolt E) schema_Key b = (st_view E s)(rev_key ?r True \<mapsto> KeyValue_wire ?kv)"
    "be_wbuf schema_Key b = be_wbuf schema_Key (st_b s) @ [(rev_key ?r True, KeyValue_wire ?kv)]" "be_has (env_bolt E) b = be_has (env_bolt E) (st_b s)"
    using store_pair [OF assms(1) c(1) r(1) w(2), of True] by blast
  obtain x where x: "ti_Tombstone (env_btree E) key ?r (st_kvindex s) = Some (Inr x)" "ti_inv (env_btree E) x" "\<forall>r'. ?r < r' \<longrightarrow> ti_before (env_btree E) x r'"
    "ti_hist (env_btree E) x = (st_hist E s)(key := ?H @ [hist_next ?r True ?H])"
    using ti_Tombstone_hist [OF bt c(2,3) r(2), of key] alive by auto
  let ?lease = "le_GetLease (env_lessor E) le key"
  let ?le = "if ?lease \<noteq> NoLease then tw_detach E ?lease key le else le"
  let ?s = "s\<lparr>st_b := b, st_kvindex := x, st_le := Some ?le\<rparr>"
  have run: "tw_delete E key (tw, s) = Some (tw\<lparr>tw_changes := tw_changes tw @ [?kv]\<rparr>, ?s)"
    unfolding tw_delete_def prod.case Let_def assms(3,4)
    using b(1) x(1) w(1) le(1) by (simp add: revToBytes_new newRevBytes_def appendMarkTombstone_key del: if_split)
  have "event_added E D A ?r True key (KeyValue_wire ?kv) s ?s"
    using b x le(2) tw_detach_keeps [OF ll] by (simp add: event_added_def)
  from add_event [OF bt core this refl assms(5) fits]
  have "st_core E D A (m(key := None)) (Suc n) ?s" "past_kept E s ?s" by simp_all
  then show ?thesis using run assms(3,4) by (auto simp: st_rel_def)
qed

lemma tw_delete_all_rel:
  assumes "env_ok E" "st_rel E A m n s" "tw_beginRev tw = a_rev A" "length (tw_changes tw) = n" "int (n + length keys) \<le> 2 ^ 63"
    "distinct keys" "\<forall>k \<in> set keys. m k \<noteq> None"
  shows "\<exists>tw' s'. tw_delete_all E keys (tw, s) = Some (tw', s') \<and> st_rel E A (\<lambda>k. if k \<in> set keys then None else m k) (n + length keys) s' \<and>
    past_kept E s s' \<and> tw_beginRev tw' = a_rev A \<and> length (tw_changes tw') = n + length keys"
  using assms(2-)
proof (induction keys arbitrary: m n tw s)
  case Nil
  then show ?case by (auto simp: past_kept_refl)
next
  case (Cons key keys)
  have "int n < 2 ^ 63" "m key \<noteq> None" using Cons.prems(4,6) by simp_all
  with tw_delete_rel [OF assms(1) Cons.prems(1-3)] obtain tw1 s1
    where 1: "tw_delete E key (tw, s) = Some (tw1, s1)" "st_rel E A (m(key := None)) (Suc n) s1" "past_kept E s s1"
      "tw_beginRev tw1 = a_rev A" "length (tw_changes tw1) = Suc n" by blast
  have "int (Suc n + length keys) \<le> 2 ^ 63" "distinct keys" "\<forall>k \<in> set keys. (m(key := None)) k \<noteq> None"
    using Cons.prems(4-6) by auto
  with Cons.IH [OF 1(2,4,5)] obtain tw2 s2
    where 2: "tw_delete_all E keys (tw1, s1) = Some (tw2, s2)"
      "st_rel E A (\<lambda>k. if k \<in> set keys then None else (m(key := None)) k) (Suc n + length keys) s2" "past_kept E s1 s2"
      "tw_beginRev tw2 = a_rev A" "length (tw_changes tw2) = Suc n + length keys" by blast
  have "(\<lambda>k. if k \<in> set keys then None else (m(key := None)) k) = (\<lambda>k. if k \<in> set (key # keys) then None else m k)" by auto
  then show ?case using 1(1) 2 past_kept_trans [OF 1(3) 2(3)] by auto
qed

lemma core_no_change:
  assumes "btree_laws (env_btree E)" "st_core E D A m 0 s"
  shows "hist_get (a_rev A) (st_hist E s k) = hist_get (a_rev A + 1) (st_hist E s k)"
proof (rule hist_get_cong)
  fix ev assume "ev \<in> set (st_hist E s k)"
  from core_hist(1,2) [OF assms this] show "main (ev_rev ev) \<le> a_rev A \<longleftrightarrow> main (ev_rev ev) \<le> a_rev A + 1"
    by (auto simp: ev_stored_def rev_ok_def less_Revision_sub0)
qed

text \<open>How many keys a deletion finds.\<close>

definition a_hits :: "bytes \<Rightarrow> gobytes \<Rightarrow> (bytes \<Rightarrow> KeyValue option) \<Rightarrow> nat" where
  "a_hits key e m = card {k. in_rng key e k \<and> m k \<noteq> None}"

lemma tw_deleteRange_rel:
  assumes "env_ok E" "st_rel E A m n s" "tw_beginRev tw = a_rev A" "length (tw_changes tw) = n" "int (n + a_hits key e m) \<le> 2 ^ 63"
  shows "\<exists>tw' s'. tw_deleteRange E key e (tw, s) = Some (int (a_hits key e m), tw', s') \<and> st_rel E A (a_delete key e m) (n + a_hits key e m) s' \<and>
    past_kept E s s' \<and> tw_beginRev tw' = a_rev A \<and> length (tw_changes tw') = n + a_hits key e m"
proof -
  obtain D where core: "st_core E D A m n s" using assms(2) by (auto simp: st_rel_def)
  have bt: "btree_laws (env_btree E)" using assms(1) by (simp add: env_ok_def)
  have inv: "ti_inv (env_btree E) (st_kvindex s)" using core by (simp add: st_core_def index_rel_def)
  let ?at = "if 0 < n then a_rev A + 1 else a_rev A"
  let ?keys = "range_keys (env_btree E) (st_kvindex s) key e ?at"
  have at: "hist_get ?at (st_hist E s k) = hist_get (a_rev A + 1) (st_hist E s k)" for k
    using core_no_change [OF bt] core by (cases "n = 0") auto
  have keys: "set ?keys = {k. in_rng key e k \<and> m k \<noteq> None}"
    using range_keys_spec(2) [OF bt, of "st_kvindex s" key e ?at] core_newest(1,2) [OF bt core] unfolding at by auto
  have d: "distinct ?keys" using range_keys_spec(1) [OF bt] by (simp add: strict_sorted_iff)
  have hits: "length ?keys = a_hits key e m" using distinct_card [OF d] by (simp add: a_hits_def keys)
  have del: "(\<lambda>k. if k \<in> set ?keys then None else m k) = a_delete key e m" by (auto simp: a_delete_def keys)
  have rng: "ti_Range (env_btree E) key e ?at (st_kvindex s) = Some (?keys, map (live_rev (env_btree E) (st_kvindex s) ?at) ?keys)"
    by (rule ti_Range_hist [OF bt inv])
  have "int (n + length ?keys) \<le> 2 ^ 63" "\<forall>k \<in> set ?keys. m k \<noteq> None" using assms(5) hits keys by auto
  with tw_delete_all_rel [OF assms(1-4) _ d] obtain tw' s' where all: "tw_delete_all E ?keys (tw, s) = Some (tw', s')"
    "st_rel E A (\<lambda>k. if k \<in> set ?keys then None else m k) (n + length ?keys) s'" "past_kept E s s'" "tw_beginRev tw' = a_rev A"
    "length (tw_changes tw') = n + length ?keys" by blast
  have "tw_deleteRange E key e (tw, s) = Some (int (length ?keys), tw', s')"
    unfolding tw_deleteRange_def prod.case Let_def assms(3,4) using rng all(1) by (cases "?keys = []") auto
  then show ?thesis using all unfolding del hits by blast
qed

section \<open>The end of a transaction\<close>

text \<open>Steps of the backend that show its readers the same.\<close>

definition same_backend :: "('t, 'x, 'l) env \<Rightarrow> bytes set \<Rightarrow> 't backend \<Rightarrow> 't backend \<Rightarrow> bool" where
  "same_backend E D b b' \<longleftrightarrow> be_inv (env_bolt E) schema_Key D b' \<and> keeps_bucket (env_bolt E) schema_Key b b' \<and>
     set (be_wbuf schema_Key b') \<subseteq> set (be_wbuf schema_Key b)"

lemma same_backend_inv: "same_backend E D b b' \<Longrightarrow> be_inv (env_bolt E) schema_Key D b'"
  by (simp add: same_backend_def)

lemma same_backend_trans: "same_backend E D b b' \<Longrightarrow> same_backend E D b' b'' \<Longrightarrow> same_backend E D b b''"
  by (auto simp: same_backend_def keeps_bucket_def)

lemma compact_rel_frame [simp]:
  "compact_rel E (s\<lparr>st_b := b\<rparr>) = compact_rel E s" "compact_rel E (s\<lparr>st_currentRev := r\<rparr>) = compact_rel E s"
  by (simp_all add: compact_rel_def)

lemma core_backend:
  assumes "st_core E D A m n s" "same_backend E D (st_b s) b"
  shows "st_core E D A m n (s\<lparr>st_b := b\<rparr>)" "past_kept E s (s\<lparr>st_b := b\<rparr>)"
proof -
  have v: "be_view (env_bolt E) schema_Key b = st_view E s" using assms(2) by (simp add: same_backend_def keeps_bucket_def)
  have "backend_rel E D nx (s\<lparr>st_b := b\<rparr>)" if "backend_rel E D nx s" for nx
    using assms(2) that image_mono [of "set (be_wbuf schema_Key b)" "set (be_wbuf schema_Key (st_b s))" fst]
    unfolding same_backend_def keeps_bucket_def backend_rel_def by (simp, meson subset_trans)
  then show "st_core E D A m n (s\<lparr>st_b := b\<rparr>)"
    using assms(1) v by (simp add: st_core_def index_rel_def)
  show "past_kept E s (s\<lparr>st_b := b\<rparr>)" using v by (simp add: past_kept_def)
qed

lemma unlock_same:
  assumes "env_ok E" "be_inv (env_bolt E) schema_Key D b"
  shows "\<exists>b'. be_Unlock (env_bolt E) (env_sort E) (env_hooks E) b = Some b' \<and> same_backend E D b b' \<and> be_wbuf schema_Key b' = []"
  using be_Unlock_inv [of "env_bolt E" "env_sort E" schema_Key D b "env_hooks E"] assms by (auto simp: env_ok_def same_backend_def)

lemma commit_same:
  assumes "env_ok E" "be_inv (env_bolt E) schema_Key D b" "be_wbuf schema_Key b = []"
  shows "\<exists>b'. ForceCommit (env_bolt E) (env_sort E) (env_hooks E) b = Some b' \<and> same_backend E D b b' \<and> be_wbuf schema_Key b' = []"
  using be_Commit_inv [of "env_bolt E" "env_sort E" schema_Key D b "env_hooks E"] assms
  by (auto simp: env_ok_def same_backend_def ForceCommit_def)

lemma meta_apart: "bucket_apart schema_Key schema_Meta"
  by (rule schema_apart) (simp_all add: schema_buckets_def, simp add: schema_Key_def schema_Meta_def)

lemma meta_put_same:
  assumes "env_ok E" "be_inv (env_bolt E) schema_Key D b" "be_has (env_bolt E) b (bk_Name schema_Meta)"
    "put = UnsafeSetScheduledCompact \<or> put = UnsafeSetFinishedCompact"
  shows "\<exists>b'. put (env_bolt E) v b = Some b' \<and> same_backend E D b b'"
proof -
  have "put_ok (name, rev_key (Revision v 0) False)" if "name = ScheduledCompactKeyName \<or> name = FinishedCompactKeyName" for name
    using that by (auto simp: put_ok_def rev_key_def ScheduledCompactKeyName_def FinishedCompactKeyName_def ascii_def)
  then have "\<exists>b'. UnsafePut (env_bolt E) schema_Meta (name, rev_key (Revision v 0) False) b = Some b' \<and> same_backend E D b b'"
    if "name = ScheduledCompactKeyName \<or> name = FinishedCompactKeyName" for name
    using be_put_other [OF _ assms(2) _ _ meta_apart assms(3), of "(name, rev_key (Revision v 0) False)" UnsafePut] that assms(1)
    by (auto simp: env_ok_def same_backend_def keeps_bucket_def)
  then show ?thesis
    using assms(4) by (auto simp: UnsafeSetScheduledCompact_def UnsafeSetFinishedCompact_def revToBytes_new newRevBytes_def)
qed

definition a_end :: "(bytes \<Rightarrow> KeyValue option) \<Rightarrow> nat \<Rightarrow> akv \<Rightarrow> akv" where
  "a_end m n A = (if n = 0 then A else A\<lparr>a_rev := a_rev A + 1, a_at := (a_at A)(a_rev A + 1 := m)\<rparr>)"

lemma core_bump:
  assumes "btree_laws (env_btree E)" "st_core E D A m n s" "a_rev A + 2 < 2 ^ 63"
  shows "st_core E D (A\<lparr>a_rev := a_rev A + 1, a_at := (a_at A)(a_rev A + 1 := m)\<rparr>) m 0 (s\<lparr>st_currentRev := st_currentRev s + 1\<rparr>)"
proof -
  let ?r = "Revision (a_rev A + 1) (int n)" and ?r' = "Revision (a_rev A + 1 + 1) 0"
  note c = assms(2) [unfolded st_core_def]
  have le: "?r < ?r'" by (simp add: less_revision_def)
  have "backend_rel E D ?r' (s\<lparr>st_currentRev := st_currentRev s + 1\<rparr>)"
    using c rev_keys_mono [OF less_imp_le [OF le]] unfolding backend_rel_def by (simp, meson subset_trans)
  moreover have "index_rel E D ?r' (s\<lparr>st_currentRev := st_currentRev s + 1\<rparr>)"
    using c ti_before_mono [of "env_btree E" "st_kvindex s", OF _ less_imp_le [OF le]] unfolding index_rel_def by simp
  moreover have "map_at (st_view E s) (st_hist E s) (a_rev A + 1 + 1) = map_at (st_view E s) (st_hist E s) (a_rev A + 1)"
  proof
    fix k
    have "hist_get (a_rev A + 1 + 1) (st_hist E s k) = hist_get (a_rev A + 1) (st_hist E s k)"
      by (rule hist_get_cong) (use core_hist(3) [OF assms(1,2)] in fastforce)
    then show "map_at (st_view E s) (st_hist E s) (a_rev A + 1 + 1) k = map_at (st_view E s) (st_hist E s) (a_rev A + 1) k"
      by (simp add: map_at_def)
  qed
  ultimately show ?thesis using c assms(3) unfolding st_core_def by simp
qed

lemma core_now:
  assumes "btree_laws (env_btree E)" "st_core E D A m 0 s"
  shows "m = a_at A (a_rev A)"
  using assms core_no_change [OF assms] by (auto simp: st_core_def map_at_def fun_eq_iff)

lemma tw_End_rel:
  assumes "env_ok E" "st_rel E A m n s" "length (tw_changes tw) = n" "n = 0 \<or> a_rev A + 2 < 2 ^ 63"
  shows "\<exists>s'. tw_End E (tw, s) = Some s' \<and> st_inv E (a_end m n A) s' \<and> past_kept E s s'"
proof -
  obtain D where core: "st_core E D A m n s" using assms(2) by (auto simp: st_rel_def)
  have bt: "btree_laws (env_btree E)" using assms(1) by (simp add: env_ok_def)
  let ?s = "if n \<noteq> 0 then s\<lparr>st_currentRev := st_currentRev s + 1\<rparr> else s"
  have c: "st_core E D (a_end m n A) m 0 ?s" using core core_bump [OF bt core] assms(4) by (cases "n = 0") (auto simp: a_end_def)
  have "past_kept E s ?s" by (simp add: past_kept_def)
  have "be_inv (env_bolt E) schema_Key D (st_b ?s)" using c by (simp add: st_core_def backend_rel_def)
  then obtain b where b: "be_Unlock (env_bolt E) (env_sort E) (env_hooks E) (st_b ?s) = Some b" "same_backend E D (st_b ?s) b" "be_wbuf schema_Key b = []"
    using unlock_same [OF assms(1)] by blast
  have "tw_End E (tw, s) = Some (?s\<lparr>st_b := b\<rparr>)"
    using b(1) assms(3) by (cases "n = 0") (auto simp: tw_End_def Let_def)
  moreover have "st_inv E (a_end m n A) (?s\<lparr>st_b := b\<rparr>)"
    using core_backend(1) [OF c b(2)] core_now [OF bt c] b(3) unfolding st_inv_def st_rel_def by auto
  ultimately show ?thesis using past_kept_trans [OF \<open>past_kept E s ?s\<close> core_backend(2) [OF c b(2)]] by blast
qed

section \<open>Compaction\<close>

definition a_compact_err :: "int \<Rightarrow> akv \<Rightarrow> StoreErr option" where
  "a_compact_err rv A = (if rv \<le> a_compact A then Some ErrCompacted else if rv > a_rev A then Some ErrFutureRev else None)"

definition a_compacted :: "int \<Rightarrow> akv \<Rightarrow> akv" where
  "a_compacted rv A = (if a_compact_err rv A = None then A\<lparr>a_compact := rv\<rparr> else A)"

lemma core_compact:
  assumes "st_core E D A m n s" "a_compact A < rv" "rv \<le> a_rev A"
  shows "st_core E D (A\<lparr>a_compact := rv\<rparr>) m n (s\<lparr>st_compactMainRev := rv\<rparr>)"
proof -
  have "compact_rel E (s\<lparr>st_compactMainRev := rv\<rparr>)" using assms unfolding st_core_def compact_rel_def by fastforce
  then show ?thesis using assms unfolding st_core_def by (simp add: backend_rel_def index_rel_def)
qed

lemma core_sched:
  assumes "st_core E D A m n s" "\<And>rv. job = CompactJob rv \<Longrightarrow> 0 \<le> rv \<and> rv \<le> a_compact A"
  shows "st_core E D A m n (s\<lparr>st_fifoSched := st_fifoSched s @ [job]\<rparr>)"
proof -
  have "compact_rel E (s\<lparr>st_fifoSched := st_fifoSched s @ [job]\<rparr>)" using assms by (auto simp: st_core_def compact_rel_def)
  then show ?thesis using assms(1) by (simp add: st_core_def backend_rel_def index_rel_def)
qed

lemma past_kept_frame [simp]:
  "past_kept E s (s\<lparr>st_fifoSched := js\<rparr>)" "st_compactMainRev s \<le> rv \<Longrightarrow> past_kept E s (s\<lparr>st_compactMainRev := rv\<rparr>)"
  "past_kept E s (s\<lparr>st_running := cp\<rparr>)"
  by (simp_all add: past_kept_def)

lemma st_Compact_rel:
  assumes "env_ok E" "st_inv E A s"
  shows "\<exists>s'. st_Compact E rv s = Some (a_compact_err rv A, s') \<and> st_inv E (a_compacted rv A) s' \<and> past_kept E s s'"
proof -
  obtain D where core: "st_core E D A (a_at A (a_rev A)) 0 s" and w: "be_wbuf schema_Key (st_b s) = []"
    using assms(2) by (auto simp: st_inv_def st_rel_def)
  have revs: "st_compactMainRev s = a_compact A" "st_currentRev s = a_rev A" using core by (simp_all add: st_core_def)
  show ?thesis
  proof (cases "rv \<le> a_compact A \<or> rv > a_rev A")
    case True
    then show ?thesis
      using core_sched [OF core, of BarrierJob] assms(2) revs w
      by (auto simp: st_Compact_def updateCompactRev_def a_compact_err_def a_compacted_def past_kept_refl st_inv_def st_rel_def)
  next
    case False
    let ?A = "A\<lparr>a_compact := rv\<rparr>" and ?s = "s\<lparr>st_compactMainRev := rv\<rparr>"
    have core1: "st_core E D ?A (a_at A (a_rev A)) 0 ?s" by (rule core_compact [OF core]) (use False in auto)
    then have inv: "be_inv (env_bolt E) schema_Key D (st_b s)" "be_has (env_bolt E) (st_b s) (bk_Name schema_Meta)"
      by (simp_all add: st_core_def backend_rel_def)
    obtain b1 where b1: "UnsafeSetScheduledCompact (env_bolt E) rv (st_b s) = Some b1" "same_backend E D (st_b s) b1"
      using meta_put_same [OF assms(1) inv, of UnsafeSetScheduledCompact] by blast
    obtain b2 where b2: "be_Unlock (env_bolt E) (env_sort E) (env_hooks E) b1 = Some b2" "same_backend E D b1 b2" "be_wbuf schema_Key b2 = []"
      using unlock_same [OF assms(1) same_backend_inv [OF b1(2)]] by blast
    obtain b3 where b3: "ForceCommit (env_bolt E) (env_sort E) (env_hooks E) b2 = Some b3" "same_backend E D b2 b3" "be_wbuf schema_Key b3 = []"
      using commit_same [OF assms(1) same_backend_inv [OF b2(2)] b2(3)] by blast
    have same: "same_backend E D (st_b ?s) b3" using b1(2) b2(2) b3(2) by (auto intro: same_backend_trans)
    let ?s2 = "?s\<lparr>st_b := b3\<rparr>" and ?s3 = "?s\<lparr>st_b := b3, st_fifoSched := st_fifoSched s @ [CompactJob rv]\<rparr>"
    have run: "st_Compact E rv s = Some (None, ?s3)"
      using False b1(1) b2(1) b3(1) revs
      by (simp add: st_Compact_def updateCompactRev_def Let_def SetScheduledCompact_def st_compact_def)
    have "0 \<le> rv" using False core by (auto simp: st_core_def)
    then have "st_core E D ?A (a_at A (a_rev A)) 0 ?s3" using core_sched [OF core_backend(1) [OF core1 same], of "CompactJob rv"] by simp
    moreover have "past_kept E s ?s2" using past_kept_trans [OF _ core_backend(2) [OF core1 same]] False revs by simp
    then have "past_kept E s ?s3" using past_kept_trans [of E s ?s2 ?s3] past_kept_frame(1) [of E ?s2] by simp
    ultimately show ?thesis
      using run False b3(3) by (auto simp: a_compact_err_def a_compacted_def st_inv_def st_rel_def)
  qed
qed

lemma st_Commit_rel:
  assumes "env_ok E" "st_inv E A s"
  shows "\<exists>s'. st_Commit E s = Some s' \<and> st_inv E A s' \<and> past_kept E s s'"
proof -
  obtain D where core: "st_core E D A (a_at A (a_rev A)) 0 s" and w: "be_wbuf schema_Key (st_b s) = []"
    using assms(2) by (auto simp: st_inv_def st_rel_def)
  have "be_inv (env_bolt E) schema_Key D (st_b s)" using core by (simp add: st_core_def backend_rel_def)
  then obtain b where b: "ForceCommit (env_bolt E) (env_sort E) (env_hooks E) (st_b s) = Some b" "same_backend E D (st_b s) b" "be_wbuf schema_Key b = []"
    using commit_same [OF assms(1) _ w] by blast
  then show ?thesis using core_backend [OF core b(2)] by (auto simp: st_Commit_def st_inv_def st_rel_def)
qed

text \<open>The index is compacted, also while a transaction is open.\<close>

lemma hist_sorted:
  assumes "btree_laws B" "ti_inv B t"
  shows "ev_sorted (ti_hist B t k)"
proof (cases "get_key B t k")
  case (Some ki)
  then have "ki_inv ki" using get_key_ok(1) [OF assms(1) Some assms(2)] by (simp add: item_ok_def)
  then have "sorted_wrt (<) (map ev_rev (events ki))" by (simp add: events_revs ki_inv_def)
  then show ?thesis using Some by (auto simp: ti_hist_def sorted_wrt_map intro: sorted_wrt_mono_rel [rotated] main_mono less_imp_le)
qed (simp add: ti_hist_def)

lemma hist_compact_in:
  "ev \<in> set (hist_compact rv evs) \<Longrightarrow> ev \<in> set evs \<and> (main (ev_rev ev) \<le> rv \<longrightarrow> hist_get rv evs = Some ev)"
  using hist_get_in [of rv evs] by (auto simp: hist_compact_def split: option.splits)

lemma start_job_rel:
  assumes "env_ok E" "st_rel E A m n s"
  shows "\<exists>s'. start_job E s = Some s' \<and> st_rel E A m n s' \<and> past_kept E s s' \<and> st_b s' = st_b s"
proof -
  obtain D where core: "st_core E D A m n s" using assms(2) by (auto simp: st_rel_def)
  have bt: "btree_laws (env_btree E)" using assms(1) by (simp add: env_ok_def)
  have idle: ?thesis if "start_job E s = Some s" using that assms(2) past_kept_refl by blast
  show ?thesis
  proof (cases "st_running s")
    case None
    show ?thesis
    proof (cases "st_fifoSched s")
      case Nil
      then show ?thesis using idle None by (simp add: start_job_def)
    next
      case (Cons job jobs)
      have jobs: "compact_rel E (s\<lparr>st_fifoSched := jobs\<rparr>)" using core Cons by (auto simp: st_core_def compact_rel_def)
      show ?thesis
      proof (cases job)
        case BarrierJob
        have "st_core E D A m n (s\<lparr>st_fifoSched := jobs\<rparr>)" using core jobs by (simp add: st_core_def backend_rel_def index_rel_def)
        then show ?thesis using BarrierJob None Cons by (auto simp: start_job_def st_rel_def)
      next
        case (CompactJob rv)
        have rv: "0 \<le> rv" "rv \<le> a_compact A" using core Cons CompactJob by (auto simp: st_core_def compact_rel_def)
        have inv: "ti_inv (env_btree E) (st_kvindex s)" using core by (simp add: st_core_def index_rel_def)
        obtain x where x: "ti_Compact (env_btree E) rv (st_kvindex s) = Some (x, kept_revs rv (st_hist E s) UNIV)" "ti_inv (env_btree E) x"
          "\<And>r. ti_before (env_btree E) (st_kvindex s) r \<Longrightarrow> ti_before (env_btree E) x r" "ti_hist (env_btree E) x = (\<lambda>k. hist_compact rv (st_hist E s k))"
          using ti_Compact_hist [OF bt inv, of rv] by blast
        let ?cp = "\<lparr>cp_rev = rv, cp_keep = kept_revs rv (st_hist E s) UNIV, cp_last = replicate (8 + 1 + 8) 0\<rparr>"
        let ?s = "s\<lparr>st_kvindex := x, st_fifoSched := jobs, st_running := Some ?cp\<rparr>"
        have run: "start_job E s = Some ?s" using None Cons CompactJob x(1) by (simp add: start_job_def)
        have "map_at (st_view E s) (st_hist E ?s) at = map_at (st_view E s) (st_hist E s) at" if "rv \<le> at" for at
          using hist_get_compact [OF hist_sorted [OF bt inv] that] by (simp add: map_at_def x(4) fun_eq_iff)
        moreover have "compact_rel E ?s"
          using jobs rv core hist_compact_in [of _ rv] by (fastforce simp: compact_rel_def st_core_def x(4) revBytesLen_def kept_revs_def)
        moreover have "index_rel E D nx ?s" if "index_rel E D nx s" for nx
          using that x hist_compact_in [of _ rv] by (auto simp: index_rel_def)
        ultimately have "st_core E D A m n ?s" using core rv unfolding st_core_def by (simp add: backend_rel_def)
        moreover have "past_kept E s ?s" using hist_compact_in [of _ rv] by (auto simp: past_kept_def x(4))
        ultimately show ?thesis using run by (auto simp: st_rel_def)
      qed
    qed
  qed (use idle in \<open>simp add: start_job_def\<close>)
qed

text \<open>What a range read of the batch transaction returns.\<close>

lemma cursor_range_take:
  "int (length kvs) < limit \<Longrightarrow> cursor_range f limit c kvs = kvs @ take (nat limit - length kvs) (takeWhile (\<lambda>p. f (fst p)) c)"
proof (induction c arbitrary: kvs)
  case (Cons p c)
  have n: "nat limit - length kvs = Suc (nat limit - Suc (length kvs))" using Cons.prems by linarith
  show ?case
  proof (cases "limit = int (length (kvs @ [p]))")
    case False
    then have "int (length (kvs @ [p])) < limit" using Cons.prems by simp
    from Cons.IH [OF this] show ?thesis using False n by simp
  qed (use n in auto)
qed simp

lemma takeWhile_below:
  "kv_sorted ps \<Longrightarrow> takeWhile (\<lambda>p. fst p < e) ps = filter (\<lambda>p. fst p < e) ps" for ps :: "kv list"
proof (induction ps)
  case (Cons p ps)
  have "filter (\<lambda>p. fst p < e) ps = []" if "\<not> fst p < e"
    using Cons.prems that by (auto simp: filter_empty_conv dest: order_less_trans)
  then show ?case using Cons by simp
qed simp

definition be_pairs :: "'t bolt \<Rightarrow> Bucket \<Rightarrow> 't backend \<Rightarrow> kv list" where
  "be_pairs Bo b be = (case open_tx (be_tx be) of None \<Rightarrow> [] | Some t \<Rightarrow> bolt_ForEach Bo t (bk_Name b))"

lemma be_pairs_view: "be_view Bo b be = map_of (be_pairs Bo b be)"
  by (simp add: be_view_def be_pairs_def bolt_map_def split: option.split)

lemma be_pairs_sorted: "bolt_laws Bo \<Longrightarrow> kv_sorted (be_pairs Bo b be)"
  by (simp add: be_pairs_def bolt_sorted split: option.split)

lemma batch_range:
  assumes "bolt_laws Bo" "be_has Bo be (bk_Name b)" "e \<noteq> []"
  shows "batchTx_UnsafeRange Bo b key (Some e) limit be =
    Some (take (nat (if limit \<le> 0 then MaxInt64 else limit)) (filter (\<lambda>p. key \<le> fst p \<and> fst p < e) (be_pairs Bo b be)))"
proof -
  obtain t where t: "be_tx be = OpenTx t" "bolt_Bucket Bo t (bk_Name b)" using assms(2) by (cases "be_tx be") (auto simp: be_has_def)
  let ?ps = "bolt_ForEach Bo t (bk_Name b)"
  have s: "kv_sorted (filter (\<lambda>p. key \<le> fst p) ?ps)" using bolt_sorted [OF assms(1)] by (rule sorted_wrt_filter)
  have "int (length ([] :: kv list)) < (if limit \<le> 0 then MaxInt64 else limit)" by (simp add: MaxInt64_def)
  from cursor_range_take [OF this] show ?thesis
    using t assms(3) takeWhile_below [OF s]
    by (simp add: batchTx_UnsafeRange_def bolt_bucket_tx_def unsafeRange_def blen_def bolt_Seek_law [OF assms(1)] be_pairs_def conj_commute)
qed

lemma key_below:
  assumes "rev_ok r" "0 \<le> c" "c < 2 ^ 63"
  shows "rev_key r t < be_bytes (word_of_int c) \<longleftrightarrow> main r < c"
proof -
  have "rev_key r t < be_bytes (word_of_int c) @ [] \<longleftrightarrow> main r < c"
    unfolding rev_key_def using assms
    by (subst append_less_iff) (auto simp: rev_ok_def be_bytes_less_iff word_of_int_less)
  then show ?thesis by simp
qed

text \<open>A pair that no change of the index needs is deleted.\<close>

lemma core_delete:
  assumes "env_ok E" "st_core E D A m n s" "key \<in> rev_keys (Revision (a_rev A + 1) (int n))"
    "\<And>k ev. ev \<in> set (st_hist E s k) \<Longrightarrow> \<not> ev_tomb ev \<Longrightarrow> rev_key (ev_rev ev) False \<noteq> key"
  shows "\<exists>b. UnsafeDelete (env_bolt E) schema_Key key (st_b s) = Some b \<and> st_core E (insert key D) A m n (s\<lparr>st_b := b\<rparr>) \<and>
    past_kept E s (s\<lparr>st_b := b\<rparr>) \<and> be_wbuf schema_Key b = be_wbuf schema_Key (st_b s) \<and>
    be_view (env_bolt E) schema_Key b = (st_view E s)(key := None)"
proof -
  have bo: "bolt_laws (env_bolt E)" and bt: "btree_laws (env_btree E)" using assms(1) by (simp_all add: env_ok_def)
  have inv: "be_inv (env_bolt E) schema_Key D (st_b s)" using assms(2) by (simp add: st_core_def backend_rel_def)
  obtain b where b: "UnsafeDelete (env_bolt E) schema_Key key (st_b s) = Some b" "be_inv (env_bolt E) schema_Key (insert key D) b"
    "be_view (env_bolt E) schema_Key b = (st_view E s)(key := None)" "be_wbuf schema_Key b = be_wbuf schema_Key (st_b s)"
    "be_has (env_bolt E) b = be_has (env_bolt E) (st_b s)"
    using be_delete_own [OF bo inv] by blast
  let ?s = "s\<lparr>st_b := b\<rparr>"
  have dec: "decode_at (st_view E ?s) (ev_rev ev) = decode_at (st_view E s) (ev_rev ev)" if "ev \<in> set (st_hist E s k)" "\<not> ev_tomb ev" for k ev
    using assms(4) [OF that] by (simp add: decode_at_def b(3))
  have "map_at (st_view E ?s) (st_hist E s) at = map_at (st_view E s) (st_hist E s) at" for at
    using dec hist_get_in [of at] by (fastforce simp: map_at_def fun_eq_iff split: option.split)
  moreover have "ev_stored (st_view E ?s) (insert key D) k ev" if "ev \<in> set (st_hist E s k)" for k ev
    using core_hist(1) [OF bt assms(2) that] dec [OF that] assms(4) [OF that] by (auto simp: ev_stored_def)
  then have "index_rel E (insert key D) nx ?s" if "index_rel E D nx s" for nx using that by (simp add: index_rel_def)
  moreover have "backend_rel E (insert key D) (Revision (a_rev A + 1) (int n)) ?s"
  proof -
    have "dom ((st_view E s)(key := None)) \<subseteq> dom (st_view E s)" by auto
    then show ?thesis using b assms(2,3) unfolding st_core_def backend_rel_def by (simp, meson Diff_subset subset_trans)
  qed
  ultimately have "st_core E (insert key D) A m n ?s" using assms(2) unfolding st_core_def by simp
  moreover have "past_kept E s ?s" unfolding past_kept_def using assms(4) by (auto simp: b(3))
  ultimately show ?thesis using b by blast
qed

lemma delete_keys_rel:
  assumes "env_ok E" "st_core E D A m n s" "st_running s = Some cp"
    "\<forall>p \<in> set ps. fst p \<in> rev_keys (Revision (a_rev A + 1) (int n)) \<and> fst p < be_bytes (word_of_int (cp_rev cp + 1))"
  shows "\<exists>rv b D'. delete_keys (env_bolt E) (cp_keep cp) ps r0 (st_b s) = Some (rv, b) \<and> st_core E D' A m n (s\<lparr>st_b := b\<rparr>) \<and>
    past_kept E s (s\<lparr>st_b := b\<rparr>) \<and> be_wbuf schema_Key b = be_wbuf schema_Key (st_b s)"
  using assms(2-4)
proof (induction ps arbitrary: D s r0)
  case Nil
  then show ?case by (auto simp: past_kept_refl)
next
  case (Cons p ps)
  obtain r t where r: "fst p = rev_key r t" "rev_ok r" "fst p < be_bytes (word_of_int (cp_rev cp + 1))"
    using Cons.prems(3) by (auto simp: rev_keys_def)
  have cp: "0 \<le> cp_rev cp" "cp_rev cp + 1 < 2 ^ 63" "\<forall>k. \<forall>ev \<in> set (st_hist E s k). main (ev_rev ev) \<le> cp_rev cp \<longrightarrow> ev_rev ev \<in> cp_keep cp"
    using Cons.prems(1,2) by (auto simp: st_core_def compact_rel_def)
  have below: "main r \<le> cp_rev cp" using r key_below [OF r(2), of "cp_rev cp + 1" t] cp(1,2) by simp
  have bytes: "bytesToRev (fst p) = Some r" using r(1,2) by (simp add: bytesToRev_key rev_ok_int64)
  have ev: "rev_ok (ev_rev ev)" if "ev \<in> set (st_hist E s k)" for k ev
    using that Cons.prems(1) by (auto simp: st_core_def index_rel_def ev_stored_def)
  show ?case
  proof (cases "r \<in> cp_keep cp")
    case True
    then show ?thesis using Cons.IH [OF Cons.prems(1,2), of r] Cons.prems(3) bytes by simp
  next
    case False
    have free: "rev_key (ev_rev ev) False \<noteq> fst p" if "ev \<in> set (st_hist E s k)" "\<not> ev_tomb ev" for k ev
      using cp(3) that(1) False below r(1) rev_key_inj [OF ev [OF that(1)] r(2)] by auto
    have "fst p \<in> rev_keys (Revision (a_rev A + 1) (int n))" using Cons.prems(3) by simp
    with core_delete [OF assms(1) Cons.prems(1)] free obtain b
      where b: "UnsafeDelete (env_bolt E) schema_Key (fst p) (st_b s) = Some b" "st_core E (insert (fst p) D) A m n (s\<lparr>st_b := b\<rparr>)"
        "past_kept E s (s\<lparr>st_b := b\<rparr>)" "be_wbuf schema_Key b = be_wbuf schema_Key (st_b s)" by blast
    have run: "st_running (s\<lparr>st_b := b\<rparr>) = Some cp" using Cons.prems(2) by simp
    have "\<forall>p \<in> set ps. fst p \<in> rev_keys (Revision (a_rev A + 1) (int n)) \<and> fst p < be_bytes (word_of_int (cp_rev cp + 1))"
      using Cons.prems(3) by simp
    from Cons.IH [OF b(2) run this, of r] obtain rv b' D'
      where b': "delete_keys (env_bolt E) (cp_keep cp) ps r b = Some (rv, b')" "st_core E D' A m n (s\<lparr>st_b := b'\<rparr>)"
        "past_kept E (s\<lparr>st_b := b\<rparr>) (s\<lparr>st_b := b'\<rparr>)" "be_wbuf schema_Key b' = be_wbuf schema_Key (st_b s)"
      using b(4) by auto
    have "delete_keys (env_bolt E) (cp_keep cp) (p # ps) r0 (st_b s) = Some (rv, b')" using bytes False b(1) b'(1) by simp
    then show ?thesis using b'(2,4) past_kept_trans [OF b(3) b'(3)] by blast
  qed
qed

lemma core_running:
  assumes "st_core E D A m n s" "\<And>cp. cp' = Some cp \<Longrightarrow> \<exists>old. st_running s = Some old \<and> cp_rev cp = cp_rev old \<and> cp_keep cp = cp_keep old \<and> length (cp_last cp) = revBytesLen"
  shows "st_core E D A m n (s\<lparr>st_running := cp'\<rparr>)"
proof -
  have "compact_rel E (s\<lparr>st_running := cp'\<rparr>)" using assms unfolding st_core_def compact_rel_def by fastforce
  then show ?thesis using assms(1) by (simp add: st_core_def backend_rel_def index_rel_def)
qed

lemma compaction_batch_rel:
  assumes "env_ok E" "st_inv E A s"
  shows "\<exists>s'. compaction_batch E s = Some s' \<and> st_inv E A s' \<and> past_kept E s s'"
proof (cases "st_running s")
  case None
  then show ?thesis using assms(2) by (simp add: compaction_batch_def past_kept_refl)
next
  case (Some cp)
  let ?Bo = "env_bolt E" and ?m = "a_at A (a_rev A)"
  obtain D where core: "st_core E D A ?m 0 s" and w: "be_wbuf schema_Key (st_b s) = []"
    using assms(2) by (auto simp: st_inv_def st_rel_def)
  have bo: "bolt_laws ?Bo" using assms(1) by (simp add: env_ok_def)
  have has: "be_has ?Bo (st_b s) (bk_Name schema_Key)" using core by (auto simp: st_core_def backend_rel_def intro: be_inv_has)
  let ?e = "be_bytes (word_of_int (cp_rev cp + 1))"
  have "length ?e = 8" by simp
  then have e: "?e \<noteq> []" by (metis length_0_conv zero_neq_numeral)
  let ?lim = "int (st_CompactionBatchLimit s)"
  define ps where "ps = take (nat (if ?lim \<le> 0 then MaxInt64 else ?lim))
    (filter (\<lambda>p. cp_last cp \<le> fst p \<and> fst p < ?e) (be_pairs ?Bo schema_Key (st_b s)))"
  have ps: "batchTx_UnsafeRange ?Bo schema_Key (cp_last cp) (Some ?e) ?lim (st_b s) = Some ps"
    "set ps \<subseteq> {p \<in> set (be_pairs ?Bo schema_Key (st_b s)). fst p < ?e}"
    unfolding ps_def by (rule batch_range [OF bo has e]) (use set_take_subset in fastforce)
  have "fst ` set (be_pairs ?Bo schema_Key (st_b s)) \<subseteq> rev_keys (Revision (a_rev A + 1) (int 0))"
    using core by (simp add: st_core_def backend_rel_def be_pairs_view dom_map_of_conv_image_fst)
  then have in_ps: "\<forall>p \<in> set ps. fst p \<in> rev_keys (Revision (a_rev A + 1) (int 0)) \<and> fst p < ?e"
    using ps(2) by blast
  obtain rv b1 D1 where 1: "delete_keys ?Bo (cp_keep cp) ps zero_revision (st_b s) = Some (rv, b1)" "st_core E D1 A ?m 0 (s\<lparr>st_b := b1\<rparr>)"
    "past_kept E s (s\<lparr>st_b := b1\<rparr>)" "be_wbuf schema_Key b1 = []"
    using delete_keys_rel [OF assms(1) core Some in_ps, of zero_revision] w by auto
  have inv1: "be_inv ?Bo schema_Key D1 b1" "be_has ?Bo b1 (bk_Name schema_Meta)" using 1(2) by (simp_all add: st_core_def backend_rel_def)
  have len: "length (cp_last cp) = revBytesLen" using core Some by (simp add: st_core_def compact_rel_def)
  have fin: "st_inv E A (s\<lparr>st_b := b, st_running := cp'\<rparr>) \<and> past_kept E s (s\<lparr>st_b := b, st_running := cp'\<rparr>)"
    if "same_backend E D1 b1 b" "be_wbuf schema_Key b = []" "\<And>c. cp' = Some c \<Longrightarrow> cp_rev c = cp_rev cp \<and> cp_keep c = cp_keep cp \<and> length (cp_last c) = revBytesLen"
    for b cp'
  proof -
    have same: "same_backend E D1 (st_b (s\<lparr>st_b := b1\<rparr>)) b" using that(1) by simp
    note c = core_backend [OF 1(2) same, simplified]
    have "\<exists>old. st_running (s\<lparr>st_b := b\<rparr>) = Some old \<and> cp_rev x = cp_rev old \<and> cp_keep x = cp_keep old \<and> length (cp_last x) = revBytesLen"
      if "cp' = Some x" for x
      using \<open>cp' = Some x \<Longrightarrow> cp_rev x = cp_rev cp \<and> cp_keep x = cp_keep cp \<and> length (cp_last x) = revBytesLen\<close> that Some by simp
    then have "st_core E D1 A ?m 0 (s\<lparr>st_b := b, st_running := cp'\<rparr>)" using core_running [OF c(1)] by simp
    moreover have "past_kept E s (s\<lparr>st_b := b, st_running := cp'\<rparr>)"
      using past_kept_trans [OF past_kept_trans [OF 1(3) c(2)] past_kept_frame(3) [of E "s\<lparr>st_b := b\<rparr>" cp']] by simp
    ultimately show ?thesis using that(2) by (auto simp: st_inv_def st_rel_def)
  qed
  show ?thesis
  proof (cases "length ps < st_CompactionBatchLimit s")
    case True
    obtain b2 where b2: "UnsafeSetFinishedCompact ?Bo (cp_rev cp) b1 = Some b2" "same_backend E D1 b1 b2"
      using meta_put_same [OF assms(1) inv1, of UnsafeSetFinishedCompact] by blast
    obtain b3 where b3: "be_Unlock ?Bo (env_sort E) (env_hooks E) b2 = Some b3" "same_backend E D1 b2 b3" "be_wbuf schema_Key b3 = []"
      using unlock_same [OF assms(1) same_backend_inv [OF b2(2)]] by blast
    have "compaction_batch E s = Some (s\<lparr>st_b := b3, st_running := None\<rparr>)"
      using Some ps(1) 1(1) True b2(1) b3(1) by (simp add: compaction_batch_def Let_def)
    then show ?thesis using fin [OF same_backend_trans [OF b2(2) b3(2)] b3(3), of None] by auto
  next
    case False
    obtain b2 where b2: "be_Unlock ?Bo (env_sort E) (env_hooks E) b1 = Some b2" "same_backend E D1 b1 b2" "be_wbuf schema_Key b2 = []"
      using unlock_same [OF assms(1) inv1(1)] by blast
    obtain b3 where b3: "ForceCommit ?Bo (env_sort E) (env_hooks E) b2 = Some b3" "same_backend E D1 b2 b3" "be_wbuf schema_Key b3 = []"
      using commit_same [OF assms(1) same_backend_inv [OF b2(2)] b2(3)] by blast
    let ?last = "rev_key (Revision (main rv) (sub rv + 1)) False"
    have "compaction_batch E s = Some (s\<lparr>st_b := b3, st_running := Some (cp\<lparr>cp_last := ?last\<rparr>)\<rparr>)"
      using Some ps(1) 1(1) False b2(1) b3(1) len by (simp add: compaction_batch_def Let_def revToBytes_new)
    then show ?thesis
      using fin [OF same_backend_trans [OF b2(2) b3(2)] b3(3), of "Some (cp\<lparr>cp_last := ?last\<rparr>)"] by (auto simp: rev_key_def revBytesLen_def)
  qed
qed

end
