(* ===== verification/Store_Run.thy ===== *)
theory Store_Run
  imports Store_Refine
begin

text \<open>
  Runs of the store against their specification: sequences of write transactions, compactions, steps of
  the scheduler and commits. Every read answers from the map of the revision it asks for, a read
  transaction keeps answering from the maps it was opened on, and a transaction reads its own writes.
\<close>

section \<open>Runs\<close>

text \<open>The scheduler may compact the index while a transaction is open (\<open>TJob\<close>).\<close>

datatype txn_op = TPut gobytes gobytes int | TDelete bytes gobytes | TJob

fun txn_step :: "('t, 'x, 'l) env \<Rightarrow> txn_op \<Rightarrow> storeTxnWrite \<times> ('t, 'x, 'l) store \<Rightarrow> (storeTxnWrite \<times> ('t, 'x, 'l) store) option" where
  "txn_step E (TPut key value leaseID) ts = do { (_, ts) \<leftarrow> tw_Put E key value leaseID ts; Some ts }"
| "txn_step E (TDelete key e) ts = do { (_, ts) \<leftarrow> tw_DeleteRange E key e ts; Some ts }"
| "txn_step E TJob ts = do { s \<leftarrow> start_job E (snd ts); Some (fst ts, s) }"

fun txn_steps :: "('t, 'x, 'l) env \<Rightarrow> txn_op list \<Rightarrow> storeTxnWrite \<times> ('t, 'x, 'l) store \<Rightarrow> (storeTxnWrite \<times> ('t, 'x, 'l) store) option" where
  "txn_steps E [] ts = Some ts"
| "txn_steps E (x # xs) ts = do { ts \<leftarrow> txn_step E x ts; txn_steps E xs ts }"

datatype st_op = Txn "txn_op list" | Compact int | Job | Batch | CommitOp | OpenRead

fun st_exec :: "('t, 'x, 'l) env \<Rightarrow> st_op \<Rightarrow> ('t, 'x, 'l) store \<Rightarrow> ('t, 'x, 'l) store option" where
  "st_exec E (Txn xs) s = do { ts \<leftarrow> txn_steps E xs (st_Write s, s); tw_End E ts }"
| "st_exec E (Compact rv) s = do { (_, s) \<leftarrow> st_Compact E rv s; Some s }"
| "st_exec E Job s = start_job E s"
| "st_exec E Batch s = compaction_batch E s"
| "st_exec E CommitOp s = st_Commit E s"
| "st_exec E OpenRead s = Some (snd (st_Read ConcurrentReadTxMode s))"

fun st_execs :: "('t, 'x, 'l) env \<Rightarrow> st_op list \<Rightarrow> ('t, 'x, 'l) store \<Rightarrow> ('t, 'x, 'l) store option" where
  "st_execs E [] s = Some s"
| "st_execs E (x # xs) s = do { s \<leftarrow> st_exec E x s; st_execs E xs s }"

text \<open>The same for the specification, with the requests that fit.\<close>

fun a_step :: "int \<Rightarrow> txn_op \<Rightarrow> (bytes \<Rightarrow> KeyValue option) \<times> nat \<Rightarrow> (bytes \<Rightarrow> KeyValue option) \<times> nat" where
  "a_step r (TPut key value leaseID) (m, n) = (a_put r key value leaseID m, Suc n)"
| "a_step r (TDelete key e) (m, n) = (a_delete key e m, n + a_hits key e m)"
| "a_step r TJob (m, n) = (m, n)"

fun step_fits :: "akv \<Rightarrow> txn_op \<Rightarrow> (bytes \<Rightarrow> KeyValue option) \<times> nat \<Rightarrow> bool" where
  "step_fits A (TPut key value leaseID) (m, n) = put_fits A m n key value leaseID"
| "step_fits A (TDelete key e) (m, n) = (int (n + a_hits key e m) \<le> 2 ^ 63)"
| "step_fits A TJob (m, n) = True"

fun steps_fit :: "akv \<Rightarrow> txn_op list \<Rightarrow> (bytes \<Rightarrow> KeyValue option) \<times> nat \<Rightarrow> bool" where
  "steps_fit A [] mn = True"
| "steps_fit A (x # xs) mn = (step_fits A x mn \<and> steps_fit A xs (a_step (a_rev A + 1) x mn))"

fun a_exec :: "st_op \<Rightarrow> akv \<Rightarrow> akv" where
  "a_exec (Txn xs) A = (case fold (a_step (a_rev A + 1)) xs (a_at A (a_rev A), 0) of (m, n) \<Rightarrow> a_end m n A)"
| "a_exec (Compact rv) A = a_compacted rv A"
| "a_exec Job A = A"
| "a_exec Batch A = A"
| "a_exec CommitOp A = A"
| "a_exec OpenRead A = A"

fun ops_fit :: "st_op list \<Rightarrow> akv \<Rightarrow> bool" where
  "ops_fit [] A = True"
| "ops_fit (x # xs) A =
     ((case x of Txn ys \<Rightarrow> a_rev A + 2 < 2 ^ 63 \<and> steps_fit A ys (a_at A (a_rev A), 0) | _ \<Rightarrow> True) \<and> ops_fit xs (a_exec x A))"

lemma ops_fit_append: "ops_fit (xs @ ys) A \<longleftrightarrow> ops_fit xs A \<and> ops_fit ys (fold a_exec xs A)"
  by (induction xs arbitrary: A) auto

section \<open>Every run follows the specification\<close>

lemma tw_Put_rel:
  assumes "env_ok E" "st_rel E A m n s" "tw_beginRev tw = a_rev A" "length (tw_changes tw) = n" "put_fits A m n key value leaseID"
  shows "\<exists>tw' s'. tw_Put E key value leaseID (tw, s) = Some (a_rev A + 1, tw', s') \<and> st_rel E A (a_put (a_rev A + 1) key value leaseID m) (Suc n) s' \<and>
    past_kept E s s' \<and> tw_beginRev tw' = a_rev A \<and> length (tw_changes tw') = Suc n"
  using tw_put_rel [OF assms] by (auto simp: tw_Put_def)

lemma tw_DeleteRange_rel:
  assumes "env_ok E" "st_rel E A m n s" "tw_beginRev tw = a_rev A" "length (tw_changes tw) = n" "int (n + a_hits key e m) \<le> 2 ^ 63"
  shows "\<exists>tw' s'. tw_DeleteRange E key e (tw, s) =
      Some ((int (a_hits key e m), if n + a_hits key e m \<noteq> 0 then a_rev A + 1 else a_rev A), tw', s') \<and>
    st_rel E A (a_delete key e m) (n + a_hits key e m) s' \<and> past_kept E s s' \<and> tw_beginRev tw' = a_rev A \<and> length (tw_changes tw') = n + a_hits key e m"
  using tw_deleteRange_rel [OF assms] by (auto simp: tw_DeleteRange_def)

lemma txn_step_rel:
  assumes "env_ok E" "st_rel E A m n s" "tw_beginRev tw = a_rev A" "length (tw_changes tw) = n" "step_fits A x (m, n)"
  shows "\<exists>tw' s' m' n'. txn_step E x (tw, s) = Some (tw', s') \<and> a_step (a_rev A + 1) x (m, n) = (m', n') \<and> st_rel E A m' n' s' \<and>
    past_kept E s s' \<and> tw_beginRev tw' = a_rev A \<and> length (tw_changes tw') = n'"
proof (cases x)
  case (TPut key val leaseID)
  then show ?thesis using tw_Put_rel [OF assms(1-4)] assms(5) by fastforce
next
  case (TDelete key e)
  then show ?thesis using tw_DeleteRange_rel [OF assms(1-4)] assms(5) by fastforce
next
  case TJob
  then show ?thesis using start_job_rel [OF assms(1,2)] assms(3,4) by auto
qed

lemma txn_steps_rel:
  assumes "env_ok E" "st_rel E A m n s" "tw_beginRev tw = a_rev A" "length (tw_changes tw) = n" "steps_fit A xs (m, n)"
  shows "\<exists>tw' s' m' n'. txn_steps E xs (tw, s) = Some (tw', s') \<and> fold (a_step (a_rev A + 1)) xs (m, n) = (m', n') \<and> st_rel E A m' n' s' \<and>
    past_kept E s s' \<and> tw_beginRev tw' = a_rev A \<and> length (tw_changes tw') = n'"
  using assms(2-)
proof (induction xs arbitrary: m n tw s)
  case Nil
  then show ?case by (auto simp: past_kept_refl)
next
  case (Cons x xs)
  then obtain tw1 s1 m1 n1 where 1: "txn_step E x (tw, s) = Some (tw1, s1)" "a_step (a_rev A + 1) x (m, n) = (m1, n1)" "st_rel E A m1 n1 s1"
    "past_kept E s s1" "tw_beginRev tw1 = a_rev A" "length (tw_changes tw1) = n1"
    using txn_step_rel [OF assms(1) Cons.prems(1-3)] by (metis steps_fit.simps(2))
  with Cons.prems(4) have "steps_fit A xs (m1, n1)" by simp
  from Cons.IH [OF 1(3,5,6) this] obtain tw2 s2 m2 n2 where 2: "txn_steps E xs (tw1, s1) = Some (tw2, s2)"
    "fold (a_step (a_rev A + 1)) xs (m1, n1) = (m2, n2)" "st_rel E A m2 n2 s2" "past_kept E s1 s2" "tw_beginRev tw2 = a_rev A" "length (tw_changes tw2) = n2"
    by blast
  show ?case using 1(1,2) 2 past_kept_trans [OF 1(4) 2(4)] by auto
qed

lemma st_Read_rel:
  assumes "env_ok E" "st_inv E A s"
  shows "\<exists>tr s'. st_Read ConcurrentReadTxMode s = (tr, s') \<and> st_inv E A s' \<and> past_kept E s s' \<and> tr_rev tr = a_rev A \<and> tr_firstRev tr = a_compact A \<and>
    reader_ok E (a_rev A) (\<lambda>k. baseReadTx_UnsafeRange (env_bolt E) schema_Key k None 0 (tr_tx tr)) s'"
proof -
  let ?Bo = "env_bolt E"
  obtain D where core: "st_core E D A (a_at A (a_rev A)) 0 s" and w: "be_wbuf schema_Key (st_b s) = []"
    using assms(2) by (auto simp: st_inv_def st_rel_def)
  have bo: "bolt_laws ?Bo" using assms(1) by (simp add: env_ok_def)
  have inv: "be_inv ?Bo schema_Key D (st_b s)" using core by (simp add: st_core_def backend_rel_def)
  obtain rt b where b: "ConcurrentReadTx (st_b s) = (rt, b)" "be_inv ?Bo schema_Key D b" "keeps_bucket ?Bo schema_Key (st_b s) b" "be_wbuf schema_Key b = []"
    "\<forall>key limit. key \<notin> D \<longrightarrow> baseReadTx_UnsafeRange ?Bo schema_Key key None limit rt = Some (found key (st_view E s key))"
    using ConcurrentReadTx_inv [OF bo inv w] by blast
  let ?s = "s\<lparr>st_b := b\<rparr>"
  have same: "same_backend E D (st_b s) b" using b by (simp add: same_backend_def)
  note c = core_backend [OF core same]
  have view: "st_view E ?s = st_view E s" using b(3) by (simp add: keeps_bucket_def)
  have "reader_ok E (a_rev A) (\<lambda>k. baseReadTx_UnsafeRange ?Bo schema_Key k None 0 rt) ?s"
    unfolding reader_ok_def
  proof (intro allI ballI impI)
    fix k ev assume "ev \<in> set (st_hist E ?s k)" "\<not> ev_tomb ev \<and> main (ev_rev ev) \<le> a_rev A"
    then have "ev_stored (st_view E s) D k ev" "\<not> ev_tomb ev" using c(1) view by (simp_all add: st_core_def index_rel_def)
    then obtain kv where "rev_key (ev_rev ev) False \<notin> D" "decode_at (st_view E s) (ev_rev ev) = Some kv" by (auto simp: ev_stored_def)
    then show "\<exists>bs. st_view E ?s (rev_key (ev_rev ev) False) = Some bs \<and>
        baseReadTx_UnsafeRange ?Bo schema_Key (rev_key (ev_rev ev) False) None 0 rt = Some [(rev_key (ev_rev ev) False, bs)]"
      using b(5) view by (auto simp: decode_at_def found_def split: option.splits)
  qed
  moreover have "st_inv E A ?s" using c(1) b(4) by (auto simp: st_inv_def st_rel_def)
  ultimately show ?thesis using b(1) c(2) core by (auto simp: st_Read_def Let_def st_core_def)
qed

lemma st_exec_rel:
  assumes "env_ok E" "st_inv E A s" "ops_fit [x] A"
  shows "\<exists>s'. st_exec E x s = Some s' \<and> st_inv E (a_exec x A) s' \<and> past_kept E s s'"
proof (cases x)
  case (Txn xs)
  have f: "a_rev A + 2 < 2 ^ 63" "steps_fit A xs (a_at A (a_rev A), 0)" using assms(3) Txn by simp_all
  have rel: "st_rel E A (a_at A (a_rev A)) 0 s" using assms(2) by (simp add: st_inv_def)
  have "tw_beginRev (st_Write s) = a_rev A" "length (tw_changes (st_Write s)) = 0"
    using rel by (auto simp: st_Write_def st_rel_def st_core_def)
  from txn_steps_rel [OF assms(1) rel this f(2)] obtain tw' s' m' n' where 1: "txn_steps E xs (st_Write s, s) = Some (tw', s')"
    "fold (a_step (a_rev A + 1)) xs (a_at A (a_rev A), 0) = (m', n')" "st_rel E A m' n' s'" "past_kept E s s'" "length (tw_changes tw') = n'" by blast
  obtain s2 where 2: "tw_End E (tw', s') = Some s2" "st_inv E (a_end m' n' A) s2" "past_kept E s' s2"
    using tw_End_rel [OF assms(1) 1(3,5)] f(1) by blast
  show ?thesis using Txn 1(1,2) 2(1,2) past_kept_trans [OF 1(4) 2(3)] by simp
next
  case (Compact rv)
  then show ?thesis using st_Compact_rel [OF assms(1,2), of rv] by auto
next
  case Job
  then show ?thesis using start_job_rel [of E A "a_at A (a_rev A)" 0 s] assms(1,2) by (auto simp: st_inv_def)
next
  case Batch
  then show ?thesis using compaction_batch_rel [OF assms(1,2)] by simp
next
  case CommitOp
  then show ?thesis using st_Commit_rel [OF assms(1,2)] by simp
next
  case OpenRead
  then show ?thesis using st_Read_rel [OF assms(1,2)] by auto
qed

lemma st_execs_rel:
  assumes "env_ok E" "st_inv E A s" "ops_fit xs A"
  shows "\<exists>s'. st_execs E xs s = Some s' \<and> st_inv E (fold a_exec xs A) s' \<and> past_kept E s s'"
  using assms(2-)
proof (induction xs arbitrary: A s)
  case Nil
  then show ?case by (simp add: past_kept_refl)
next
  case (Cons x xs)
  have f: "ops_fit [x] A" "ops_fit xs (a_exec x A)" using Cons.prems(2) by simp_all
  obtain s1 where 1: "st_exec E x s = Some s1" "st_inv E (a_exec x A) s1" "past_kept E s s1"
    using st_exec_rel [OF assms(1) Cons.prems(1) f(1)] by blast
  obtain s2 where 2: "st_execs E xs s1 = Some s2" "st_inv E (fold a_exec xs (a_exec x A)) s2" "past_kept E s1 s2"
    using Cons.IH [OF 1(2) f(2)] by blast
  show ?case using 1(1) 2(1,2) past_kept_trans [OF 1(3) 2(3)] by simp
qed

section \<open>Reads\<close>

text \<open>
  What a read at the revision \<open>cur\<close> must answer when the maps are \<open>maps\<close> and those before \<open>compacted\<close> are given
  up: an error beyond \<open>cur\<close>, an error before \<open>compacted\<close>, and otherwise the pairs of the map asked for.
\<close>

definition range_spec :: "int \<Rightarrow> int \<Rightarrow> (int \<Rightarrow> bytes \<Rightarrow> KeyValue option) \<Rightarrow> bytes \<Rightarrow> gobytes \<Rightarrow> RangeOptions \<Rightarrow> range_answer \<Rightarrow> bool" where
  "range_spec cur compacted maps key e ro res \<longleftrightarrow>
     (let at = (if opt_Rev ro \<le> 0 then cur else opt_Rev ro) in
      if opt_Rev ro > cur then res = Inl (ErrFutureRev, Some \<lparr>res_KVs = [], res_Rev = cur, res_Count = - 1\<rparr>)
      else if at < compacted then res = Inl (ErrCompacted, Some \<lparr>res_KVs = [], res_Rev = 0, res_Count = - 1\<rparr>)
      else \<exists>r. res = Inr r \<and> a_answer (maps at) key e cur ro r)"

lemma rangeKeys_rel:
  assumes "env_ok E" "st_rel E A m n s" "reader_ok E cur rd s" "\<And>i. \<not> ctx i"
    "\<And>at. a_compact A \<le> at \<Longrightarrow> at \<le> cur \<Longrightarrow> maps at = map_at (st_view E s) (st_hist E s) at"
  shows "\<exists>res. rangeKeys E rd ctx key e cur ro s = Some res \<and> range_spec cur (a_compact A) maps key e ro res"
proof -
  obtain D where core: "st_core E D A m n s" using assms(2) by (auto simp: st_rel_def)
  have bt: "btree_laws (env_btree E)" using assms(1) by (simp add: env_ok_def)
  have inv: "ti_inv (env_btree E) (st_kvindex s)" and c: "st_compactMainRev s = a_compact A" using core by (simp_all add: st_core_def index_rel_def)
  let ?at = "if opt_Rev ro \<le> 0 then cur else opt_Rev ro"
  show ?thesis
  proof (cases "opt_Rev ro > cur \<or> ?at < a_compact A")
    case True
    then show ?thesis using c by (auto simp: rangeKeys_def range_spec_def Let_def)
  next
    case False
    then have le: "opt_Rev ro \<le> cur" "st_compactMainRev s \<le> ?at" using c by auto
    have "maps ?at = map_at (st_view E s) (st_hist E s) ?at" by (rule assms(5)) (use False in auto)
    then show ?thesis
      using rangeKeys_ok [where ctx = ctx, OF bt inv assms(4,3) core_hist(1) [OF bt core] le(1) refl le(2), of key e] False by (auto simp: range_spec_def)
  qed
qed

definition a_init :: "(int \<Rightarrow> bool) \<Rightarrow> akv" where
  "a_init leases = \<lparr>a_rev = 1, a_compact = - 1, a_at = \<lambda>_ _. None, a_leases = leases\<rparr>"

lemma new_store_inv:
  assumes "env_ok E" "be_inv (env_bolt E) schema_Key {} b" "be_has (env_bolt E) b (bk_Name schema_Meta)" "be_wbuf schema_Key b = []"
    "be_view (env_bolt E) schema_Key b = Map.empty"
  shows "st_inv E (a_init (le_Lookup (env_lessor E) le)) (new_store E b (Some le) limit)"
proof -
  let ?s = "new_store E b (Some le) limit" and ?x = "bt_New (env_btree E) 32"
  have bt: "btree_laws (env_btree E)" using assms(1) by (simp add: env_ok_def)
  have h: "ti_hist (env_btree E) ?x k = []" for k using get_key_New [OF bt] by (simp add: ti_hist_def)
  have mp: "map_at v (ti_hist (env_btree E) ?x) at = Map.empty" for v at by (simp add: map_at_def h fun_eq_iff)
  have "ti_inv (env_btree E) ?x" "\<And>r. ti_before (env_btree E) ?x r" using bt by (simp_all add: ti_inv_def ti_before_def btree_laws_def)
  then have "st_core E {} (a_init (le_Lookup (env_lessor E) le)) Map.empty 0 ?s"
    using assms(2-5) h
    by (simp add: st_core_def backend_rel_def index_rel_def compact_rel_def new_store_def a_init_def newTreeIndex_def mp)
  then show ?thesis using assms(4) unfolding st_inv_def st_rel_def by (auto simp: a_init_def new_store_def)
qed

text \<open>A store on a new backend over a database whose buckets are there and empty.\<close>

definition empty_db :: "('t, 'x, 'l) env \<Rightarrow> 't \<Rightarrow> bool" where
  "empty_db E db \<longleftrightarrow> bolt_Bucket (env_bolt E) db (bk_Name schema_Key) \<and> bolt_Bucket (env_bolt E) db (bk_Name schema_Meta) \<and>
     bolt_ForEach (env_bolt E) db (bk_Name schema_Key) = []"

definition start_store :: "('t, 'x, 'l) env \<Rightarrow> int \<Rightarrow> 't \<Rightarrow> 'l \<Rightarrow> nat \<Rightarrow> ('t, 'x, 'l) store option" where
  "start_store E batchLimit db le limit = do {
     b \<leftarrow> newBackend (env_bolt E) (env_sort E) batchLimit db;
     Some (new_store E b (Some le) limit)
   }"

lemma start_store_inv:
  assumes "env_ok E" "empty_db E db"
  shows "\<exists>s. start_store E batchLimit db le limit = Some s \<and> st_inv E (a_init (le_Lookup (env_lessor E) le)) s"
proof -
  have "bolt_laws (env_bolt E)" "sort_law (env_sort E)" "bolt_Bucket (env_bolt E) db (bk_Name schema_Key)"
    using assms by (simp_all add: env_ok_def empty_db_def)
  from newBackend_inv [OF this, of batchLimit] obtain b where b: "newBackend (env_bolt E) (env_sort E) batchLimit db = Some b"
    "be_inv (env_bolt E) schema_Key {} b" "be_wbuf schema_Key b = []" "be_view (env_bolt E) schema_Key b = bolt_map (env_bolt E) schema_Key db"
    "be_has (env_bolt E) b = bolt_Bucket (env_bolt E) db" by blast
  have "st_inv E (a_init (le_Lookup (env_lessor E) le)) (new_store E b (Some le) limit)"
    by (rule new_store_inv [OF assms(1) b(2) _ b(3)]) (use assms(2) b(4,5) in \<open>simp_all add: empty_db_def bolt_map_def\<close>)
  then show ?thesis using b(1) by (auto simp: start_store_def)
qed

lemma a_exec_past:
  assumes "at \<le> a_rev A"
  shows "a_at (a_exec x A) at = a_at A at" "a_rev A \<le> a_rev (a_exec x A)"
  using assms by (cases x; auto simp: a_end_def a_compacted_def split: prod.split)+

lemma a_execs_past: "at \<le> a_rev A \<Longrightarrow> a_at (fold a_exec xs A) at = a_at A at \<and> a_rev A \<le> a_rev (fold a_exec xs A)"
proof (induction xs arbitrary: A)
  case (Cons x xs)
  have "at \<le> a_rev (a_exec x A)" using a_exec_past(2) [OF Cons.prems, of x] Cons.prems by simp
  then show ?case using Cons.IH [of "a_exec x A"] a_exec_past [OF Cons.prems, of x] by auto
qed simp

lemma reader_answers:
  assumes "env_ok E" "st_inv E A s" "st_inv E A' s'" "past_kept E s s'" "reader_ok E (a_rev A) rd s" "\<And>i. \<not> ctx i"
    "\<And>at. at \<le> a_rev A \<Longrightarrow> a_at A' at = a_at A at \<and> a_rev A \<le> a_rev A'"
  shows "\<exists>res. rangeKeys E rd ctx key e (a_rev A) ro s' = Some res \<and> range_spec (a_rev A) (a_compact A') (a_at A) key e ro res"
proof -
  have rel: "st_rel E A' (a_at A' (a_rev A')) 0 s'" using assms(3) by (simp add: st_inv_def)
  have "a_rev A = st_currentRev s" using assms(2) by (auto simp: st_inv_def st_rel_def st_core_def)
  then have "reader_ok E (a_rev A) rd s'" using reader_past_kept [OF assms(5,4)] by simp
  moreover have "a_at A at = map_at (st_view E s') (st_hist E s') at" if "a_compact A' \<le> at" "at \<le> a_rev A" for at
    using rel assms(7) [OF that(2)] that by (auto simp: st_rel_def st_core_def)
  ultimately show ?thesis by (rule rangeKeys_rel [OF assms(1) rel _ assms(6)])
qed

lemma tw_Range_rel:
  assumes "env_ok E" "st_rel E A m n s" "tw_beginRev tw = a_rev A" "length (tw_changes tw) = n"
  shows "\<exists>res. tw_Range E (\<lambda>_. False) key e ro tw s = Some res \<and>
    range_spec (if n = 0 then a_rev A else a_rev A + 1) (a_compact A) ((a_at A)(a_rev A + 1 := m)) key e ro res"
proof -
  let ?Bo = "env_bolt E"
  define cur where "cur = (if n = 0 then a_rev A else a_rev A + 1)"
  obtain D where core: "st_core E D A m n s" using assms(2) by (auto simp: st_rel_def)
  have bo: "bolt_laws ?Bo" and bt: "btree_laws (env_btree E)" using assms(1) by (simp_all add: env_ok_def)
  have has: "be_has ?Bo (st_b s) (bk_Name schema_Key)" using core by (auto simp: st_core_def backend_rel_def intro: be_inv_has)
  have "reader_ok E cur (\<lambda>k. batchTx_UnsafeRange ?Bo schema_Key k None 0 (st_b s)) s"
    unfolding reader_ok_def
  proof (intro allI ballI impI)
    fix k ev assume "ev \<in> set (st_hist E s k)" "\<not> ev_tomb ev \<and> main (ev_rev ev) \<le> cur"
    then show "\<exists>bs. st_view E s (rev_key (ev_rev ev) False) = Some bs \<and>
        batchTx_UnsafeRange ?Bo schema_Key (rev_key (ev_rev ev) False) None 0 (st_b s) = Some [(rev_key (ev_rev ev) False, bs)]"
      using core_hist(1) [OF bt core] batch_read_single [OF bo has]
      by (fastforce simp: ev_stored_def decode_at_def found_def split: option.splits)
  qed
  moreover have "((a_at A)(a_rev A + 1 := m)) at = map_at (st_view E s) (st_hist E s) at" if "a_compact A \<le> at" "at \<le> cur" for at
    using core that by (auto simp: st_core_def cur_def split: if_splits)
  ultimately have "\<exists>res. rangeKeys E (\<lambda>k. batchTx_UnsafeRange ?Bo schema_Key k None 0 (st_b s)) (\<lambda>_. False) key e cur ro s = Some res \<and>
      range_spec cur (a_compact A) ((a_at A)(a_rev A + 1 := m)) key e ro res"
    by (intro rangeKeys_rel [OF assms(1,2)]) simp_all
  then show ?thesis using assms(3,4) by (cases "n = 0") (simp_all add: tw_Range_def cur_def)
qed

section \<open>Parts that keep the laws\<close>

text \<open>Leases that are granted, and the lease of each key.\<close>

definition table_lessor :: "(int list \<times> (bytes \<Rightarrow> int)) lessor_ops" where
  "table_lessor = \<lparr>
     le_Lookup = \<lambda>(ids, of_key) i. i \<in> set ids,
     le_GetLease = \<lambda>(ids, of_key) key. of_key key,
     le_Attach = \<lambda>i key (ids, of_key). if i \<in> set ids then Inr (ids, of_key(key := i)) else Inl ErrLeaseNotFound,
     le_Detach = \<lambda>i key (ids, of_key). if i \<in> set ids then Inr (ids, of_key(key := 0)) else Inl ErrLeaseNotFound\<rparr>"

lemma table_lessor_laws: "lessor_laws table_lessor"
  by (auto simp: lessor_laws_def table_lessor_def split: if_splits)

definition sample_env :: "(log_db, keyIndex list, int list \<times> (bytes \<Rightarrow> int)) env" where
  "sample_env = \<lparr>env_bolt = log_bolt, env_sort = sort_key fst, env_hooks = None, env_btree = list_btree, env_lessor = table_lessor\<rparr>"

lemma sample_env_ok: "env_ok sample_env"
  by (simp add: env_ok_def sample_env_def log_bolt_laws sort_key_law list_btree_laws table_lessor_laws)

definition sample_db :: log_db where
  "sample_db = Map.empty(bk_Name schema_Key \<mapsto> [], bk_Name schema_Meta \<mapsto> [])"

lemma sample_empty: "empty_db sample_env sample_db"
  by (simp add: empty_db_def sample_env_def sample_db_def log_bolt_def log_pairs_def schema_Key_def schema_Meta_def ascii_def)

text \<open>Two transactions; then a compaction, a deletion and what the scheduler does.\<close>

definition sample_txns :: "st_op list" where
  "sample_txns = [Txn [TPut (Some [97]) (Some [1]) 0], Txn [TPut (Some [97]) (Some [2]) 7, TPut (Some [98]) None 0]]"

definition sample_rest :: "st_op list" where
  "sample_rest = [Compact 2, Job, Txn [TDelete [97] None, TJob, TPut (Some [98]) (Some [3]) 0], Batch, CommitOp, OpenRead]"

lemma sample_fit: "ops_fit (sample_txns @ sample_rest) (a_init (le_Lookup (env_lessor sample_env) ([7], \<lambda>_. 0)))"
proof -
  have hit: "{k. k = key \<and> m k \<noteq> None} = (if m key = None then {} else {key})" for key :: bytes and m :: "bytes \<Rightarrow> KeyValue option"
    by auto
  show ?thesis
    by (simp add: sample_txns_def sample_rest_def a_init_def put_fits_def blen_def int64_ok_def sample_env_def table_lessor_def
        a_end_def a_put_def a_compacted_def a_compact_err_def NoLease_def a_hits_def a_delete_def in_rng_def hit del: wire_lengths)
qed

section \<open>Properties\<close>

text \<open>
  (C16) The store refines a map for every revision. Whatever transactions, compactions, steps of the
  scheduler and commits a new store executes, it executes them without a panic, and every read afterwards
  answers from the map that the specification has for the revision asked for, or with the error for a
  revision that is compacted or in the future.
\<close>

theorem store_reads_maps:
  assumes "env_ok E" "empty_db E db" "ops_fit xs (a_init (le_Lookup (env_lessor E) le))"
  shows "\<exists>s0 s. start_store E batchLimit db le limit = Some s0 \<and> st_execs E xs s0 = Some s \<and>
    (let A = fold a_exec xs (a_init (le_Lookup (env_lessor E) le)) in
     \<forall>key e ro. \<exists>res s'. rv_Range E (\<lambda>_. False) key e ro s = Some (res, s') \<and> range_spec (a_rev A) (a_compact A) (a_at A) key e ro res)"
proof -
  let ?I = "a_init (le_Lookup (env_lessor E) le)"
  let ?A = "fold a_exec xs ?I"
  obtain s0 where 0: "start_store E batchLimit db le limit = Some s0" "st_inv E ?I s0" using start_store_inv [OF assms(1,2)] by blast
  obtain s where 1: "st_execs E xs s0 = Some s" "st_inv E ?A s" using st_execs_rel [OF assms(1) 0(2) assms(3)] by blast
  have "\<exists>res s'. rv_Range E (\<lambda>_. False) key e ro s = Some (res, s') \<and> range_spec (a_rev ?A) (a_compact ?A) (a_at ?A) key e ro res" for key e ro
  proof -
    obtain tr s' where r: "st_Read ConcurrentReadTxMode s = (tr, s')" "st_inv E ?A s'" "tr_rev tr = a_rev ?A"
      "reader_ok E (a_rev ?A) (\<lambda>k. baseReadTx_UnsafeRange (env_bolt E) schema_Key k None 0 (tr_tx tr)) s'"
      using st_Read_rel [OF assms(1) 1(2)] by blast
    obtain res where "tr_Range E (\<lambda>_. False) key e ro tr s' = Some res" "range_spec (a_rev ?A) (a_compact ?A) (a_at ?A) key e ro res"
      using reader_answers [OF assms(1) r(2) r(2) past_kept_refl r(4), of "\<lambda>_. False" key e ro] r(3) by (auto simp: tr_Range_def)
    then show ?thesis using r(1) by (simp add: rv_Range_def)
  qed
  then show ?thesis using 0(1) 1(1) by (auto simp: Let_def)
qed

theorem store_reads_maps_witness:
  "\<exists>s0 s. start_store sample_env 100 sample_db ([7], \<lambda>_. 0) 10 = Some s0 \<and> st_execs sample_env (sample_txns @ sample_rest) s0 = Some s \<and>
    (let A = fold a_exec (sample_txns @ sample_rest) (a_init (le_Lookup (env_lessor sample_env) ([7], \<lambda>_. 0))) in
     \<forall>key e ro. \<exists>res s'. rv_Range sample_env (\<lambda>_. False) key e ro s = Some (res, s') \<and> range_spec (a_rev A) (a_compact A) (a_at A) key e ro res)"
  by (rule store_reads_maps [OF sample_env_ok sample_empty sample_fit])

text \<open>
  (C17) Snapshot isolation: a read transaction that was opened after the operations \<open>xs\<close> answers after further
  operations \<open>ys\<close> as it did when it was opened, unless the revision asked for has been compacted since.
\<close>

theorem snapshot_isolation:
  assumes "env_ok E" "empty_db E db" "ops_fit (xs @ ys) (a_init (le_Lookup (env_lessor E) le))"
  shows "\<exists>s0 s tr s1 s2. start_store E batchLimit db le limit = Some s0 \<and> st_execs E xs s0 = Some s \<and>
    st_Read ConcurrentReadTxMode s = (tr, s1) \<and> st_execs E ys s1 = Some s2 \<and>
    (let A = fold a_exec xs (a_init (le_Lookup (env_lessor E) le)); A' = fold a_exec ys A in
     \<forall>key e ro. \<exists>res. tr_Range E (\<lambda>_. False) key e ro tr s2 = Some res \<and> range_spec (a_rev A) (a_compact A') (a_at A) key e ro res)"
proof -
  let ?I = "a_init (le_Lookup (env_lessor E) le)"
  let ?A = "fold a_exec xs ?I" and ?A' = "fold a_exec ys (fold a_exec xs ?I)"
  obtain s0 where 0: "start_store E batchLimit db le limit = Some s0" "st_inv E ?I s0" using start_store_inv [OF assms(1,2)] by blast
  obtain s where 1: "st_execs E xs s0 = Some s" "st_inv E ?A s" using st_execs_rel [OF assms(1) 0(2)] assms(3) ops_fit_append by blast
  obtain tr s1 where r: "st_Read ConcurrentReadTxMode s = (tr, s1)" "st_inv E ?A s1" "tr_rev tr = a_rev ?A"
    "reader_ok E (a_rev ?A) (\<lambda>k. baseReadTx_UnsafeRange (env_bolt E) schema_Key k None 0 (tr_tx tr)) s1"
    using st_Read_rel [OF assms(1) 1(2)] by blast
  obtain s2 where 2: "st_execs E ys s1 = Some s2" "st_inv E ?A' s2" "past_kept E s1 s2"
    using st_execs_rel [OF assms(1) r(2)] assms(3) ops_fit_append by blast
  have "\<exists>res. tr_Range E (\<lambda>_. False) key e ro tr s2 = Some res \<and> range_spec (a_rev ?A) (a_compact ?A') (a_at ?A) key e ro res" for key e ro
    unfolding tr_Range_def r(3) by (rule reader_answers [OF assms(1) r(2) 2(2,3) r(4)]) (use a_execs_past in auto)
  then show ?thesis using 0(1) 1(1) r(1) 2(1) by (auto simp: Let_def)
qed

theorem snapshot_isolation_witness:
  "\<exists>s0 s tr s1 s2. start_store sample_env 100 sample_db ([7], \<lambda>_. 0) 10 = Some s0 \<and> st_execs sample_env sample_txns s0 = Some s \<and>
    st_Read ConcurrentReadTxMode s = (tr, s1) \<and> st_execs sample_env sample_rest s1 = Some s2 \<and>
    (let A = fold a_exec sample_txns (a_init (le_Lookup (env_lessor sample_env) ([7], \<lambda>_. 0))); A' = fold a_exec sample_rest A in
     \<forall>key e ro. \<exists>res. tr_Range sample_env (\<lambda>_. False) key e ro tr s2 = Some res \<and> range_spec (a_rev A) (a_compact A') (a_at A) key e ro res)"
  by (rule snapshot_isolation [OF sample_env_ok sample_empty sample_fit])

text \<open>
  (C18) A write transaction reads its own writes: after the steps \<open>ys\<close> of an open transaction its reads answer
  from the map these steps have made, at the next revision if there was a change.
\<close>

theorem transaction_reads_own_writes:
  assumes "env_ok E" "empty_db E db" "ops_fit (xs @ [Txn ys]) (a_init (le_Lookup (env_lessor E) le))"
  shows "\<exists>s0 s tw s1. start_store E batchLimit db le limit = Some s0 \<and> st_execs E xs s0 = Some s \<and> txn_steps E ys (st_Write s, s) = Some (tw, s1) \<and>
    (let A = fold a_exec xs (a_init (le_Lookup (env_lessor E) le)); (m, n) = fold (a_step (a_rev A + 1)) ys (a_at A (a_rev A), 0) in
     \<forall>key e ro. \<exists>res. tw_Range E (\<lambda>_. False) key e ro tw s1 = Some res \<and>
       range_spec (if n = 0 then a_rev A else a_rev A + 1) (a_compact A) ((a_at A)(a_rev A + 1 := m)) key e ro res)"
proof -
  let ?I = "a_init (le_Lookup (env_lessor E) le)"
  let ?A = "fold a_exec xs ?I"
  have fit: "ops_fit xs ?I" "steps_fit ?A ys (a_at ?A (a_rev ?A), 0)" using assms(3) by (simp_all add: ops_fit_append)
  obtain s0 where 0: "start_store E batchLimit db le limit = Some s0" "st_inv E ?I s0" using start_store_inv [OF assms(1,2)] by blast
  obtain s where 1: "st_execs E xs s0 = Some s" "st_inv E ?A s" using st_execs_rel [OF assms(1) 0(2) fit(1)] by blast
  have rel: "st_rel E ?A (a_at ?A (a_rev ?A)) 0 s" using 1(2) by (simp add: st_inv_def)
  then have "tw_beginRev (st_Write s) = a_rev ?A" "length (tw_changes (st_Write s)) = 0" by (auto simp: st_Write_def st_rel_def st_core_def)
  from txn_steps_rel [OF assms(1) rel this fit(2)] obtain tw s1 m n where 2: "txn_steps E ys (st_Write s, s) = Some (tw, s1)"
    "fold (a_step (a_rev ?A + 1)) ys (a_at ?A (a_rev ?A), 0) = (m, n)" "st_rel E ?A m n s1" "tw_beginRev tw = a_rev ?A" "length (tw_changes tw) = n" by blast
  show ?thesis using 0(1) 1(1) 2(1,2) tw_Range_rel [OF assms(1) 2(3-5)] by (auto simp: Let_def simp del: fun_upd_apply)
qed

theorem transaction_reads_own_writes_witness:
  "\<exists>s0 s tw s1. start_store sample_env 100 sample_db ([7], \<lambda>_. 0) 10 = Some s0 \<and> st_execs sample_env sample_txns s0 = Some s \<and>
    txn_steps sample_env [TPut (Some [98]) (Some [3]) 7] (st_Write s, s) = Some (tw, s1) \<and>
    (let A = fold a_exec sample_txns (a_init (le_Lookup (env_lessor sample_env) ([7], \<lambda>_. 0)));
       (m, n) = fold (a_step (a_rev A + 1)) [TPut (Some [98]) (Some [3]) 7] (a_at A (a_rev A), 0) in
     \<forall>key e ro. \<exists>res. tw_Range sample_env (\<lambda>_. False) key e ro tw s1 = Some res \<and>
       range_spec (if n = 0 then a_rev A else a_rev A + 1) (a_compact A) ((a_at A)(a_rev A + 1 := m)) key e ro res)"
proof (rule transaction_reads_own_writes [OF sample_env_ok sample_empty])
  show "ops_fit (sample_txns @ [Txn [TPut (Some [98]) (Some [3]) 7]]) (a_init (le_Lookup (env_lessor sample_env) ([7], \<lambda>_. 0)))"
    by (simp add: sample_txns_def a_init_def put_fits_def blen_def int64_ok_def sample_env_def table_lessor_def a_end_def a_put_def NoLease_def
        del: wire_lengths)
qed

end
