(* ===== verification/Spec2Isabelle.thy ===== *)
theory Spec2Isabelle
  imports Conf_Restore Elections Node_Loop Conf_Strings Tree_Index Store_Run
begin

text \<open>
  A verification library for the core of etcd (\<^verbatim>\<open>src/etcd-3.6.0-pre\<close>): the consensus package
  \<^verbatim>\<open>raft\<close>, and of the key-value server the multi-version store (\<^verbatim>\<open>server/storage/mvcc\<close>) and
  the backend under it (\<^verbatim>\<open>server/storage/backend\<close>). The other trees of the repository (the Go distribution, grpc-go, kratos)
  are separate programs and are not modelled.

  \<^bold>\<open>How the program works.\<close> A \<^verbatim>\<open>raft\<close> node (\<^verbatim>\<open>raft.go\<close>) is a state machine driven by messages and ticks.
  It keeps a log (\<^verbatim>\<open>log.go\<close>), whose tail is not yet persisted (\<^verbatim>\<open>log_unstable.go\<close>), over a \<^verbatim>\<open>Storage\<close>
  (\<^verbatim>\<open>storage.go\<close>); a tracker (\<^verbatim>\<open>tracker\<close>) with the configuration, the votes of an election and, as
  leader, the progress of every peer; and the read requests it has not yet confirmed
  (\<^verbatim>\<open>read_only.go\<close>). Quorums (\<^verbatim>\<open>quorum\<close>) decide elections and commits; configuration changes go through
  \<^verbatim>\<open>confchange\<close>. The application talks to the node through a \<^verbatim>\<open>RawNode\<close> (\<^verbatim>\<open>rawnode.go\<close>) or through the
  goroutine of \<^verbatim>\<open>node.go\<close>: it takes a \<^verbatim>\<open>Ready\<close>, writes its entries and hard state, sends its messages, and
  calls \<^verbatim>\<open>Advance\<close>. Messages travel in the encoding of \<^verbatim>\<open>raftpb\<close>. What is committed is applied to the
  store, which keeps every revision of every key: its index finds the revision of a key that is
  current at a given point of the history, and the backend holds the pair of that revision. The backend
  collects writes in a batch transaction of the database and lets readers see them through buffers.

  \<^bold>\<open>Conventions.\<close> A function of the source is a definition with its name, prefixed by its type where
  the bare name is taken (\<open>rl_append\<close>, \<open>ms_Append\<close>, \<open>ki_put\<close>). A \<^verbatim>\<open>struct\<close> is a record, an enumeration a
  datatype with a constructor for the values without a name, a \<^verbatim>\<open>uint64\<close> a 64-bit word that wraps, a
  map a \<open>mapping\<close>. A method takes the state and returns the new one. A panic is \<open>None\<close>, and statements
  that may panic are chained by \<open>do\<close>; a Go error is the left side of a sum. Loops are recursive
  functions with a termination proof; no definition uses fuel. Counters that would need \<open>2 ^ 63\<close> events
  to overflow (ticks, versions of a key) are unbounded. Theorems about indexes assume that they stay
  below \<open>2 ^ 63\<close>, and theorems about terms that they stay below the largest \<^verbatim>\<open>uint64\<close>, so that no
  arithmetic wraps. Iteration over a Go map is modelled in increasing order where \<open>Quorum\<close> and
  \<open>Tracker\<close> show that the order does not matter. Log output is left out, except that evaluating the
  arguments of a log call may panic.

  \<^bold>\<open>Parameters.\<close> Code outside the repository is an argument of the definitions that use it:
  \<^verbatim>\<open>proto.Equal\<close> is \<open>proto_Equal\<close> in \<open>applyConfChange\<close> and what calls it, and the package
  \<^verbatim>\<open>github.com/google/btree\<close> is the record \<open>B\<close> of \<open>Tree_Index\<close> with the hypothesis \<open>btree_laws\<close>; the database
  bbolt is the record \<open>Bo\<close> of \<open>Backend\<close> with \<open>bolt_laws\<close>, and \<^verbatim>\<open>sort.Sort\<close> is \<open>sort_Sort\<close> with \<open>sort_law\<close>. The
  commit hook of the backend and the lessor of the store are parameters of the same kind. The random
  election timeouts are a sequence of numbers in the state of a node.

  \<^bold>\<open>The theories.\<close>
  \<^item> \<open>Raft_Prelude\<close>: types, panics, words, sets and lists shared by all; \<open>Raft_Pb\<close>: the data of
    \<^verbatim>\<open>raftpb\<close> and the helpers of \<^verbatim>\<open>confchange.go\<close> and \<^verbatim>\<open>confstate.go\<close>.
  \<^item> \<open>Quorum\<close> (\<^verbatim>\<open>quorum/majority.go\<close>, \<^verbatim>\<open>joint.go\<close>): committed index and vote results, characterised by
    counting; the locale \<open>quorum_system\<close> gives the intersection properties for both kinds of quorums.
  \<^item> \<open>Inflights\<close>, \<open>Progress\<close>, \<open>Tracker\<close> (\<^verbatim>\<open>tracker\<close>): the ring buffer refines a bounded queue (locale
    \<open>flow_window\<close>), the progress states keep their invariant.
  \<^item> \<open>Conf_Change\<close>, \<open>Conf_Spec\<close>, \<open>Conf_Restore\<close> (\<^verbatim>\<open>confchange\<close>): the operations, their abstract counterpart on
    four sets of members, the overlap of successive quorums, the round trip of \<^verbatim>\<open>Restore\<close>.
  \<^item> \<open>Storage\<close> (\<^verbatim>\<open>storage.go\<close>), \<open>Raft_Log\<close>, \<open>Raft_Log_Spec\<close> (\<^verbatim>\<open>log.go\<close>, \<^verbatim>\<open>log_unstable.go\<close>): \<open>MemoryStorage\<close> keeps
    the contract of the locale \<open>log_store\<close>; the log is specified as a base and a list of consecutive
    entries (\<open>rl_abs\<close>), and every operation by what it does to them.
  \<^item> \<open>Read_Only\<close> (\<^verbatim>\<open>read_only.go\<close>), \<open>Raft_Core\<close>, \<open>Raft_Step\<close> (\<^verbatim>\<open>raft.go\<close>), \<open>Raw_Node\<close> (\<^verbatim>\<open>rawnode.go\<close>,
    \<^verbatim>\<open>bootstrap.go\<close>, \<^verbatim>\<open>status.go\<close>, \<^verbatim>\<open>Ready\<close>): the node.
  \<^item> \<open>Raft_Quiet\<close>, \<open>Raft_Safety\<close>, \<open>Raft_Log_Inv\<close>: what handling a message can do to term, vote, role and
    log. The locale \<open>frame\<close> proves once, for any relation that allows sending messages and moving the
    commit index, that the operations which do no more stay within it; it is interpreted for what
    elections depend on and for the log.
  \<^item> \<open>Cluster\<close>, \<open>Cluster_Run\<close>: nodes, each on its \<open>MemoryStorage\<close>, and an unreliable network as a step relation.
    A member takes a \<^verbatim>\<open>Ready\<close>, writes its hard state, snapshot and entries to the storage (\<open>save_ready\<close>), which
    releases its messages, and calls \<^verbatim>\<open>Advance\<close>; it may compact its storage, crash, and restart from it. Election
    safety for a fixed set of voters, and a run in which a leader is elected and persists its first entry.
    \<open>Node_Props\<close>: properties of a single node. \<open>Elections\<close>: how a candidate ends its election, on every outcome
    and without a panic. \<open>Node_Loop\<close>: the goroutine of \<^verbatim>\<open>node.go\<close> as a step relation over its variables.
  \<^item> \<open>Decode\<close>, \<open>Encode\<close>, \<open>Codec_Spec\<close>, \<open>Codec_Messages\<close> (\<^verbatim>\<open>raftpb/raft.pb.go\<close>): the generated decoders and
    encoders; the locale \<open>codec\<close> with one interpretation per message type gives the round trips.
    \<open>Conf_Strings\<close>: the string form of configuration changes. \<open>Kv_Pb\<close> (\<^verbatim>\<open>api/mvccpb/kv.pb.go\<close>): stored pairs and
    watch events, over the same codec with the unknown fields kept instead of dropped.
  \<^item> \<open>Mvcc_Revision\<close>, \<open>Key_Index\<close>, \<open>Tree_Index\<close> (\<^verbatim>\<open>server/storage/mvcc\<close>): revisions and their keys in the
    backend, the index of a key as a history of its changes, the index of all keys over the B-tree.
  \<^item> \<open>Tx_Buffer\<close>, \<open>Backend\<close> (\<^verbatim>\<open>server/storage/backend\<close>): the buffered transactions over the database. The
    invariant \<open>be_inv\<close> relates what readers find to the contents of the write transaction.
  \<^item> \<open>Mvcc_Store\<close> (\<^verbatim>\<open>kvstore.go\<close>, \<^verbatim>\<open>kvstore_txn.go\<close>, \<^verbatim>\<open>kvstore_compaction.go\<close>, \<^verbatim>\<open>kv_view.go\<close>): read and write
    transactions and compaction over index and backend. \<open>Store_Spec\<close>: the store as one map per revision, and
    the relation between these maps and the state; \<open>Store_Refine\<close>: every operation keeps it and leaves the
    past to its readers; \<open>Store_Run\<close>: runs and what reads answer after them.

  \<^bold>\<open>What is shown.\<close> No two members of a cluster with fixed voters lead in the same term, and a candidate
  with a majority of votes does lead; a leader only appends; what a
  node has committed stays; terms and votes are kept as promised; quorums of successive configurations
  overlap, and a won election meets every commit. Components refine their specifications: log, storage,
  window, configuration changes, key-value index, backend and store: every read of the store answers
  from the map of the revision it asks for, a read transaction keeps its snapshot, and compaction takes
  nothing that a permitted read needs. The encodings round-trip. \<^verbatim>\<open>Ready\<close> and \<^verbatim>\<open>Advance\<close>
  alternate. The errors and panics of the operations are part of these statements.

  \<^bold>\<open>Not modelled.\<close> Loggers, metrics, printers and the reflection methods of the generated code only
  produce output; the drivers under \<^verbatim>\<open>raft/rafttest\<close> are tests. Of the store, loading the index
  from the backend after a restart, the hashes of the contents and the watchers are left out, and of the
  server everything around the store (leases, write-ahead log, authentication, RPC).
  Cluster-wide agreement of the logs is not stated. In the cluster a \<^verbatim>\<open>Ready\<close> is written to the storage in one
  step, so that a crash loses all of it or nothing, and changes of the voters are left out.
\<close>

end
